(* ===== verification/Coh_Prelude.thy ===== *)
theory Coh_Prelude
  imports Main "HOL-Library.Word"
begin

text \<open>
  Shared vocabulary of the development: the machine integers of
  \<^verbatim>\<open>coherence/lang/compatibility.hpp\<close>, the exceptions the modelled code throws, and
  the state-and-exception computations in which every stateful operation is written.
\<close>

unbundle bit_operations_syntax

section \<open>Machine integers\<close>

text \<open>
  The fixed-width integers of the code are words of the same width.  An unsigned and a
  signed integer of one width are the same word: the code's signed comparisons are written
  \<open><s\<close> and \<open>\<le>s\<close> (or through \<^const>\<open>sint\<close>), its unsigned ones through
  \<^const>\<open>unat\<close>.  Sizes and offsets (\<open>size32_t\<close>) are natural numbers with the
  32-bit wrap-around written out by \<open>size_add\<close> and \<open>size_sub\<close>.
\<close>

type_synonym octet_t = "8 word"
type_synonym wchar16_t = "16 word"
type_synonym int16_t = "16 word"
type_synonym int32_t = "32 word"
type_synonym int64_t = "64 word"
type_synonym float32_bits = "32 word"
type_synonym float64_bits = "64 word"

definition size_max :: nat where
  "size_max = 2 ^ 32"

definition size_add :: "nat \<Rightarrow> nat \<Rightarrow> nat" where
  "size_add a b = (a + b) mod size_max"

definition size_sub :: "nat \<Rightarrow> nat \<Rightarrow> nat" where
  "size_sub a b = (a + size_max - b) mod size_max"

text \<open>\<open>npos\<close> is the largest \<open>size32_t\<close>, which stands for "all the rest".\<close>

definition npos :: nat where
  "npos = size_max - 1"

lemma size_add_small [simp]: "a + b < size_max \<Longrightarrow> size_add a b = a + b"
  by (simp add: size_add_def)

lemma size_sub_small [simp]:
  assumes "b \<le> a" and "a < size_max"
  shows "size_sub a b = a - b"
proof -
  from assms have "a + size_max - b = (a - b) + size_max" and "a - b < size_max"
    by simp_all
  then show ?thesis by (simp only: size_sub_def mod_add_self2 mod_less)
qed

lemma size_add_less [simp]: "size_add a b < size_max"
  by (simp add: size_add_def size_max_def)

section \<open>Exceptions\<close>

text \<open>
  The exception classes the modelled code throws.  \<open>UndefinedBehaviour\<close> is not an
  exception of the code: it is the result of a branch in which the C++ program has no
  defined behaviour (a shift by at least the width of the promoted operand, a read outside
  an array).  \<open>StackOverflow\<close> is the exhausted recursion depth of a recursive descent.
\<close>

datatype exn =
    EOFException
  | UTFDataFormatException
  | IndexOutOfBoundsException
  | IOException
  | IllegalStateException
  | IllegalArgumentException
  | NoSuchElementException
  | UnsupportedOperationException
  | ClassCastException
  | ConstCastException
  | NullPointerException
  | UndefinedBehaviour
  | StackOverflow

section \<open>State-and-exception computations\<close>

text \<open>
  An operation of a stateful object maps the state to a result (\<^const>\<open>Inl\<close> an
  exception, \<^const>\<open>Inr\<close> the returned value) and the state it leaves behind, which
  exists on both outcomes: a C++ method that throws keeps the updates made before it.
\<close>

type_synonym ('s, 'a) comp = "'s \<Rightarrow> (exn + 'a) \<times> 's"

definition ret :: "'a \<Rightarrow> ('s, 'a) comp" where
  "ret a s = (Inr a, s)"

definition throw :: "exn \<Rightarrow> ('s, 'a) comp" where
  "throw e s = (Inl e, s)"

definition bindc :: "('s, 'a) comp \<Rightarrow> ('a \<Rightarrow> ('s, 'b) comp) \<Rightarrow> ('s, 'b) comp" where
  "bindc m f s = (case m s of (Inl e, t) \<Rightarrow> (Inl e, t) | (Inr a, t) \<Rightarrow> f a t)"

definition seqc :: "('s, unit) comp \<Rightarrow> ('s, 'b) comp \<Rightarrow> ('s, 'b) comp" where
  "seqc m n = bindc m (\<lambda>_. n)"

definition ensure :: "bool \<Rightarrow> ('s, unit) comp" where
  "ensure b = (if b then ret () else throw IllegalStateException)"

definition mapc :: "('a \<Rightarrow> 'b) \<Rightarrow> ('s, 'a) comp \<Rightarrow> ('s, 'b) comp" where
  "mapc f m = bindc m (\<lambda>a. ret (f a))"

text \<open>A counted \<open>for\<close> loop whose body returns a value per iteration.\<close>

fun replicatec :: "nat \<Rightarrow> ('s, 'a) comp \<Rightarrow> ('s, 'a list) comp" where
  "replicatec 0 m = ret []"
| "replicatec (Suc n) m = bindc m (\<lambda>a. bindc (replicatec n m) (\<lambda>as. ret (a # as)))"

text \<open>A \<open>for\<close> loop over the elements of a sequence.\<close>

fun for_each :: "('a \<Rightarrow> ('s, unit) comp) \<Rightarrow> 'a list \<Rightarrow> ('s, unit) comp" where
  "for_each f [] = ret ()"
| "for_each f (x # xs) = seqc (f x) (for_each f xs)"

named_theorems comp_defs \<open>unfolding of computations\<close>

declare ret_def [comp_defs] throw_def [comp_defs] bindc_def [comp_defs]
  seqc_def [comp_defs] ensure_def [comp_defs] mapc_def [comp_defs]

lemma ret_iff [simp]: "ret a s = (r, t) \<longleftrightarrow> r = Inr a \<and> t = s"
  by (auto simp: ret_def)

lemma throw_iff [simp]: "throw e s = (r, t) \<longleftrightarrow> r = Inl e \<and> t = s"
  by (auto simp: throw_def)

lemma bindc_ret [simp]: "bindc (ret a) f = f a"
  by (rule ext) (simp add: bindc_def ret_def)

lemma bindc_throw [simp]: "bindc (throw e) f = throw e"
  by (rule ext) (simp add: bindc_def throw_def)

lemma seqc_ret [simp]: "seqc (ret ()) m = m"
  by (simp add: seqc_def)

lemma seqc_throw [simp]: "seqc (throw e) m = throw e"
  by (simp add: seqc_def)

lemma bindc_assoc: "bindc (bindc m f) g = bindc m (\<lambda>a. bindc (f a) g)"
  by (rule ext) (auto simp: bindc_def split: prod.splits sum.splits)

lemma ensure_True [simp]: "ensure True = ret ()"
  by (simp add: ensure_def)

lemma ensure_False [simp]: "ensure False = throw IllegalStateException"
  by (simp add: ensure_def)

lemma bindc_Inr: "m s = (Inr a, t) \<Longrightarrow> bindc m f s = f a t"
  by (simp add: bindc_def)

lemma bindc_Inl: "m s = (Inl e, t) \<Longrightarrow> bindc m f s = (Inl e, t)"
  by (simp add: bindc_def)

lemma seqc_Inr: "m s = (Inr (), t) \<Longrightarrow> seqc m n s = n t"
  by (simp add: seqc_def bindc_def)

lemma bindc_Inr_iff:
  "bindc m f s = (Inr b, u) \<longleftrightarrow> (\<exists>a t. m s = (Inr a, t) \<and> f a t = (Inr b, u))"
  by (auto simp: bindc_def split: prod.splits sum.splits)

section \<open>Parsers and the octets they consume\<close>

text \<open>
  \<open>parses good rem m bs v\<close> states that in every state that satisfies \<open>good\<close> and whose
  unread octets \<open>rem\<close> begin with \<open>bs\<close>, the computation \<open>m\<close> returns \<open>v\<close>, consumes
  exactly \<open>bs\<close> and keeps \<open>good\<close>.  A round trip is such a statement for the octets a
  writer produced, and the rules compose the round trips of the parts.
\<close>

definition parses ::
  "('s \<Rightarrow> bool) \<Rightarrow> ('s \<Rightarrow> octet_t list) \<Rightarrow> ('s, 'a) comp \<Rightarrow> octet_t list \<Rightarrow> 'a \<Rightarrow> bool" where
  "parses good rem m bs v \<longleftrightarrow>
     (\<forall>s rest. good s \<and> rem s = bs @ rest \<longrightarrow>
        (\<exists>t. m s = (Inr v, t) \<and> good t \<and> rem t = rest))"

lemma parsesI:
  assumes "\<And>s rest. good s \<Longrightarrow> rem s = bs @ rest \<Longrightarrow>
    \<exists>t. m s = (Inr v, t) \<and> good t \<and> rem t = rest"
  shows "parses good rem m bs v"
  using assms by (simp add: parses_def)

lemma parsesE:
  assumes "parses good rem m bs v" and "good s" and "rem s = bs @ rest"
  obtains t where "m s = (Inr v, t)" and "good t" and "rem t = rest"
  using assms by (auto simp: parses_def)

lemma parses_ret [intro]: "parses good rem (ret v) [] v"
  by (rule parsesI) auto

lemma parses_bindc:
  assumes m: "parses good rem m bs a" and f: "parses good rem (f a) cs v"
  shows "parses good rem (bindc m f) (bs @ cs) v"
proof (rule parsesI)
  fix s rest
  assume "good s" and "rem s = (bs @ cs) @ rest"
  then have "rem s = bs @ (cs @ rest)" by simp
  with m \<open>good s\<close> obtain t where t: "m s = (Inr a, t)" "good t" "rem t = cs @ rest"
    by (rule parsesE)
  from f t(2,3) obtain u where "f a t = (Inr v, u)" "good u" "rem u = rest"
    by (rule parsesE)
  with t(1) show "\<exists>t. bindc m f s = (Inr v, t) \<and> good t \<and> rem t = rest"
    by (simp add: bindc_Inr)
qed

lemma parses_bindc_ret:
  "parses good rem m bs a \<Longrightarrow> parses good rem (f a) [] v \<Longrightarrow> parses good rem (bindc m f) bs v"
  using parses_bindc [of good rem m bs a f "[]" v] by simp

lemma parses_mapc: "parses good rem m bs a \<Longrightarrow> v = f a \<Longrightarrow> parses good rem (mapc f m) bs v"
  by (auto simp: mapc_def intro: parses_bindc_ret)

lemma parses_seqc:
  "parses good rem m bs () \<Longrightarrow> parses good rem n cs v \<Longrightarrow> parses good rem (seqc m n) (bs @ cs) v"
  by (simp add: seqc_def parses_bindc)

lemma parses_replicatec:
  assumes "list_all2 (parses good rem m) bss vs" and "n = length vs"
  shows "parses good rem (replicatec n m) (concat bss) vs"
  using assms
proof (induction bss vs arbitrary: n rule: list_all2_induct)
  case Nil
  then show ?case by auto
next
  case (Cons b bss v vs)
  then have "parses good rem (bindc (replicatec (length vs) m) (\<lambda>as. ret (v # as))) (concat bss) (v # vs)"
    by (auto intro!: parses_bindc_ret)
  with Cons show ?case by (auto intro!: parses_bindc)
qed

end
