(* ===== verification/Packed_Int.thy ===== *)
theory Packed_Int
  imports Coh_Prelude
begin

text \<open>
  The packed integers of \<^verbatim>\<open>coherence/io\<close>: the first octet holds a continuation bit, a
  sign bit and six data bits, every further octet a continuation bit and seven data bits;
  a negative value is stored as its complement.  The writing loop is shared by
  \<^verbatim>\<open>writeInt16\<close>, \<^verbatim>\<open>writeInt32\<close> and \<^verbatim>\<open>writeInt64\<close> of
  \<^verbatim>\<open>AbstractWriteBuffer.cpp\<close> and \<^verbatim>\<open>OctetArrayWriteBuffer.cpp\<close>, the reading loop by the
  methods of the same names of \<^verbatim>\<open>AbstractReadBuffer.cpp\<close>; the width is the width of the
  word.
\<close>

section \<open>Writing\<close>

function pack_loop :: "octet_t \<Rightarrow> 'w::len word \<Rightarrow> octet_t list" where
  "pack_loop b un =
     (if un = 0 then [b]
      else (b OR 0x80) # pack_loop (ucast (un AND 0x7F)) (drop_bit 7 un))"
  by pat_completeness auto
termination
proof (relation "measure (\<lambda>(b, un). unat un)")
  fix b :: octet_t and un :: "'w::len word"
  assume "un \<noteq> 0"
  then have "0 < unat un" by (simp add: unat_gt_0)
  moreover have "unat (drop_bit 7 un) = unat un div 2 ^ 7"
    by (simp only: unat_drop_bit_eq) (simp only: drop_bit_eq_div)
  ultimately show "((ucast (un AND 0x7F), drop_bit 7 un), (b, un)) \<in> measure (\<lambda>(b, un). unat un)"
    by simp
qed simp

declare pack_loop.simps [simp del]

lemma pack_loop_0 [simp]: "pack_loop b 0 = [b]"
  by (simp add: pack_loop.simps)

lemma pack_loop_nonzero:
  "un \<noteq> 0 \<Longrightarrow>
   pack_loop b un = (b OR 0x80) # pack_loop (ucast (un AND 0x7F)) (drop_bit 7 un)"
  by (simp add: pack_loop.simps [of b un])

lemma pack_loop_not_Nil [simp]: "pack_loop b un \<noteq> []"
  by (cases "un = 0") (simp_all add: pack_loop_nonzero)

lemma hd_pack_loop: "hd (pack_loop b un) = (if un = 0 then b else b OR 0x80)"
  by (cases "un = 0") (simp_all add: pack_loop_nonzero)

definition pack_int :: "'w::len word \<Rightarrow> octet_t list" where
  "pack_int n =
     (let fNeg = n <s 0;
          un = (if fNeg then NOT n else n);
          b = (if fNeg then 0x40 else 0) OR (ucast un AND 0x3F)
      in pack_loop b (drop_bit 6 un))"

section \<open>Reading\<close>

text \<open>
  The loop of the reading methods.  \<open>lim\<close> is the width of the promoted operand of the
  shift \<open>(b & 0x7F) << cBits\<close>: 32 for \<^verbatim>\<open>readInt16\<close> and \<^verbatim>\<open>readInt32\<close>, 64 for
  \<^verbatim>\<open>readInt64\<close>; a shift by that many bits or more is undefined, so a malformed
  (over-long) sequence has no defined result.
\<close>

function unpack_loop ::
  "('s, octet_t) comp \<Rightarrow> nat \<Rightarrow> octet_t \<Rightarrow> 'w::len word \<Rightarrow> nat \<Rightarrow> ('s, 'w word) comp" where
  "unpack_loop rd lim b n cBits =
     (if b AND 0x80 = 0 then ret n
      else bindc rd (\<lambda>b'.
        if lim \<le> cBits then throw UndefinedBehaviour
        else unpack_loop rd lim b' (n OR push_bit cBits (ucast (b' AND 0x7F))) (cBits + 7)))"
  by pat_completeness auto
termination
  by (relation "measure (\<lambda>(rd, lim, b, n, cBits). lim - cBits)") auto

declare unpack_loop.simps [simp del]

definition unpack_int :: "('s, octet_t) comp \<Rightarrow> nat \<Rightarrow> ('s, 'w::len word) comp" where
  "unpack_int rd lim =
     bindc rd (\<lambda>b.
       bindc (unpack_loop rd lim b (ucast (b AND 0x3F)) 6) (\<lambda>n.
         ret (if b AND 0x40 \<noteq> 0 then NOT n else n)))"

section \<open>Bit facts\<close>

lemma bit_int_masks:
  "bit (0x80::int) n \<longleftrightarrow> n = 7" "bit (0x40::int) n \<longleftrightarrow> n = 6"
  "bit (0x7F::int) n \<longleftrightarrow> n < 7" "bit (0x3F::int) n \<longleftrightarrow> n < 6"
proof -
  have "(0x80::int) = push_bit 7 1" "(0x40::int) = push_bit 6 1"
    "(0x7F::int) = mask 7" "(0x3F::int) = mask 6"
    by (simp_all add: mask_eq_exp_minus_1)
  then show "bit (0x80::int) n \<longleftrightarrow> n = 7" "bit (0x40::int) n \<longleftrightarrow> n = 6"
    "bit (0x7F::int) n \<longleftrightarrow> n < 7" "bit (0x3F::int) n \<longleftrightarrow> n < 6"
    by (simp_all only: bit_mask_iff bit_push_bit_iff bit_1_iff possible_bit_def) auto
qed

lemmas packed_bits = bit_int_masks
  bit_and_iff bit_or_iff bit_not_iff bit_push_bit_iff bit_drop_bit_eq bit_unsigned_iff
  possible_bit_word

lemma bit7_or_80 [simp]: "bit ((b::octet_t) OR 0x80) 7"
  by (simp add: packed_bits)

lemma octet_high_clear: "(b::octet_t) AND 0x80 = 0 \<longleftrightarrow> \<not> bit b 7"
proof -
  have "b AND 0x80 = 0 \<longleftrightarrow> (\<forall>n<8. \<not> bit (b AND 0x80) n)"
    by (simp add: bit_eq_iff [where 'a = "8 word"])
  then show ?thesis by (auto simp: packed_bits dest: spec [of _ 7])
qed

lemma octet_sign: "(b::octet_t) AND 0x40 = 0 \<longleftrightarrow> \<not> bit b 6"
proof -
  have "b AND 0x40 = 0 \<longleftrightarrow> (\<forall>n<8. \<not> bit (b AND 0x40) n)"
    by (simp add: bit_eq_iff [where 'a = "8 word"])
  then show ?thesis by (auto simp: packed_bits dest: spec [of _ 6])
qed

lemma low7_of_octet:
  "ucast ((ucast ((un::'w::len word) AND 0x7F) OR 0x80 :: octet_t) AND 0x7F) = un AND 0x7F"
  "ucast ((ucast ((un::'w::len word) AND 0x7F) :: octet_t) AND 0x7F) = un AND 0x7F"
  by (rule bit_eqI, auto simp: packed_bits)+

lemma bit7_low7 [simp]: "\<not> bit (ucast ((un::'w::len word) AND 0x7F) :: octet_t) 7"
  by (simp add: packed_bits)

lemma split_low6: "((un::'w::len word) AND 0x3F) OR push_bit 6 (drop_bit 6 un) = un"
proof (rule bit_eqI)
  fix n
  assume "possible_bit TYPE('w word) n"
  then show "bit ((un AND 0x3F) OR push_bit 6 (drop_bit 6 un)) n = bit un n"
    by (cases "n < 6") (auto simp: packed_bits)
qed

lemma split_low7: "push_bit c ((un::'w::len word) AND 0x7F) OR push_bit (c + 7) (drop_bit 7 un) = push_bit c un"
proof (rule bit_eqI)
  fix n
  assume "possible_bit TYPE('w word) n"
  then show "bit (push_bit c (un AND 0x7F) OR push_bit (c + 7) (drop_bit 7 un)) n = bit (push_bit c un) n"
    by (cases "n < c + 7") (auto simp: packed_bits)
qed

section \<open>Round trip\<close>

text \<open>
  A source of octets: what every \<^verbatim>\<open>BufferInput\<close> promises of its \<^verbatim>\<open>read()\<close>.
  \<open>good\<close> is its invariant and \<open>rem\<close> the octets not read yet.
\<close>

locale octet_source =
  fixes rd :: "('s, octet_t) comp"
    and rem :: "'s \<Rightarrow> octet_t list"
    and good :: "'s \<Rightarrow> bool"
  assumes rd_Cons: "good s \<Longrightarrow> rem s = b # bs \<Longrightarrow> \<exists>t. rd s = (Inr b, t) \<and> good t \<and> rem t = bs"
    and rd_Nil: "good s \<Longrightarrow> rem s = [] \<Longrightarrow> rd s = (Inl EOFException, s)"
begin

lemma parses_rd: "parses good rem rd [b] b"
  using rd_Cons by (auto intro!: parsesI)

lemma parses_rd_bindc:
  "parses good rem (f b) bs v \<Longrightarrow> parses good rem (bindc rd f) (b # bs) v"
  using parses_bindc [OF parses_rd] by fastforce

lemma parses_rd_bindc_hd:
  "bs \<noteq> [] \<Longrightarrow> parses good rem (f (hd bs)) (tl bs) v \<Longrightarrow> parses good rem (bindc rd f) bs v"
  using parses_rd_bindc [of f "hd bs" "tl bs" v] by simp

lemma parses_unpack_loop:
  assumes "\<And>i. bit un i \<Longrightarrow> c + i < LENGTH('w)" and "LENGTH('w) \<le> lim" and "\<not> bit b 7"
  shows "parses good rem (unpack_loop rd lim (hd (pack_loop b un)) n c)
           (tl (pack_loop b (un :: 'w::len word))) (n OR push_bit c un)"
  using assms
proof (induction b un arbitrary: n c rule: pack_loop.induct)
  case (1 b un)
  show ?case
  proof (cases "un = 0")
    case True
    with "1.prems"(3) show ?thesis
      by (simp add: unpack_loop.simps [of rd lim b] octet_high_clear parses_ret)
  next
    case False
    let ?b1 = "ucast (un AND 0x7F) :: octet_t" and ?un = "drop_bit 7 un"
    let ?bs = "pack_loop ?b1 ?un" and ?n = "n OR push_bit c (un AND 0x7F)"
    from False obtain i where "bit un i" by (auto simp: bit_eq_iff [of un])
    with "1.prems"(1) [of i] "1.prems"(2) have lim: "\<not> lim \<le> c" by simp
    have low: "ucast (hd ?bs AND 0x7F) = un AND 0x7F"
      by (simp add: hd_pack_loop low7_of_octet)
    have "c + 7 + i < LENGTH('w)" if "bit ?un i" for i
      using that "1.prems"(1) [of "7 + i"] by (simp add: bit_drop_bit_eq)
    with "1.IH" [OF False, of "c + 7" ?n] "1.prems"(2)
    have "parses good rem (unpack_loop rd lim (hd ?bs) ?n (c + 7)) (tl ?bs) (n OR push_bit c un)"
      by (simp add: or.assoc split_low7 del: push_bit_and)
    then have "parses good rem (unpack_loop rd lim (b OR 0x80) n c) ?bs (n OR push_bit c un)"
      by (subst unpack_loop.simps)
        (auto simp: octet_high_clear lim low simp del: push_bit_and intro: parses_rd_bindc_hd)
    with False show ?thesis by (simp add: pack_loop_nonzero)
  qed
qed

text \<open>The round trip of a packed integer of any width, followed by any further octets.\<close>

lemma parses_unpack_int:
  assumes "6 < LENGTH('w)" and "LENGTH('w) \<le> lim"
  shows "parses good rem (unpack_int rd lim) (pack_int n) (n :: 'w::len word)"
proof -
  define neg where "neg = (n <s 0)"
  define un where "un = (if neg then NOT n else n)"
  define b :: octet_t where "b = (if neg then 0x40 else 0) OR (ucast un AND 0x3F)"
  let ?bs = "pack_loop b (drop_bit 6 un)"
  have pack: "pack_int n = ?bs"
    by (simp add: pack_int_def Let_def neg_def un_def b_def)
  have b7: "\<not> bit b 7" and b6: "bit b 6 = neg"
    by (simp_all add: b_def packed_bits)
  have low: "ucast (hd ?bs AND 0x3F) = un AND 0x3F"
    by (rule bit_eqI) (auto simp: hd_pack_loop b_def packed_bits)
  have sign: "hd ?bs AND 0x40 \<noteq> 0 \<longleftrightarrow> neg"
    using b6 by (simp add: octet_sign hd_pack_loop packed_bits)
  have un: "(un AND 0x3F) OR push_bit 6 (drop_bit 6 un) = un"
    using split_low6 [of un] by simp
  have "6 + i < LENGTH('w)" if "bit (drop_bit 6 un) i" for i
    using that by (simp add: bit_drop_bit_eq bit_imp_le_length)
  from parses_unpack_loop [of "drop_bit 6 un" 6 lim b "un AND 0x3F", OF this assms(2) b7]
  have "parses good rem (unpack_loop rd lim (hd ?bs) (un AND 0x3F) 6) (tl ?bs) un"
    by (simp add: un)
  then have "parses good rem (bindc (unpack_loop rd lim (hd ?bs) (un AND 0x3F) 6)
      (\<lambda>n. ret (if neg then NOT n else n))) (tl ?bs) (if neg then NOT un else un)"
    by (rule parses_bindc_ret) (rule parses_ret)
  then have "parses good rem (unpack_int rd lim) ?bs (if neg then NOT un else un)"
    unfolding unpack_int_def
    by (intro parses_rd_bindc_hd) (simp_all add: low sign)
  moreover have "(if neg then NOT un else un) = n" by (simp add: un_def)
  ultimately show ?thesis by (simp only: pack)
qed

end

section \<open>Encoded length\<close>

text \<open>
  The bounds \<^verbatim>\<open>checkBounds(ofb, 3)\<close>, \<^verbatim>\<open>checkBounds(ofb, 5)\<close> and
  \<^verbatim>\<open>checkBounds(ofb, 10)\<close> of \<^verbatim>\<open>OctetArrayBufferOutput\<close> are the lengths of the longest
  encodings.
\<close>

lemma length_pack_loop:
  assumes "\<And>i. bit un i \<Longrightarrow> i < 7 * k"
  shows "length (pack_loop b un) \<le> Suc k"
  using assms
proof (induction b un arbitrary: k rule: pack_loop.induct)
  case (1 b un)
  show ?case
  proof (cases "un = 0")
    case False
    then obtain i where "bit un i" by (auto simp: bit_eq_iff [of un])
    with "1.prems" [of i] obtain j where k: "k = Suc j" by (cases k) auto
    have "i < 7 * j" if "bit (drop_bit 7 un) i" for i
      using that "1.prems" [of "7 + i"] k by (simp add: bit_drop_bit_eq)
    with "1.IH" [OF False, of j] show ?thesis by (simp add: pack_loop_nonzero False k)
  qed simp
qed

lemma length_pack_int:
  assumes "LENGTH('w) \<le> 7 * k + 6"
  shows "length (pack_int (n :: 'w::len word)) \<le> Suc k"
proof -
  have "i < 7 * k" if "bit (drop_bit 6 m) i" for m :: "'w word" and i
    using bit_imp_le_length [of m "6 + i"] that assms by (simp add: bit_drop_bit_eq)
  then show ?thesis unfolding pack_int_def Let_def by (rule length_pack_loop)
qed

lemma length_pack_int16: "length (pack_int (n :: int16_t)) \<le> 3"
  using length_pack_int [of 2 n] by simp

lemma length_pack_int32: "length (pack_int (n :: int32_t)) \<le> 5"
  using length_pack_int [of 4 n] by simp

lemma length_pack_int64: "length (pack_int (n :: int64_t)) \<le> 10"
  using length_pack_int [of 9 n] by simp

lemma pack_int_not_Nil [simp]: "pack_int n \<noteq> []"
  by (simp add: pack_int_def Let_def)

end
