(* ===== verification/Utf8.thy ===== *)
theory Utf8
  imports Packed_Int
begin

text \<open>
  Characters and strings.  \<open>encode_char16\<close> is the modified UTF-8 encoding of one BMP
  character written by \<^verbatim>\<open>writeChar16\<close> of both buffer outputs; \<open>utf8_validate\<close> is
  \<^verbatim>\<open>validateUTF8String\<close> of \<^verbatim>\<open>coherence/lang/String.cpp\<close>, which every
  \<^verbatim>\<open>String::create\<close> over octets runs.  A \<^verbatim>\<open>String\<close> is the list of its UTF-8 octets
  without the terminating NUL.
\<close>

type_synonym cstring = "octet_t list"

section \<open>Encoding a character\<close>

definition encode_char16 :: "wchar16_t \<Rightarrow> octet_t list" where
  "encode_char16 ch =
     (if ch \<le> 0x007F then [ucast ch]
      else if ch \<le> 0x07FF then
        [0xC0 OR (ucast (drop_bit 6 ch) AND 0x1F),
         0x80 OR (ucast ch AND 0x3F)]
      else
        [0xE0 OR (ucast (drop_bit 12 ch) AND 0x0F),
         0x80 OR (ucast (drop_bit 6 ch) AND 0x3F),
         0x80 OR (ucast ch AND 0x3F)])"

definition is_cont :: "octet_t \<Rightarrow> bool" where
  "is_cont b \<longleftrightarrow> b AND 0xC0 = 0x80"

text \<open>The two- and three-octet forms as the reading methods put them together.\<close>

definition decode2 :: "octet_t \<Rightarrow> octet_t \<Rightarrow> wchar16_t" where
  "decode2 b b2 = push_bit 6 (ucast b AND 0x1F) OR (ucast b2 AND 0x3F)"

definition decode3 :: "octet_t \<Rightarrow> octet_t \<Rightarrow> octet_t \<Rightarrow> wchar16_t" where
  "decode3 b b2 b3 =
     push_bit 12 (ucast b AND 0x0F) OR push_bit 6 (ucast b2 AND 0x3F) OR (ucast b3 AND 0x3F)"

section \<open>Validating a string\<close>

text \<open>
  One iteration of the scan, from the index of a lead octet to the index after the
  character.  \<open>utf8_cont\<close> is the check of a continuation octet that another one follows
  (the \<^verbatim>\<open>0xF0\<close> and \<^verbatim>\<open>0xE0\<close> cases, which fall through), \<open>utf8_last\<close> that of the last
  continuation octet (the \<^verbatim>\<open>0xD0\<close>/\<^verbatim>\<open>0xC0\<close> case).
\<close>

definition utf8_cont :: "octet_t list \<Rightarrow> nat \<Rightarrow> exn + nat" where
  "utf8_cont a cb =
     (let cb = cb + 1 in
      if length a \<le> cb + 1 then Inl IllegalArgumentException
      else if \<not> is_cont (a ! cb) then Inl IllegalArgumentException
      else Inr cb)"

definition utf8_last :: "octet_t list \<Rightarrow> nat \<Rightarrow> exn + nat" where
  "utf8_last a cb =
     (let cb = cb + 1 in
      if length a \<le> cb then Inl IllegalArgumentException
      else if \<not> is_cont (a ! cb) then Inl IllegalArgumentException
      else Inr cb)"

definition case_exn :: "exn + 'a \<Rightarrow> ('a \<Rightarrow> exn + 'b) \<Rightarrow> exn + 'b" where
  "case_exn m f = (case m of Inl e \<Rightarrow> Inl e | Inr a \<Rightarrow> f a)"

definition utf8_step :: "octet_t list \<Rightarrow> nat \<Rightarrow> exn + nat" where
  "utf8_step a cb =
     (let h = a ! cb AND 0xF0 in
      if h = 0xF0 then
        case_exn (utf8_cont a cb) (\<lambda>cb. case_exn (utf8_cont a cb) (\<lambda>cb.
          case_exn (utf8_last a cb) (\<lambda>cb. Inr (cb + 1))))
      else if h = 0xE0 then
        case_exn (utf8_cont a cb) (\<lambda>cb. case_exn (utf8_last a cb) (\<lambda>cb. Inr (cb + 1)))
      else if h = 0xD0 \<or> h = 0xC0 then
        case_exn (utf8_last a cb) (\<lambda>cb. Inr (cb + 1))
      else if h \<in> {0x70, 0x60, 0x50, 0x40, 0x30, 0x20, 0x10, 0x00} then Inr (cb + 1)
      else Inl IllegalArgumentException)"

lemma utf8_cont_Inr: "utf8_cont a cb = Inr c \<Longrightarrow> c = cb + 1"
  by (auto simp: utf8_cont_def Let_def split: if_splits)

lemma utf8_last_Inr: "utf8_last a cb = Inr c \<Longrightarrow> c = cb + 1"
  by (auto simp: utf8_last_def Let_def split: if_splits)

lemma case_exn_Inr: "case_exn m f = Inr b \<longleftrightarrow> (\<exists>a. m = Inr a \<and> f a = Inr b)"
  by (cases m) (auto simp: case_exn_def)

lemma utf8_step_greater: "utf8_step a cb = Inr c \<Longrightarrow> cb < c"
  by (auto simp: utf8_step_def Let_def case_exn_Inr
      dest!: utf8_cont_Inr utf8_last_Inr split: if_splits)

text \<open>
  The scan: the octets consumed and the number of code points, or the exception.
\<close>

function utf8_scan :: "octet_t list \<Rightarrow> nat \<Rightarrow> nat \<Rightarrow> exn + nat \<times> nat" where
  "utf8_scan a cb ccp =
     (if cb < length a
      then case utf8_step a cb of Inl e \<Rightarrow> Inl e | Inr cb' \<Rightarrow> utf8_scan a cb' (ccp + 1)
      else Inr (cb, ccp))"
  by pat_completeness auto
termination
  by (relation "measure (\<lambda>(a, cb, ccp). length a - cb)")
    (auto dest!: utf8_step_greater)

declare utf8_scan.simps [simp del]

definition utf8_validate :: "octet_t list \<Rightarrow> exn + nat" where
  "utf8_validate a = (case utf8_scan a 0 0 of Inl e \<Rightarrow> Inl e | Inr (cb, ccp) \<Rightarrow> Inr ccp)"

text \<open>
  \<^verbatim>\<open>String::length\<close> is the number of characters; \<open>string_length\<close> counts the code points
  the validation counted.
\<close>

definition string_length :: "cstring \<Rightarrow> nat" where
  "string_length vs = (case utf8_validate vs of Inr ccp \<Rightarrow> ccp | Inl _ \<Rightarrow> 0)"

text \<open>A range whose end wraps around passes the check and is read past the array.\<close>

definition validate_managed_utf8 :: "octet_t list \<Rightarrow> nat \<Rightarrow> nat \<Rightarrow> exn + cstring" where
  "validate_managed_utf8 va off c =
     (let ce = length va in
      if ce \<le> off then Inl IndexOutOfBoundsException
      else if c \<noteq> npos \<and> ce < size_add off c then Inl IndexOutOfBoundsException
      else if c \<noteq> npos \<and> ce < off + c then Inl UndefinedBehaviour
      else
        let c = (if c = npos then ce - off else c);
            a = take c (drop off va)
        in case utf8_validate a of Inl e \<Rightarrow> Inl e | Inr _ \<Rightarrow> Inr a)"

text \<open>\<^verbatim>\<open>String::create\<close> over an octet array: the validated octets are copied.\<close>

definition string_create :: "octet_t list \<Rightarrow> nat \<Rightarrow> nat \<Rightarrow> exn + cstring" where
  "string_create vab off cb = validate_managed_utf8 vab off cb"

text \<open>The strings that exist: the octets pass the validation of \<^verbatim>\<open>String::create\<close>.\<close>

definition valid_string :: "cstring \<Rightarrow> bool" where
  "valid_string s \<longleftrightarrow> (\<exists>n. utf8_validate s = Inr n)"

lemma string_create_valid:
  assumes "valid_string (take cb (drop off vab))" and "off < length vab"
    and "off + cb \<le> length vab" and "length vab < npos"
  shows "string_create vab off cb = Inr (take cb (drop off vab))"
  using assms by (auto simp: string_create_def validate_managed_utf8_def valid_string_def npos_def)

lemma string_create_Inr_valid:
  "string_create vab off cb = Inr s \<Longrightarrow> valid_string s"
  by (auto simp: string_create_def validate_managed_utf8_def valid_string_def Let_def
      split: if_splits sum.splits)

section \<open>Bit facts\<close>

lemma bit_int_masks_utf:
  "bit (0xC0::int) n \<longleftrightarrow> n = 6 \<or> n = 7" "bit (0xE0::int) n \<longleftrightarrow> n = 5 \<or> n = 6 \<or> n = 7"
  "bit (0xF0::int) n \<longleftrightarrow> 4 \<le> n \<and> n < 8" "bit (0x1F::int) n \<longleftrightarrow> n < 5"
  "bit (0x0F::int) n \<longleftrightarrow> n < 4"
proof -
  have "(0xC0::int) = push_bit 6 1 OR push_bit 7 1"
    "(0xE0::int) = push_bit 5 1 OR (push_bit 6 1 OR push_bit 7 1)"
    "(0xF0::int) = push_bit 4 (mask 4)" "(0x1F::int) = mask 5" "(0x0F::int) = mask 4"
    by (simp_all add: mask_eq_exp_minus_1)
  then show "bit (0xC0::int) n \<longleftrightarrow> n = 6 \<or> n = 7" "bit (0xE0::int) n \<longleftrightarrow> n = 5 \<or> n = 6 \<or> n = 7"
    "bit (0xF0::int) n \<longleftrightarrow> 4 \<le> n \<and> n < 8" "bit (0x1F::int) n \<longleftrightarrow> n < 5"
    "bit (0x0F::int) n \<longleftrightarrow> n < 4"
    by (simp_all only: bit_mask_iff bit_push_bit_iff bit_1_iff bit_or_iff possible_bit_def) auto
qed

lemmas utf_bits = packed_bits bit_int_masks_utf

lemma octet_eq_bits:
  "(a::octet_t) = b \<longleftrightarrow>
     bit a 0 = bit b 0 \<and> bit a 1 = bit b 1 \<and> bit a 2 = bit b 2 \<and> bit a 3 = bit b 3 \<and>
     bit a 4 = bit b 4 \<and> bit a 5 = bit b 5 \<and> bit a 6 = bit b 6 \<and> bit a 7 = bit b 7"
proof -
  have "{..<8::nat} = {0, 1, 2, 3, 4, 5, 6, 7}" by auto
  moreover have "a = b \<longleftrightarrow> (\<forall>n\<in>{..<8}. bit a n = bit b n)"
    by (simp add: bit_eq_iff [where 'a = "8 word"] Ball_def)
  ultimately show ?thesis by simp
qed

lemma lead_octet_classes:
  "drop_bit 4 ((b::octet_t) AND 0xF0) \<in> {0x0, 0x1, 0x2, 0x3, 0x4, 0x5, 0x6, 0x7} \<longleftrightarrow> \<not> bit b 7"
  "drop_bit 4 ((b::octet_t) AND 0xF0) = 0xC \<or> drop_bit 4 (b AND 0xF0) = 0xD \<longleftrightarrow>
     bit b 7 \<and> bit b 6 \<and> \<not> bit b 5"
  "drop_bit 4 ((b::octet_t) AND 0xF0) = 0xE \<longleftrightarrow> bit b 7 \<and> bit b 6 \<and> bit b 5 \<and> \<not> bit b 4"
  by (auto simp: octet_eq_bits bit_drop_bit_eq bit_and_iff)

lemma lead_octet_classes_utf8:
  "(b::octet_t) AND 0xF0 \<in> {0x70, 0x60, 0x50, 0x40, 0x30, 0x20, 0x10, 0x00} \<longleftrightarrow> \<not> bit b 7"
  "(b::octet_t) AND 0xF0 = 0xD0 \<or> b AND 0xF0 = 0xC0 \<longleftrightarrow> bit b 7 \<and> bit b 6 \<and> \<not> bit b 5"
  "(b::octet_t) AND 0xF0 = 0xE0 \<longleftrightarrow> bit b 7 \<and> bit b 6 \<and> bit b 5 \<and> \<not> bit b 4"
  "(b::octet_t) AND 0xF0 = 0xF0 \<longleftrightarrow> bit b 7 \<and> bit b 6 \<and> bit b 5 \<and> bit b 4"
  by (auto simp: octet_eq_bits bit_and_iff)

lemma is_cont_bits: "is_cont b \<longleftrightarrow> bit b 7 \<and> \<not> bit b 6"
  by (auto simp: is_cont_def octet_eq_bits bit_and_iff)

lemma is_cont_low6 [simp]: "is_cont (0x80 OR (b AND 0x3F))"
  by (simp add: is_cont_bits utf_bits)

lemma drop_bit_0_bits: "drop_bit k (x::'w::len word) = 0 \<longleftrightarrow> (\<forall>n. bit x n \<longrightarrow> n < k)"
proof
  assume zero: "drop_bit k x = 0"
  show "\<forall>n. bit x n \<longrightarrow> n < k"
  proof (intro allI impI)
    fix n
    assume "bit x n"
    moreover have "\<not> bit (drop_bit k x) (n - k)" by (simp only: zero) simp
    ultimately show "n < k" by (cases "n < k") (auto simp: bit_drop_bit_eq)
  qed
next
  assume "\<forall>n. bit x n \<longrightarrow> n < k"
  then show "drop_bit k x = 0"
    by (intro bit_eqI) (auto simp only: bit_drop_bit_eq comp_def bit_0_eq bot_apply, auto)
qed

lemma le_bits:
  assumes "unat (m::'w::len word) = 2 ^ k - 1"
  shows "(x::'w::len word) \<le> m \<longleftrightarrow> (\<forall>n. bit x n \<longrightarrow> n < k)"
proof -
  have "0 < (2::nat) ^ k" by simp
  then have "x \<le> m \<longleftrightarrow> unat x < 2 ^ k"
    unfolding word_le_nat_alt assms by linarith
  also have "\<dots> \<longleftrightarrow> unat (drop_bit k x) = 0"
    by (simp only: unat_drop_bit_eq) (simp add: drop_bit_eq_div div_eq_0_iff)
  also have "\<dots> \<longleftrightarrow> drop_bit k x = 0"
    by (simp only: unat_eq_0)
  finally show ?thesis by (simp only: drop_bit_0_bits)
qed

lemma char16_ranges:
  "(ch::wchar16_t) \<le> 0x7F \<longleftrightarrow> (\<forall>n. bit ch n \<longrightarrow> n < 7)"
  "(ch::wchar16_t) \<le> 0x7FF \<longleftrightarrow> (\<forall>n. bit ch n \<longrightarrow> n < 11)"
  by (rule le_bits, simp)+

section \<open>Round trip of a character\<close>

lemma decode1_encode: "ch \<le> 0x7F \<Longrightarrow> ucast (ucast ch :: octet_t) = (ch :: wchar16_t)"
  by (rule bit_eqI) (auto simp: char16_ranges utf_bits)

lemma decode2_encode:
  assumes "ch \<le> 0x7FF"
  shows "decode2 (0xC0 OR (ucast (drop_bit 6 ch) AND 0x1F)) (0x80 OR (ucast ch AND 0x3F)) = ch"
proof (rule bit_eqI)
  fix n
  show "bit (decode2 (0xC0 OR (ucast (drop_bit 6 ch) AND 0x1F)) (0x80 OR (ucast ch AND 0x3F))) n = bit ch n"
    using assms by (cases "n < 6") (auto simp: decode2_def char16_ranges utf_bits simp del: push_bit_and)
qed

lemma decode3_encode:
  "decode3 (0xE0 OR (ucast (drop_bit 12 ch) AND 0x0F)) (0x80 OR (ucast (drop_bit 6 ch) AND 0x3F))
     (0x80 OR (ucast ch AND 0x3F)) = ch"
proof (rule bit_eqI)
  fix n
  assume "possible_bit TYPE(16 word) n"
  then show "bit (decode3 (0xE0 OR (ucast (drop_bit 12 ch) AND 0x0F)) (0x80 OR (ucast (drop_bit 6 ch) AND 0x3F))
     (0x80 OR (ucast ch AND 0x3F))) n = bit ch n"
    by (cases "n < 6"; cases "n < 12") (auto simp: decode3_def utf_bits simp del: push_bit_and)
qed

end
