(* ===== verification/Read_Buffer.thy ===== *)
theory Read_Buffer
  imports Utf8
begin

text \<open>
  The read side of \<^verbatim>\<open>coherence/io\<close>: \<^verbatim>\<open>AbstractOctetArrayReadBuffer\<close> and
  \<^verbatim>\<open>OctetArrayReadBuffer\<close> (\<open>rb_\<close>), the generic input of \<^verbatim>\<open>AbstractReadBuffer\<close>
  (\<open>abi_\<close>) and the input optimised for octet arrays (\<open>obi_\<close>), which is the one every
  read buffer of the library hands out.
\<close>

section \<open>Read buffers\<close>

text \<open>
  The underlying array \<^verbatim>\<open>f_vab\<close>, the offset \<^verbatim>\<open>m_of\<close> of the buffer in it and its
  length \<^verbatim>\<open>m_cb\<close>.
\<close>

record read_buffer =
  rb_vab :: "octet_t list"
  rb_of :: nat
  rb_cb :: nat

definition raw_at :: "'a list \<Rightarrow> nat \<Rightarrow> exn + 'a" where
  "raw_at a i = (if i < length a then Inr (a ! i) else Inl UndefinedBehaviour)"

text \<open>
  \<^verbatim>\<open>Array::copy\<close> between two arrays.  A bounds check that passes only because its sum
  wraps around leads to an access outside the arrays.  \<open>copy_count\<close> are the checks and the
  number of elements, for the lengths of the two arrays.
\<close>

definition copy_count :: "nat \<Rightarrow> nat \<Rightarrow> nat \<Rightarrow> nat \<Rightarrow> nat \<Rightarrow> exn + nat" where
  "copy_count ceSrc ceDes iSrc iDes ce =
     (let ce = (if ce = npos
                then (let c = size_sub ceDes iDes
                      in if ceSrc < size_add iSrc c then size_sub ceSrc iSrc else c)
                else ce)
      in if ceSrc < size_add iSrc ce then Inl IndexOutOfBoundsException
         else if ceDes < size_add iDes ce then Inl IndexOutOfBoundsException
         else if ceSrc < iSrc + ce \<or> ceDes < iDes + ce then Inl UndefinedBehaviour
         else Inr ce)"

definition array_copy :: "'a list \<Rightarrow> nat \<Rightarrow> 'a list \<Rightarrow> nat \<Rightarrow> nat \<Rightarrow> exn + 'a list" where
  "array_copy vaSrc iSrc haDes iDes ce =
     (case copy_count (length vaSrc) (length haDes) iSrc iDes ce of
        Inl e \<Rightarrow> Inl e
      | Inr ce \<Rightarrow> Inr (take iDes haDes @ take ce (drop iSrc vaSrc) @ drop (iDes + ce) haDes))"

text \<open>
  \<^verbatim>\<open>Array::copy\<close> within one array, where the two ranges can overlap: the code copies
  element by element, from the end when the destination begins inside the source.
\<close>

fun copy_backward :: "nat \<Rightarrow> nat \<Rightarrow> nat \<Rightarrow> 'a list \<Rightarrow> 'a list" where
  "copy_backward sp dp 0 a = a"
| "copy_backward sp dp (Suc c) a = copy_backward (sp - 1) (dp - 1) c (a[dp - 1 := a ! (sp - 1)])"

fun copy_forward :: "nat \<Rightarrow> nat \<Rightarrow> nat \<Rightarrow> 'a list \<Rightarrow> 'a list" where
  "copy_forward sp dp 0 a = a"
| "copy_forward sp dp (Suc c) a = copy_forward (sp + 1) (dp + 1) c (a[dp := a ! sp])"

definition array_copy_within :: "'a list \<Rightarrow> nat \<Rightarrow> nat \<Rightarrow> nat \<Rightarrow> exn + 'a list" where
  "array_copy_within ha iSrc iDes ce =
     (case copy_count (length ha) (length ha) iSrc iDes ce of
        Inl e \<Rightarrow> Inl e
      | Inr ce \<Rightarrow>
          Inr (if iSrc \<le> iDes \<and> iDes < iSrc + ce then copy_backward (iSrc + ce) (iDes + ce) ce ha
               else if iDes < iSrc \<and> iSrc < iDes + ce then copy_forward iSrc iDes ce ha
               else take iDes ha @ take ce (drop iSrc ha) @ drop (iDes + ce) ha))"

text \<open>\<^verbatim>\<open>Array::subArray\<close>, with the checks of the constructor it calls.\<close>

definition sub_array :: "'a list \<Rightarrow> nat \<Rightarrow> nat \<Rightarrow> exn + 'a list" where
  "sub_array va iFrom iTo =
     (let iTo = (if iTo = npos then length va else iTo) in
      if length va < iTo then Inl IndexOutOfBoundsException
      else if iTo < iFrom then Inl IndexOutOfBoundsException
      else Inr (take (iTo - iFrom) (drop iFrom va)))"

definition rb_check_bounds :: "nat \<Rightarrow> nat \<Rightarrow> nat \<Rightarrow> exn + unit" where
  "rb_check_bounds len off cb =
     (if len < size_add off cb then Inl IndexOutOfBoundsException else Inr ())"

definition rb_create :: "octet_t list \<Rightarrow> nat \<Rightarrow> nat \<Rightarrow> exn + read_buffer" where
  "rb_create vab off cb =
     (let vabLength = length vab in
      if (if cb = npos then vabLength < off else vabLength < size_add off cb)
      then Inl IndexOutOfBoundsException
      else Inr \<lparr>rb_vab = vab, rb_of = off, rb_cb = (if cb = npos then vabLength - off else cb)\<rparr>)"

definition rb_read :: "read_buffer \<Rightarrow> nat \<Rightarrow> exn + octet_t" where
  "rb_read rb off =
     (if off < rb_cb rb then raw_at (rb_vab rb) (size_add (rb_of rb) off)
      else Inl IndexOutOfBoundsException)"

definition rb_read_range ::
  "read_buffer \<Rightarrow> nat \<Rightarrow> nat \<Rightarrow> octet_t list \<Rightarrow> nat \<Rightarrow> exn + octet_t list" where
  "rb_read_range rb ofBegin ofEnd habDest ofDest =
     (if rb_cb rb < ofEnd \<or> ofEnd < ofBegin then Inl IndexOutOfBoundsException
      else array_copy (rb_vab rb) (size_add (rb_of rb) ofBegin) habDest ofDest (ofEnd - ofBegin))"

definition rb_to_octets :: "read_buffer \<Rightarrow> nat \<Rightarrow> nat \<Rightarrow> exn + octet_t list" where
  "rb_to_octets rb off cb =
     (case rb_check_bounds (rb_cb rb) off cb of
        Inl e \<Rightarrow> Inl e
      | Inr _ \<Rightarrow>
          if cb = 0 then Inr []
          else
            let off = size_add off (rb_of rb) in
            if off = 0 \<and> cb = length (rb_vab rb) then Inr (rb_vab rb)
            else sub_array (rb_vab rb) off (size_add off cb))"

definition rb_get_read_buffer :: "read_buffer \<Rightarrow> nat \<Rightarrow> nat \<Rightarrow> exn + read_buffer" where
  "rb_get_read_buffer rb off cb =
     (case rb_check_bounds (rb_cb rb) off cb of
        Inl e \<Rightarrow> Inl e
      | Inr _ \<Rightarrow>
          if off = 0 \<and> cb = rb_cb rb then Inr rb
          else rb_create (rb_vab rb) (size_add (rb_of rb) off) cb)"

text \<open>The octets of a buffer, and the invariant of its three fields.\<close>

definition rb_octets :: "read_buffer \<Rightarrow> octet_t list" where
  "rb_octets rb = take (rb_cb rb) (drop (rb_of rb) (rb_vab rb))"

definition rb_ok :: "read_buffer \<Rightarrow> bool" where
  "rb_ok rb \<longleftrightarrow> rb_of rb + rb_cb rb \<le> length (rb_vab rb) \<and> length (rb_vab rb) < npos"

section \<open>Buffer inputs\<close>

text \<open>The read position is the field \<^verbatim>\<open>m_of\<close> of the input.\<close>

record buffer_input =
  bi_buf :: read_buffer
  bi_of :: nat

definition bi_rem :: "buffer_input \<Rightarrow> octet_t list" where
  "bi_rem bi = drop (bi_of bi) (rb_octets (bi_buf bi))"

definition bi_ok :: "buffer_input \<Rightarrow> bool" where
  "bi_ok bi \<longleftrightarrow> rb_ok (bi_buf bi) \<and> bi_of bi \<le> rb_cb (bi_buf bi)"

definition bi_get :: "(buffer_input \<Rightarrow> 'a) \<Rightarrow> (buffer_input, 'a) comp" where
  "bi_get f bi = (Inr (f bi), bi)"

definition bi_lift :: "exn + 'a \<Rightarrow> (buffer_input, 'a) comp" where
  "bi_lift r bi = (r, bi)"

definition bi_length :: "buffer_input \<Rightarrow> nat" where
  "bi_length bi = rb_cb (bi_buf bi)"

definition set_offset_internal :: "nat \<Rightarrow> (buffer_input, unit) comp" where
  "set_offset_internal off bi = (Inr (), bi\<lparr>bi_of := off\<rparr>)"

definition get_offset :: "(buffer_input, nat) comp" where
  "get_offset = bi_get bi_of"

subsection \<open>The generic input\<close>

definition abi_set_offset :: "nat \<Rightarrow> (buffer_input, unit) comp" where
  "abi_set_offset off =
     bindc (bi_get bi_length) (\<lambda>cb.
       if cb < off then throw IndexOutOfBoundsException else set_offset_internal off)"

definition abi_available :: "(buffer_input, nat) comp" where
  "abi_available = bi_get (\<lambda>bi. size_sub (bi_length bi) (bi_of bi))"

definition abi_skip :: "nat \<Rightarrow> (buffer_input, unit) comp" where
  "abi_skip cb =
     bindc get_offset (\<lambda>off. bindc (bi_get bi_length) (\<lambda>len.
       if size_sub len off < cb
       then seqc (set_offset_internal len) (throw EOFException)
       else set_offset_internal (size_add off cb)))"

definition abi_read :: "(buffer_input, octet_t) comp" where
  "abi_read bi =
     (case rb_read (bi_buf bi) (bi_of bi) of
        Inr b \<Rightarrow> (Inr b, bi\<lparr>bi_of := size_add (bi_of bi) 1\<rparr>)
      | Inl IndexOutOfBoundsException \<Rightarrow> (Inl EOFException, bi)
      | Inl e \<Rightarrow> (Inl e, bi))"

definition abi_read_into :: "octet_t list \<Rightarrow> nat \<Rightarrow> nat \<Rightarrow> (buffer_input, octet_t list) comp" where
  "abi_read_into hab off cb =
     (if length hab < size_add off cb then throw IndexOutOfBoundsException
      else if cb = 0 then ret hab
      else
        bindc get_offset (\<lambda>ofIn. bindc (bi_get bi_length) (\<lambda>len.
          if size_sub len ofIn < cb
          then seqc (set_offset_internal len) (throw EOFException)
          else
            let ofEnd = size_add ofIn cb in
            bindc (bi_get bi_buf) (\<lambda>vBuf.
            bindc (bi_lift (rb_read_range vBuf ofIn ofEnd hab off)) (\<lambda>hab.
              seqc (set_offset_internal ofEnd) (ret hab))))))"

definition abi_read_buffer :: "nat \<Rightarrow> (buffer_input, read_buffer) comp" where
  "abi_read_buffer cb bi =
     (case rb_get_read_buffer (bi_buf bi) (bi_of bi) cb of
        Inr vBuf \<Rightarrow> (Inr vBuf, bi\<lparr>bi_of := size_add (bi_of bi) cb\<rparr>)
      | Inl IndexOutOfBoundsException \<Rightarrow> (Inl EOFException, bi\<lparr>bi_of := bi_length bi\<rparr>)
      | Inl e \<Rightarrow> (Inl e, bi))"

text \<open>
  The remaining methods are written against the virtual \<^verbatim>\<open>read()\<close> and
  \<^verbatim>\<open>readInt32()\<close>, which are their parameters.
\<close>

definition abi_read_boolean :: "('s, octet_t) comp \<Rightarrow> ('s, bool) comp" where
  "abi_read_boolean rd = mapc (\<lambda>b. b \<noteq> 0) rd"

definition abi_read_char16 :: "('s, octet_t) comp \<Rightarrow> ('s, wchar16_t) comp" where
  "abi_read_char16 rd =
     bindc rd (\<lambda>b.
       let hi = drop_bit 4 (b AND 0xF0) in
       if hi \<in> {0x0, 0x1, 0x2, 0x3, 0x4, 0x5, 0x6, 0x7} then ret (ucast b)
       else if hi = 0xC \<or> hi = 0xD then
         bindc rd (\<lambda>b2.
           if \<not> is_cont b2 then throw UTFDataFormatException else ret (decode2 b b2))
       else if hi = 0xE then
         bindc rd (\<lambda>b2. bindc rd (\<lambda>b3.
           if \<not> is_cont b2 \<or> \<not> is_cont b3 then throw UTFDataFormatException
           else ret (decode3 b b2 b3)))
       else throw UTFDataFormatException)"

definition abi_read_int16 :: "('s, octet_t) comp \<Rightarrow> ('s, int16_t) comp" where
  "abi_read_int16 rd = unpack_int rd 32"

definition abi_read_int32 :: "('s, octet_t) comp \<Rightarrow> ('s, int32_t) comp" where
  "abi_read_int32 rd = unpack_int rd 32"

definition abi_read_int64 :: "('s, octet_t) comp \<Rightarrow> ('s, int64_t) comp" where
  "abi_read_int64 rd = unpack_int rd 64"

text \<open>Four octets, most significant first.\<close>

definition join4 :: "octet_t \<Rightarrow> octet_t \<Rightarrow> octet_t \<Rightarrow> octet_t \<Rightarrow> 32 word" where
  "join4 b1 b2 b3 b4 =
     push_bit 24 (ucast b1) OR push_bit 16 (ucast b2) OR push_bit 8 (ucast b3) OR ucast b4"

text \<open>
  The four calls of \<^verbatim>\<open>read()\<close> in one expression are taken from left to right, the
  order the code relies on; C++ leaves it unspecified.
\<close>

definition abi_read4 :: "('s, octet_t) comp \<Rightarrow> ('s, 32 word) comp" where
  "abi_read4 rd =
     bindc rd (\<lambda>b1. bindc rd (\<lambda>b2. bindc rd (\<lambda>b3. bindc rd (\<lambda>b4. ret (join4 b1 b2 b3 b4)))))"

definition abi_read_float32 :: "('s, octet_t) comp \<Rightarrow> ('s, float32_bits) comp" where
  "abi_read_float32 rd = abi_read4 rd"

definition abi_read_float64 :: "('s, octet_t) comp \<Rightarrow> ('s, float64_bits) comp" where
  "abi_read_float64 rd =
     bindc (abi_read4 rd) (\<lambda>hi. bindc (abi_read4 rd) (\<lambda>lo.
       ret (push_bit 32 (ucast hi) OR ucast lo)))"

definition abi_convert_utf :: "nat \<Rightarrow> nat \<Rightarrow> (buffer_input, cstring) comp" where
  "abi_convert_utf off cb bi =
     (case rb_to_octets (bi_buf bi) off cb of
        Inl e \<Rightarrow> (Inl e, bi)
      | Inr a \<Rightarrow> (string_create a 0 npos, bi))"

definition abi_read_utf ::
  "(nat \<Rightarrow> nat \<Rightarrow> (buffer_input, cstring) comp) \<Rightarrow> nat \<Rightarrow> (buffer_input, cstring) comp" where
  "abi_read_utf convertUTF cb =
     (if cb = 0 then ret []
      else
        bindc get_offset (\<lambda>off. bindc (bi_get bi_length) (\<lambda>cbBuf.
          if cbBuf < size_add off cb
          then seqc (set_offset_internal cbBuf) (throw EOFException)
          else seqc (set_offset_internal (size_add off cb)) (convertUTF off cb))))"

text \<open>A null string is stored as a negative length.\<close>

definition abi_read_string ::
  "(buffer_input, int32_t) comp \<Rightarrow> (nat \<Rightarrow> nat \<Rightarrow> (buffer_input, cstring) comp) \<Rightarrow>
   (buffer_input, cstring option) comp" where
  "abi_read_string readInt32 convertUTF =
     bindc readInt32 (\<lambda>cb.
       if cb <s 0 then ret None
       else mapc Some (abi_read_utf convertUTF (unat cb)))"

subsection \<open>The input over an octet array\<close>

text \<open>
  The optimised methods index the underlying array directly.  They compute the result and
  the index after it without touching the read position, and store the new position only
  when they return normally.
\<close>

definition obi_read :: "(buffer_input, octet_t) comp" where
  "obi_read bi =
     (let off = bi_of bi; cb = rb_cb (bi_buf bi) in
      if off < cb
      then (raw_at (rb_vab (bi_buf bi)) (size_add (rb_of (bi_buf bi)) off), bi\<lparr>bi_of := off + 1\<rparr>)
      else (Inl EOFException, bi))"

definition obi_read_into :: "octet_t list \<Rightarrow> nat \<Rightarrow> nat \<Rightarrow> (buffer_input, octet_t list) comp" where
  "obi_read_into hab off cb bi =
     (let ofIn = bi_of bi; m_cb = rb_cb (bi_buf bi) in
      if length hab < size_add off cb then (Inl IndexOutOfBoundsException, bi)
      else if cb = 0 then (Inr hab, bi)
      else if size_sub m_cb ofIn < cb then (Inl EOFException, bi\<lparr>bi_of := m_cb\<rparr>)
      else case array_copy (rb_vab (bi_buf bi)) (size_add (rb_of (bi_buf bi)) ofIn) hab off cb of
             Inl e \<Rightarrow> (Inl e, bi)
           | Inr hab \<Rightarrow> (Inr hab, bi\<lparr>bi_of := size_add ofIn cb\<rparr>))"

text \<open>
  A scan of the raw array: from the index \<open>off\<close> (absolute in the array), with \<open>cb\<close> the
  index one past the buffer's last octet.
\<close>

function obi_unpack_loop ::
  "octet_t list \<Rightarrow> nat \<Rightarrow> nat \<Rightarrow> nat \<Rightarrow> octet_t \<Rightarrow> 'w::len word \<Rightarrow> nat \<Rightarrow> exn + 'w word \<times> nat" where
  "obi_unpack_loop ab cb lim off b n cBits =
     (if b AND 0x80 = 0 then Inr (n, off)
      else if cb \<le> off then Inl EOFException
      else case raw_at ab off of
             Inl e \<Rightarrow> Inl e
           | Inr b' \<Rightarrow>
               if lim \<le> cBits then Inl UndefinedBehaviour
               else obi_unpack_loop ab cb lim (off + 1) b'
                      (n OR push_bit cBits (ucast (b' AND 0x7F))) (cBits + 7))"
  by pat_completeness auto
termination
  by (relation "measure (\<lambda>(ab, cb, lim, off, b, n, cBits). lim - cBits)") auto

declare obi_unpack_loop.simps [simp del]

definition obi_unpack_int :: "nat \<Rightarrow> (buffer_input, 'w::len word) comp" where
  "obi_unpack_int lim bi =
     (let ab = rb_vab (bi_buf bi);
          ofRaw = rb_of (bi_buf bi);
          off = size_add ofRaw (bi_of bi);
          cb = size_add ofRaw (rb_cb (bi_buf bi))
      in if cb \<le> off then (Inl EOFException, bi)
         else case raw_at ab off of
                Inl e \<Rightarrow> (Inl e, bi)
              | Inr b \<Rightarrow>
                  (case obi_unpack_loop ab cb lim (off + 1) b (ucast (b AND 0x3F)) 6 of
                     Inl e \<Rightarrow> (Inl e, bi)
                   | Inr (n, off) \<Rightarrow>
                       (Inr (if b AND 0x40 \<noteq> 0 then NOT n else n),
                        bi\<lparr>bi_of := size_sub off ofRaw\<rparr>)))"

definition obi_read_int16 :: "(buffer_input, int16_t) comp" where
  "obi_read_int16 = obi_unpack_int 32"

definition obi_read_int32 :: "(buffer_input, int32_t) comp" where
  "obi_read_int32 = obi_unpack_int 32"

definition obi_read_int64 :: "(buffer_input, int64_t) comp" where
  "obi_read_int64 = obi_unpack_int 64"

text \<open>
  Unlike the integers, \<^verbatim>\<open>readChar16\<close> checks the end of the buffer for the lead octet only:
  the continuation octets are taken from the array whatever the length of the buffer is.
\<close>

definition obi_decode_char16 :: "octet_t list \<Rightarrow> nat \<Rightarrow> octet_t \<Rightarrow> exn + wchar16_t \<times> nat" where
  "obi_decode_char16 ab off b =
     (let hi = drop_bit 4 (b AND 0xF0) in
      if hi \<in> {0x0, 0x1, 0x2, 0x3, 0x4, 0x5, 0x6, 0x7} then Inr (ucast b, off)
      else if hi = 0xC \<or> hi = 0xD then
        case_exn (raw_at ab off) (\<lambda>b2.
          if \<not> is_cont b2 then Inl UTFDataFormatException else Inr (decode2 b b2, off + 1))
      else if hi = 0xE then
        case_exn (raw_at ab off) (\<lambda>b2. case_exn (raw_at ab (off + 1)) (\<lambda>b3.
          if \<not> is_cont b2 \<or> \<not> is_cont b3 then Inl UTFDataFormatException
          else Inr (decode3 b b2 b3, off + 2)))
      else Inl UTFDataFormatException)"

definition obi_read_char16 :: "(buffer_input, wchar16_t) comp" where
  "obi_read_char16 bi =
     (let ab = rb_vab (bi_buf bi);
          ofRaw = rb_of (bi_buf bi);
          off = size_add ofRaw (bi_of bi);
          cb = size_add ofRaw (rb_cb (bi_buf bi))
      in if cb \<le> off then (Inl EOFException, bi)
         else case case_exn (raw_at ab off) (obi_decode_char16 ab (off + 1)) of
                Inl e \<Rightarrow> (Inl e, bi)
              | Inr (ch, off) \<Rightarrow> (Inr ch, bi\<lparr>bi_of := size_sub off ofRaw\<rparr>))"

definition raw_at4 :: "octet_t list \<Rightarrow> nat \<Rightarrow> exn + 32 word" where
  "raw_at4 ab off =
     case_exn (raw_at ab off) (\<lambda>b1. case_exn (raw_at ab (off + 1)) (\<lambda>b2.
     case_exn (raw_at ab (off + 2)) (\<lambda>b3. case_exn (raw_at ab (off + 3)) (\<lambda>b4.
       Inr (join4 b1 b2 b3 b4)))))"

definition obi_read_float32 :: "(buffer_input, float32_bits) comp" where
  "obi_read_float32 bi =
     (let ofAdd = bi_of bi; cb = rb_cb (bi_buf bi) in
      if size_sub cb ofAdd < 4 then (Inl EOFException, bi\<lparr>bi_of := cb\<rparr>)
      else (raw_at4 (rb_vab (bi_buf bi)) (size_add (rb_of (bi_buf bi)) ofAdd),
            bi\<lparr>bi_of := size_add ofAdd 4\<rparr>))"

definition obi_read_float64 :: "(buffer_input, float64_bits) comp" where
  "obi_read_float64 bi =
     (let ofAdd = bi_of bi; cb = rb_cb (bi_buf bi); off = size_add (rb_of (bi_buf bi)) ofAdd in
      if size_sub cb ofAdd < 8 then (Inl EOFException, bi\<lparr>bi_of := cb\<rparr>)
      else (case_exn (raw_at4 (rb_vab (bi_buf bi)) off) (\<lambda>n1.
              case_exn (raw_at4 (rb_vab (bi_buf bi)) (off + 4)) (\<lambda>n2.
                Inr (push_bit 32 (ucast n1) OR ucast n2))),
            bi\<lparr>bi_of := size_add ofAdd 8\<rparr>))"

definition obi_convert_utf :: "nat \<Rightarrow> nat \<Rightarrow> (buffer_input, cstring) comp" where
  "obi_convert_utf off cb bi =
     (string_create (rb_vab (bi_buf bi)) (size_add (rb_of (bi_buf bi)) off) cb, bi)"

text \<open>Inherited methods, bound to the overridden \<^verbatim>\<open>read()\<close>, \<^verbatim>\<open>readInt32()\<close> and \<^verbatim>\<open>convertUTF\<close>.\<close>

definition obi_read_boolean :: "(buffer_input, bool) comp" where
  "obi_read_boolean = abi_read_boolean obi_read"

definition obi_read_string :: "(buffer_input, cstring option) comp" where
  "obi_read_string = abi_read_string obi_read_int32 obi_convert_utf"

section \<open>Facts about positions\<close>

lemma length_rb_octets: "rb_ok rb \<Longrightarrow> length (rb_octets rb) = rb_cb rb"
  by (auto simp: rb_octets_def rb_ok_def min_def)

lemma length_bi_rem: "bi_ok bi \<Longrightarrow> length (bi_rem bi) = bi_length bi - bi_of bi"
  by (simp add: bi_rem_def bi_ok_def length_rb_octets bi_length_def)

lemma bi_ok_bounds:
  assumes "bi_ok bi"
  shows "bi_of bi \<le> rb_cb (bi_buf bi)"
    and "rb_of (bi_buf bi) + rb_cb (bi_buf bi) \<le> length (rb_vab (bi_buf bi))"
    and "rb_of (bi_buf bi) + rb_cb (bi_buf bi) < npos"
    and "rb_of (bi_buf bi) + bi_of bi < npos"
    and "rb_cb (bi_buf bi) < npos" and "bi_of bi < npos" and "rb_of (bi_buf bi) < npos"
  using assms by (auto simp: bi_ok_def rb_ok_def)

lemma npos_less_size_max [simp]: "npos < size_max"
  by (simp add: npos_def size_max_def)

lemma less_npos_size_max [simp]: "n < npos \<Longrightarrow> n < size_max"
  by (simp add: npos_def)

lemma bi_rem_nth:
  assumes "bi_ok bi" and "i < length (bi_rem bi)"
  shows "bi_rem bi ! i = rb_vab (bi_buf bi) ! (rb_of (bi_buf bi) + bi_of bi + i)"
  using assms bi_ok_bounds [OF assms(1)]
  by (simp add: bi_rem_def rb_octets_def add.assoc)

lemma bi_rem_Cons:
  assumes ok: "bi_ok bi" and rem: "bi_rem bi = b # bs"
  shows "bi_of bi < rb_cb (bi_buf bi)"
    and "raw_at (rb_vab (bi_buf bi)) (rb_of (bi_buf bi) + bi_of bi) = Inr b"
    and "bi_ok (bi\<lparr>bi_of := bi_of bi + 1\<rparr>)" and "bi_rem (bi\<lparr>bi_of := bi_of bi + 1\<rparr>) = bs"
proof -
  have len: "0 < length (bi_rem bi)" using rem by simp
  then show less: "bi_of bi < rb_cb (bi_buf bi)"
    using length_bi_rem [OF ok] by (simp add: bi_length_def)
  show "raw_at (rb_vab (bi_buf bi)) (rb_of (bi_buf bi) + bi_of bi) = Inr b"
    using bi_rem_nth [OF ok len] bi_ok_bounds [OF ok] less rem by (simp add: raw_at_def)
  show "bi_ok (bi\<lparr>bi_of := bi_of bi + 1\<rparr>)" using ok less by (simp add: bi_ok_def)
  show "bi_rem (bi\<lparr>bi_of := bi_of bi + 1\<rparr>) = bs"
    using rem by (simp add: bi_rem_def drop_Suc [symmetric] tl_drop) (metis drop_Suc list.sel(3) tl_drop)
qed

lemma bi_rem_Nil:
  assumes "bi_ok bi" and "bi_rem bi = []"
  shows "bi_of bi = rb_cb (bi_buf bi)"
  using assms length_bi_rem [OF assms(1)] by (simp add: bi_length_def bi_ok_def)

section \<open>Both inputs are sources of octets\<close>

interpretation abi: octet_source abi_read bi_rem bi_ok
proof
  fix s b bs
  assume "bi_ok s" and "bi_rem s = b # bs"
  note facts = bi_rem_Cons [OF this] bi_ok_bounds [OF this(1)]
  then show "\<exists>t. abi_read s = (Inr b, t) \<and> bi_ok t \<and> bi_rem t = bs"
    by (simp add: abi_read_def rb_read_def)
next
  fix s
  assume "bi_ok s" and "bi_rem s = []"
  from bi_rem_Nil [OF this] show "abi_read s = (Inl EOFException, s)"
    by (simp add: abi_read_def rb_read_def)
qed

interpretation obi: octet_source obi_read bi_rem bi_ok
proof
  fix s b bs
  assume "bi_ok s" and "bi_rem s = b # bs"
  note facts = bi_rem_Cons [OF this] bi_ok_bounds [OF this(1)]
  then show "\<exists>t. obi_read s = (Inr b, t) \<and> bi_ok t \<and> bi_rem t = bs"
    by (simp add: obi_read_def Let_def)
next
  fix s
  assume "bi_ok s" and "bi_rem s = []"
  from bi_rem_Nil [OF this] show "obi_read s = (Inl EOFException, s)"
    by (simp add: obi_read_def)
qed

section \<open>The optimised methods against the generic ones\<close>

lemma abi_read_ok:
  assumes "bi_ok s"
  shows "abi_read s =
    (if bi_of s < rb_cb (bi_buf s)
     then (Inr (rb_vab (bi_buf s) ! (rb_of (bi_buf s) + bi_of s)), s\<lparr>bi_of := bi_of s + 1\<rparr>)
     else (Inl EOFException, s))"
  using bi_ok_bounds [OF assms] by (simp add: abi_read_def rb_read_def raw_at_def)

lemma obi_read_eq_abi_read: "bi_ok s \<Longrightarrow> obi_read s = abi_read s"
  using bi_ok_bounds [of s] by (simp add: obi_read_def abi_read_ok raw_at_def Let_def)

lemma raw_at_ok:
  "bi_ok s \<Longrightarrow> i < rb_cb (bi_buf s) \<Longrightarrow>
   raw_at (rb_vab (bi_buf s)) (rb_of (bi_buf s) + i) = Inr (rb_vab (bi_buf s) ! (rb_of (bi_buf s) + i))"
  using bi_ok_bounds [of s] by (simp add: raw_at_def)

text \<open>
  The generic loop moves the read position to \<open>k\<close>; the raw loop returns the same value and
  the same position as an index.
\<close>

lemma obi_unpack_loop_refines:
  assumes "bi_ok s"
  shows "\<exists>r k. unpack_loop abi_read lim b n c s = (r, s\<lparr>bi_of := k\<rparr>) \<and>
      bi_of s \<le> k \<and> k \<le> rb_cb (bi_buf s) \<and>
      obi_unpack_loop (rb_vab (bi_buf s)) (rb_of (bi_buf s) + rb_cb (bi_buf s)) lim
        (rb_of (bi_buf s) + bi_of s) b n c = map_sum id (\<lambda>v. (v, rb_of (bi_buf s) + k)) r"
  using assms
proof (induction abi_read lim b n c arbitrary: s rule: unpack_loop.induct)
  case (1 lim b n c)
  let ?buf = "bi_buf s" and ?t = "s\<lparr>bi_of := bi_of s + 1\<rparr>"
  have le: "bi_of s \<le> rb_cb ?buf" using bi_ok_bounds [OF "1.prems"] by simp
  note unf = unpack_loop.simps [of abi_read lim b n c] obi_unpack_loop.simps [of _ _ lim _ b n c]
  consider (last) "b AND 0x80 = 0" | (eof) "b AND 0x80 \<noteq> 0" "\<not> bi_of s < rb_cb ?buf"
    | (ub) "b AND 0x80 \<noteq> 0" "bi_of s < rb_cb ?buf" "lim \<le> c"
    | (more) "b AND 0x80 \<noteq> 0" "bi_of s < rb_cb ?buf" "\<not> lim \<le> c"
    by linarith
  then show ?case
  proof cases
    case last
    with le show ?thesis by (auto simp: unf intro!: exI [of _ "bi_of s"])
  next
    case eof
    with le "1.prems" show ?thesis
      by (auto simp: unf abi_read_ok bindc_def intro!: exI [of _ "bi_of s"])
  next
    case ub
    with le "1.prems" show ?thesis
      by (auto simp: unf abi_read_ok raw_at_ok bindc_def throw_def intro!: exI [of _ "bi_of s + 1"])
  next
    case more
    let ?b = "rb_vab ?buf ! (rb_of ?buf + bi_of s)"
    have "bi_ok ?t" using "1.prems" more(2) by (simp add: bi_ok_def)
    from "1.hyps" [OF more(1,3) this, of ?b] obtain r k
      where "unpack_loop abi_read lim ?b (n OR push_bit c (ucast (?b AND 0x7F))) (c + 7) ?t = (r, ?t\<lparr>bi_of := k\<rparr>)"
        and "bi_of ?t \<le> k" "k \<le> rb_cb ?buf"
        and "obi_unpack_loop (rb_vab ?buf) (rb_of ?buf + rb_cb ?buf) lim (rb_of ?buf + bi_of ?t) ?b
               (n OR push_bit c (ucast (?b AND 0x7F))) (c + 7) = map_sum id (\<lambda>v. (v, rb_of ?buf + k)) r"
      by auto
    with more "1.prems" show ?thesis
      by (auto simp: unf abi_read_ok raw_at_ok bindc_def simp del: push_bit_and
          intro!: exI [of _ r] exI [of _ k])
  qed
qed

text \<open>On failure the optimised method leaves the position where it was.\<close>

lemma obi_unpack_int_refines:
  assumes ok: "bi_ok s"
  shows "(obi_unpack_int lim s :: (exn + 'w::len word) \<times> buffer_input) =
    (case unpack_int abi_read lim s of (Inr n, t) \<Rightarrow> (Inr n, t) | (Inl e, t) \<Rightarrow> (Inl e, s))"
proof (cases "bi_of s < rb_cb (bi_buf s)")
  case False
  then have "bi_of s = rb_cb (bi_buf s)" using bi_ok_bounds [OF ok] by simp
  with ok show ?thesis by (simp add: obi_unpack_int_def unpack_int_def bindc_def abi_read_ok)
next
  case True
  let ?buf = "bi_buf s" and ?t = "s\<lparr>bi_of := bi_of s + 1\<rparr>"
  let ?b = "rb_vab ?buf ! (rb_of ?buf + bi_of s)"
  let ?n = "ucast (?b AND 0x3F) :: 'w word"
  have "bi_ok ?t" using ok True by (simp add: bi_ok_def)
  from obi_unpack_loop_refines [OF this, of lim ?b ?n 6] obtain r k
    where loop: "unpack_loop abi_read lim ?b ?n 6 ?t = (r, ?t\<lparr>bi_of := k\<rparr>)"
      and k: "k \<le> rb_cb ?buf"
      and raw: "obi_unpack_loop (rb_vab ?buf) (rb_of ?buf + rb_cb ?buf) lim (rb_of ?buf + bi_of s + 1) ?b
               ?n 6 = map_sum id (\<lambda>v. (v, rb_of ?buf + k)) r"
    by (auto simp: add.assoc)
  have "size_sub (rb_of ?buf + k) (rb_of ?buf) = k"
    using bi_ok_bounds [OF ok] k by simp
  with loop raw True ok bi_ok_bounds [OF ok] show ?thesis
    by (cases r) (auto simp: obi_unpack_int_def unpack_int_def bindc_def abi_read_ok raw_at_ok Let_def ret_def)
qed

end
