(* ===== verification/Write_Buffer.thy ===== *)
theory Write_Buffer
  imports Read_Buffer
begin

text \<open>
  The write side of \<^verbatim>\<open>coherence/io\<close>: \<^verbatim>\<open>OctetArrayWriteBuffer\<close> (\<open>wb_\<close>), the generic
  output of \<^verbatim>\<open>AbstractWriteBuffer\<close> (\<open>abo_\<close>) and the output optimised for octet arrays
  (\<open>obo_\<close>).  Both outputs are shown to be sinks that emit the same octets, and every
  value written by the one is read back by the inputs of \<open>Read_Buffer\<close>.
\<close>

section \<open>Write buffers\<close>

text \<open>
  The array \<^verbatim>\<open>m_hab\<close>, the number \<^verbatim>\<open>m_cb\<close> of octets written and the maximum capacity
  \<^verbatim>\<open>m_cbMax\<close>.  The cached length \<^verbatim>\<open>m_cbab\<close> of the array is \<open>length (wb_hab wb)\<close>;
  the raw pointer and the unsafe read buffer the class caches are recomputed.
\<close>

record write_buffer =
  wb_hab :: "octet_t list"
  wb_cb :: nat
  wb_max :: nat

definition wb_create_over :: "octet_t list \<Rightarrow> write_buffer" where
  "wb_create_over hab = \<lparr>wb_hab = hab, wb_cb = 0, wb_max = length hab\<rparr>"

definition wb_create :: "nat \<Rightarrow> nat \<Rightarrow> exn + write_buffer" where
  "wb_create cbCap cbMax =
     (if cbMax < cbCap then Inl IllegalArgumentException
      else Inr \<lparr>wb_hab = replicate cbCap 0, wb_cb = 0, wb_max = cbMax\<rparr>)"

definition wb_grow :: "nat \<Rightarrow> write_buffer \<Rightarrow> (exn + unit) \<times> write_buffer" where
  "wb_grow cbCap wb =
     (let cbOld = length (wb_hab wb);
          cbAdd = max 1024 (if 0x100000 < cbOld then cbOld div 2 else cbOld);
          cbNew = min (wb_max wb) (max (size_add cbCap 1024) (size_add cbOld cbAdd))
      in if cbOld < cbNew
         then (case array_copy (wb_hab wb) 0 (replicate cbNew 0) 0 (wb_cb wb) of
                 Inl e \<Rightarrow> (Inl e, wb)
               | Inr habNew \<Rightarrow> (Inr (), wb\<lparr>wb_hab := habNew\<rparr>))
         else (Inr (), wb))"

definition wb_check_bounds :: "nat \<Rightarrow> nat \<Rightarrow> (write_buffer, unit) comp" where
  "wb_check_bounds off cb wb =
     (let cbTotal = size_add off cb in
      if wb_max wb < cbTotal then (Inl IndexOutOfBoundsException, wb)
      else if length (wb_hab wb) < cbTotal then wb_grow cbTotal wb
      else (Inr (), wb))"

definition wb_update_length :: "nat \<Rightarrow> write_buffer \<Rightarrow> write_buffer" where
  "wb_update_length cb wb = (if wb_cb wb < cb then wb\<lparr>wb_cb := cb\<rparr> else wb)"

text \<open>A store through the raw pointer, and a copy into the array.\<close>

definition wb_store :: "nat \<Rightarrow> octet_t \<Rightarrow> (write_buffer, unit) comp" where
  "wb_store i b wb =
     (if i < length (wb_hab wb) then (Inr (), wb\<lparr>wb_hab := (wb_hab wb)[i := b]\<rparr>)
      else (Inl UndefinedBehaviour, wb))"

definition wb_copy_in :: "octet_t list \<Rightarrow> nat \<Rightarrow> nat \<Rightarrow> nat \<Rightarrow> (write_buffer, unit) comp" where
  "wb_copy_in vabSrc ofSrc ofDest cb wb =
     (case array_copy vabSrc ofSrc (wb_hab wb) ofDest cb of
        Inl e \<Rightarrow> (Inl e, wb)
      | Inr hab \<Rightarrow> (Inr (), wb\<lparr>wb_hab := hab\<rparr>))"

definition wb_set_length :: "nat \<Rightarrow> (write_buffer, unit) comp" where
  "wb_set_length cb wb = (Inr (), wb_update_length cb wb)"

definition wb_write1 :: "nat \<Rightarrow> octet_t \<Rightarrow> (write_buffer, unit) comp" where
  "wb_write1 ofDest b =
     seqc (wb_check_bounds ofDest 1)
       (seqc (wb_store ofDest b) (wb_set_length (size_add ofDest 1)))"

definition wb_write :: "nat \<Rightarrow> octet_t list \<Rightarrow> nat \<Rightarrow> nat \<Rightarrow> (write_buffer, unit) comp" where
  "wb_write ofDest vabSrc ofSrc cbSrc =
     seqc (wb_check_bounds ofDest cbSrc)
       (seqc (wb_copy_in vabSrc ofSrc ofDest cbSrc) (wb_set_length (size_add ofDest cbSrc)))"

definition wb_write_buffer :: "nat \<Rightarrow> read_buffer \<Rightarrow> nat \<Rightarrow> nat \<Rightarrow> (write_buffer, unit) comp" where
  "wb_write_buffer ofDest vBufSrc ofSrc cbSrc =
     seqc (wb_check_bounds ofDest cbSrc)
       (seqc (\<lambda>wb. case rb_read_range vBufSrc ofSrc (size_add ofSrc cbSrc) (wb_hab wb) ofDest of
                Inl e \<Rightarrow> (Inl e, wb)
              | Inr hab \<Rightarrow> (Inr (), wb\<lparr>wb_hab := hab\<rparr>))
          (wb_set_length (size_add ofDest cbSrc)))"

definition wb_retain :: "nat \<Rightarrow> nat \<Rightarrow> (write_buffer, unit) comp" where
  "wb_retain off cb wb =
     (if wb_cb wb < size_add off cb then (Inl IndexOutOfBoundsException, wb)
      else if 0 < off \<and> 0 < cb
      then (case array_copy_within (wb_hab wb) off 0 cb of
              Inl e \<Rightarrow> (Inl e, wb)
            | Inr hab \<Rightarrow> (Inr (), wb\<lparr>wb_hab := hab, wb_cb := cb\<rparr>))
      else (Inr (), wb\<lparr>wb_cb := cb\<rparr>))"

definition wb_clear :: "(write_buffer, unit) comp" where
  "wb_clear = wb_retain 0 0"

definition wb_unsafe_read_buffer :: "write_buffer \<Rightarrow> exn + read_buffer" where
  "wb_unsafe_read_buffer wb = rb_create (wb_hab wb) 0 (wb_cb wb)"

definition wb_to_octets :: "write_buffer \<Rightarrow> exn + octet_t list" where
  "wb_to_octets wb =
     case_exn (wb_unsafe_read_buffer wb) (\<lambda>rb. rb_to_octets rb 0 (rb_cb rb))"

definition wb_get_read_buffer :: "write_buffer \<Rightarrow> exn + read_buffer" where
  "wb_get_read_buffer wb = case_exn (wb_to_octets wb) (\<lambda>vab. rb_create vab 0 (length vab))"

text \<open>
  The octets written, and the invariant.  The maximum capacity is any \<^verbatim>\<open>size32_t\<close>, also
  the $2^{32} - 1$ of a buffer that is created without one.  \<open>wb_limit\<close> is the length up to
  which a buffer grows: \<^verbatim>\<open>grow\<close> adds 1024 to the length it is asked for, a sum that wraps
  around for the last 1024 lengths of 32 bits.
\<close>

definition wb_octets :: "write_buffer \<Rightarrow> octet_t list" where
  "wb_octets wb = take (wb_cb wb) (wb_hab wb)"

definition wb_ok :: "write_buffer \<Rightarrow> bool" where
  "wb_ok wb \<longleftrightarrow> wb_cb wb \<le> length (wb_hab wb) \<and> length (wb_hab wb) \<le> wb_max wb \<and> wb_max wb < size_max"

definition wb_limit :: "write_buffer \<Rightarrow> nat" where
  "wb_limit wb = min (wb_max wb) (size_max - 1025)"

section \<open>Buffer outputs\<close>

record buffer_output =
  bo_buf :: write_buffer
  bo_of :: nat

definition bo_set_offset :: "nat \<Rightarrow> (buffer_output, unit) comp" where
  "bo_set_offset off bo =
     (if wb_max (bo_buf bo) < off then (Inl IndexOutOfBoundsException, bo)
      else (Inr (), bo\<lparr>bo_of := off\<rparr>))"

definition bo_create :: "write_buffer \<Rightarrow> nat \<Rightarrow> exn + buffer_output" where
  "bo_create wb off =
     (case bo_set_offset off \<lparr>bo_buf = wb, bo_of = 0\<rparr> of
        (Inl e, _) \<Rightarrow> Inl e | (Inr _, bo) \<Rightarrow> Inr bo)"

text \<open>An operation of the underlying buffer at the write position.\<close>

definition bo_on_buf :: "(nat \<Rightarrow> (write_buffer, unit) comp) \<Rightarrow> (buffer_output, unit) comp" where
  "bo_on_buf f bo = (case f (bo_of bo) (bo_buf bo) of (r, wb) \<Rightarrow> (r, bo\<lparr>bo_buf := wb\<rparr>))"

definition bo_advance :: "nat \<Rightarrow> (buffer_output, unit) comp" where
  "bo_advance cb bo = (Inr (), bo\<lparr>bo_of := size_add (bo_of bo) cb\<rparr>)"

subsection \<open>The generic output\<close>

definition abo_write1 :: "octet_t \<Rightarrow> (buffer_output, unit) comp" where
  "abo_write1 b = seqc (bo_on_buf (\<lambda>off. wb_write1 off b)) (bo_advance 1)"

definition abo_write_range :: "octet_t list \<Rightarrow> nat \<Rightarrow> nat \<Rightarrow> (buffer_output, unit) comp" where
  "abo_write_range vab off cb =
     seqc (bo_on_buf (\<lambda>ofWrite. wb_write ofWrite vab off cb)) (bo_advance cb)"

definition abo_write :: "octet_t list \<Rightarrow> (buffer_output, unit) comp" where
  "abo_write vab = abo_write_range vab 0 (length vab)"

definition abo_write_buffer_range ::
  "read_buffer \<Rightarrow> nat \<Rightarrow> nat \<Rightarrow> (buffer_output, unit) comp" where
  "abo_write_buffer_range vBuf off cb =
     seqc (bo_on_buf (\<lambda>ofWrite. wb_write_buffer ofWrite vBuf off cb)) (bo_advance cb)"

definition abo_write_buffer :: "read_buffer \<Rightarrow> (buffer_output, unit) comp" where
  "abo_write_buffer vBuf = abo_write_buffer_range vBuf 0 (rb_cb vBuf)"

definition abo_write_boolean :: "bool \<Rightarrow> (buffer_output, unit) comp" where
  "abo_write_boolean f = abo_write1 (if f then 1 else 0)"

text \<open>A value of one octet is written as an octet, a longer one from the temporary array.\<close>

definition abo_write_tmp :: "octet_t list \<Rightarrow> (buffer_output, unit) comp" where
  "abo_write_tmp bs =
     (if length bs = 1 then abo_write1 (hd bs) else abo_write_range bs 0 (length bs))"

definition abo_write_char16 :: "wchar16_t \<Rightarrow> (buffer_output, unit) comp" where
  "abo_write_char16 ch = abo_write_tmp (encode_char16 ch)"

definition abo_write_int16 :: "int16_t \<Rightarrow> (buffer_output, unit) comp" where
  "abo_write_int16 n = abo_write_tmp (pack_int n)"

definition abo_write_int32 :: "int32_t \<Rightarrow> (buffer_output, unit) comp" where
  "abo_write_int32 n = abo_write_tmp (pack_int n)"

definition abo_write_int64 :: "int64_t \<Rightarrow> (buffer_output, unit) comp" where
  "abo_write_int64 n = abo_write_tmp (pack_int n)"

definition abo_write_string :: "cstring option \<Rightarrow> (buffer_output, unit) comp" where
  "abo_write_string vs =
     (case vs of
        None \<Rightarrow> abo_write_int32 (- 1)
      | Some s \<Rightarrow> seqc (abo_write_int32 (of_nat (length s))) (for_each abo_write1 s))"

definition split4 :: "32 word \<Rightarrow> octet_t list" where
  "split4 n = [ucast (drop_bit 24 n), ucast (drop_bit 16 n), ucast (drop_bit 8 n), ucast n]"

definition split8 :: "64 word \<Rightarrow> octet_t list" where
  "split8 l = split4 (ucast (drop_bit 32 l)) @ split4 (ucast l)"

definition abo_write_float32 :: "float32_bits \<Rightarrow> (buffer_output, unit) comp" where
  "abo_write_float32 fl = abo_write_range (split4 fl) 0 4"

definition abo_write_float64 :: "float64_bits \<Rightarrow> (buffer_output, unit) comp" where
  "abo_write_float64 dfl = abo_write_range (split8 dfl) 0 8"

subsection \<open>The output over an octet array\<close>

text \<open>
  The optimised methods reserve the length of the longest encoding, then store the octets
  through the raw pointer and move the position by the octets stored.
\<close>

fun wb_store_all :: "nat \<Rightarrow> octet_t list \<Rightarrow> (write_buffer, unit) comp" where
  "wb_store_all i [] = ret ()"
| "wb_store_all i (b # bs) = seqc (wb_store i b) (wb_store_all (i + 1) bs)"

definition bo_move_offset :: "nat \<Rightarrow> (buffer_output, unit) comp" where
  "bo_move_offset cb bo =
     (let off = size_add (bo_of bo) cb in
      (Inr (), \<lparr>bo_buf = wb_update_length off (bo_buf bo), bo_of = off\<rparr>))"

definition obo_emit :: "nat \<Rightarrow> octet_t list \<Rightarrow> (buffer_output, unit) comp" where
  "obo_emit cbReserve bs =
     seqc (bo_on_buf (\<lambda>off. wb_check_bounds off cbReserve))
       (seqc (bo_on_buf (\<lambda>off. wb_store_all off bs)) (bo_move_offset (length bs)))"

definition obo_write_char16 :: "wchar16_t \<Rightarrow> (buffer_output, unit) comp" where
  "obo_write_char16 ch = obo_emit 3 (encode_char16 ch)"

definition obo_write_int16 :: "int16_t \<Rightarrow> (buffer_output, unit) comp" where
  "obo_write_int16 n = obo_emit 3 (pack_int n)"

definition obo_write_int32 :: "int32_t \<Rightarrow> (buffer_output, unit) comp" where
  "obo_write_int32 n = obo_emit 5 (pack_int n)"

definition obo_write_int64 :: "int64_t \<Rightarrow> (buffer_output, unit) comp" where
  "obo_write_int64 n = obo_emit 10 (pack_int n)"

definition obo_write_float32 :: "float32_bits \<Rightarrow> (buffer_output, unit) comp" where
  "obo_write_float32 fl = obo_emit 4 (split4 fl)"

definition obo_write_float64 :: "float64_bits \<Rightarrow> (buffer_output, unit) comp" where
  "obo_write_float64 dfl = obo_emit 8 (split8 dfl)"

text \<open>The octets of a string are followed by a NUL in the array the string hands out.\<close>

definition obo_write_string :: "cstring option \<Rightarrow> (buffer_output, unit) comp" where
  "obo_write_string vs =
     (case vs of
        None \<Rightarrow> obo_write_int64 (- 1)
      | Some s \<Rightarrow>
          let vab = s @ [0]; cb = length vab - 1 in
          seqc (obo_write_int64 (of_nat cb))
            (if 0 < cb
             then seqc (bo_on_buf (\<lambda>off. wb_check_bounds off cb))
                    (seqc (bo_on_buf (\<lambda>off. wb_copy_in vab 0 off cb)) (bo_move_offset cb))
             else ret ()))"

section \<open>What the operations write\<close>

definition overwrite :: "nat \<Rightarrow> 'a list \<Rightarrow> 'a list \<Rightarrow> 'a list" where
  "overwrite i bs xs = take i xs @ bs @ drop (i + length bs) xs"

lemma overwrite_Nil [simp]: "overwrite i [] xs = xs"
  by (simp add: overwrite_def)

lemma length_overwrite: "i + length bs \<le> length xs \<Longrightarrow> length (overwrite i bs xs) = length xs"
  by (simp add: overwrite_def)

lemma overwrite_Cons: "i < length xs \<Longrightarrow> overwrite i (b # bs) xs = overwrite (i + 1) bs (xs[i := b])"
  by (simp add: overwrite_def take_Suc_conv_app_nth)

lemma take_overwrite:
  "i \<le> n \<Longrightarrow> i \<le> length xs \<Longrightarrow>
   take (max n (i + length bs)) (overwrite i bs xs) = overwrite i bs (take n xs)"
  by (auto simp: overwrite_def min_def max_def take_drop)

lemma take_overwrite_end:
  "i \<le> length xs \<Longrightarrow> take (i + length bs) (overwrite i bs xs) = take i xs @ bs"
  by (simp add: overwrite_def)

lemma less_size_max31: "n < 2 ^ 31 \<Longrightarrow> m < 2 ^ 31 \<Longrightarrow> n + m < size_max"
  by (simp add: size_max_def)

lemma array_copy_ok:
  assumes "ce \<noteq> npos" and "iSrc + ce \<le> length va" and "iDes + ce \<le> length ha"
    and "length va < size_max" and "length ha < size_max"
  shows "array_copy va iSrc ha iDes ce = Inr (overwrite iDes (take ce (drop iSrc va)) ha)"
  using assms by (simp add: array_copy_def copy_count_def overwrite_def Let_def min_absorb2)

text \<open>The loops over overlapping ranges move the range as a whole.\<close>

lemma copy_forward_nth:
  assumes "dp \<le> sp" and "sp + c \<le> length a"
  shows "length (copy_forward sp dp c a) = length a \<and>
    (\<forall>i. copy_forward sp dp c a ! i = (if dp \<le> i \<and> i < dp + c then a ! (i + sp - dp) else a ! i))"
  using assms
proof (induction c arbitrary: sp dp a)
  case (Suc c)
  then have "length (copy_forward (sp + 1) (dp + 1) c (a[dp := a ! sp])) = length a \<and>
    (\<forall>i. copy_forward (sp + 1) (dp + 1) c (a[dp := a ! sp]) ! i =
      (if dp + 1 \<le> i \<and> i < dp + 1 + c then a[dp := a ! sp] ! (i + (sp + 1) - (dp + 1))
       else a[dp := a ! sp] ! i))"
    using Suc.IH [of "dp + 1" "sp + 1" "a[dp := a ! sp]"] by simp
  with Suc.prems show ?case by (auto simp: nth_list_update)
qed auto

lemma copy_backward_nth:
  assumes "sp \<le> dp" and "dp \<le> length a" and "c \<le> sp"
  shows "length (copy_backward sp dp c a) = length a \<and>
    (\<forall>i. copy_backward sp dp c a ! i = (if dp - c \<le> i \<and> i < dp then a ! (i + sp - dp) else a ! i))"
  using assms
proof (induction c arbitrary: sp dp a)
  case (Suc c)
  then have "length (copy_backward (sp - 1) (dp - 1) c (a[dp - 1 := a ! (sp - 1)])) = length a \<and>
    (\<forall>i. copy_backward (sp - 1) (dp - 1) c (a[dp - 1 := a ! (sp - 1)]) ! i =
      (if dp - 1 - c \<le> i \<and> i < dp - 1 then a[dp - 1 := a ! (sp - 1)] ! (i + (sp - 1) - (dp - 1))
       else a[dp - 1 := a ! (sp - 1)] ! i))"
    using Suc.IH [of "sp - 1" "dp - 1" "a[dp - 1 := a ! (sp - 1)]"] by simp
  with Suc.prems show ?case by (auto simp: nth_list_update)
qed auto

lemma array_copy_within_ok:
  assumes "ce \<noteq> npos" and "iSrc + ce \<le> length ha" and "iDes + ce \<le> length ha" and "length ha < size_max"
  shows "array_copy_within ha iSrc iDes ce = Inr (overwrite iDes (take ce (drop iSrc ha)) ha)"
proof -
  let ?o = "overwrite iDes (take ce (drop iSrc ha)) ha"
  have o: "length ?o = length ha"
    "\<And>i. i < length ha \<Longrightarrow> ?o ! i = (if iDes \<le> i \<and> i < iDes + ce then ha ! (i + iSrc - iDes) else ha ! i)"
    using assms(2,3) by (auto simp: overwrite_def nth_append min_def intro!: arg_cong [of _ _ "(!) ha"])
  have "copy_backward (iSrc + ce) (iDes + ce) ce ha = ?o" if "iSrc \<le> iDes"
    using copy_backward_nth [of "iSrc + ce" "iDes + ce" ha ce] assms(2,3) that o
    by (intro nth_equalityI) auto
  moreover have "copy_forward iSrc iDes ce ha = ?o" if "iDes < iSrc"
    using copy_forward_nth [of iDes iSrc ce ha] assms(2,3) that o by (intro nth_equalityI) auto
  ultimately show ?thesis
    using assms by (simp add: array_copy_within_def copy_count_def overwrite_def Let_def min_absorb2)
qed

lemma wb_grow_ok:
  assumes ok: "wb_ok wb" and cap: "length (wb_hab wb) < cbCap" "cbCap \<le> wb_limit wb"
  obtains hab where "wb_grow cbCap wb = (Inr (), wb\<lparr>wb_hab := hab\<rparr>)"
    and "cbCap \<le> length hab" and "length hab \<le> wb_max wb"
    and "take (wb_cb wb) hab = take (wb_cb wb) (wb_hab wb)"
proof -
  let ?old = "length (wb_hab wb)"
  define add where "add = max 1024 (if 0x100000 < ?old then ?old div 2 else ?old)"
  define new where "new = min (wb_max wb) (max (size_add cbCap 1024) (size_add ?old add))"
  have cap_ok: "size_add cbCap 1024 = cbCap + 1024"
    using cap by (simp add: wb_limit_def size_max_def)
  have new: "cbCap \<le> new" "new \<le> wb_max wb" "?old < new"
    using cap by (simp_all add: new_def cap_ok wb_limit_def)
  let ?hab = "overwrite 0 (take (wb_cb wb) (wb_hab wb)) (replicate new 0)"
  have cb: "wb_cb wb \<le> ?old" "wb_cb wb \<le> new" using ok new by (simp_all add: wb_ok_def)
  have "array_copy (wb_hab wb) 0 (replicate new 0) 0 (wb_cb wb) = Inr ?hab"
    using ok cap cb new by (subst array_copy_ok) (simp_all add: wb_ok_def wb_limit_def size_max_def npos_def)
  then have "wb_grow cbCap wb = (Inr (), wb\<lparr>wb_hab := ?hab\<rparr>)"
    using new unfolding wb_grow_def Let_def add_def [symmetric] new_def [symmetric] by simp
  moreover have "length ?hab = new" using cb by (simp add: overwrite_def)
  moreover have "take (wb_cb wb) ?hab = take (wb_cb wb) (wb_hab wb)"
    using cb by (simp add: overwrite_def)
  ultimately show ?thesis using new by (intro that [of ?hab]) simp_all
qed

lemma wb_check_bounds_ok:
  assumes ok: "wb_ok wb" and room: "off + cb \<le> wb_limit wb"
  obtains hab where "wb_check_bounds off cb wb = (Inr (), wb\<lparr>wb_hab := hab\<rparr>)"
    and "off + cb \<le> length hab" and "length hab \<le> wb_max wb"
    and "take (wb_cb wb) hab = take (wb_cb wb) (wb_hab wb)" and "wb_cb wb \<le> length hab"
proof (cases "length (wb_hab wb) < off + cb")
  case True
  from room ok have sz: "size_add off cb = off + cb" by (simp add: wb_limit_def size_max_def)
  from wb_grow_ok [OF ok True room] obtain hab where
    "wb_grow (off + cb) wb = (Inr (), wb\<lparr>wb_hab := hab\<rparr>)" "off + cb \<le> length hab"
    "length hab \<le> wb_max wb" "take (wb_cb wb) hab = take (wb_cb wb) (wb_hab wb)" .
  with True room sz ok show ?thesis by (intro that [of hab]) (auto simp: wb_check_bounds_def wb_ok_def)
next
  case False
  from room ok have "size_add off cb = off + cb" by (simp add: wb_limit_def size_max_def)
  with False room ok show ?thesis
    by (intro that [of "wb_hab wb"]) (simp_all add: wb_check_bounds_def wb_ok_def wb_limit_def)
qed

lemma wb_check_bounds_full:
  assumes "off + cb < size_max" and "wb_max wb < off + cb"
  shows "wb_check_bounds off cb wb = (Inl IndexOutOfBoundsException, wb)"
  using assms by (simp add: wb_check_bounds_def)

lemma wb_store_all_ok:
  "i + length bs \<le> length (wb_hab wb) \<Longrightarrow>
   wb_store_all i bs wb = (Inr (), wb\<lparr>wb_hab := overwrite i bs (wb_hab wb)\<rparr>)"
proof (induction bs arbitrary: i wb)
  case (Cons b bs)
  then have "wb_store i b wb = (Inr (), wb\<lparr>wb_hab := (wb_hab wb)[i := b]\<rparr>)"
    by (simp add: wb_store_def)
  with Cons show ?case by (simp add: seqc_Inr overwrite_Cons)
qed simp

section \<open>Outputs are sinks of octets\<close>

definition bo_ok :: "buffer_output \<Rightarrow> bool" where
  "bo_ok bo \<longleftrightarrow> wb_ok (bo_buf bo) \<and> bo_of bo \<le> wb_cb (bo_buf bo) \<and> bo_of bo \<le> wb_limit (bo_buf bo)"

definition bo_out :: "buffer_output \<Rightarrow> octet_t list" where
  "bo_out bo = take (bo_of bo) (wb_hab (bo_buf bo))"

definition bo_room :: "buffer_output \<Rightarrow> nat" where
  "bo_room bo = wb_limit (bo_buf bo) - bo_of bo"

text \<open>
  \<open>bo_writes s bs t\<close>: from \<open>s\<close> to \<open>t\<close> the octets \<open>bs\<close> replaced those at the write
  position, the position moved past them and nothing else changed.
\<close>

definition bo_writes :: "buffer_output \<Rightarrow> octet_t list \<Rightarrow> buffer_output \<Rightarrow> bool" where
  "bo_writes s bs t \<longleftrightarrow>
     bo_ok t \<and> bo_of t = bo_of s + length bs \<and> wb_max (bo_buf t) = wb_max (bo_buf s) \<and>
     wb_octets (bo_buf t) = overwrite (bo_of s) bs (wb_octets (bo_buf s))"

lemma bo_outE:
  assumes "bo_ok s"
  shows "bo_out s = take (bo_of s) (wb_octets (bo_buf s))"
  using assms by (simp add: bo_out_def wb_octets_def bo_ok_def min_def)

lemma bo_writes_out:
  assumes "bo_ok s" and "bo_writes s bs t"
  shows "bo_out t = bo_out s @ bs"
proof -
  have "bo_ok t" and of_t: "bo_of t = bo_of s + length bs"
    and octets: "wb_octets (bo_buf t) = overwrite (bo_of s) bs (wb_octets (bo_buf s))"
    using assms(2) by (simp_all add: bo_writes_def)
  have "bo_of s \<le> length (wb_octets (bo_buf s))"
    using assms(1) by (simp add: bo_ok_def wb_ok_def wb_octets_def)
  then show ?thesis
    by (simp add: bo_outE [OF \<open>bo_ok t\<close>] bo_outE [OF assms(1)] of_t octets take_overwrite_end)
qed

lemma overwrite_overwrite:
  "i \<le> length xs \<Longrightarrow> overwrite (i + length bs) cs (overwrite i bs xs) = overwrite i (bs @ cs) xs"
  by (simp add: overwrite_def ac_simps)

lemma bo_writes_trans:
  assumes "bo_ok s" and "bo_writes s bs t" and "bo_writes t cs u"
  shows "bo_writes s (bs @ cs) u"
proof -
  have "bo_of s \<le> length (wb_octets (bo_buf s))"
    using assms(1) by (simp add: bo_ok_def wb_ok_def wb_octets_def)
  with assms(2,3) show ?thesis by (simp add: bo_writes_def overwrite_overwrite)
qed

lemma bo_writes_room: "bo_writes s bs t \<Longrightarrow> bo_room t = bo_room s - length bs"
  by (simp add: bo_writes_def bo_room_def wb_limit_def)

lemma bo_writesI:
  assumes ok: "bo_ok s" and fits: "bo_of s + length bs \<le> length hab"
    and lim: "bo_of s + length bs \<le> wb_limit (bo_buf s)"
    and hab: "length hab \<le> wb_max (bo_buf s)" "wb_cb (bo_buf s) \<le> length hab"
    and same: "take (wb_cb (bo_buf s)) hab = take (wb_cb (bo_buf s)) (wb_hab (bo_buf s))"
  shows "bo_writes s bs
    \<lparr>bo_buf = wb_update_length (bo_of s + length bs) ((bo_buf s)\<lparr>wb_hab := overwrite (bo_of s) bs hab\<rparr>),
     bo_of = bo_of s + length bs\<rparr>"
proof -
  let ?wb = "bo_buf s" and ?n = "bo_of s + length bs"
  have upd: "wb_update_length ?n (?wb\<lparr>wb_hab := overwrite (bo_of s) bs hab\<rparr>)
      = ?wb\<lparr>wb_hab := overwrite (bo_of s) bs hab, wb_cb := max (wb_cb ?wb) ?n\<rparr>"
    by (simp add: wb_update_length_def max_def)
  have "wb_octets (?wb\<lparr>wb_hab := overwrite (bo_of s) bs hab, wb_cb := max (wb_cb ?wb) ?n\<rparr>)
      = overwrite (bo_of s) bs (take (wb_cb ?wb) hab)"
    unfolding wb_octets_def using ok fits by (simp add: take_overwrite bo_ok_def)
  also have "\<dots> = overwrite (bo_of s) bs (wb_octets ?wb)"
    by (simp only: same wb_octets_def)
  finally show ?thesis
    using ok fits lim hab by (simp add: bo_writes_def upd bo_ok_def wb_ok_def wb_limit_def length_overwrite)
qed


text \<open>
  The two ways to write: the optimised one reserves \<open>k\<close> octets and stores through the raw
  pointer, the generic one goes through the methods of the buffer.
\<close>

lemma obo_emit_writes:
  assumes ok: "bo_ok s" and len: "length bs \<le> k" and room: "k \<le> bo_room s"
  obtains t where "obo_emit k bs s = (Inr (), t)" and "bo_writes s bs t"
proof -
  let ?wb = "bo_buf s"
  have wb: "wb_ok ?wb" and le: "bo_of s \<le> wb_limit ?wb"
    using ok by (auto simp: bo_ok_def)
  with room have lim: "bo_of s + k \<le> wb_limit ?wb" by (simp add: bo_room_def)
  from wb_check_bounds_ok [OF wb lim] obtain hab where
    chk: "wb_check_bounds (bo_of s) k ?wb = (Inr (), ?wb\<lparr>wb_hab := hab\<rparr>)"
    and hab: "bo_of s + k \<le> length hab" "length hab \<le> wb_max ?wb" "wb_cb ?wb \<le> length hab"
      "take (wb_cb ?wb) hab = take (wb_cb ?wb) (wb_hab ?wb)" by blast
  have fits: "bo_of s + length bs \<le> length hab" using hab(1) len by simp
  then have store: "wb_store_all (bo_of s) bs (?wb\<lparr>wb_hab := hab\<rparr>)
      = (Inr (), ?wb\<lparr>wb_hab := overwrite (bo_of s) bs hab\<rparr>)"
    by (simp add: wb_store_all_ok)
  have "bo_of s + length bs < size_max"
    using wb fits hab(2) by (simp add: wb_ok_def size_max_def)
  then have "obo_emit k bs s = (Inr (),
      \<lparr>bo_buf = wb_update_length (bo_of s + length bs) (?wb\<lparr>wb_hab := overwrite (bo_of s) bs hab\<rparr>),
       bo_of = bo_of s + length bs\<rparr>)"
    by (simp add: obo_emit_def seqc_def bindc_def bo_on_buf_def chk store bo_move_offset_def Let_def)
  with bo_writesI [OF ok fits _ hab(2-4)] lim len show ?thesis by (intro that) simp_all
qed

lemma wb_write_bo:
  assumes ok: "bo_ok s" and fits: "off + cb \<le> length vab" "length vab < npos"
    and room: "cb \<le> bo_room s" and bs: "bs = take cb (drop off vab)"
  obtains wb where "wb_write (bo_of s) vab off cb (bo_buf s) = (Inr (), wb)"
    and "bo_writes s bs \<lparr>bo_buf = wb, bo_of = bo_of s + length bs\<rparr>"
proof -
  let ?wb = "bo_buf s"
  have wb: "wb_ok ?wb" and le: "bo_of s \<le> wb_limit ?wb"
    using ok by (auto simp: bo_ok_def)
  with room have lim: "bo_of s + cb \<le> wb_limit ?wb" by (simp add: bo_room_def)
  from wb_check_bounds_ok [OF wb lim] obtain hab where
    chk: "wb_check_bounds (bo_of s) cb ?wb = (Inr (), ?wb\<lparr>wb_hab := hab\<rparr>)"
    and hab: "bo_of s + cb \<le> length hab" "length hab \<le> wb_max ?wb" "wb_cb ?wb \<le> length hab"
      "take (wb_cb ?wb) hab = take (wb_cb ?wb) (wb_hab ?wb)" by blast
  have len: "length bs = cb" using bs fits by simp
  have sz: "bo_of s + cb < size_max" "length hab < size_max"
    using wb hab(1,2) by (simp_all add: wb_ok_def size_max_def)
  have "array_copy vab off hab (bo_of s) cb = Inr (overwrite (bo_of s) bs hab)"
    using fits hab(1) sz bs by (subst array_copy_ok) auto
  then have "wb_write (bo_of s) vab off cb ?wb = (Inr (),
      wb_update_length (bo_of s + length bs) (?wb\<lparr>wb_hab := overwrite (bo_of s) bs hab\<rparr>))"
    using sz by (simp add: wb_write_def seqc_def bindc_def chk wb_copy_in_def wb_set_length_def len)
  with bo_writesI [OF ok _ _ hab(2-4), of bs] hab(1) lim len show ?thesis by (intro that) simp_all
qed

lemma abo_write_range_writes:
  assumes "bo_ok s" and "off + cb \<le> length vab" "length vab < npos"
    and "cb \<le> bo_room s" and bs: "bs = take cb (drop off vab)"
  obtains t where "abo_write_range vab off cb s = (Inr (), t)" and "bo_writes s bs t"
proof -
  from wb_write_bo [OF assms] obtain wb where
    w: "wb_write (bo_of s) vab off cb (bo_buf s) = (Inr (), wb)"
    and t: "bo_writes s bs \<lparr>bo_buf = wb, bo_of = bo_of s + length bs\<rparr>" .
  have len: "length bs = cb" using assms(2) bs by simp
  have "bo_of s + cb < size_max"
    using t len by (simp add: bo_writes_def bo_ok_def wb_ok_def size_max_def)
  with w t len show ?thesis
    by (intro that) (auto simp: abo_write_range_def seqc_def bindc_def bo_on_buf_def bo_advance_def)
qed

lemma wb_write1_eq:
  assumes "bo_ok s" and "1 \<le> bo_room s"
  shows "wb_write1 (bo_of s) b (bo_buf s) = wb_write (bo_of s) [b] 0 1 (bo_buf s)"
proof -
  let ?wb = "bo_buf s"
  have wb: "wb_ok ?wb" and le: "bo_of s \<le> wb_limit ?wb"
    using assms(1) by (auto simp: bo_ok_def)
  with assms(2) have lim: "bo_of s + 1 \<le> wb_limit ?wb" by (simp add: bo_room_def)
  from wb_check_bounds_ok [OF wb lim] obtain hab where
    chk: "wb_check_bounds (bo_of s) 1 ?wb = (Inr (), ?wb\<lparr>wb_hab := hab\<rparr>)"
    and hab: "bo_of s + 1 \<le> length hab" "length hab \<le> wb_max ?wb" by blast
  have "length hab < size_max" using wb hab(2) by (simp add: wb_ok_def size_max_def)
  then have "array_copy [b] 0 hab (bo_of s) 1 = Inr (hab[bo_of s := b])"
    using hab(1) by (subst array_copy_ok) (simp_all add: npos_def size_max_def overwrite_Cons)
  with hab(1) chk show ?thesis
    by (simp add: wb_write1_def wb_write_def seqc_def bindc_def wb_store_def wb_copy_in_def)
qed

lemma abo_write1_eq:
  "bo_ok s \<Longrightarrow> 1 \<le> bo_room s \<Longrightarrow> abo_write1 b s = abo_write_range [b] 0 1 s"
  by (simp add: abo_write1_def abo_write_range_def seqc_def bindc_def bo_on_buf_def wb_write1_eq)


text \<open>
  \<open>emits m bs\<close>: with room for \<open>bs\<close> and for the slack of the longest reservation, \<open>m\<close>
  succeeds and writes exactly \<open>bs\<close>.  The rules mirror those of \<^const>\<open>parses\<close>.
\<close>

definition emits :: "(buffer_output, unit) comp \<Rightarrow> octet_t list \<Rightarrow> bool" where
  "emits m bs \<longleftrightarrow>
     (\<forall>s. bo_ok s \<and> length bs + 9 \<le> bo_room s \<longrightarrow>
        (\<exists>t. m s = (Inr (), t) \<and> bo_writes s bs t))"

lemma emitsI:
  assumes "\<And>s. bo_ok s \<Longrightarrow> length bs + 9 \<le> bo_room s \<Longrightarrow> \<exists>t. m s = (Inr (), t) \<and> bo_writes s bs t"
  shows "emits m bs"
  using assms by (simp add: emits_def)

lemma emitsE:
  assumes "emits m bs" and "bo_ok s" and "length bs + 9 \<le> bo_room s"
  obtains t where "m s = (Inr (), t)" and "bo_writes s bs t"
  using assms by (auto simp: emits_def)

lemma bo_writes_refl: "bo_ok s \<Longrightarrow> bo_writes s [] s"
  by (simp add: bo_writes_def)

lemma emits_ret [intro]: "emits (ret ()) []"
  by (rule emitsI) (auto intro: bo_writes_refl)

lemma emits_seqc:
  assumes m: "emits m bs" and n: "emits n cs"
  shows "emits (seqc m n) (bs @ cs)"
proof (rule emitsI)
  fix s
  assume ok: "bo_ok s" and room: "length (bs @ cs) + 9 \<le> bo_room s"
  then have "length bs + 9 \<le> bo_room s" by simp
  with m ok obtain t where t: "m s = (Inr (), t)" "bo_writes s bs t" by (rule emitsE)
  then have "bo_ok t" "length cs + 9 \<le> bo_room t"
    using room bo_writes_room [OF t(2)] by (simp_all add: bo_writes_def)
  with n obtain u where u: "n t = (Inr (), u)" "bo_writes t cs u" by (rule emitsE)
  from bo_writes_trans [OF ok t(2) u(2)] t(1) u(1)
  show "\<exists>u. seqc m n s = (Inr (), u) \<and> bo_writes s (bs @ cs) u"
    by (simp add: seqc_Inr)
qed

lemma emits_for_each:
  "(\<And>x. x \<in> set xs \<Longrightarrow> emits (f x) (g x)) \<Longrightarrow> emits (for_each f xs) (concat (map g xs))"
  by (induction xs) (auto intro: emits_seqc)

lemma emits_obo_emit: "length bs \<le> k \<Longrightarrow> k \<le> length bs + 9 \<Longrightarrow> emits (obo_emit k bs) bs"
  by (rule emitsI) (metis obo_emit_writes le_trans)

lemma emits_abo_write1: "emits (abo_write1 b) [b]"
proof (rule emitsI)
  fix s
  assume "bo_ok s" and room: "length [b] + 9 \<le> bo_room s"
  then have "0 + 1 \<le> length [b]" "length [b] < npos" "1 \<le> bo_room s" "[b] = take 1 (drop 0 [b])"
    by (simp_all add: npos_def size_max_def)
  from abo_write_range_writes [OF \<open>bo_ok s\<close> this] show "\<exists>t. abo_write1 b s = (Inr (), t) \<and> bo_writes s [b] t"
    using \<open>bo_ok s\<close> \<open>1 \<le> bo_room s\<close> by (metis abo_write1_eq)
qed

lemma emits_abo_write_range:
  assumes "off + cb \<le> length vab" and "length vab < npos"
  shows "emits (abo_write_range vab off cb) (take cb (drop off vab))"
proof (rule emitsI)
  fix s
  assume "bo_ok s" and "length (take cb (drop off vab)) + 9 \<le> bo_room s"
  with assms have "cb \<le> bo_room s" by simp
  from abo_write_range_writes [OF \<open>bo_ok s\<close> assms this refl]
  show "\<exists>t. abo_write_range vab off cb s = (Inr (), t) \<and> bo_writes s (take cb (drop off vab)) t"
    by metis
qed

lemma emits_abo_write: "length vab < npos \<Longrightarrow> emits (abo_write vab) vab"
  using emits_abo_write_range [of 0 "length vab" vab] by (simp add: abo_write_def)

lemma emits_abo_write_tmp:
  assumes "length bs < npos" and "bs \<noteq> []"
  shows "emits (abo_write_tmp bs) bs"
proof (cases "length bs = 1")
  case True
  then obtain b where "bs = [b]" by (cases bs) auto
  with emits_abo_write1 show ?thesis by (simp add: abo_write_tmp_def)
next
  case False
  with emits_abo_write_range [of 0 "length bs" bs] assms show ?thesis by (simp add: abo_write_tmp_def)
qed

lemma length_encode_char16: "encode_char16 ch \<noteq> []" "length (encode_char16 ch) \<le> 3"
  by (simp_all add: encode_char16_def)

lemma length_split4 [simp]: "length (split4 n) = 4"
  by (simp add: split4_def)

lemma length_split8 [simp]: "length (split8 n) = 8"
  by (simp add: split8_def)

lemma pack_int_pos: "0 < length (pack_int n)"
  by simp

text \<open>The generic and the optimised output write the same octets.\<close>

lemma emits_abo:
  "emits (abo_write_char16 ch) (encode_char16 ch)"
  "emits (abo_write_int16 n16) (pack_int n16)"
  "emits (abo_write_int32 n32) (pack_int n32)"
  "emits (abo_write_int64 n64) (pack_int n64)"
  "emits (abo_write_float32 f32) (split4 f32)"
  "emits (abo_write_float64 f64) (split8 f64)"
  "emits (abo_write_boolean f) [if f then 1 else 0]"
proof -
  have small: "n < npos" if "n \<le> 10" for n using that by (simp add: npos_def size_max_def)
  show "emits (abo_write_char16 ch) (encode_char16 ch)"
    unfolding abo_write_char16_def using length_encode_char16 [of ch]
    by (intro emits_abo_write_tmp small) simp_all
  show "emits (abo_write_int16 n16) (pack_int n16)"
    unfolding abo_write_int16_def using length_pack_int16 [of n16]
    by (intro emits_abo_write_tmp small) simp_all
  show "emits (abo_write_int32 n32) (pack_int n32)"
    unfolding abo_write_int32_def using length_pack_int32 [of n32]
    by (intro emits_abo_write_tmp small) simp_all
  show "emits (abo_write_int64 n64) (pack_int n64)"
    unfolding abo_write_int64_def using length_pack_int64 [of n64]
    by (intro emits_abo_write_tmp small) simp_all
  show "emits (abo_write_float32 f32) (split4 f32)" "emits (abo_write_float64 f64) (split8 f64)"
    using emits_abo_write_range [of 0 4 "split4 f32"] emits_abo_write_range [of 0 8 "split8 f64"]
    by (simp_all add: abo_write_float32_def abo_write_float64_def small)
  show "emits (abo_write_boolean f) [if f then 1 else 0]"
    unfolding abo_write_boolean_def by (rule emits_abo_write1)
qed

lemma emits_obo:
  "emits (obo_write_char16 ch) (encode_char16 ch)"
  "emits (obo_write_int16 n16) (pack_int n16)"
  "emits (obo_write_int32 n32) (pack_int n32)"
  "emits (obo_write_int64 n64) (pack_int n64)"
  "emits (obo_write_float32 f32) (split4 f32)"
  "emits (obo_write_float64 f64) (split8 f64)"
  unfolding obo_write_char16_def obo_write_int16_def obo_write_int32_def obo_write_int64_def
    obo_write_float32_def obo_write_float64_def
  using length_encode_char16 [of ch] length_pack_int16 [of n16] length_pack_int32 [of n32]
    length_pack_int64 [of n64] pack_int_pos [of n64]
  by (auto intro!: emits_obo_emit simp: Suc_le_eq)


section \<open>Strings\<close>

text \<open>
  The length of a string is written as a 64-bit integer by the optimised output, as a
  32-bit one by the generic output and read as a 32-bit one: packing does not depend on
  the width.
\<close>

lemma pack_loop_ucast:
  assumes "LENGTH('a) \<le> LENGTH('b)"
  shows "pack_loop b (ucast (un :: 'a::len word) :: 'b::len word) = pack_loop b un"
proof (induction b un rule: pack_loop.induct)
  case (1 b un)
  have zero: "(ucast un :: 'b word) = 0 \<longleftrightarrow> un = 0"
  proof -
    have "bit (ucast un :: 'b word) i \<longleftrightarrow> bit un i" for i
      using assms by (auto simp: bit_unsigned_iff possible_bit_word dest: bit_imp_le_length)
    then show ?thesis by (metis bit_0_eq bit_eqI bot_apply)
  qed
  have drop: "drop_bit 7 (ucast un :: 'b word) = ucast (drop_bit 7 un)"
    by (rule bit_eqI) (use assms in \<open>auto simp: packed_bits dest: bit_imp_le_length\<close>)
  have low: "(ucast ((ucast un :: 'b word) AND 0x7F) :: octet_t) = ucast (un AND 0x7F)"
    by (rule bit_eqI) (use assms in \<open>auto simp: packed_bits dest: bit_imp_le_length\<close>)
  show ?case
  proof (cases "un = 0")
    case False
    then have "(ucast un :: 'b word) \<noteq> 0" using zero by blast
    then have "pack_loop b (ucast un :: 'b word)
        = (b OR 0x80) # pack_loop (ucast ((ucast un :: 'b word) AND 0x7F)) (drop_bit 7 (ucast un :: 'b word))"
      by (rule pack_loop_nonzero)
    also have "\<dots> = pack_loop b un"
      by (simp only: low drop 1 [OF False] pack_loop_nonzero [OF False])
    finally show ?thesis .
  qed simp
qed

lemma pack_int_scast:
  assumes "LENGTH('a) \<le> LENGTH('b)"
  shows "pack_int (scast (n :: 'a::len word) :: 'b::len word) = pack_int n"
proof -
  have pos: "0 < LENGTH('a)" by simp
  have last: "bit (scast n :: 'b word) (LENGTH('b) - 1) = bit n (LENGTH('a) - 1)"
    using assms pos by (auto simp: bit_signed_iff possible_bit_word min_def)
  then have neg: "(scast n :: 'b word) <s 0 \<longleftrightarrow> n <s 0"
    by (simp add: word_sless_alt bit_last_iff [symmetric])
  define m where "m = (if n <s 0 then NOT n else n)"
  have m: "(if n <s 0 then NOT (scast n :: 'b word) else scast n) = ucast m"
  proof (rule bit_eqI)
    fix i
    assume "possible_bit TYPE('b word) i"
    then have i: "i < LENGTH('b)" by (simp add: possible_bit_word)
    show "bit (if n <s 0 then NOT (scast n :: 'b word) else scast n) i = bit (ucast m :: 'b word) i"
      using i assms pos neg
      by (cases "i < LENGTH('a) - 1"; cases "i = LENGTH('a) - 1")
        (auto simp: m_def bit_signed_iff bit_not_iff possible_bit_word bit_unsigned_iff min_def
          word_sless_alt bit_last_iff [symmetric] dest: bit_imp_le_length)
  qed
  have low: "(ucast (ucast m :: 'b word) :: octet_t) AND 0x3F = ucast m AND 0x3F"
    by (rule bit_eqI) (use assms in \<open>auto simp: packed_bits dest: bit_imp_le_length\<close>)
  have drop: "drop_bit 6 (ucast m :: 'b word) = ucast (drop_bit 6 m)"
    by (rule bit_eqI) (use assms in \<open>auto simp: packed_bits dest: bit_imp_le_length\<close>)
  have "pack_int (scast n :: 'b word) =
      pack_loop ((if n <s 0 then 0x40 else 0) OR (ucast (ucast m :: 'b word) AND 0x3F)) (drop_bit 6 (ucast m :: 'b word))"
    by (simp only: pack_int_def Let_def neg m)
  also have "\<dots> = pack_int n"
    by (simp only: low drop pack_loop_ucast [OF assms] pack_int_def Let_def m_def [symmetric])
  finally show ?thesis .
qed

text \<open>The octets of a string, null or not.\<close>

definition string_octets :: "cstring option \<Rightarrow> octet_t list" where
  "string_octets vs =
     (case vs of
        None \<Rightarrow> pack_int (- 1 :: int32_t)
      | Some s \<Rightarrow> pack_int (of_nat (length s) :: int32_t) @ s)"

lemma pack_int64_of_nat:
  assumes "k < 2 ^ 31"
  shows "pack_int (of_nat k :: int64_t) = pack_int (of_nat k :: int32_t)"
proof -
  have "sint (of_nat k :: int32_t) = int k"
    using assms by (simp add: signed_of_nat signed_take_bit_int_eq_self)
  then have "(scast (of_nat k :: int32_t) :: int64_t) = of_nat k"
    by (metis of_int_of_nat_eq of_int_sint)
  with pack_int_scast [of "of_nat k :: int32_t", where 'b = 64] show ?thesis by simp
qed

lemma pack_int64_minus1: "pack_int (- 1 :: int64_t) = pack_int (- 1 :: int32_t)"
  using pack_int_scast [of "- 1 :: int32_t", where 'b = 64] by simp

lemma bo_room_max: "bo_room s + 1025 \<le> size_max"
  by (simp add: bo_room_def wb_limit_def size_max_def)

lemma emits_obo_write_string:
  assumes "\<And>s. vs = Some s \<Longrightarrow> length s < 2 ^ 31"
  shows "emits (obo_write_string vs) (string_octets vs)"
proof (cases vs)
  case None
  with emits_obo(4) [of "- 1"] show ?thesis
    by (simp add: obo_write_string_def string_octets_def pack_int64_minus1)
next
  case (Some s)
  let ?copy = "seqc (bo_on_buf (\<lambda>off. wb_check_bounds off (length s)))
     (seqc (bo_on_buf (\<lambda>off. wb_copy_in (s @ [0]) 0 off (length s))) (bo_move_offset (length s)))"
  have copy: "emits ?copy s"
  proof (rule emitsI)
    fix st
    assume ok: "bo_ok st" and room: "length s + 9 \<le> bo_room st"
    then have "0 + length s \<le> length (s @ [0])" "length (s @ [0]) < npos" "length s \<le> bo_room st"
      "s = take (length s) (drop 0 (s @ [0]))"
      using bo_room_max [of st] by (simp_all add: npos_def size_max_def)
    from wb_write_bo [OF ok this] obtain wb where
      "wb_write (bo_of st) (s @ [0]) 0 (length s) (bo_buf st) = (Inr (), wb)"
      and t: "bo_writes st s \<lparr>bo_buf = wb, bo_of = bo_of st + length s\<rparr>" .
    then have "?copy st = (Inr (), \<lparr>bo_buf = wb, bo_of = size_add (bo_of st) (length s)\<rparr>)"
      by (auto simp: wb_write_def seqc_def bindc_def bo_on_buf_def bo_move_offset_def Let_def
          wb_set_length_def split: prod.splits sum.splits)
    moreover have "bo_of st + length s < size_max"
      using t by (simp add: bo_writes_def bo_ok_def wb_ok_def size_max_def)
    ultimately show "\<exists>t. ?copy st = (Inr (), t) \<and> bo_writes st s t" using t by simp
  qed
  show ?thesis
  proof (rule emitsI)
    fix st
    assume ok: "bo_ok st" and room: "length (string_octets vs) + 9 \<le> bo_room st"
    from assms Some have "length s < 2 ^ 31" by simp
    then have "string_octets vs = pack_int (of_nat (length s) :: int64_t) @ s"
      by (simp add: Some string_octets_def pack_int64_of_nat)
    moreover have "emits (obo_write_string vs) (pack_int (of_nat (length s) :: int64_t) @ s)"
      using emits_seqc [OF emits_obo(4) copy] emits_seqc [OF emits_obo(4) emits_ret]
      by (cases "s = []") (auto simp: obo_write_string_def Some Let_def)
    ultimately show "\<exists>t. obo_write_string vs st = (Inr (), t) \<and> bo_writes st (string_octets vs) t"
      using ok room by (auto elim: emitsE)
  qed
qed

lemma concat_singletons [simp]: "concat (map (\<lambda>b. [b]) s) = s"
  by (induction s) simp_all

lemma emits_abo_write_string: "emits (abo_write_string vs) (string_octets vs)"
proof (cases vs)
  case None
  with emits_abo(3) [of "- 1"] show ?thesis by (simp add: abo_write_string_def string_octets_def)
next
  case (Some s)
  have "emits (for_each abo_write1 s) (concat (map (\<lambda>b. [b]) s))"
    by (rule emits_for_each) (rule emits_abo_write1)
  with emits_seqc [OF emits_abo(3)] Some show ?thesis
    by (simp add: abo_write_string_def string_octets_def concat_singletons)
qed

end
