(* ===== verification/Buffer_Roundtrip.thy ===== *)
theory Buffer_Roundtrip
  imports Write_Buffer
begin

text \<open>
  What the outputs of \<open>Write_Buffer\<close> write, the inputs of \<open>Read_Buffer\<close> read back.  Each
  lemma is a \<^const>\<open>parses\<close> statement, so that they compose to the round trips of the
  portable object format.
\<close>

abbreviation reads :: "(buffer_input, 'a) comp \<Rightarrow> octet_t list \<Rightarrow> 'a \<Rightarrow> bool" where
  "reads \<equiv> parses bi_ok bi_rem"

named_theorems reads_intros \<open>reading back what was written\<close>

lemma reads_obi_read [reads_intros]: "reads obi_read [b] b"
  by (rule obi.parses_rd)

lemma reads_abi_read: "reads abi_read [b] b"
  by (rule abi.parses_rd)

section \<open>Integers\<close>

lemma reads_obi_unpack_int:
  assumes "6 < LENGTH('w)" and "LENGTH('w) \<le> lim"
  shows "reads (obi_unpack_int lim) (pack_int n) (n :: 'w::len word)"
proof (rule parsesI)
  fix s rest
  assume "bi_ok s" and "bi_rem s = pack_int n @ rest"
  from abi.parses_unpack_int [OF assms] this obtain t where
    "unpack_int abi_read lim s = (Inr n, t)" "bi_ok t" "bi_rem t = rest" by (rule parsesE)
  then show "\<exists>t. obi_unpack_int lim s = (Inr n, t) \<and> bi_ok t \<and> bi_rem t = rest"
    by (simp add: obi_unpack_int_refines [OF \<open>bi_ok s\<close>])
qed

lemma reads_obi_ints [reads_intros]:
  "reads obi_read_int16 (pack_int n16) n16"
  "reads obi_read_int32 (pack_int n32) n32"
  "reads obi_read_int64 (pack_int n64) n64"
  unfolding obi_read_int16_def obi_read_int32_def obi_read_int64_def
  by (rule reads_obi_unpack_int; simp)+

lemma reads_abi_ints:
  "reads (abi_read_int16 abi_read) (pack_int n16) n16"
  "reads (abi_read_int32 abi_read) (pack_int n32) n32"
  "reads (abi_read_int64 abi_read) (pack_int n64) n64"
  unfolding abi_read_int16_def abi_read_int32_def abi_read_int64_def
  by (rule abi.parses_unpack_int; simp)+

section \<open>Positions\<close>

lemma bi_rem_append:
  assumes ok: "bi_ok s" and rem: "bi_rem s = bs @ rest"
  shows "bi_of s + length bs \<le> rb_cb (bi_buf s)"
    and "bi_ok (s\<lparr>bi_of := bi_of s + length bs\<rparr>)"
    and "bi_rem (s\<lparr>bi_of := bi_of s + length bs\<rparr>) = rest"
    and "take (length bs) (drop (rb_of (bi_buf s) + bi_of s) (rb_vab (bi_buf s))) = bs"
proof -
  have "length bs + length rest = bi_length s - bi_of s"
    using length_bi_rem [OF ok] rem by simp
  then show le: "bi_of s + length bs \<le> rb_cb (bi_buf s)"
    using bi_ok_bounds(1) [OF ok] by (simp add: bi_length_def)
  then show "bi_ok (s\<lparr>bi_of := bi_of s + length bs\<rparr>)" using ok by (simp add: bi_ok_def)
  have "drop (length bs) (bi_rem s) = rest" by (simp add: rem)
  then show "bi_rem (s\<lparr>bi_of := bi_of s + length bs\<rparr>) = rest"
    by (simp add: bi_rem_def add.commute)
  have "take (length bs) (bi_rem s) = bs" by (simp add: rem)
  then show "take (length bs) (drop (rb_of (bi_buf s) + bi_of s) (rb_vab (bi_buf s))) = bs"
    using le by (simp add: bi_rem_def rb_octets_def drop_take add.commute min_absorb1)
qed

lemma raw_at_rem:
  assumes ok: "bi_ok s" and rem: "bi_rem s = bs @ rest" and i: "i < length bs"
  shows "raw_at (rb_vab (bi_buf s)) (rb_of (bi_buf s) + bi_of s + i) = Inr (bs ! i)"
proof -
  have "i < length (bi_rem s)" using rem i by simp
  from bi_rem_nth [OF ok this] have
    "rb_vab (bi_buf s) ! (rb_of (bi_buf s) + bi_of s + i) = bs ! i"
    using rem i by (simp add: nth_append)
  moreover have "bi_of s + i < rb_cb (bi_buf s)" using bi_rem_append(1) [OF ok rem] i by simp
  ultimately show ?thesis
    using raw_at_ok [OF ok, of "bi_of s + i"] by (simp add: add.assoc)
qed

section \<open>Characters\<close>

lemma encode_char16_cases:
  obtains (one) b where "encode_char16 ch = [b]" "\<not> bit b 7" "ucast b = ch"
  | (two) b b2 where "encode_char16 ch = [b, b2]" "bit b 7" "bit b 6" "\<not> bit b 5" "is_cont b2"
      "decode2 b b2 = ch"
  | (three) b b2 b3 where "encode_char16 ch = [b, b2, b3]" "bit b 7" "bit b 6" "bit b 5" "\<not> bit b 4"
      "is_cont b2" "is_cont b3" "decode3 b b2 b3 = ch"
proof -
  consider (a) "ch \<le> 0x7F" | (b) "\<not> ch \<le> 0x7F" "ch \<le> 0x7FF" | (c) "\<not> ch \<le> 0x7F" "\<not> ch \<le> 0x7FF" by blast
  then show ?thesis
  proof cases
    case a
    then have "\<not> bit (ucast ch :: octet_t) 7" by (auto simp: char16_ranges utf_bits)
    with a decode1_encode [OF a] show ?thesis by (intro one [of "ucast ch"]) (simp_all add: encode_char16_def)
  next
    case b
    with decode2_encode [of ch] show ?thesis
      by (intro two [of "0xC0 OR (ucast (drop_bit 6 ch) AND 0x1F)" "0x80 OR (ucast ch AND 0x3F)"])
        (simp_all add: encode_char16_def utf_bits)
  next
    case c
    with decode3_encode [of ch] show ?thesis
      by (intro three [of "0xE0 OR (ucast (drop_bit 12 ch) AND 0x0F)"
            "0x80 OR (ucast (drop_bit 6 ch) AND 0x3F)" "0x80 OR (ucast ch AND 0x3F)"])
        (simp_all add: encode_char16_def utf_bits)
  qed
qed

lemma obi_decode_char16_simps:
  "\<not> bit b 7 \<Longrightarrow> obi_decode_char16 ab off b = Inr (ucast b, off)"
  "bit b 7 \<Longrightarrow> bit b 6 \<Longrightarrow> \<not> bit b 5 \<Longrightarrow>
   obi_decode_char16 ab off b = case_exn (raw_at ab off) (\<lambda>b2.
     if \<not> is_cont b2 then Inl UTFDataFormatException else Inr (decode2 b b2, off + 1))"
  "bit b 7 \<Longrightarrow> bit b 6 \<Longrightarrow> bit b 5 \<Longrightarrow> \<not> bit b 4 \<Longrightarrow>
   obi_decode_char16 ab off b =
     case_exn (raw_at ab off) (\<lambda>b2. case_exn (raw_at ab (off + 1)) (\<lambda>b3.
       if \<not> is_cont b2 \<or> \<not> is_cont b3 then Inl UTFDataFormatException
       else Inr (decode3 b b2 b3, off + 2)))"
  unfolding obi_decode_char16_def Let_def by (simp_all only: lead_octet_classes simp_thms if_True if_False)

lemma reads_obi_read_char16 [reads_intros]: "reads obi_read_char16 (encode_char16 ch) ch"
proof (rule parsesI)
  fix s rest
  assume ok: "bi_ok s" and rem: "bi_rem s = encode_char16 ch @ rest"
  let ?buf = "bi_buf s" and ?bs = "encode_char16 ch"
  let ?off = "rb_of ?buf + bi_of s"
  note pos = bi_rem_append [OF ok rem]
  note at = raw_at_rem [OF ok rem]
  have ne: "0 < length ?bs" using length_encode_char16 [of ch] by simp
  have lead: "raw_at (rb_vab ?buf) ?off = Inr (hd ?bs)"
    using at [OF ne] ne by (simp add: hd_conv_nth)
  have bounds: "rb_of ?buf + rb_cb ?buf < size_max" "?off < rb_of ?buf + rb_cb ?buf"
    using bi_ok_bounds(3) [OF ok] pos(1) ne by (simp_all del: length_greater_0_conv)
  have dec: "obi_decode_char16 (rb_vab ?buf) (?off + 1) (hd ?bs) = Inr (ch, ?off + length ?bs)"
  proof (cases ch rule: encode_char16_cases)
    case (one b)
    then show ?thesis by (simp add: obi_decode_char16_simps(1))
  next
    case (two b b2)
    with at [of 1] show ?thesis by (simp add: obi_decode_char16_simps(2) case_exn_def)
  next
    case (three b b2 b3)
    with at [of 1] at [of 2] show ?thesis
      by (simp add: obi_decode_char16_simps(3) case_exn_def numeral_eq_Suc)
  qed
  have "size_sub (?off + length ?bs) (rb_of ?buf) = bi_of s + length ?bs"
    using pos(1) bounds(1) by simp
  then have "obi_read_char16 s = (Inr ch, s\<lparr>bi_of := bi_of s + length ?bs\<rparr>)"
    using bounds dec by (simp add: obi_read_char16_def Let_def lead case_exn_def)
  with pos(2,3) show "\<exists>t. obi_read_char16 s = (Inr ch, t) \<and> bi_ok t \<and> bi_rem t = rest" by simp
qed


section \<open>Floating-point numbers\<close>

lemma join4_split4 [simp]:
  "join4 (ucast (drop_bit 24 n)) (ucast (drop_bit 16 n)) (ucast (drop_bit 8 n)) (ucast n) = n"
proof (rule bit_eqI)
  fix i
  assume "possible_bit TYPE(32 word) i"
  then have "i < 32" by (simp add: possible_bit_word)
  then show "bit (join4 (ucast (drop_bit 24 n)) (ucast (drop_bit 16 n)) (ucast (drop_bit 8 n)) (ucast n)) i = bit n i"
    by (cases "i < 8"; cases "i < 16"; cases "i < 24") (auto simp: join4_def packed_bits)
qed

lemma join_words [simp]:
  "push_bit 32 (ucast (ucast (drop_bit 32 l) :: 32 word)) OR ucast (ucast l :: 32 word) = (l :: 64 word)"
proof (rule bit_eqI)
  fix i
  assume "possible_bit TYPE(64 word) i"
  then show "bit (push_bit 32 (ucast (ucast (drop_bit 32 l) :: 32 word)) OR ucast (ucast l :: 32 word) :: 64 word) i = bit l i"
    by (cases "i < 32") (auto simp: packed_bits)
qed

lemma raw_at4_rem:
  assumes ok: "bi_ok s" and rem: "bi_rem s = (as @ split4 n @ bs) @ rest"
  shows "raw_at4 (rb_vab (bi_buf s)) (rb_of (bi_buf s) + bi_of s + length as) = Inr n"
proof -
  note at = raw_at_rem [OF ok rem]
  have "raw_at (rb_vab (bi_buf s)) (rb_of (bi_buf s) + bi_of s + length as + i) = Inr (split4 n ! i)"
    if "i < 4" for i
    using at [of "length as + i"] that by (simp add: nth_append add.assoc)
  from this [of 0] this [of 1] this [of 2] this [of 3]
  show ?thesis by (simp add: raw_at4_def split4_def case_exn_def)
qed

lemma reads_obi_floats [reads_intros]:
  "reads obi_read_float32 (split4 f32) f32"
  "reads obi_read_float64 (split8 f64) f64"
proof -
  show "reads obi_read_float32 (split4 f32) f32"
  proof (rule parsesI)
    fix s rest
    assume ok: "bi_ok s" and rem: "bi_rem s = split4 f32 @ rest"
    have "bi_rem s = ([] @ split4 f32 @ []) @ rest" by (simp add: rem)
    from raw_at4_rem [OF ok this] bi_rem_append [OF ok rem] bi_ok_bounds [OF ok]
    show "\<exists>t. obi_read_float32 s = (Inr f32, t) \<and> bi_ok t \<and> bi_rem t = rest"
      by (simp add: obi_read_float32_def Let_def)
  qed
  show "reads obi_read_float64 (split8 f64) f64"
  proof (rule parsesI)
    fix s rest
    assume ok: "bi_ok s" and rem: "bi_rem s = split8 f64 @ rest"
    have "bi_rem s = ([] @ split4 (ucast (drop_bit 32 f64)) @ split4 (ucast f64)) @ rest"
      and "bi_rem s = (split4 (ucast (drop_bit 32 f64)) @ split4 (ucast f64) @ []) @ rest"
      by (simp_all add: rem split8_def)
    note ats = raw_at4_rem [OF ok this(1)] raw_at4_rem [OF ok this(2)]
    from ats bi_rem_append [OF ok rem] bi_ok_bounds [OF ok]
    show "\<exists>t. obi_read_float64 s = (Inr f64, t) \<and> bi_ok t \<and> bi_rem t = rest"
      by (simp add: obi_read_float64_def Let_def case_exn_def)
  qed
qed

section \<open>Strings and octets\<close>

definition string_ok :: "cstring option \<Rightarrow> bool" where
  "string_ok vs \<longleftrightarrow> (case vs of None \<Rightarrow> True | Some s \<Rightarrow> valid_string s \<and> length s < 2 ^ 31)"

lemma int32_of_nat:
  assumes "k < 2 ^ 31"
  shows "\<not> (of_nat k :: int32_t) <s 0" and "unat (of_nat k :: int32_t) = k"
  using assms by (simp_all add: word_sless_alt signed_of_nat signed_take_bit_int_eq_self
      unat_of_nat take_bit_nat_eq_self)

lemma reads_obi_convert_utf:
  assumes "valid_string str" and "str \<noteq> []" and "length str < 2 ^ 31"
  shows "reads (abi_read_utf obi_convert_utf (length str)) str str"
proof (rule parsesI)
  fix s rest
  assume ok: "bi_ok s" and rem: "bi_rem s = str @ rest"
  note pos = bi_rem_append [OF ok rem] and bounds = bi_ok_bounds [OF ok]
  let ?buf = "bi_buf s"
  have "0 < length str" using assms(2) by simp
  then have "string_create (rb_vab ?buf) (rb_of ?buf + bi_of s) (length str) = Inr str"
    using pos(1,4) bounds ok assms(1)
    by (subst string_create_valid) (auto simp: bi_ok_def rb_ok_def simp del: length_greater_0_conv)
  moreover have "size_add (bi_of s) (length str) = bi_of s + length str"
    "size_add (rb_of ?buf) (bi_of s) = rb_of ?buf + bi_of s"
    using pos(1) bounds by simp_all
  ultimately have "abi_read_utf obi_convert_utf (length str) s = (Inr str, s\<lparr>bi_of := bi_of s + length str\<rparr>)"
    using assms(2) pos(1)
    by (simp add: abi_read_utf_def get_offset_def bi_get_def bindc_def seqc_def set_offset_internal_def
        bi_length_def obi_convert_utf_def)
  with pos(2,3) show "\<exists>t. abi_read_utf obi_convert_utf (length str) s = (Inr str, t) \<and> bi_ok t \<and> bi_rem t = rest"
    by simp
qed

lemma reads_obi_read_string [reads_intros]:
  assumes "string_ok vs"
  shows "reads obi_read_string (string_octets vs) vs"
proof (cases vs)
  case None
  have "reads obi_read_string (pack_int (- 1 :: int32_t) @ []) None"
    unfolding obi_read_string_def abi_read_string_def
    by (rule parses_bindc [OF reads_obi_ints(2)]) (auto simp: word_sless_alt)
  with None show ?thesis by (simp add: string_octets_def)
next
  case (Some str)
  with assms have str: "valid_string str" "length str < 2 ^ 31" by (simp_all add: string_ok_def)
  have "reads (mapc Some (abi_read_utf obi_convert_utf (length str))) str (Some str)"
  proof (cases "str = []")
    case True
    then show ?thesis by (auto simp: abi_read_utf_def intro!: parses_mapc)
  next
    case False
    with str reads_obi_convert_utf show ?thesis by (intro parses_mapc) auto
  qed
  then have "reads obi_read_string (pack_int (of_nat (length str) :: int32_t) @ str) (Some str)"
    unfolding obi_read_string_def abi_read_string_def
    by (intro parses_bindc [OF reads_obi_ints(2)]) (simp add: int32_of_nat [OF str(2)])
  with Some show ?thesis by (simp add: string_octets_def)
qed

lemma reads_obi_read_into:
  assumes "length hab < npos" and "off + length bs \<le> length hab" and "bs \<noteq> []"
  shows "reads (obi_read_into hab off (length bs)) bs (overwrite off bs hab)"
proof (rule parsesI)
  fix s rest
  assume ok: "bi_ok s" and rem: "bi_rem s = bs @ rest"
  note pos = bi_rem_append [OF ok rem] and bounds = bi_ok_bounds [OF ok]
  let ?buf = "bi_buf s"
  have "length (rb_vab ?buf) < npos" using ok by (simp add: bi_ok_def rb_ok_def)
  then have "array_copy (rb_vab ?buf) (rb_of ?buf + bi_of s) hab off (length bs) = Inr (overwrite off bs hab)"
    using pos(1,4) bounds assms by (subst array_copy_ok) auto
  moreover have "size_add off (length bs) = off + length bs"
    "size_add (rb_of ?buf) (bi_of s) = rb_of ?buf + bi_of s"
    "size_add (bi_of s) (length bs) = bi_of s + length bs"
    using pos(1) bounds assms by simp_all
  ultimately have "obi_read_into hab off (length bs) s
      = (Inr (overwrite off bs hab), s\<lparr>bi_of := bi_of s + length bs\<rparr>)"
    using assms pos(1) bounds by (simp add: obi_read_into_def Let_def)
  with pos(2,3) show "\<exists>t. obi_read_into hab off (length bs) s = (Inr (overwrite off bs hab), t) \<and> bi_ok t \<and> bi_rem t = rest"
    by simp
qed

text \<open>An array read into as a whole, which is how the object reader reads octets.\<close>

lemma reads_obi_read_all [reads_intros]:
  assumes "length bs < npos"
  shows "reads (obi_read_into (replicate (length bs) 0) 0 (length bs)) bs bs"
proof (cases "bs = []")
  case True
  then show ?thesis by (auto simp: obi_read_into_def Let_def size_max_def intro!: parsesI)
next
  case False
  with reads_obi_read_into [of "replicate (length bs) 0" 0 bs] assms show ?thesis
    by (simp add: overwrite_def)
qed

lemma reads_read_buffer_octets:
  assumes "bi_ok s" and "bi_rem s = bs @ rest"
  obtains t rb where "abi_read_buffer (length bs) s = (Inr rb, t)"
    and "bi_ok t" and "bi_rem t = rest" and "rb_octets rb = bs"
proof -
  note pos = bi_rem_append [OF assms] and bounds = bi_ok_bounds [OF assms(1)]
  let ?buf = "bi_buf s"
  have len: "length (rb_vab ?buf) < npos" using assms(1) by (simp add: bi_ok_def rb_ok_def)
  have sz: "size_add (bi_of s) (length bs) = bi_of s + length bs"
    "size_add (rb_of ?buf) (bi_of s) = rb_of ?buf + bi_of s"
    "size_add (rb_of ?buf + bi_of s) (length bs) = rb_of ?buf + bi_of s + length bs"
    using pos(1) bounds by simp_all
  have "length bs \<noteq> npos" using pos(1) bounds by simp
  then obtain rb where "rb_get_read_buffer ?buf (bi_of s) (length bs) = Inr rb" "rb_octets rb = bs"
    using pos(1,4) bounds len sz
    by (cases "bi_of s = 0 \<and> length bs = rb_cb ?buf")
      (auto simp: rb_get_read_buffer_def rb_check_bounds_def rb_create_def rb_octets_def)
  with pos(2,3) sz show ?thesis
    by (intro that [of rb "s\<lparr>bi_of := bi_of s + length bs\<rparr>"]) (simp_all add: abi_read_buffer_def)
qed

end
