(* ===== verification/Float_Bits.thy ===== *)
theory Float_Bits
  imports Coh_Prelude
begin

text \<open>
  IEEE 754 numbers by their bits.  \<^verbatim>\<open>Float32\<close> and \<^verbatim>\<open>Float64\<close> of
  \<^verbatim>\<open>coherence/lang\<close> expose the bits of the built-in types; the conversions of C++
  between integers and floating-point numbers, on which the lenient reading methods of the
  portable object format rely, are written out here: truncation towards zero (undefined
  when the value does not fit) and rounding to nearest, ties to even.
\<close>

section \<open>Values\<close>

datatype fp = FNaN | FInf bool | FFin bool nat int

text \<open>\<open>FFin s m x\<close> is $(-1)^s \cdot m \cdot 2^x$.\<close>

definition fp_of_parts :: "nat \<Rightarrow> int \<Rightarrow> nat \<Rightarrow> bool \<Rightarrow> nat \<Rightarrow> nat \<Rightarrow> fp" where
  "fp_of_parts p emin emax s e f =
     (if e = emax then (if f = 0 then FInf s else FNaN)
      else if e = 0 then FFin s f emin
      else FFin s (f + 2 ^ (p - 1)) (emin + int e - 1))"

definition fp_of_bits32 :: "float32_bits \<Rightarrow> fp" where
  "fp_of_bits32 b =
     (let n = unat b in
      fp_of_parts 24 (- 149) 255 (2 ^ 31 \<le> n) (n div 2 ^ 23 mod 2 ^ 8) (n mod 2 ^ 23))"

definition fp_of_bits64 :: "float64_bits \<Rightarrow> fp" where
  "fp_of_bits64 b =
     (let n = unat b in
      fp_of_parts 53 (- 1074) 2047 (2 ^ 63 \<le> n) (n div 2 ^ 52 mod 2 ^ 11) (n mod 2 ^ 52))"

definition fp_of_int :: "int \<Rightarrow> fp" where
  "fp_of_int n = FFin (n < 0) (nat \<bar>n\<bar>) 0"

section \<open>Rounding\<close>

fun bit_len :: "nat \<Rightarrow> nat" where
  "bit_len n = (if n = 0 then 0 else Suc (bit_len (n div 2)))"

declare bit_len.simps [simp del]

lemma bit_len_eval [simp]:
  "bit_len 0 = 0" "bit_len (Suc 0) = 1" "bit_len (numeral k) = Suc (bit_len (numeral k div 2))"
  by (simp_all add: bit_len.simps [of 0] bit_len.simps [of "Suc 0"] bit_len.simps [of "numeral k"])

definition round_shift :: "nat \<Rightarrow> nat \<Rightarrow> nat" where
  "round_shift m k =
     (let q = m div 2 ^ k; r = m mod 2 ^ k in
      if k = 0 then q
      else if 2 ^ (k - 1) < r \<or> (r = 2 ^ (k - 1) \<and> odd q) then q + 1 else q)"

text \<open>
  The magnitude bits of $m \cdot 2^x$ with precision \<open>p\<close>, least exponent \<open>emin\<close> and
  exponent \<open>emax\<close> of the infinities.  A carry out of the significand moves into the
  exponent field, which is the arithmetic the formats are made for.
\<close>

definition fp_magnitude :: "nat \<Rightarrow> int \<Rightarrow> nat \<Rightarrow> nat \<Rightarrow> int \<Rightarrow> nat" where
  "fp_magnitude p emin emax m x =
     (if m = 0 then 0
      else
        let k = max (int (bit_len m) - int p) (emin - x);
            sig = (if 0 \<le> k then round_shift m (nat k) else m * 2 ^ nat (- k));
            e = x + k - emin;
            n = (if sig < 2 ^ (p - 1) then sig else nat e * 2 ^ (p - 1) + sig)
        in min n (emax * 2 ^ (p - 1)))"

definition bits32_of_fp :: "fp \<Rightarrow> float32_bits" where
  "bits32_of_fp v =
     (case v of
        FNaN \<Rightarrow> 0x7FC00000
      | FInf s \<Rightarrow> if s then 0xFF800000 else 0x7F800000
      | FFin s m x \<Rightarrow> of_nat ((if s then 2 ^ 31 else 0) + fp_magnitude 24 (- 149) 255 m x))"

definition bits64_of_fp :: "fp \<Rightarrow> float64_bits" where
  "bits64_of_fp v =
     (case v of
        FNaN \<Rightarrow> 0x7FF8000000000000
      | FInf s \<Rightarrow> if s then 0xFFF0000000000000 else 0x7FF0000000000000
      | FFin s m x \<Rightarrow> of_nat ((if s then 2 ^ 63 else 0) + fp_magnitude 53 (- 1074) 2047 m x))"

definition int_to_float32 :: "'w::len word \<Rightarrow> float32_bits" where
  "int_to_float32 n = bits32_of_fp (fp_of_int (sint n))"

definition int_to_float64 :: "'w::len word \<Rightarrow> float64_bits" where
  "int_to_float64 n = bits64_of_fp (fp_of_int (sint n))"

definition float32_to_float64 :: "float32_bits \<Rightarrow> float64_bits" where
  "float32_to_float64 b = bits64_of_fp (fp_of_bits32 b)"

definition float64_to_float32 :: "float64_bits \<Rightarrow> float32_bits" where
  "float64_to_float32 b = bits32_of_fp (fp_of_bits64 b)"

section \<open>Truncation\<close>

definition fp_trunc :: "fp \<Rightarrow> int option" where
  "fp_trunc v =
     (case v of
        FFin s m x \<Rightarrow>
          let k = (if 0 \<le> x then m * 2 ^ nat x else m div 2 ^ nat (- x))
          in Some (if s then - int k else int k)
      | _ \<Rightarrow> None)"

definition fp_to_int :: "fp \<Rightarrow> exn + 'w::len word" where
  "fp_to_int v =
     (case fp_trunc v of
        Some k \<Rightarrow>
          if - (2 ^ (LENGTH('w) - 1)) \<le> k \<and> k < 2 ^ (LENGTH('w) - 1) then Inr (of_int k)
          else Inl UndefinedBehaviour
      | None \<Rightarrow> Inl UndefinedBehaviour)"

section \<open>Classification\<close>

definition float32_is_zero :: "float32_bits \<Rightarrow> bool" where
  "float32_is_zero b \<longleftrightarrow> b AND 0x7FFFFFFF = 0"

definition float64_is_zero :: "float64_bits \<Rightarrow> bool" where
  "float64_is_zero b \<longleftrightarrow> b AND 0x7FFFFFFFFFFFFFFF = 0"

text \<open>
  The cached objects of \<^verbatim>\<open>Float32::valueOf\<close> and \<^verbatim>\<open>Float64::valueOf\<close>: the other
  cached values have the bits of the argument, only a negative zero loses its sign.
\<close>

definition float32_value_of :: "float32_bits \<Rightarrow> float32_bits" where
  "float32_value_of b = (if float32_is_zero b then 0 else b)"

definition float64_value_of :: "float64_bits \<Rightarrow> float64_bits" where
  "float64_value_of b = (if float64_is_zero b then 0 else b)"

section \<open>Exact conversions\<close>

lemma bit_len_bound: "m < 2 ^ bit_len m"
proof (induction m rule: bit_len.induct)
  case (1 n)
  show ?case
  proof (cases "n = 0")
    case False
    with 1 have "n div 2 < 2 ^ bit_len (n div 2)" by simp
    then have "n < 2 * 2 ^ bit_len (n div 2)" by linarith
    with False show ?thesis by (simp add: bit_len.simps [of n])
  qed (simp add: bit_len.simps)
qed

lemma bit_len_least: "m < 2 ^ k \<Longrightarrow> bit_len m \<le> k"
proof (induction m arbitrary: k rule: bit_len.induct)
  case (1 n)
  show ?case
  proof (cases "n = 0")
    case False
    with "1.prems" obtain j where k: "k = Suc j" by (cases k) auto
    with "1.prems" have "n div 2 < 2 ^ j" by simp
    with 1(1) [OF False this] k False show ?thesis by (simp add: bit_len.simps [of n])
  qed (simp add: bit_len.simps)
qed

lemma bit_len_pos: "0 < m \<Longrightarrow> 2 ^ (bit_len m - 1) \<le> m"
proof (rule ccontr)
  assume pos: "0 < m" and "\<not> 2 ^ (bit_len m - 1) \<le> m"
  then have "bit_len m \<le> bit_len m - 1" by (intro bit_len_least) simp
  moreover have "0 < bit_len m" using pos by (simp add: bit_len.simps)
  ultimately show False by simp
qed

text \<open>A magnitude within the precision is encoded without rounding.\<close>

lemma fp_magnitude_exact:
  assumes m: "0 < m" "bit_len m \<le> p" and p: "0 < p" and x: "emin + int p \<le> int (bit_len m) + x"
    and big: "x - emin + int (bit_len m) - int p + 1 < int emax"
  shows "fp_magnitude p emin emax m x =
    nat (x - emin + int (bit_len m) - int p) * 2 ^ (p - 1) + m * 2 ^ (p - bit_len m)"
proof -
  define k where "k = int (bit_len m) - int p"
  have k: "max k (emin - x) = k" "k \<le> 0" using x m(2) by (simp_all add: k_def)
  have len: "0 < bit_len m" using m(1) by (simp add: bit_len.simps)
  let ?sig = "m * 2 ^ (p - bit_len m)"
  have nk: "nat (- k) = p - bit_len m" using m(2) by (simp add: k_def)
  have sig: "(if 0 \<le> k then round_shift m (nat k) else m * 2 ^ nat (- k)) = ?sig"
    using k(2) nk by (auto simp: round_shift_def)
  have "2 ^ (bit_len m - 1) * 2 ^ (p - bit_len m) \<le> ?sig"
    using bit_len_pos [OF m(1)] by (intro mult_right_mono) simp_all
  moreover have "(2::nat) ^ (bit_len m - 1) * 2 ^ (p - bit_len m) = 2 ^ (p - 1)"
    using len m(2) by (simp add: power_add [symmetric])
  ultimately have low: "2 ^ (p - 1) \<le> ?sig" by metis
  have "?sig < 2 ^ bit_len m * 2 ^ (p - bit_len m)"
    using bit_len_bound [of m] by simp
  also have "\<dots> = 2 ^ p" using m(2) by (simp add: power_add [symmetric])
  also have "\<dots> = 2 * 2 ^ (p - 1)" using p by (cases p) simp_all
  finally have high: "?sig < 2 * 2 ^ (p - 1)" .
  define e where "e = x + k - emin"
  have e: "0 \<le> e" "nat e + 2 \<le> emax" using x big by (simp_all add: e_def k_def)
  have "nat e * 2 ^ (p - 1) + ?sig < (nat e + 2) * 2 ^ (p - 1)"
    using high by (simp add: algebra_simps)
  also have "\<dots> \<le> emax * 2 ^ (p - 1)" using e(2) by (rule mult_right_mono) simp
  finally have "min (nat e * 2 ^ (p - 1) + ?sig) (emax * 2 ^ (p - 1)) = nat e * 2 ^ (p - 1) + ?sig"
    by simp
  with low m(1) show ?thesis
    unfolding fp_magnitude_def Let_def k_def [symmetric] k(1) sig e_def [symmetric]
    by (simp add: e_def k_def algebra_simps)
qed

end
