(* ===== verification/Pof_Helper.thy ===== *)
theory Pof_Helper
  imports Buffer_Roundtrip Float_Bits
begin

text \<open>
  \<^verbatim>\<open>PofConstants\<close> and \<^verbatim>\<open>PofHelper\<close> of \<^verbatim>\<open>coherence/io/pof\<close>: the type identifiers
  of the portable object format, the lenient reading of numbers, the validation of dates,
  times and sizes, and skipping a value of any type.
\<close>

section \<open>Type identifiers\<close>

abbreviation (input) "t_int16 \<equiv> (- 1 :: int32_t)"
abbreviation (input) "t_int32 \<equiv> (- 2 :: int32_t)"
abbreviation (input) "t_int64 \<equiv> (- 3 :: int32_t)"
abbreviation (input) "t_int128 \<equiv> (- 4 :: int32_t)"
abbreviation (input) "t_float32 \<equiv> (- 5 :: int32_t)"
abbreviation (input) "t_float64 \<equiv> (- 6 :: int32_t)"
abbreviation (input) "t_float128 \<equiv> (- 7 :: int32_t)"
abbreviation (input) "t_decimal32 \<equiv> (- 8 :: int32_t)"
abbreviation (input) "t_decimal64 \<equiv> (- 9 :: int32_t)"
abbreviation (input) "t_decimal128 \<equiv> (- 10 :: int32_t)"
abbreviation (input) "t_boolean \<equiv> (- 11 :: int32_t)"
abbreviation (input) "t_octet \<equiv> (- 12 :: int32_t)"
abbreviation (input) "t_octet_string \<equiv> (- 13 :: int32_t)"
abbreviation (input) "t_char \<equiv> (- 14 :: int32_t)"
abbreviation (input) "t_char_string \<equiv> (- 15 :: int32_t)"
abbreviation (input) "t_date \<equiv> (- 16 :: int32_t)"
abbreviation (input) "t_year_month_interval \<equiv> (- 17 :: int32_t)"
abbreviation (input) "t_time \<equiv> (- 18 :: int32_t)"
abbreviation (input) "t_time_interval \<equiv> (- 19 :: int32_t)"
abbreviation (input) "t_datetime \<equiv> (- 20 :: int32_t)"
abbreviation (input) "t_day_time_interval \<equiv> (- 21 :: int32_t)"
abbreviation (input) "t_collection \<equiv> (- 22 :: int32_t)"
abbreviation (input) "t_uniform_collection \<equiv> (- 23 :: int32_t)"
abbreviation (input) "t_array \<equiv> (- 24 :: int32_t)"
abbreviation (input) "t_uniform_array \<equiv> (- 25 :: int32_t)"
abbreviation (input) "t_sparse_array \<equiv> (- 26 :: int32_t)"
abbreviation (input) "t_uniform_sparse_array \<equiv> (- 27 :: int32_t)"
abbreviation (input) "t_map \<equiv> (- 28 :: int32_t)"
abbreviation (input) "t_uniform_keys_map \<equiv> (- 29 :: int32_t)"
abbreviation (input) "t_uniform_map \<equiv> (- 30 :: int32_t)"
abbreviation (input) "t_identity \<equiv> (- 31 :: int32_t)"
abbreviation (input) "t_reference \<equiv> (- 32 :: int32_t)"
abbreviation (input) "v_boolean_false \<equiv> (- 33 :: int32_t)"
abbreviation (input) "v_boolean_true \<equiv> (- 34 :: int32_t)"
abbreviation (input) "v_string_zero_length \<equiv> (- 35 :: int32_t)"
abbreviation (input) "v_collection_empty \<equiv> (- 36 :: int32_t)"
abbreviation (input) "v_reference_null \<equiv> (- 37 :: int32_t)"
abbreviation (input) "v_fp_pos_infinity \<equiv> (- 38 :: int32_t)"
abbreviation (input) "v_fp_neg_infinity \<equiv> (- 39 :: int32_t)"
abbreviation (input) "v_fp_nan \<equiv> (- 40 :: int32_t)"
abbreviation (input) "v_int_neg_1 \<equiv> (- 41 :: int32_t)"
abbreviation (input) "v_int_0 \<equiv> (- 42 :: int32_t)"
abbreviation (input) "v_int_1 \<equiv> (- 43 :: int32_t)"
abbreviation (input) "v_int_22 \<equiv> (- 64 :: int32_t)"

text \<open>The compact integers \<^verbatim>\<open>v_int_neg_1\<close> down to \<^verbatim>\<open>v_int_22\<close>.\<close>

definition is_tiny_int :: "int32_t \<Rightarrow> bool" where
  "is_tiny_int t \<longleftrightarrow> v_int_22 \<le>s t \<and> t \<le>s v_int_neg_1"

section \<open>Tiny integers and sizes\<close>

definition encode_tiny_int32 :: "int32_t \<Rightarrow> exn + int32_t" where
  "encode_tiny_int32 n =
     (if - 1 \<le>s n \<and> n \<le>s 22 then Inr (v_int_0 - n) else Inl IllegalStateException)"

definition decode_tiny_int32 :: "int32_t \<Rightarrow> exn + int32_t" where
  "decode_tiny_int32 n =
     (if n \<le>s v_int_neg_1 \<and> v_int_22 \<le>s n then Inr (v_int_0 - n) else Inl IllegalStateException)"

text \<open>On a 32-bit \<^verbatim>\<open>size32_t\<close> the second test of both functions compares a value with itself.\<close>

definition validate_incoming_size :: "int32_t \<Rightarrow> exn + nat" where
  "validate_incoming_size cElements =
     (if \<not> 0 \<le>s cElements then Inl IllegalStateException
      else
        let nElements = unat cElements in
        if of_nat nElements \<noteq> cElements then Inl IllegalStateException else Inr nElements)"

definition validate_outgoing_size :: "nat \<Rightarrow> exn + int32_t" where
  "validate_outgoing_size cElements =
     (let nElements = of_nat cElements :: int32_t in
      if unat nElements \<noteq> cElements \<or> nElements <s 0 then Inl IllegalStateException
      else Inr nElements)"

section \<open>Lenient numbers\<close>

definition bi_incoming :: "(buffer_input, int32_t) comp \<Rightarrow> (buffer_input, nat) comp" where
  "bi_incoming m = bindc m (\<lambda>c. bi_lift (validate_incoming_size c))"

definition read_as_int32 :: "int32_t \<Rightarrow> (buffer_input, int32_t) comp" where
  "read_as_int32 nType =
     (if nType \<in> {t_boolean, t_int16, t_int32, t_int64, t_int128} then obi_read_int32
      else if nType = t_float32 then
        bindc obi_read_float32 (\<lambda>fl. bi_lift (fp_to_int (fp_of_bits32 fl)))
      else if nType = t_float64 then
        bindc obi_read_float64 (\<lambda>dfl. bi_lift (fp_to_int (fp_of_bits64 dfl)))
      else if nType = t_octet then mapc ucast obi_read
      else if nType = t_char then mapc ucast obi_read_char16
      else if nType \<in> {v_reference_null, v_boolean_false, v_int_0} then ret 0
      else if nType \<in> {v_boolean_true, v_int_1} then ret 1
      else if is_tiny_int nType then bi_lift (decode_tiny_int32 nType)
      else throw IOException)"

definition read_as_char16 :: "int32_t \<Rightarrow> (buffer_input, wchar16_t) comp" where
  "read_as_char16 nType =
     (if nType = t_octet then mapc ucast obi_read
      else if nType = t_char then obi_read_char16
      else mapc ucast (read_as_int32 nType))"

definition read_as_int64 :: "int32_t \<Rightarrow> (buffer_input, int64_t) comp" where
  "read_as_int64 nType =
     (if nType \<in> {t_int64, t_int128} then obi_read_int64
      else if nType = t_float32 then
        bindc obi_read_float32 (\<lambda>fl. bi_lift (fp_to_int (fp_of_bits32 fl)))
      else if nType = t_float64 then
        bindc obi_read_float64 (\<lambda>dfl. bi_lift (fp_to_int (fp_of_bits64 dfl)))
      else mapc scast (read_as_int32 nType))"

definition read_as_float32 :: "int32_t \<Rightarrow> (buffer_input, float32_bits) comp" where
  "read_as_float32 nType =
     (if nType = t_int64 then mapc int_to_float32 obi_read_int64
      else if nType = t_float32 then obi_read_float32
      else if nType = t_float64 then mapc float64_to_float32 obi_read_float64
      else if nType = v_fp_neg_infinity then ret 0xFF800000
      else if nType = v_fp_pos_infinity then ret 0x7F800000
      else if nType = v_fp_nan then ret 0x7FC00000
      else mapc int_to_float32 (read_as_int32 nType))"

definition read_as_float64 :: "int32_t \<Rightarrow> (buffer_input, float64_bits) comp" where
  "read_as_float64 nType =
     (if nType = t_int64 then mapc int_to_float64 obi_read_int64
      else if nType = t_float32 then mapc float32_to_float64 obi_read_float32
      else if nType = t_float64 then obi_read_float64
      else if nType = v_fp_neg_infinity then ret 0xFFF0000000000000
      else if nType = v_fp_pos_infinity then ret 0x7FF0000000000000
      else if nType = v_fp_nan then ret 0x7FF8000000000000
      else mapc int_to_float64 (read_as_int32 nType))"

section \<open>Dates, times and intervals\<close>

definition max_days_per_month :: "nat list" where
  "max_days_per_month = [31, 29, 31, 30, 31, 30, 31, 31, 30, 31, 30, 31]"

text \<open>The remainder of C++ truncates towards zero; it is tested against zero only.\<close>

definition check_date :: "int32_t \<Rightarrow> int32_t \<Rightarrow> int32_t \<Rightarrow> exn + unit" where
  "check_date nYear nMonth nDay =
     (let year = sint nYear; month = sint nMonth; day = sint nDay in
      if month < 1 \<or> 12 < month then Inl IllegalArgumentException
      else if day < 1 \<or> int (max_days_per_month ! nat (month - 1)) < day
      then Inl IllegalArgumentException
      else if month = 2 \<and> day = 29 \<and> (year mod 4 \<noteq> 0 \<or> (year mod 100 = 0 \<and> year mod 400 \<noteq> 0))
      then Inl IllegalArgumentException
      else Inr ())"

definition check_time :: "int32_t \<Rightarrow> int32_t \<Rightarrow> int32_t \<Rightarrow> int32_t \<Rightarrow> exn + unit" where
  "check_time nHour nMinute nSecond nNano =
     (let hour = sint nHour; minute = sint nMinute; second = sint nSecond; nano = sint nNano in
      if hour < 0 \<or> 23 < hour then Inl IllegalArgumentException
      else if minute < 0 \<or> 59 < minute then Inl IllegalArgumentException
      else if second < 0 \<or> (second = 60 \<and> 0 < nano) \<or> 60 < second then Inl IllegalArgumentException
      else if nano < 0 \<or> 999999999 < nano then Inl IllegalArgumentException
      else Inr ())"

definition check_time_zone :: "int32_t \<Rightarrow> int32_t \<Rightarrow> exn + unit" where
  "check_time_zone nHourOffset nMinuteOffset =
     (let hour = sint nHourOffset; minute = sint nMinuteOffset in
      if hour < - 23 \<or> 23 < hour then Inl IllegalArgumentException
      else if minute < 0 \<or> 59 < minute then Inl IllegalArgumentException
      else Inr ())"

definition abs32 :: "int32_t \<Rightarrow> int32_t" where
  "abs32 n = (if n <s 0 then - n else n)"

definition check_time_interval :: "int32_t \<Rightarrow> int32_t \<Rightarrow> int32_t \<Rightarrow> int32_t \<Rightarrow> exn + unit" where
  "check_time_interval cHours cMinutes cSeconds cNanos =
     (if cHours = 0 then
        if cMinutes = 0 then
          if cSeconds = 0 then check_time cHours cMinutes cSeconds (abs32 cNanos)
          else check_time cHours cMinutes (abs32 cSeconds) cNanos
        else check_time cHours (abs32 cMinutes) cSeconds cNanos
      else check_time (abs32 cHours) cMinutes cSeconds cNanos)"

definition check_day_time_interval ::
  "int32_t \<Rightarrow> int32_t \<Rightarrow> int32_t \<Rightarrow> int32_t \<Rightarrow> int32_t \<Rightarrow> exn + unit" where
  "check_day_time_interval cDays cHours cMinutes cSeconds cNanos =
     (if cDays = 0 then check_time_interval cHours cMinutes cSeconds cNanos
      else check_time cHours cMinutes cSeconds cNanos)"

definition check_year_month_interval :: "int32_t \<Rightarrow> int32_t \<Rightarrow> exn + unit" where
  "check_year_month_interval cYears cMonths =
     (if cYears = 0 \<and> (sint cMonths < - 11 \<or> 11 < sint cMonths) then Inl IllegalStateException
      else Inr ())"


text \<open>
  \<^verbatim>\<open>RawDate\<close>, \<^verbatim>\<open>RawTime\<close> and the intervals: immutable records whose constructors
  run the checks.
\<close>

record raw_date =
  rd_year :: int32_t
  rd_month :: int32_t
  rd_day :: int32_t

datatype time_zone = TZ_NONE | TZ_UTC | TZ_OFFSET

record raw_time =
  rt_hour :: int32_t
  rt_minute :: int32_t
  rt_second :: int32_t
  rt_nano :: int32_t
  rt_zone :: time_zone
  rt_hour_offset :: int32_t
  rt_minute_offset :: int32_t

record raw_time_interval =
  ti_hours :: int32_t
  ti_minutes :: int32_t
  ti_seconds :: int32_t
  ti_nanos :: int32_t

definition raw_date_create :: "int32_t \<Rightarrow> int32_t \<Rightarrow> int32_t \<Rightarrow> exn + raw_date" where
  "raw_date_create nYear nMonth nDay =
     case_exn (check_date nYear nMonth nDay)
       (\<lambda>_. Inr \<lparr>rd_year = nYear, rd_month = nMonth, rd_day = nDay\<rparr>)"

definition raw_time_create ::
  "int32_t \<Rightarrow> int32_t \<Rightarrow> int32_t \<Rightarrow> int32_t \<Rightarrow> bool \<Rightarrow> exn + raw_time" where
  "raw_time_create nHour nMinute nSecond nNano fUTC =
     case_exn (check_time nHour nMinute nSecond nNano)
       (\<lambda>_. Inr \<lparr>rt_hour = nHour, rt_minute = nMinute, rt_second = nSecond, rt_nano = nNano,
                 rt_zone = (if fUTC then TZ_UTC else TZ_NONE),
                 rt_hour_offset = 0, rt_minute_offset = 0\<rparr>)"

definition raw_time_create_offset ::
  "int32_t \<Rightarrow> int32_t \<Rightarrow> int32_t \<Rightarrow> int32_t \<Rightarrow> int32_t \<Rightarrow> int32_t \<Rightarrow> exn + raw_time" where
  "raw_time_create_offset nHour nMinute nSecond nNano nHourOffset nMinuteOffset =
     case_exn (check_time nHour nMinute nSecond nNano)
       (\<lambda>_. case_exn (check_time_zone nHourOffset nMinuteOffset)
         (\<lambda>_. Inr \<lparr>rt_hour = nHour, rt_minute = nMinute, rt_second = nSecond, rt_nano = nNano,
                   rt_zone = TZ_OFFSET,
                   rt_hour_offset = nHourOffset, rt_minute_offset = nMinuteOffset\<rparr>))"

definition raw_time_interval_create ::
  "int32_t \<Rightarrow> int32_t \<Rightarrow> int32_t \<Rightarrow> int32_t \<Rightarrow> exn + raw_time_interval" where
  "raw_time_interval_create cHours cMinutes cSeconds cNanos =
     case_exn (check_time_interval cHours cMinutes cSeconds cNanos)
       (\<lambda>_. Inr \<lparr>ti_hours = cHours, ti_minutes = cMinutes, ti_seconds = cSeconds, ti_nanos = cNanos\<rparr>)"

definition read_raw_date :: "(buffer_input, raw_date) comp" where
  "read_raw_date =
     bindc obi_read_int32 (\<lambda>nYear. bindc obi_read_int32 (\<lambda>nMonth. bindc obi_read_int32 (\<lambda>nDay.
       bi_lift (raw_date_create nYear nMonth nDay))))"

definition read_raw_time :: "(buffer_input, raw_time) comp" where
  "read_raw_time =
     bindc obi_read_int32 (\<lambda>nHour. bindc obi_read_int32 (\<lambda>nMinute. bindc obi_read_int32 (\<lambda>nSecond.
     bindc obi_read_int32 (\<lambda>nFraction.
       let nNanos = (if nFraction \<le>s 0 then - nFraction else nFraction * 1000000) in
       bindc obi_read_int32 (\<lambda>nZoneType.
         if nZoneType = 2 then
           bindc obi_read_int32 (\<lambda>nHourOffset. bindc obi_read_int32 (\<lambda>nMinuteOffset.
             bi_lift (raw_time_create_offset nHour nMinute nSecond nNanos nHourOffset nMinuteOffset)))
         else
           seqc (ensure (nZoneType = 0 \<or> nZoneType = 1))
             (bi_lift (raw_time_create nHour nMinute nSecond nNanos (nZoneType = 1))))))))"

definition write_date ::
  "int32_t \<Rightarrow> int32_t \<Rightarrow> int32_t \<Rightarrow> (buffer_output, unit) comp" where
  "write_date nYear nMonth nDay =
     seqc (obo_write_int32 nYear) (seqc (obo_write_int32 nMonth) (obo_write_int32 nDay))"

text \<open>Division and remainder of C++ truncate towards zero.\<close>

definition cdiv :: "int \<Rightarrow> int \<Rightarrow> int" where
  "cdiv a b = sgn a * sgn b * (\<bar>a\<bar> div \<bar>b\<bar>)"

definition cmod :: "int \<Rightarrow> int \<Rightarrow> int" where
  "cmod a b = a - b * cdiv a b"

definition time_fraction :: "int32_t \<Rightarrow> int32_t" where
  "time_fraction nNano =
     (if nNano \<noteq> 0
      then (if cmod (sint nNano) 1000000 = 0 then of_int (cdiv (sint nNano) 1000000) else - nNano)
      else 0)"

definition write_time ::
  "int32_t \<Rightarrow> int32_t \<Rightarrow> int32_t \<Rightarrow> int32_t \<Rightarrow> int32_t \<Rightarrow> int32_t \<Rightarrow> int32_t \<Rightarrow>
   (buffer_output, unit) comp" where
  "write_time nHour nMinute nSecond nNano nTimeZoneType nHourOffset nMinuteOffset =
     seqc (obo_write_int32 nHour) (seqc (obo_write_int32 nMinute) (seqc (obo_write_int32 nSecond)
     (seqc (obo_write_int32 (time_fraction nNano)) (seqc (abo_write1 (ucast nTimeZoneType))
       (if nTimeZoneType = 2
        then seqc (obo_write_int32 nHourOffset) (obo_write_int32 nMinuteOffset)
        else ret ())))))"

section \<open>Skipping values\<close>

text \<open>\<open>skip_int\<close> is one round of the outer loop of \<^verbatim>\<open>skipInts\<close>; its inner loop ends at
  the end of the buffer at the latest, so the unread octets bound it.\<close>

fun skip_octets :: "nat \<Rightarrow> (buffer_input, unit) comp" where
  "skip_octets 0 = throw StackOverflow"
| "skip_octets (Suc n) = bindc obi_read (\<lambda>b. if b AND 0x80 \<noteq> 0 then skip_octets n else ret ())"

definition skip_int :: "(buffer_input, unit) comp" where
  "skip_int bi = skip_octets (Suc (length (bi_rem bi))) bi"

fun skip_ints :: "nat \<Rightarrow> (buffer_input, unit) comp" where
  "skip_ints 0 = ret ()"
| "skip_ints (Suc c) = seqc skip_int (skip_ints c)"

definition repeatc :: "nat \<Rightarrow> ('s, unit) comp \<Rightarrow> ('s, unit) comp" where
  "repeatc n m = mapc (\<lambda>_. ()) (replicatec n m)"

text \<open>The loop over the positions of a sparse array: at most \<open>c\<close> rounds, left at a negative position.\<close>

fun skip_positions :: "nat \<Rightarrow> (buffer_input, unit) comp \<Rightarrow> (buffer_input, unit) comp" where
  "skip_positions 0 elem = ret ()"
| "skip_positions (Suc c) elem =
     bindc obi_read_int32 (\<lambda>iPos.
       if iPos <s 0 then ret () else seqc elem (skip_positions c elem))"

definition skip_char :: "(buffer_input, unit) comp" where
  "skip_char =
     bindc obi_read (\<lambda>b.
       if b AND 0xF0 = 0xC0 \<or> b AND 0xF0 = 0xD0 then abi_skip 1
       else if b AND 0xF0 = 0xE0 then abi_skip 2
       else ret ())"

definition skip_string :: "(buffer_input, unit) comp" where
  "skip_string =
     bindc obi_read_int32 (\<lambda>cb.
       if cb = v_reference_null then ret ()
       else bindc (bi_lift (validate_incoming_size cb)) abi_skip)"

definition skip_time :: "(buffer_input, unit) comp" where
  "skip_time =
     seqc (skip_ints 4)
       (bindc obi_read_int32 (\<lambda>nZoneType. if nZoneType = 2 then skip_ints 2 else ret ()))"

text \<open>
  The recursive descent.  The first argument bounds the depth of the recursion and the
  number of properties of a user type; \<open>skip_terminates\<close> below shows that the octets left
  in the buffer are enough.
\<close>

fun skip_value :: "nat \<Rightarrow> (buffer_input, unit) comp"
  and skip_uniform_value :: "nat \<Rightarrow> int32_t \<Rightarrow> (buffer_input, unit) comp"
  and skip_properties :: "nat \<Rightarrow> (buffer_input, unit) comp" where
  "skip_value 0 = throw StackOverflow"
| "skip_value (Suc n) =
     bindc obi_read_int32 (\<lambda>nType.
       if nType = t_identity
       then seqc (skip_ints 1) (bindc obi_read_int32 (skip_uniform_value n))
       else skip_uniform_value n nType)"
| "skip_uniform_value 0 nType = throw StackOverflow"
| "skip_uniform_value (Suc n) nType =
     (if nType \<in> {t_int16, t_int32, t_int64, t_int128, t_reference, t_boolean} then skip_ints 1
      else if nType = t_year_month_interval then skip_ints 2
      else if nType = t_date then skip_ints 3
      else if nType = t_time_interval then skip_ints 4
      else if nType = t_day_time_interval then skip_ints 5
      else if nType = t_float32 then abi_skip 4
      else if nType = t_float64 then abi_skip 8
      else if nType = t_float128 then abi_skip 16
      else if nType \<in> {t_decimal32, t_decimal64, t_decimal128} then skip_ints 2
      else if nType = t_octet then abi_skip 1
      else if nType = t_char then skip_char
      else if nType \<in> {t_octet_string, t_char_string} then skip_string
      else if nType = t_datetime then seqc (skip_ints 3) skip_time
      else if nType = t_time then skip_time
      else if nType \<in> {t_collection, t_array} then
        bindc (bi_incoming obi_read_int32) (\<lambda>c. repeatc c (skip_value n))
      else if nType \<in> {t_uniform_collection, t_uniform_array} then
        bindc obi_read_int32 (\<lambda>nElementTypeId.
        bindc (bi_incoming obi_read_int32) (\<lambda>c. repeatc c (skip_uniform_value n nElementTypeId)))
      else if nType = t_sparse_array then
        bindc (bi_incoming obi_read_int32) (\<lambda>c. skip_positions c (skip_value n))
      else if nType = t_uniform_sparse_array then
        bindc obi_read_int32 (\<lambda>nElementTypeId.
        bindc (bi_incoming obi_read_int32) (\<lambda>c.
          skip_positions c (skip_uniform_value n nElementTypeId)))
      else if nType = t_map then
        bindc (bi_incoming obi_read_int32) (\<lambda>c. repeatc c (seqc (skip_value n) (skip_value n)))
      else if nType = t_uniform_keys_map then
        bindc obi_read_int32 (\<lambda>nKeyTypeId.
        bindc (bi_incoming obi_read_int32) (\<lambda>c.
          repeatc c (seqc (skip_uniform_value n nKeyTypeId) (skip_value n))))
      else if nType = t_uniform_map then
        bindc obi_read_int32 (\<lambda>nKeyTypeId. bindc obi_read_int32 (\<lambda>nValueTypeId.
        bindc (bi_incoming obi_read_int32) (\<lambda>c.
          repeatc c (seqc (skip_uniform_value n nKeyTypeId) (skip_uniform_value n nValueTypeId)))))
      else if nType \<in> {v_boolean_false, v_boolean_true, v_string_zero_length, v_collection_empty,
                        v_reference_null, v_fp_pos_infinity, v_fp_neg_infinity, v_fp_nan}
      then ret ()
      else if is_tiny_int nType then ret ()
      else if 0 \<le>s nType then seqc (skip_ints 1) (skip_properties n)
      else throw IllegalStateException)"
| "skip_properties 0 = throw StackOverflow"
| "skip_properties (Suc n) =
     bindc obi_read_int32 (\<lambda>iProp.
       if 0 \<le>s iProp then seqc (skip_value n) (skip_properties n) else ret ())"

declare skip_uniform_value.simps [simp del]


section \<open>Skipping terminates\<close>

text \<open>
  \<open>steady k d m\<close>: with fewer than \<open>k\<close> octets left, \<open>m\<close> does not exhaust the recursion
  depth and keeps the input well-formed; when it returns it has consumed at least \<open>d\<close>.
\<close>

definition steady :: "nat \<Rightarrow> nat \<Rightarrow> (buffer_input, 'a) comp \<Rightarrow> bool" where
  "steady k d m \<longleftrightarrow>
     (\<forall>s. bi_ok s \<and> length (bi_rem s) < k \<longrightarrow>
        (\<exists>r t. m s = (r, t) \<and> bi_ok t \<and> r \<noteq> Inl StackOverflow \<and>
           (isl r \<or> length (bi_rem t) + d \<le> length (bi_rem s))))"

named_theorems steady_intros \<open>operations that do not exhaust the recursion depth\<close>

lemma steadyI:
  assumes "\<And>s. bi_ok s \<Longrightarrow> length (bi_rem s) < k \<Longrightarrow>
    \<exists>r t. m s = (r, t) \<and> bi_ok t \<and> r \<noteq> Inl StackOverflow \<and>
      (isl r \<or> length (bi_rem t) + d \<le> length (bi_rem s))"
  shows "steady k d m"
  using assms by (simp add: steady_def)

lemma steadyE:
  assumes "steady k d m" and "bi_ok s" and "length (bi_rem s) < k"
  obtains r t where "m s = (r, t)" and "bi_ok t" and "r \<noteq> Inl StackOverflow"
    and "isl r \<or> length (bi_rem t) + d \<le> length (bi_rem s)"
  using assms unfolding steady_def by blast

lemma steady_weaken: "steady k d m \<Longrightarrow> k' \<le> k \<Longrightarrow> d' \<le> d \<Longrightarrow> steady k' d' m"
  unfolding steady_def by (meson add_le_cancel_left le_trans less_le_trans)

lemma steady_ret [steady_intros]: "steady k 0 (ret v)"
  by (rule steadyI) (auto simp: ret_def)

lemma steady_throw [steady_intros]: "e \<noteq> StackOverflow \<Longrightarrow> steady k d (throw e)"
  by (rule steadyI) (auto simp: throw_def)

lemma steady_bindc:
  assumes m: "steady k d m" and f: "\<And>a. steady (k - d) e (f a)"
  shows "steady k (d + e) (bindc m f)"
proof (rule steadyI)
  fix s
  assume "bi_ok s" and "length (bi_rem s) < k"
  with m obtain r t where m: "m s = (r, t)" "bi_ok t" "r \<noteq> Inl StackOverflow"
    and len: "isl r \<or> length (bi_rem t) + d \<le> length (bi_rem s)"
    by (rule steadyE)
  show "\<exists>r t. bindc m f s = (r, t) \<and> bi_ok t \<and> r \<noteq> Inl StackOverflow \<and>
      (isl r \<or> length (bi_rem t) + (d + e) \<le> length (bi_rem s))"
  proof (cases r)
    case (Inl x)
    with m show ?thesis by (simp add: bindc_def)
  next
    case (Inr a)
    from len Inr \<open>length (bi_rem s) < k\<close> have "length (bi_rem t) < k - d" by simp
    with f m(2) obtain r' u where "f a t = (r', u)" "bi_ok u" "r' \<noteq> Inl StackOverflow"
      and "isl r' \<or> length (bi_rem u) + e \<le> length (bi_rem t)"
      by (rule steadyE)
    with m(1) Inr len show ?thesis by (auto simp: bindc_def)
  qed
qed

lemma steady_bindc_0 [steady_intros]:
  "steady k d m \<Longrightarrow> (\<And>a. steady (k - d) 0 (f a)) \<Longrightarrow> steady k d (bindc m f)"
  using steady_bindc [of k d m 0 f] by simp

lemma steady_seqc [steady_intros]:
  "steady k 0 m \<Longrightarrow> steady k d n \<Longrightarrow> steady k d (seqc m n)"
  using steady_bindc [of k 0 m d "\<lambda>_. n"] by (simp add: seqc_def)

lemma steady_seqc_1:
  "steady k d m \<Longrightarrow> steady (k - d) 0 n \<Longrightarrow> steady k d (seqc m n)"
  using steady_bindc [of k d m 0 "\<lambda>_. n"] by (simp add: seqc_def)

lemma steady_if [steady_intros]:
  "(b \<Longrightarrow> steady k d m) \<Longrightarrow> (\<not> b \<Longrightarrow> steady k d n) \<Longrightarrow> steady k d (if b then m else n)"
  by simp

lemma steady_bi_lift [steady_intros]: "r \<noteq> Inl StackOverflow \<Longrightarrow> steady k 0 (bi_lift r)"
  by (rule steadyI) (auto simp: bi_lift_def)

lemma steady_replicatec: "steady k 0 m \<Longrightarrow> steady k 0 (replicatec n m)"
  by (induction n) (auto intro!: steady_intros)

lemma steady_repeatc [steady_intros]: "steady k 0 m \<Longrightarrow> steady k 0 (repeatc n m)"
  unfolding repeatc_def mapc_def by (intro steady_bindc_0 steady_replicatec) (auto intro: steady_intros)

lemma steady_obi_read [steady_intros]: "steady k 1 obi_read"
proof (rule steadyI)
  fix s
  assume ok: "bi_ok s"
  show "\<exists>r t. obi_read s = (r, t) \<and> bi_ok t \<and> r \<noteq> Inl StackOverflow \<and>
      (isl r \<or> length (bi_rem t) + 1 \<le> length (bi_rem s))"
  proof (cases "bi_rem s")
    case Nil
    with obi.rd_Nil [OF ok] ok show ?thesis by simp
  next
    case (Cons b bs)
    from obi.rd_Cons [OF ok this] Cons show ?thesis by fastforce
  qed
qed

lemma bi_rem_move:
  assumes "bi_ok s" and "k \<le> rb_cb (bi_buf s)"
  shows "bi_ok (s\<lparr>bi_of := k\<rparr>)"
    and "length (bi_rem (s\<lparr>bi_of := k\<rparr>)) = rb_cb (bi_buf s) - k"
  using assms by (simp_all add: bi_ok_def bi_rem_def length_rb_octets)

lemma obi_unpack_loop_bounds:
  "obi_unpack_loop ab cb lim off b n c = r \<Longrightarrow> off \<le> cb \<Longrightarrow>
   case r of Inl e \<Rightarrow> e \<noteq> StackOverflow | Inr (v, off') \<Rightarrow> off \<le> off' \<and> off' \<le> cb"
proof (induction ab cb lim off b n c arbitrary: r rule: obi_unpack_loop.induct)
  case (1 ab cb lim off b n c)
  show ?case
  proof (cases "b AND 0x80 = 0 \<or> cb \<le> off \<or> raw_at ab off = Inl UndefinedBehaviour \<or> lim \<le> c")
    case True
    with "1.prems" show ?thesis
      by (auto simp: obi_unpack_loop.simps [of ab cb lim off b] raw_at_def split: if_splits)
  next
    case False
    then obtain b' where b': "raw_at ab off = Inr b'"
      by (auto simp: raw_at_def split: if_splits)
    let ?n = "n OR push_bit c (ucast (b' AND 0x7F))"
    from False b' have eq: "obi_unpack_loop ab cb lim off b n c = obi_unpack_loop ab cb lim (off + 1) b' ?n (c + 7)"
      by (simp add: obi_unpack_loop.simps [of ab cb lim off b] del: push_bit_and)
    from False b' "1.prems" have "case r of Inl e \<Rightarrow> e \<noteq> StackOverflow
        | Inr (v, off') \<Rightarrow> off + 1 \<le> off' \<and> off' \<le> cb"
      by (intro "1.IH") (simp_all add: eq del: push_bit_and)
    then show ?thesis by (auto split: sum.splits)
  qed
qed

lemma steady_obi_unpack_int: "steady k 1 (obi_unpack_int lim :: (buffer_input, 'w::len word) comp)"
proof (rule steadyI)
  fix s
  assume ok: "bi_ok s"
  let ?buf = "bi_buf s"
  note bounds = bi_ok_bounds [OF ok]
  show "\<exists>r t. (obi_unpack_int lim :: (buffer_input, 'w word) comp) s = (r, t) \<and> bi_ok t \<and>
      r \<noteq> Inl StackOverflow \<and> (isl r \<or> length (bi_rem t) + 1 \<le> length (bi_rem s))"
  proof (cases "bi_of s < rb_cb ?buf")
    case False
    with bounds ok show ?thesis by (auto simp: obi_unpack_int_def Let_def)
  next
    case True
    let ?off = "rb_of ?buf + bi_of s" and ?cb = "rb_of ?buf + rb_cb ?buf"
    let ?b = "rb_vab ?buf ! ?off"
    define r where "r = obi_unpack_loop (rb_vab ?buf) ?cb lim (?off + 1) ?b (ucast (?b AND 0x3F) :: 'w word) 6"
    have res: "case r of Inl e \<Rightarrow> e \<noteq> StackOverflow | Inr (v, off') \<Rightarrow> ?off + 1 \<le> off' \<and> off' \<le> ?cb"
      using True by (intro obi_unpack_loop_bounds [OF r_def [symmetric]]) simp
    have run: "obi_unpack_int lim s = (case r of Inl e \<Rightarrow> (Inl e, s)
        | Inr (n, off) \<Rightarrow> (Inr (if ?b AND 0x40 \<noteq> 0 then NOT n else n), s\<lparr>bi_of := size_sub off (rb_of ?buf)\<rparr>))"
      using True bounds raw_at_ok [OF ok True] by (simp add: obi_unpack_int_def Let_def r_def)
    show ?thesis
    proof (cases r)
      case (Inl e)
      with run res ok show ?thesis by simp
    next
      case (Inr p)
      then obtain v off where p: "r = Inr (v, off)" by (cases p) simp
      with res have "?off + 1 \<le> off" "off \<le> ?cb" by simp_all
      then have "size_sub off (rb_of ?buf) = off - rb_of ?buf" "off - rb_of ?buf \<le> rb_cb ?buf"
        "bi_of s + 1 \<le> off - rb_of ?buf"
        using bounds by simp_all
      with p run bi_rem_move [OF ok, of "off - rb_of ?buf"] length_bi_rem [OF ok] True
      show ?thesis by (simp add: bi_length_def)
    qed
  qed
qed

lemma steady_obi_read_int32 [steady_intros]: "steady k 1 obi_read_int32"
  unfolding obi_read_int32_def by (rule steady_obi_unpack_int)

lemma steady_abi_skip [steady_intros]: "steady k 0 (abi_skip cb)"
proof (rule steadyI)
  fix s
  assume ok: "bi_ok s"
  note bounds = bi_ok_bounds [OF ok]
  show "\<exists>r t. abi_skip cb s = (r, t) \<and> bi_ok t \<and> r \<noteq> Inl StackOverflow \<and>
      (isl r \<or> length (bi_rem t) + 0 \<le> length (bi_rem s))"
  proof (cases "rb_cb (bi_buf s) - bi_of s < cb")
    case True
    with bounds bi_rem_move [OF ok, of "rb_cb (bi_buf s)"] show ?thesis
      by (simp add: abi_skip_def get_offset_def bi_get_def bi_length_def bindc_def seqc_def
          set_offset_internal_def throw_def)
  next
    case False
    then have le: "bi_of s + cb \<le> rb_cb (bi_buf s)" using bounds(1) by simp
    with False bounds bi_rem_move [OF ok le] length_bi_rem [OF ok] show ?thesis
      by (simp add: abi_skip_def get_offset_def bi_get_def bi_length_def bindc_def seqc_def
          set_offset_internal_def throw_def)
  qed
qed


lemma skip_octets_ok:
  assumes "bi_ok s" and "length (bi_rem s) < n"
  shows "\<exists>r t. skip_octets n s = (r, t) \<and> bi_ok t \<and> r \<noteq> Inl StackOverflow \<and>
    (isl r \<or> length (bi_rem t) + 1 \<le> length (bi_rem s))"
  using assms
proof (induction n arbitrary: s)
  case (Suc n)
  from steady_obi_read Suc.prems obtain r t where read: "obi_read s = (r, t)" "bi_ok t"
    "r \<noteq> Inl StackOverflow" "isl r \<or> length (bi_rem t) + 1 \<le> length (bi_rem s)"
    by (rule steadyE)
  show ?case
  proof (cases r)
    case (Inl e)
    with read show ?thesis by (simp add: bindc_def)
  next
    case (Inr b)
    with read Suc.prems have "length (bi_rem t) < n" by simp
    from Suc.IH [OF read(2) this] read Inr show ?thesis
      by (cases "b AND 0x80 = 0") (auto simp: bindc_def ret_def)
  qed
qed simp

lemma steady_skip_int [steady_intros]: "steady k 1 skip_int"
  by (rule steadyI) (simp only: skip_int_def skip_octets_ok lessI)

lemma steady_skip_ints [steady_intros]: "steady k 0 (skip_ints c)"
proof (induction c arbitrary: k)
  case (Suc c)
  then show ?case
    using steady_weaken [OF steady_seqc_1 [OF steady_skip_int [of k] Suc]] by simp
qed (simp add: steady_ret)

lemma steady_skip_positions [steady_intros]:
  "(\<And>j. j \<le> k \<Longrightarrow> steady j 0 elem) \<Longrightarrow> steady k 0 (skip_positions c elem)"
proof (induction c arbitrary: k)
  case (Suc c)
  have "steady k 1 (bindc obi_read_int32 (\<lambda>iPos. if iPos <s 0 then ret () else seqc elem (skip_positions c elem)))"
    using Suc by (intro steady_intros) auto
  then show ?case by (auto intro: steady_weaken)
qed (auto intro: steady_intros)

lemma validate_incoming_size_steady [simp]: "validate_incoming_size c \<noteq> Inl StackOverflow"
  by (simp add: validate_incoming_size_def Let_def)

lemma steady_bi_incoming [steady_intros]: "steady k 1 m \<Longrightarrow> steady k 1 (bi_incoming m)"
  unfolding bi_incoming_def by (intro steady_intros) simp_all

lemma steady_after_read:
  "(\<And>a. steady (k - 1) 0 (f a)) \<Longrightarrow> steady k 0 (bindc obi_read f)"
  by (rule steady_weaken [OF steady_bindc_0 [OF steady_obi_read [of k]]]) simp_all

lemma steady_skip_char: "steady k 0 skip_char"
  unfolding skip_char_def by (auto intro!: steady_after_read steady_intros)

lemma steady_after_int32:
  "(\<And>a. steady (k - 1) 0 (f a)) \<Longrightarrow> steady k 0 (bindc obi_read_int32 f)"
  by (rule steady_weaken [OF steady_bindc_0 [OF steady_obi_read_int32 [of k]]]) simp_all

lemma steady_after_incoming:
  "(\<And>a. steady (k - 1) 0 (f a)) \<Longrightarrow> steady k 0 (bindc (bi_incoming obi_read_int32) f)"
  by (rule steady_weaken [OF steady_bindc_0 [OF steady_bi_incoming [OF steady_obi_read_int32 [of k]]]]) simp_all

lemma steady_skip_string: "steady k 0 skip_string"
  unfolding skip_string_def by (auto intro!: steady_after_int32 steady_intros)

lemma steady_skip_time: "steady k 0 skip_time"
  unfolding skip_time_def by (auto intro!: steady_after_int32 steady_intros)

lemma steady_after_skip: "steady (k - 1) 0 m \<Longrightarrow> steady k 0 (seqc (skip_ints 1) m)"
proof -
  assume m: "steady (k - 1) 0 m"
  have "steady k 1 (skip_ints 1)"
    using steady_seqc_1 [OF steady_skip_int steady_ret [of "k - 1" "()"]] by simp
  from steady_weaken [OF steady_seqc_1 [OF this m]] show ?thesis by simp
qed

text \<open>The depth the octets can force is at most their number.\<close>

lemma steady_skip_all:
  "steady n 1 (skip_value n) \<and> (\<forall>t. steady n 0 (skip_uniform_value n t)) \<and>
   steady n 0 (skip_properties n)"
proof (induction n)
  case 0
  show ?case by (simp add: steady_def)
next
  case (Suc n)
  have less: "steady j 0 (skip_value n)" "steady j 0 (skip_uniform_value n t)"
    "steady j 0 (skip_properties n)" if "j \<le> n" for j t
    using that Suc by (auto intro: steady_weaken)
  have "steady (Suc n) 1 (skip_value (Suc n))"
    by (auto intro!: steady_bindc_0 steady_obi_read_int32 [unfolded One_nat_def] steady_seqc steady_skip_ints
        steady_after_int32 steady_if less)
  moreover have "steady (Suc n) 0 (skip_properties (Suc n))"
    by (auto intro!: steady_after_int32 steady_if steady_seqc less steady_ret)
  moreover have "steady (Suc n) 0 (skip_uniform_value (Suc n) t)" for t
    unfolding skip_uniform_value.simps
    by (intro steady_if steady_after_skip steady_skip_ints steady_abi_skip steady_skip_char steady_skip_string
        steady_skip_time steady_seqc steady_after_int32 steady_after_incoming steady_repeatc
        steady_skip_positions steady_ret steady_throw)
      (auto intro: less)
  ultimately show ?case by blast
qed

lemma skip_terminates:
  assumes "bi_ok s" and "length (bi_rem s) < n"
  obtains r t where "skip_value n s = (r, t)" and "bi_ok t" and "r \<noteq> Inl StackOverflow"
    and "isl r \<or> length (bi_rem t) < length (bi_rem s)"
  using steadyE [OF conjunct1 [OF steady_skip_all] assms] by (metis Suc_eq_plus1 Suc_le_eq)

end
