(* ===== verification/Pof_Handler.thy ===== *)
theory Pof_Handler
  imports Pof_Helper
begin

text \<open>
  \<^verbatim>\<open>WritingPofHandler\<close> of \<^verbatim>\<open>coherence/io/pof\<close>, which turns the events of a writer
  into the octets of the portable object format: the stack of complex values under
  construction, the rules for positions and type identifiers, the compact forms and every
  event handler.
\<close>

section \<open>Complex values under construction\<close>

text \<open>
  \<^verbatim>\<open>Complex\<close> and \<^verbatim>\<open>ComplexMap\<close>; the outer complex value each of them links to is the
  rest of the list.  \<open>Complex sparse uniform type\<close>; \<open>ComplexMap keyType key uniformValue
  valueType\<close>, whose keys are always uniform.
\<close>

datatype pof_complex =
    Complex bool bool int32_t
  | ComplexMap int32_t bool bool int32_t

definition complex_create :: "bool \<Rightarrow> pof_complex" where
  "complex_create fEncodePosition = Complex fEncodePosition False 0"

definition complex_create_uniform :: "bool \<Rightarrow> int32_t \<Rightarrow> pof_complex" where
  "complex_create_uniform fEncodePosition nUniformTypeId = Complex fEncodePosition True nUniformTypeId"

definition complex_map_create_keys :: "int32_t \<Rightarrow> pof_complex" where
  "complex_map_create_keys nUniformKeyTypeId = ComplexMap nUniformKeyTypeId False False 0"

definition complex_map_create :: "int32_t \<Rightarrow> int32_t \<Rightarrow> pof_complex" where
  "complex_map_create nUniformKeyTypeId nUniformValTypeId =
     ComplexMap nUniformKeyTypeId False True nUniformValTypeId"

fun complex_on_value :: "pof_complex \<Rightarrow> pof_complex" where
  "complex_on_value (Complex s u t) = Complex s u t"
| "complex_on_value (ComplexMap t k u v) = ComplexMap t (\<not> k) u v"

fun complex_is_uniform :: "pof_complex \<Rightarrow> bool" where
  "complex_is_uniform (Complex s u t) = u"
| "complex_is_uniform (ComplexMap t k u v) = (if k then True else u)"

fun complex_uniform_type :: "pof_complex \<Rightarrow> int32_t" where
  "complex_uniform_type (Complex s u t) = t"
| "complex_uniform_type (ComplexMap t k u v) = (if k then t else v)"

fun complex_is_sparse :: "pof_complex \<Rightarrow> bool" where
  "complex_is_sparse (Complex s u t) = s"
| "complex_is_sparse (ComplexMap t k u v) = False"

section \<open>The handler\<close>

record pof_handler =
  wh_out :: buffer_output
  wh_complex :: "pof_complex list"
  wh_has_identity :: bool

definition wh_create :: "buffer_output \<Rightarrow> pof_handler" where
  "wh_create hOut = \<lparr>wh_out = hOut, wh_complex = [], wh_has_identity = False\<rparr>"

type_synonym 'a handling = "(pof_handler, 'a) comp"

definition wh_get :: "(pof_handler \<Rightarrow> 'a) \<Rightarrow> 'a handling" where
  "wh_get f h = (Inr (f h), h)"

definition wh_lift :: "exn + 'a \<Rightarrow> 'a handling" where
  "wh_lift r h = (r, h)"

definition wh_on_out :: "(buffer_output, 'a) comp \<Rightarrow> 'a handling" where
  "wh_on_out m h = (case m (wh_out h) of (r, bo) \<Rightarrow> (r, h\<lparr>wh_out := bo\<rparr>))"

definition wh_write_int32 :: "int32_t \<Rightarrow> unit handling" where
  "wh_write_int32 n = wh_on_out (obo_write_int32 n)"

definition wh_set_identity :: "bool \<Rightarrow> unit handling" where
  "wh_set_identity f h = (Inr (), h\<lparr>wh_has_identity := f\<rparr>)"

definition push_complex :: "pof_complex \<Rightarrow> unit handling" where
  "push_complex c h = (Inr (), h\<lparr>wh_complex := c # wh_complex h\<rparr>)"

definition register_identity :: "int32_t \<Rightarrow> unit handling" where
  "register_identity nId =
     bindc (wh_get wh_has_identity) (\<lambda>fHasIdentity.
     seqc (ensure (\<not> fHasIdentity \<or> nId <s 0))
       (seqc (if 0 \<le>s nId then seqc (wh_write_int32 t_identity) (wh_write_int32 nId) else ret ())
         (wh_set_identity True)))"

definition is_skippable :: "pof_handler \<Rightarrow> bool" where
  "is_skippable h \<longleftrightarrow>
     \<not> wh_has_identity h \<and> wh_complex h \<noteq> [] \<and> complex_is_sparse (hd (wh_complex h))"

definition is_compressable :: "pof_handler \<Rightarrow> bool" where
  "is_compressable h \<longleftrightarrow> \<not> wh_has_identity h"

definition encode_position :: "int32_t \<Rightarrow> unit handling" where
  "encode_position iPos =
     bindc (wh_get wh_complex) (\<lambda>cs.
     seqc
       (case cs of
          [] \<Rightarrow> ret ()
        | c # rest \<Rightarrow>
            seqc (\<lambda>h. (Inr (), h\<lparr>wh_complex := complex_on_value c # rest\<rparr>))
              (if 0 \<le>s iPos \<and> complex_is_sparse c then wh_write_int32 iPos else ret ()))
       (wh_set_identity False))"

definition is_type_id_encoded :: "int32_t \<Rightarrow> bool handling" where
  "is_type_id_encoded nTypeId =
     bindc (wh_get wh_complex) (\<lambda>cs.
       case cs of
         [] \<Rightarrow> ret True
       | c # _ \<Rightarrow>
           seqc (ensure (\<not> complex_is_uniform c \<or> complex_uniform_type c = nTypeId \<or> nTypeId = t_reference))
             (ret (\<not> complex_is_uniform c)))"

section \<open>Simple values\<close>

definition on_null_reference :: "int32_t \<Rightarrow> unit handling" where
  "on_null_reference iPos =
     bindc (wh_get is_skippable) (\<lambda>skip.
       if \<not> skip then seqc (encode_position iPos) (wh_write_int32 v_reference_null) else ret ())"

definition on_identity_reference :: "int32_t \<Rightarrow> int32_t \<Rightarrow> unit handling" where
  "on_identity_reference iPos nId =
     seqc (encode_position iPos)
       (bindc (is_type_id_encoded t_reference) (\<lambda>enc.
         seqc (if enc then wh_write_int32 t_reference else ret ()) (wh_write_int32 nId)))"

definition on_int16 :: "int32_t \<Rightarrow> int16_t \<Rightarrow> unit handling" where
  "on_int16 iPos n =
     bindc (wh_get is_skippable) (\<lambda>skip.
       if n \<noteq> 0 \<or> \<not> skip then
         bindc (wh_get is_compressable) (\<lambda>fCompressable.
         seqc (encode_position iPos)
           (bindc (is_type_id_encoded t_int16) (\<lambda>enc.
             if enc then
               if - 1 \<le>s n \<and> n \<le>s 22 \<and> fCompressable
               then bindc (wh_lift (encode_tiny_int32 (scast n))) wh_write_int32
               else seqc (wh_write_int32 t_int16) (wh_on_out (obo_write_int16 n))
             else wh_on_out (obo_write_int16 n))))
       else ret ())"

definition on_int32 :: "int32_t \<Rightarrow> int32_t \<Rightarrow> unit handling" where
  "on_int32 iPos n =
     bindc (wh_get is_skippable) (\<lambda>skip.
       if n \<noteq> 0 \<or> \<not> skip then
         bindc (wh_get is_compressable) (\<lambda>fCompressable.
         seqc (encode_position iPos)
           (bindc (is_type_id_encoded t_int32) (\<lambda>enc.
             if enc then
               if - 1 \<le>s n \<and> n \<le>s 22 \<and> fCompressable
               then bindc (wh_lift (encode_tiny_int32 n)) wh_write_int32
               else seqc (wh_write_int32 t_int32) (wh_write_int32 n)
             else wh_write_int32 n)))
       else ret ())"

definition on_int64 :: "int32_t \<Rightarrow> int64_t \<Rightarrow> unit handling" where
  "on_int64 iPos n =
     bindc (wh_get is_skippable) (\<lambda>skip.
       if n \<noteq> 0 \<or> \<not> skip then
         bindc (wh_get is_compressable) (\<lambda>fCompressable.
         seqc (encode_position iPos)
           (bindc (is_type_id_encoded t_int64) (\<lambda>enc.
             if enc then
               if - 1 \<le>s n \<and> n \<le>s 22 \<and> fCompressable
               then bindc (wh_lift (encode_tiny_int32 (scast n))) wh_write_int32
               else seqc (wh_write_int32 t_int64) (wh_on_out (obo_write_int64 n))
             else wh_on_out (obo_write_int64 n))))
       else ret ())"

text \<open>The upper halves of the floating-point numbers -1 to 22.\<close>

definition tiny_float32 :: "32 word list" where
  "tiny_float32 =
     [0xBF80, 0x0000, 0x3F80, 0x4000, 0x4040, 0x4080, 0x40A0, 0x40C0, 0x40E0, 0x4100, 0x4110, 0x4120,
      0x4130, 0x4140, 0x4150, 0x4160, 0x4170, 0x4180, 0x4188, 0x4190, 0x4198, 0x41A0, 0x41A8, 0x41B0]"

definition on_float32 :: "int32_t \<Rightarrow> float32_bits \<Rightarrow> unit handling" where
  "on_float32 iPos fl =
     bindc (wh_get is_skippable) (\<lambda>skip.
       if \<not> float32_is_zero fl \<or> \<not> skip then
         bindc (wh_get is_compressable) (\<lambda>fCompressable.
         seqc (encode_position iPos)
           (bindc (is_type_id_encoded t_float32) (\<lambda>enc.
             if enc then
               let full = seqc (wh_write_int32 t_float32) (wh_on_out (obo_write_float32 fl)) in
               if fl AND 0x0000FFFF = 0 \<and> fCompressable then
                 let hi = drop_bit 16 fl in
                 if hi = 0xFF80 then wh_write_int32 v_fp_neg_infinity
                 else if hi = 0x7F80 then wh_write_int32 v_fp_pos_infinity
                 else if hi = 0x7FC0 then wh_write_int32 v_fp_nan
                 else if hi \<in> set tiny_float32 then
                   bindc (wh_lift (case_exn (fp_to_int (fp_of_bits32 fl)) encode_tiny_int32)) wh_write_int32
                 else full
               else full
             else wh_on_out (obo_write_float32 fl))))
       else ret ())"

definition tiny_float64 :: "64 word list" where
  "tiny_float64 =
     [0xBFF0, 0x0000, 0x3FF0, 0x4000, 0x4008, 0x4010, 0x4014, 0x4018, 0x401C, 0x4020, 0x4022, 0x4024,
      0x4026, 0x4028, 0x402A, 0x402C, 0x402E, 0x4030, 0x4031, 0x4032, 0x4033, 0x4034, 0x4035, 0x4036]"

definition on_float64 :: "int32_t \<Rightarrow> float64_bits \<Rightarrow> unit handling" where
  "on_float64 iPos dfl =
     bindc (wh_get is_skippable) (\<lambda>skip.
       if \<not> float64_is_zero dfl \<or> \<not> skip then
         bindc (wh_get is_compressable) (\<lambda>fCompressable.
         seqc (encode_position iPos)
           (bindc (is_type_id_encoded t_float64) (\<lambda>enc.
             if enc then
               let full = seqc (wh_write_int32 t_float64) (wh_on_out (obo_write_float64 dfl)) in
               if dfl AND 0x0000FFFFFFFFFFFF = 0 \<and> fCompressable then
                 let hi = drop_bit 48 dfl in
                 if hi = 0xFFF0 then wh_write_int32 v_fp_neg_infinity
                 else if hi = 0x7FF0 then wh_write_int32 v_fp_pos_infinity
                 else if hi = 0x7FF8 then wh_write_int32 v_fp_nan
                 else if hi \<in> set tiny_float64 then
                   bindc (wh_lift (fp_to_int (fp_of_bits64 dfl))) (\<lambda>n. wh_write_int32 (v_int_0 - n))
                 else full
               else full
             else wh_on_out (obo_write_float64 dfl))))
       else ret ())"

definition on_boolean :: "int32_t \<Rightarrow> bool \<Rightarrow> unit handling" where
  "on_boolean iPos f =
     bindc (wh_get is_skippable) (\<lambda>skip.
       if f \<or> \<not> skip then
         bindc (wh_get is_compressable) (\<lambda>fCompressable.
         seqc (encode_position iPos)
           (bindc (is_type_id_encoded t_boolean) (\<lambda>enc.
             if enc then
               if fCompressable then wh_write_int32 (if f then v_boolean_true else v_boolean_false)
               else seqc (wh_write_int32 t_boolean) (wh_write_int32 (if f then 1 else 0))
             else wh_write_int32 (if f then 1 else 0))))
       else ret ())"

definition on_octet :: "int32_t \<Rightarrow> octet_t \<Rightarrow> unit handling" where
  "on_octet iPos b =
     bindc (wh_get is_skippable) (\<lambda>skip.
       if b \<noteq> 0 \<or> \<not> skip then
         bindc (wh_get is_compressable) (\<lambda>fCompressable.
         seqc (encode_position iPos)
           (bindc (is_type_id_encoded t_octet) (\<lambda>enc.
             if enc then
               if fCompressable \<and> b \<le> 22 then
                 bindc (wh_lift (encode_tiny_int32 (ucast b))) wh_write_int32
               else if fCompressable \<and> b = 0xFF then wh_write_int32 v_int_neg_1
               else seqc (wh_write_int32 t_octet) (wh_on_out (abo_write1 b))
             else wh_on_out (abo_write1 b))))
       else ret ())"

text \<open>A \<^verbatim>\<open>Binary\<close> is a read buffer.\<close>

definition on_octet_string :: "int32_t \<Rightarrow> read_buffer \<Rightarrow> unit handling" where
  "on_octet_string iPos vBin =
     bindc (wh_get is_skippable) (\<lambda>skip.
       if rb_cb vBin \<noteq> 0 \<or> \<not> skip then
         bindc (wh_get is_compressable) (\<lambda>fCompressable.
         seqc (encode_position iPos)
           (bindc (is_type_id_encoded t_octet_string) (\<lambda>enc.
             let body = bindc (wh_lift (validate_outgoing_size (rb_cb vBin))) (\<lambda>c.
                   seqc (wh_write_int32 c) (wh_on_out (abo_write_buffer vBin))) in
             if enc then
               if rb_cb vBin = 0 \<and> fCompressable then wh_write_int32 v_string_zero_length
               else seqc (wh_write_int32 t_octet_string) body
             else body)))
       else ret ())"

definition on_char :: "int32_t \<Rightarrow> wchar16_t \<Rightarrow> unit handling" where
  "on_char iPos ch =
     bindc (wh_get is_skippable) (\<lambda>skip.
       if ch \<noteq> 0 \<or> \<not> skip then
         bindc (wh_get is_compressable) (\<lambda>fCompressable.
         seqc (encode_position iPos)
           (bindc (is_type_id_encoded t_char) (\<lambda>enc.
             if enc then
               if fCompressable \<and> ch \<le> 22 then
                 bindc (wh_lift (encode_tiny_int32 (ucast ch))) wh_write_int32
               else if fCompressable \<and> ch = 0xFFFF then wh_write_int32 v_int_neg_1
               else seqc (wh_write_int32 t_char) (wh_on_out (obo_write_char16 ch))
             else wh_on_out (obo_write_char16 ch))))
       else ret ())"

definition on_char_string :: "int32_t \<Rightarrow> cstring \<Rightarrow> unit handling" where
  "on_char_string iPos vs =
     bindc (wh_get is_skippable) (\<lambda>skip.
       if string_length vs \<noteq> 0 \<or> \<not> skip then
         bindc (wh_get is_compressable) (\<lambda>fCompressable.
         seqc (encode_position iPos)
           (bindc (is_type_id_encoded t_char_string) (\<lambda>enc.
             let body = bindc (wh_lift (validate_outgoing_size (string_length vs))) (\<lambda>_.
                   wh_on_out (obo_write_string (Some vs))) in
             if enc then
               if string_length vs = 0 \<and> fCompressable then wh_write_int32 v_string_zero_length
               else seqc (wh_write_int32 t_char_string) body
             else body)))
       else ret ())"


section \<open>Dates, times and intervals\<close>

definition on_date :: "int32_t \<Rightarrow> int32_t \<Rightarrow> int32_t \<Rightarrow> int32_t \<Rightarrow> unit handling" where
  "on_date iPos nYear nMonth nDay =
     seqc (encode_position iPos)
       (bindc (is_type_id_encoded t_date) (\<lambda>enc.
         seqc (if enc then wh_write_int32 t_date else ret ())
           (wh_on_out (write_date nYear nMonth nDay))))"

definition on_year_month_interval :: "int32_t \<Rightarrow> int32_t \<Rightarrow> int32_t \<Rightarrow> unit handling" where
  "on_year_month_interval iPos cYears cMonths =
     seqc (encode_position iPos)
       (bindc (is_type_id_encoded t_year_month_interval) (\<lambda>enc.
         seqc (if enc then wh_write_int32 t_year_month_interval else ret ())
           (seqc (wh_write_int32 cYears) (wh_write_int32 cMonths))))"

definition on_time ::
  "int32_t \<Rightarrow> int32_t \<Rightarrow> int32_t \<Rightarrow> int32_t \<Rightarrow> int32_t \<Rightarrow> bool \<Rightarrow> unit handling" where
  "on_time iPos nHour nMinute nSecond nNano fUTC =
     seqc (encode_position iPos)
       (bindc (is_type_id_encoded t_time) (\<lambda>enc.
         seqc (if enc then wh_write_int32 t_time else ret ())
           (wh_on_out (write_time nHour nMinute nSecond nNano (if fUTC then 1 else 0) 0 0))))"

definition on_time_offset ::
  "int32_t \<Rightarrow> int32_t \<Rightarrow> int32_t \<Rightarrow> int32_t \<Rightarrow> int32_t \<Rightarrow> int32_t \<Rightarrow> int32_t \<Rightarrow> unit handling" where
  "on_time_offset iPos nHour nMinute nSecond nNano nHourOffset nMinuteOffset =
     seqc (encode_position iPos)
       (bindc (is_type_id_encoded t_time) (\<lambda>enc.
         seqc (if enc then wh_write_int32 t_time else ret ())
           (wh_on_out (write_time nHour nMinute nSecond nNano 2 nHourOffset nMinuteOffset))))"

definition on_time_interval ::
  "int32_t \<Rightarrow> int32_t \<Rightarrow> int32_t \<Rightarrow> int32_t \<Rightarrow> int32_t \<Rightarrow> unit handling" where
  "on_time_interval iPos cHours cMinutes cSeconds cNanos =
     seqc (encode_position iPos)
       (bindc (is_type_id_encoded t_time_interval) (\<lambda>enc.
         seqc (if enc then wh_write_int32 t_time_interval else ret ())
           (seqc (wh_write_int32 cHours) (seqc (wh_write_int32 cMinutes)
             (seqc (wh_write_int32 cSeconds) (wh_write_int32 cNanos))))))"

definition on_date_time ::
  "int32_t \<Rightarrow> int32_t \<Rightarrow> int32_t \<Rightarrow> int32_t \<Rightarrow> int32_t \<Rightarrow> int32_t \<Rightarrow> int32_t \<Rightarrow> int32_t \<Rightarrow> bool \<Rightarrow>
   unit handling" where
  "on_date_time iPos nYear nMonth nDay nHour nMinute nSecond nNano fUTC =
     seqc (encode_position iPos)
       (bindc (is_type_id_encoded t_datetime) (\<lambda>enc.
         seqc (if enc then wh_write_int32 t_datetime else ret ())
           (seqc (wh_on_out (write_date nYear nMonth nDay))
             (wh_on_out (write_time nHour nMinute nSecond nNano (if fUTC then 1 else 0) 0 0)))))"

definition on_date_time_offset ::
  "int32_t \<Rightarrow> int32_t \<Rightarrow> int32_t \<Rightarrow> int32_t \<Rightarrow> int32_t \<Rightarrow> int32_t \<Rightarrow> int32_t \<Rightarrow> int32_t \<Rightarrow> int32_t \<Rightarrow>
   int32_t \<Rightarrow> unit handling" where
  "on_date_time_offset iPos nYear nMonth nDay nHour nMinute nSecond nNano nHourOffset nMinuteOffset =
     seqc (encode_position iPos)
       (bindc (is_type_id_encoded t_datetime) (\<lambda>enc.
         seqc (if enc then wh_write_int32 t_datetime else ret ())
           (seqc (wh_on_out (write_date nYear nMonth nDay))
             (wh_on_out (write_time nHour nMinute nSecond nNano 2 nHourOffset nMinuteOffset)))))"

definition on_day_time_interval ::
  "int32_t \<Rightarrow> int32_t \<Rightarrow> int32_t \<Rightarrow> int32_t \<Rightarrow> int32_t \<Rightarrow> int32_t \<Rightarrow> unit handling" where
  "on_day_time_interval iPos cDays cHours cMinutes cSeconds cNanos =
     seqc (encode_position iPos)
       (bindc (is_type_id_encoded t_day_time_interval) (\<lambda>enc.
         seqc (if enc then wh_write_int32 t_day_time_interval else ret ())
           (seqc (wh_write_int32 cDays) (seqc (wh_write_int32 cHours) (seqc (wh_write_int32 cMinutes)
             (seqc (wh_write_int32 cSeconds) (wh_write_int32 cNanos)))))))"

section \<open>Complex values\<close>

text \<open>
  The nine \<^verbatim>\<open>begin\<close> methods of arrays, collections and maps are the same code up to the
  type identifier, the element types written before the size and the complex value they
  push: \<open>cxEmpty\<close> for a compact empty value, \<open>cx\<close> otherwise.
\<close>

definition begin_complex ::
  "int32_t \<Rightarrow> nat \<Rightarrow> int32_t \<Rightarrow> int32_t list \<Rightarrow> pof_complex \<Rightarrow> pof_complex \<Rightarrow> unit handling" where
  "begin_complex iPos cElements nTypeId nTypes cxEmpty cx =
     bindc (wh_get is_skippable) (\<lambda>skip.
       if cElements = 0 \<and> skip then push_complex (complex_create False)
       else
         bindc (wh_get is_compressable) (\<lambda>fCompressable.
         seqc (encode_position iPos)
           (bindc (is_type_id_encoded nTypeId) (\<lambda>enc.
             let body =
               seqc (for_each wh_write_int32 nTypes)
                 (bindc (wh_lift (validate_outgoing_size cElements)) (\<lambda>c.
                   seqc (wh_write_int32 c) (push_complex cx))) in
             if enc then
               if cElements = 0 \<and> fCompressable
               then seqc (wh_write_int32 v_collection_empty) (push_complex cxEmpty)
               else seqc (wh_write_int32 nTypeId) body
             else body))))"

definition begin_collection :: "int32_t \<Rightarrow> nat \<Rightarrow> unit handling" where
  "begin_collection iPos cElements =
     begin_complex iPos cElements t_collection [] (complex_create False) (complex_create False)"

definition begin_uniform_collection :: "int32_t \<Rightarrow> nat \<Rightarrow> int32_t \<Rightarrow> unit handling" where
  "begin_uniform_collection iPos cElements nType =
     begin_complex iPos cElements t_uniform_collection [nType]
       (complex_create_uniform False nType) (complex_create_uniform False nType)"

definition begin_array :: "int32_t \<Rightarrow> nat \<Rightarrow> unit handling" where
  "begin_array iPos cElements =
     begin_complex iPos cElements t_array [] (complex_create False) (complex_create False)"

definition begin_uniform_array :: "int32_t \<Rightarrow> nat \<Rightarrow> int32_t \<Rightarrow> unit handling" where
  "begin_uniform_array iPos cElements nType =
     begin_complex iPos cElements t_uniform_array [nType]
       (complex_create_uniform False nType) (complex_create_uniform False nType)"

definition begin_sparse_array :: "int32_t \<Rightarrow> nat \<Rightarrow> unit handling" where
  "begin_sparse_array iPos cElements =
     begin_complex iPos cElements t_sparse_array [] (complex_create False) (complex_create True)"

definition begin_uniform_sparse_array :: "int32_t \<Rightarrow> nat \<Rightarrow> int32_t \<Rightarrow> unit handling" where
  "begin_uniform_sparse_array iPos cElements nType =
     begin_complex iPos cElements t_uniform_sparse_array [nType]
       (complex_create_uniform False nType) (complex_create_uniform True nType)"

definition begin_map :: "int32_t \<Rightarrow> nat \<Rightarrow> unit handling" where
  "begin_map iPos cElements =
     begin_complex iPos cElements t_map [] (complex_create False) (complex_create False)"

definition begin_uniform_keys_map :: "int32_t \<Rightarrow> nat \<Rightarrow> int32_t \<Rightarrow> unit handling" where
  "begin_uniform_keys_map iPos cElements nTypeKeys =
     begin_complex iPos cElements t_uniform_keys_map [nTypeKeys]
       (complex_map_create_keys nTypeKeys) (complex_map_create_keys nTypeKeys)"

definition begin_uniform_map :: "int32_t \<Rightarrow> nat \<Rightarrow> int32_t \<Rightarrow> int32_t \<Rightarrow> unit handling" where
  "begin_uniform_map iPos cElements nTypeKeys nTypeValues =
     begin_complex iPos cElements t_uniform_map [nTypeKeys, nTypeValues]
       (complex_map_create nTypeKeys nTypeValues) (complex_map_create nTypeKeys nTypeValues)"

definition begin_user_type :: "int32_t \<Rightarrow> int32_t \<Rightarrow> int32_t \<Rightarrow> int32_t \<Rightarrow> unit handling" where
  "begin_user_type iPos nId nUserTypeId nVersionId =
     seqc (encode_position iPos)
       (seqc (register_identity nId)
         (bindc (is_type_id_encoded nUserTypeId) (\<lambda>enc.
           seqc (if enc then wh_write_int32 nUserTypeId else ret ())
             (seqc (wh_write_int32 nVersionId) (push_complex (complex_create True))))))"

text \<open>Ending a value when none was begun dereferences a null handle.\<close>

definition end_complex_value :: "unit handling" where
  "end_complex_value =
     bindc (wh_get wh_complex) (\<lambda>cs.
       case cs of
         [] \<Rightarrow> throw NullPointerException
       | c # rest \<Rightarrow>
           seqc (if complex_is_sparse c then wh_write_int32 (- 1) else ret ())
             (\<lambda>h. (Inr (), h\<lparr>wh_complex := rest\<rparr>)))"

section \<open>What the handlers write\<close>

text \<open>
  \<open>hands c f m bs v c' f'\<close>: with the stack \<open>c\<close> and the identity flag \<open>f\<close>, and enough room
  in the output, \<open>m\<close> returns \<open>v\<close>, writes exactly \<open>bs\<close> and leaves the stack \<open>c'\<close> and the
  flag \<open>f'\<close>.
\<close>

definition hands ::
  "pof_complex list \<Rightarrow> bool \<Rightarrow> 'a handling \<Rightarrow> octet_t list \<Rightarrow> 'a \<Rightarrow> pof_complex list \<Rightarrow> bool \<Rightarrow> bool" where
  "hands c f m bs v c' f' \<longleftrightarrow>
     (\<forall>bo. bo_ok bo \<and> length bs + 9 \<le> bo_room bo \<longrightarrow>
        (\<exists>bo'. m \<lparr>wh_out = bo, wh_complex = c, wh_has_identity = f\<rparr> =
            (Inr v, \<lparr>wh_out = bo', wh_complex = c', wh_has_identity = f'\<rparr>) \<and>
          bo_writes bo bs bo'))"

named_theorems hands_intros \<open>what the parts of a handler write\<close>

lemma handsI:
  assumes "\<And>bo. bo_ok bo \<Longrightarrow> length bs + 9 \<le> bo_room bo \<Longrightarrow>
    \<exists>bo'. m \<lparr>wh_out = bo, wh_complex = c, wh_has_identity = f\<rparr> =
            (Inr v, \<lparr>wh_out = bo', wh_complex = c', wh_has_identity = f'\<rparr>) \<and>
          bo_writes bo bs bo'"
  shows "hands c f m bs v c' f'"
  using assms by (simp add: hands_def)

lemma handsE:
  assumes "hands c f m bs v c' f'" and "bo_ok bo" and "length bs + 9 \<le> bo_room bo"
  obtains bo' where "m \<lparr>wh_out = bo, wh_complex = c, wh_has_identity = f\<rparr> =
      (Inr v, \<lparr>wh_out = bo', wh_complex = c', wh_has_identity = f'\<rparr>)"
    and "bo_writes bo bs bo'"
  using assms by (auto simp: hands_def)

lemma hands_bindc:
  assumes m: "hands c f m bs a c' f'" and n: "hands c' f' (g a) cs v c'' f''"
  shows "hands c f (bindc m g) (bs @ cs) v c'' f''"
proof (rule handsI)
  fix bo
  assume ok: "bo_ok bo" and room: "length (bs @ cs) + 9 \<le> bo_room bo"
  then have "length bs + 9 \<le> bo_room bo" by simp
  with m ok obtain bo' where
    run: "m \<lparr>wh_out = bo, wh_complex = c, wh_has_identity = f\<rparr> =
      (Inr a, \<lparr>wh_out = bo', wh_complex = c', wh_has_identity = f'\<rparr>)" and w: "bo_writes bo bs bo'"
    by (rule handsE)
  have "bo_ok bo'" "length cs + 9 \<le> bo_room bo'"
    using w room bo_writes_room [OF w] by (simp_all add: bo_writes_def)
  with n obtain bo'' where
    run': "g a \<lparr>wh_out = bo', wh_complex = c', wh_has_identity = f'\<rparr> =
      (Inr v, \<lparr>wh_out = bo'', wh_complex = c'', wh_has_identity = f''\<rparr>)" and w': "bo_writes bo' cs bo''"
    by (rule handsE)
  from bo_writes_trans [OF ok w w'] run run'
  show "\<exists>bo'. bindc m g \<lparr>wh_out = bo, wh_complex = c, wh_has_identity = f\<rparr> =
      (Inr v, \<lparr>wh_out = bo', wh_complex = c'', wh_has_identity = f''\<rparr>) \<and> bo_writes bo (bs @ cs) bo'"
    by (auto simp: bindc_Inr)
qed

lemma hands_seqc:
  "hands c f m bs () c' f' \<Longrightarrow> hands c' f' n cs v c'' f'' \<Longrightarrow> hands c f (seqc m n) (bs @ cs) v c'' f''"
  unfolding seqc_def by (rule hands_bindc)

lemma hands_ret [hands_intros]: "hands c f (ret v) [] v c f"
  by (rule handsI) (auto intro: bo_writes_refl)

lemma hands_bindc_get:
  assumes "\<And>bo. g \<lparr>wh_out = bo, wh_complex = c, wh_has_identity = f\<rparr> = a"
    and "hands c f (k a) bs v c' f'"
  shows "hands c f (bindc (wh_get g) k) bs v c' f'"
  using assms by (simp add: hands_def bindc_def wh_get_def)

lemma hands_emits: "emits m bs \<Longrightarrow> hands c f (wh_on_out m) bs () c f"
  by (rule handsI) (auto simp: wh_on_out_def elim!: emitsE)

lemma hands_write_int32 [hands_intros]: "hands c f (wh_write_int32 n) (pack_int n) () c f"
  unfolding wh_write_int32_def by (rule hands_emits) (rule emits_obo)

lemma hands_set_identity [hands_intros]: "hands c f (wh_set_identity f') [] () c f'"
  by (rule handsI) (auto simp: wh_set_identity_def intro: bo_writes_refl)

lemma hands_push_complex [hands_intros]: "hands c f (push_complex x) [] () (x # c) f"
  by (rule handsI) (auto simp: push_complex_def intro: bo_writes_refl)

lemma hands_register [hands_intros]: "hands c f (register_identity (- 1)) [] () c True"
  unfolding register_identity_def
  by (rule hands_bindc_get [where a = f]) (simp_all add: word_sless_alt word_sle_eq hands_set_identity)


definition pos_octets :: "pof_complex list \<Rightarrow> int32_t \<Rightarrow> octet_t list" where
  "pos_octets c iPos =
     (case c of [] \<Rightarrow> [] | x # _ \<Rightarrow> if 0 \<le>s iPos \<and> complex_is_sparse x then pack_int iPos else [])"

definition step_complex :: "pof_complex list \<Rightarrow> pof_complex list" where
  "step_complex c = (case c of [] \<Rightarrow> [] | x # rest \<Rightarrow> complex_on_value x # rest)"

definition skippable :: "pof_complex list \<Rightarrow> bool \<Rightarrow> bool" where
  "skippable c f \<longleftrightarrow> \<not> f \<and> c \<noteq> [] \<and> complex_is_sparse (hd c)"

definition plain_top :: "pof_complex list \<Rightarrow> bool" where
  "plain_top c \<longleftrightarrow> c = [] \<or> \<not> complex_is_uniform (hd c)"

definition uniform_top :: "int32_t \<Rightarrow> pof_complex list \<Rightarrow> bool" where
  "uniform_top t c \<longleftrightarrow> c \<noteq> [] \<and> complex_is_uniform (hd c) \<and> complex_uniform_type (hd c) = t"

lemma hands_set_complex:
  "hands c f (\<lambda>h. (Inr (), h\<lparr>wh_complex := c'\<rparr>)) [] () c' f"
  by (rule handsI) (auto intro: bo_writes_refl)

lemma hands_encode_position:
  "hands c f (encode_position iPos) (pos_octets c iPos) () (step_complex c) False"
proof (cases c)
  case Nil
  have "hands [] f (encode_position iPos) ([] @ []) () [] False"
    unfolding encode_position_def
    by (rule hands_bindc_get [where a = "[]"]) (auto intro: hands_seqc hands_ret hands_set_identity)
  with Nil show ?thesis by (simp add: pos_octets_def step_complex_def)
next
  case (Cons x rest)
  let ?pos = "if 0 \<le>s iPos \<and> complex_is_sparse x then pack_int iPos else []"
  have wr: "hands (complex_on_value x # rest) f
      (if 0 \<le>s iPos \<and> complex_is_sparse x then wh_write_int32 iPos else ret ()) ?pos ()
      (complex_on_value x # rest) f"
    by (auto intro: hands_write_int32 hands_ret)
  have "hands (x # rest) f (encode_position iPos) (([] @ ?pos) @ []) () (complex_on_value x # rest) False"
    unfolding encode_position_def
    by (rule hands_bindc_get [where a = "x # rest"], simp, unfold list.case)
      (rule hands_seqc [OF hands_seqc [OF hands_set_complex wr] hands_set_identity])
  with Cons show ?thesis by (simp add: pos_octets_def step_complex_def)
qed

lemma hands_type_id_plain:
  assumes "plain_top c" shows "hands c f (is_type_id_encoded t) [] True c f"
  unfolding is_type_id_encoded_def
  by (rule hands_bindc_get [where a = c])
    (use assms in \<open>auto simp: plain_top_def split: list.split intro: hands_ret\<close>)

lemma hands_type_id_uniform:
  assumes "uniform_top t c" shows "hands c f (is_type_id_encoded t) [] False c f"
  unfolding is_type_id_encoded_def
  by (rule hands_bindc_get [where a = c])
    (use assms in \<open>auto simp: uniform_top_def split: list.split intro: hands_ret\<close>)

text \<open>The three outcomes every value handler has: skipped, typed and uniform.\<close>

lemma hands_skipped:
  assumes "skippable c f" and "\<not> p"
  shows "hands c f (bindc (wh_get is_skippable) (\<lambda>skip. if p \<or> \<not> skip then m else ret ())) [] () c f"
  by (rule hands_bindc_get [where a = True])
    (use assms in \<open>auto simp: is_skippable_def skippable_def intro: hands_ret\<close>)

lemma hands_not_skipped:
  assumes "p \<or> \<not> skippable c f" and "hands c f m bs () c' f'"
  shows "hands c f (bindc (wh_get is_skippable) (\<lambda>skip. if p \<or> \<not> skip then m else ret ())) bs () c' f'"
  by (rule hands_bindc_get [where a = "skippable c f"])
    (use assms in \<open>auto simp: is_skippable_def skippable_def\<close>)

lemma hands_typed:
  assumes "plain_top (step_complex c)"
    and "hands (step_complex c) False (A (\<not> f)) bs () c' f'"
  shows "hands c f (bindc (wh_get is_compressable) (\<lambda>fCompressable.
      seqc (encode_position iPos) (bindc (is_type_id_encoded t) (\<lambda>enc.
        if enc then A fCompressable else B)))) (pos_octets c iPos @ bs) () c' f'"
proof (rule hands_bindc_get [where a = "\<not> f"])
  show "is_compressable \<lparr>wh_out = bo, wh_complex = c, wh_has_identity = f\<rparr> = (\<not> f)" for bo
    by (simp add: is_compressable_def)
  show "hands c f (seqc (encode_position iPos) (bindc (is_type_id_encoded t) (\<lambda>enc.
        if enc then A (\<not> f) else B))) (pos_octets c iPos @ bs) () c' f'"
    using hands_seqc [OF hands_encode_position
        hands_bindc [OF hands_type_id_plain [OF assms(1)], where g = "\<lambda>enc. if enc then A (\<not> f) else B"]] assms(2)
    by simp
qed

lemma hands_uniform:
  assumes "uniform_top t (step_complex c)"
    and "hands (step_complex c) False B bs () c' f'"
  shows "hands c f (bindc (wh_get is_compressable) (\<lambda>fCompressable.
      seqc (encode_position iPos) (bindc (is_type_id_encoded t) (\<lambda>enc.
        if enc then A fCompressable else B)))) (pos_octets c iPos @ bs) () c' f'"
proof (rule hands_bindc_get [where a = "\<not> f"])
  show "is_compressable \<lparr>wh_out = bo, wh_complex = c, wh_has_identity = f\<rparr> = (\<not> f)" for bo
    by (simp add: is_compressable_def)
  show "hands c f (seqc (encode_position iPos) (bindc (is_type_id_encoded t) (\<lambda>enc.
        if enc then A (\<not> f) else B))) (pos_octets c iPos @ bs) () c' f'"
    using hands_seqc [OF hands_encode_position
        hands_bindc [OF hands_type_id_uniform [OF assms(1)], where g = "\<lambda>enc. if enc then A (\<not> f) else B"]] assms(2)
    by simp
qed


section \<open>The typed form of every value\<close>

text \<open>
  The octets of a value whose type is encoded.  \<open>fC\<close> is set where compact forms are
  allowed.
\<close>

definition typed_int16 :: "bool \<Rightarrow> int16_t \<Rightarrow> octet_t list" where
  "typed_int16 fC n =
     (if fC \<and> - 1 \<le>s n \<and> n \<le>s 22 then pack_int (v_int_0 - scast n) else pack_int t_int16 @ pack_int n)"

definition typed_int32 :: "bool \<Rightarrow> int32_t \<Rightarrow> octet_t list" where
  "typed_int32 fC n =
     (if fC \<and> - 1 \<le>s n \<and> n \<le>s 22 then pack_int (v_int_0 - n) else pack_int t_int32 @ pack_int n)"

definition typed_int64 :: "bool \<Rightarrow> int64_t \<Rightarrow> octet_t list" where
  "typed_int64 fC n =
     (if fC \<and> - 1 \<le>s n \<and> n \<le>s 22 then pack_int (v_int_0 - scast n) else pack_int t_int64 @ pack_int n)"

definition bool_octets :: "bool \<Rightarrow> octet_t list" where
  "bool_octets f = pack_int (if f then 1 else 0 :: int32_t)"

definition typed_boolean :: "bool \<Rightarrow> bool \<Rightarrow> octet_t list" where
  "typed_boolean fC f =
     (if fC then pack_int (if f then v_boolean_true else v_boolean_false)
      else pack_int t_boolean @ bool_octets f)"

definition typed_octet :: "bool \<Rightarrow> octet_t \<Rightarrow> octet_t list" where
  "typed_octet fC b =
     (if fC \<and> b \<le> 22 then pack_int (v_int_0 - ucast b)
      else if fC \<and> b = 0xFF then pack_int v_int_neg_1
      else pack_int t_octet @ [b])"

definition typed_char :: "bool \<Rightarrow> wchar16_t \<Rightarrow> octet_t list" where
  "typed_char fC ch =
     (if fC \<and> ch \<le> 22 then pack_int (v_int_0 - ucast ch)
      else if fC \<and> ch = 0xFFFF then pack_int v_int_neg_1
      else pack_int t_char @ encode_char16 ch)"

lemma bindc_wh_lift [simp]: "bindc (wh_lift (Inr a)) k = k a"
  by (rule ext) (simp add: bindc_def wh_lift_def)

lemma sint_scast_tiny:
  assumes "- 1 \<le>s n" and "n \<le>s 22" and "6 < LENGTH('w)"
  shows "sint (scast (n :: 'w::len word) :: int32_t) = sint n"
proof -
  have "sint (- 1 :: 'w word) = - 1" by simp
  moreover have "sint (22 :: 'w word) = 22"
  proof -
    have "(2::int) ^ 6 \<le> 2 ^ (LENGTH('w) - Suc 0)" using assms(3) by (intro power_increasing) auto
    then show ?thesis by (simp add: signed_take_bit_int_eq_self del: sint_numeral)
  qed
  ultimately have "- 1 \<le> sint n" "sint n \<le> 22" using assms(1,2) by (simp_all add: word_sle_eq)
  then have "signed_take_bit 31 (sint n) = sint n" by (intro signed_take_bit_int_eq_self) simp_all
  moreover have "sint (of_int (sint n) :: int32_t) = signed_take_bit 31 (sint n)"
    by (simp only: signed_of_int) simp
  ultimately show ?thesis by simp
qed


lemma encode_tiny_int32_ok: "- 1 \<le>s n \<Longrightarrow> n \<le>s 22 \<Longrightarrow> encode_tiny_int32 n = Inr (v_int_0 - n)"
  by (simp add: encode_tiny_int32_def)

lemma encode_tiny_int32_scast:
  fixes n :: "'w::len word"
  assumes "- 1 \<le>s n" and "n \<le>s 22" and "6 < LENGTH('w)" and "sint (22 :: 'w word) = 22"
  shows "encode_tiny_int32 (scast n) = Inr (v_int_0 - scast n)"
  using assms sint_scast_tiny [OF assms(1-3)] by (intro encode_tiny_int32_ok) (simp_all add: word_sle_eq)

lemma encode_tiny_int32_ucast:
  fixes b :: "'w::len word"
  assumes "unat b \<le> 22"
  shows "encode_tiny_int32 (ucast b) = Inr (v_int_0 - ucast b)"
proof -
  have "(ucast b :: int32_t) = of_nat (unat b)" by simp
  moreover have "sint (of_nat (unat b) :: int32_t) = int (unat b)"
  proof -
    have low: "- (2 ^ 31) \<le> int (unat b)" by (rule order_trans [of _ 0]) simp_all
    have "int (unat b) \<le> 22" using assms by linarith
    then have "int (unat b) < 2 ^ 31" by (rule le_less_trans) simp
    from signed_take_bit_int_eq_self [OF low this] show ?thesis by (simp only: signed_of_nat) simp
  qed
  ultimately have "sint (ucast b :: int32_t) = int (unat b)" by metis
  moreover have "int (unat b) \<le> 22" "- 1 \<le> int (unat b)" using assms by linarith+
  ultimately have "- 1 \<le> sint (ucast b :: int32_t)" "sint (ucast b :: int32_t) \<le> 22" by metis+
  then show ?thesis by (intro encode_tiny_int32_ok) (simp_all add: word_sle_eq)
qed

lemma hands_on_int16:
  assumes "n \<noteq> 0 \<or> \<not> skippable c f" and "plain_top (step_complex c)"
  shows "hands c f (on_int16 iPos n) (pos_octets c iPos @ typed_int16 (\<not> f) n) () (step_complex c) False"
  unfolding on_int16_def
  by (rule hands_not_skipped [OF assms(1) hands_typed [OF assms(2)]])
    (auto simp: typed_int16_def encode_tiny_int32_scast intro!: hands_write_int32
      hands_seqc hands_emits emits_obo)

lemma hands_on_int32:
  assumes "n \<noteq> 0 \<or> \<not> skippable c f" and "plain_top (step_complex c)"
  shows "hands c f (on_int32 iPos n) (pos_octets c iPos @ typed_int32 (\<not> f) n) () (step_complex c) False"
  unfolding on_int32_def
  by (rule hands_not_skipped [OF assms(1) hands_typed [OF assms(2)]])
    (auto simp: typed_int32_def encode_tiny_int32_ok intro!: hands_write_int32 hands_seqc)

lemma hands_on_int64:
  assumes "n \<noteq> 0 \<or> \<not> skippable c f" and "plain_top (step_complex c)"
  shows "hands c f (on_int64 iPos n) (pos_octets c iPos @ typed_int64 (\<not> f) n) () (step_complex c) False"
  unfolding on_int64_def
  by (rule hands_not_skipped [OF assms(1) hands_typed [OF assms(2)]])
    (auto simp: typed_int64_def encode_tiny_int32_scast intro!: hands_write_int32
      hands_seqc hands_emits emits_obo)

lemma hands_on_boolean:
  assumes "b \<or> \<not> skippable c f" and "plain_top (step_complex c)"
  shows "hands c f (on_boolean iPos b) (pos_octets c iPos @ typed_boolean (\<not> f) b) () (step_complex c) False"
  unfolding on_boolean_def
  by (rule hands_not_skipped [OF assms(1) hands_typed [OF assms(2)]])
    (auto simp: typed_boolean_def bool_octets_def intro!: hands_write_int32 hands_seqc)

lemma octet_le22: "(b::octet_t) \<le> 22 \<Longrightarrow> unat b \<le> 22"
  by (simp add: word_le_nat_alt)

lemma char_le22: "(ch::wchar16_t) \<le> 22 \<Longrightarrow> unat ch \<le> 22"
  by (simp add: word_le_nat_alt)

lemma hands_on_octet:
  assumes "b \<noteq> 0 \<or> \<not> skippable c f" and "plain_top (step_complex c)"
  shows "hands c f (on_octet iPos b) (pos_octets c iPos @ typed_octet (\<not> f) b) () (step_complex c) False"
  unfolding on_octet_def
  by (rule hands_not_skipped [OF assms(1) hands_typed [OF assms(2)]])
    (auto simp: typed_octet_def encode_tiny_int32_ucast octet_le22 intro!: hands_write_int32
      hands_seqc hands_emits emits_abo_write1)

lemma hands_on_char:
  assumes "ch \<noteq> 0 \<or> \<not> skippable c f" and "plain_top (step_complex c)"
  shows "hands c f (on_char iPos ch) (pos_octets c iPos @ typed_char (\<not> f) ch) () (step_complex c) False"
  unfolding on_char_def
  by (rule hands_not_skipped [OF assms(1) hands_typed [OF assms(2)]])
    (auto simp: typed_char_def encode_tiny_int32_ucast char_le22 intro!: hands_write_int32
      hands_seqc hands_emits emits_obo)


subsection \<open>Compact floating-point numbers\<close>

definition tiny_ints :: "int32_t list" where
  "tiny_ints = [- 1, 0, 1, 2, 3, 4, 5, 6, 7, 8, 9, 10, 11, 12, 13, 14, 15, 16, 17, 18, 19, 20, 21, 22]"

lemmas fp_in_eval = fp_to_int_def fp_trunc_def fp_of_bits32_def fp_of_bits64_def fp_of_parts_def Let_def

lemmas fp_out_eval = int_to_float32_def int_to_float64_def fp_of_int_def bits32_of_fp_def bits64_of_fp_def
  fp_magnitude_def round_shift_def

text \<open>
  The conversions meet on the tabulated numbers: what \<^verbatim>\<open>(int32_t) fl\<close> yields converts
  back to the same bits.
\<close>

lemma tiny_float32_in:
  "list_all (\<lambda>(n, hi). fp_to_int (fp_of_bits32 (push_bit 16 hi)) = Inr n)
     (zip tiny_ints tiny_float32)"
  unfolding tiny_ints_def tiny_float32_def zip_Cons_Cons zip.simps(1) list.pred_inject prod.case simp_thms
  by (intro conjI; simp add: fp_in_eval)

lemma tiny_float32_out:
  "list_all (\<lambda>(n, hi). int_to_float32 n = push_bit 16 hi)
     (zip tiny_ints tiny_float32)"
  unfolding tiny_ints_def tiny_float32_def zip_Cons_Cons zip.simps(1) list.pred_inject prod.case simp_thms
  by (intro conjI; simp add: fp_out_eval)

lemma tiny_float64_in:
  "list_all (\<lambda>(n, hi). fp_to_int (fp_of_bits64 (push_bit 48 hi)) = Inr n)
     (zip tiny_ints tiny_float64)"
  unfolding tiny_ints_def tiny_float64_def zip_Cons_Cons zip.simps(1) list.pred_inject prod.case simp_thms
  by (intro conjI; simp add: fp_in_eval)

lemma tiny_float64_out:
  "list_all (\<lambda>(n, hi). int_to_float64 n = push_bit 48 hi)
     (zip tiny_ints tiny_float64)"
  unfolding tiny_ints_def tiny_float64_def zip_Cons_Cons zip.simps(1) list.pred_inject prod.case simp_thms
  by (intro conjI; simp add: fp_out_eval)

lemma tiny_ints_range: "n \<in> set tiny_ints \<Longrightarrow> - 1 \<le>s n \<and> n \<le>s 22"
  by (auto simp: tiny_ints_def word_sle_eq)

lemma zip_partner:
  assumes "y \<in> set ys" and "length xs = length ys"
  obtains x where "(x, y) \<in> set (zip xs ys)" and "x \<in> set xs"
  using assms by (metis in_set_impl_in_set_zip2 set_zip_leftD)

lemma tiny_float32E:
  assumes "hi \<in> set tiny_float32"
  obtains n where "n \<in> set tiny_ints" and "fp_to_int (fp_of_bits32 (push_bit 16 hi)) = Inr n"
    and "int_to_float32 n = push_bit 16 hi"
proof -
  have "length tiny_ints = length tiny_float32" by (simp add: tiny_ints_def tiny_float32_def)
  from zip_partner [OF assms this] obtain n where "(n, hi) \<in> set (zip tiny_ints tiny_float32)"
    "n \<in> set tiny_ints" .
  with tiny_float32_in tiny_float32_out that show ?thesis by (fastforce simp: list_all_iff)
qed

lemma tiny_float64E:
  assumes "hi \<in> set tiny_float64"
  obtains n where "n \<in> set tiny_ints" and "fp_to_int (fp_of_bits64 (push_bit 48 hi)) = Inr n"
    and "int_to_float64 n = push_bit 48 hi"
proof -
  have "length tiny_ints = length tiny_float64" by (simp add: tiny_ints_def tiny_float64_def)
  from zip_partner [OF assms this] obtain n where "(n, hi) \<in> set (zip tiny_ints tiny_float64)"
    "n \<in> set tiny_ints" .
  with tiny_float64_in tiny_float64_out that show ?thesis by (fastforce simp: list_all_iff)
qed

lemma bit_mask_16: "bit (0x0000FFFF :: int) n \<longleftrightarrow> n < 16"
  and bit_mask_48: "bit (0x0000FFFFFFFFFFFF :: int) n \<longleftrightarrow> n < 48"
proof -
  have "(0x0000FFFF::int) = mask 16" "(0x0000FFFFFFFFFFFF::int) = mask 48"
    by (simp_all add: mask_eq_exp_minus_1)
  then show "bit (0x0000FFFF :: int) n \<longleftrightarrow> n < 16" "bit (0x0000FFFFFFFFFFFF :: int) n \<longleftrightarrow> n < 48"
    by (simp_all only: bit_mask_iff possible_bit_def) auto
qed

lemma high_half32: "(fl :: float32_bits) AND 0x0000FFFF = 0 \<Longrightarrow> push_bit 16 (drop_bit 16 fl) = fl"
proof (rule bit_eqI)
  fix n
  assume "fl AND 0x0000FFFF = 0"
  then have "\<not> bit (fl AND 0x0000FFFF) n" by simp
  then show "bit (push_bit 16 (drop_bit 16 fl)) n = bit fl n"
    by (auto simp: packed_bits bit_mask_16 dest: bit_imp_le_length)
qed

lemma high_part64: "(fl :: float64_bits) AND 0x0000FFFFFFFFFFFF = 0 \<Longrightarrow> push_bit 48 (drop_bit 48 fl) = fl"
proof (rule bit_eqI)
  fix n
  assume "fl AND 0x0000FFFFFFFFFFFF = 0"
  then have "\<not> bit (fl AND 0x0000FFFFFFFFFFFF) n" by simp
  then show "bit (push_bit 48 (drop_bit 48 fl)) n = bit fl n"
    by (auto simp: packed_bits bit_mask_48 dest: bit_imp_le_length)
qed

definition compact_float32 :: "float32_bits \<Rightarrow> int32_t option" where
  "compact_float32 fl =
     (if fl AND 0x0000FFFF \<noteq> 0 then None
      else
        let hi = drop_bit 16 fl in
        if hi = 0xFF80 then Some v_fp_neg_infinity
        else if hi = 0x7F80 then Some v_fp_pos_infinity
        else if hi = 0x7FC0 then Some v_fp_nan
        else if hi \<in> set tiny_float32
        then Some (v_int_0 - (case fp_to_int (fp_of_bits32 fl) of Inr n \<Rightarrow> n | Inl _ \<Rightarrow> 0))
        else None)"

definition typed_float32 :: "bool \<Rightarrow> float32_bits \<Rightarrow> octet_t list" where
  "typed_float32 fC fl =
     (case if fC then compact_float32 fl else None of
        Some t \<Rightarrow> pack_int t
      | None \<Rightarrow> pack_int t_float32 @ split4 fl)"

definition compact_float64 :: "float64_bits \<Rightarrow> int32_t option" where
  "compact_float64 dfl =
     (if dfl AND 0x0000FFFFFFFFFFFF \<noteq> 0 then None
      else
        let hi = drop_bit 48 dfl in
        if hi = 0xFFF0 then Some v_fp_neg_infinity
        else if hi = 0x7FF0 then Some v_fp_pos_infinity
        else if hi = 0x7FF8 then Some v_fp_nan
        else if hi \<in> set tiny_float64
        then Some (v_int_0 - (case fp_to_int (fp_of_bits64 dfl) of Inr n \<Rightarrow> n | Inl _ \<Rightarrow> 0))
        else None)"

definition typed_float64 :: "bool \<Rightarrow> float64_bits \<Rightarrow> octet_t list" where
  "typed_float64 fC dfl =
     (case if fC then compact_float64 dfl else None of
        Some t \<Rightarrow> pack_int t
      | None \<Rightarrow> pack_int t_float64 @ split8 dfl)"

lemma hands_on_float32:
  assumes "\<not> float32_is_zero fl \<or> \<not> skippable c f" and "plain_top (step_complex c)"
  shows "hands c f (on_float32 iPos fl) (pos_octets c iPos @ typed_float32 (\<not> f) fl) () (step_complex c) False"
proof -
  have tiny: "case_exn (fp_to_int (fp_of_bits32 fl)) encode_tiny_int32 =
      Inr (v_int_0 - (case fp_to_int (fp_of_bits32 fl) of Inr n \<Rightarrow> n | Inl _ \<Rightarrow> 0))"
    if zero: "fl AND 0x0000FFFF = 0" and hi: "drop_bit 16 fl \<in> set tiny_float32"
  proof -
    from tiny_float32E [OF hi] obtain n where "n \<in> set tiny_ints" "fp_to_int (fp_of_bits32 fl) = Inr n"
      by (metis high_half32 [OF zero])
    with tiny_ints_range [of n] show ?thesis by (simp add: case_exn_def encode_tiny_int32_ok)
  qed
  show ?thesis
    unfolding on_float32_def
    by (rule hands_not_skipped [OF assms(1) hands_typed [OF assms(2)]])
      (auto simp: typed_float32_def compact_float32_def Let_def tiny intro!: hands_write_int32
        hands_seqc hands_emits emits_obo)
qed

lemma hands_on_float64:
  assumes "\<not> float64_is_zero dfl \<or> \<not> skippable c f" and "plain_top (step_complex c)"
  shows "hands c f (on_float64 iPos dfl) (pos_octets c iPos @ typed_float64 (\<not> f) dfl) () (step_complex c) False"
proof -
  have tiny: "(fp_to_int (fp_of_bits64 dfl) :: exn + int32_t) =
      Inr (case fp_to_int (fp_of_bits64 dfl) of Inr n \<Rightarrow> n | Inl _ \<Rightarrow> 0)"
    if zero: "dfl AND 0x0000FFFFFFFFFFFF = 0" and hi: "drop_bit 48 dfl \<in> set tiny_float64"
  proof -
    from tiny_float64E [OF hi] obtain n :: int32_t where "fp_to_int (fp_of_bits64 dfl) = Inr n"
      by (metis high_part64 [OF zero])
    then show ?thesis by simp
  qed
  have body: "hands c' False (bindc (wh_lift (fp_to_int (fp_of_bits64 dfl))) (\<lambda>n. wh_write_int32 (v_int_0 - n)))
      (pack_int (v_int_0 - (case fp_to_int (fp_of_bits64 dfl) of Inr n \<Rightarrow> n | Inl _ \<Rightarrow> 0))) () c' False"
    if "dfl AND 0x0000FFFFFFFFFFFF = 0" and "drop_bit 48 dfl \<in> set tiny_float64" for c'
    by (subst tiny [OF that]) (simp add: hands_write_int32)
  show ?thesis
    unfolding on_float64_def
    by (rule hands_not_skipped [OF assms(1) hands_typed [OF assms(2)]])
      (auto simp: typed_float64_def compact_float64_def Let_def intro!: hands_write_int32
        hands_seqc hands_emits emits_obo body)
qed

end
