(* ===== verification/Pof_Encoding.thy ===== *)
theory Pof_Encoding
  imports Pof_Handler
begin

text \<open>
  What the handlers of \<open>Pof_Handler\<close> write for strings, dates, uniform elements and
  complex values: the building blocks of the encoding of objects.
\<close>

section \<open>Sizes and strings\<close>

lemma int32_of_nat_nonneg: "c < 2 ^ 31 \<Longrightarrow> 0 \<le>s (of_nat c :: int32_t)"
  using int32_of_nat(1) [of c] by (simp add: word_sle_eq word_sless_alt)

lemma validate_outgoing_size_ok [simp]:
  "c < 2 ^ 31 \<Longrightarrow> validate_outgoing_size c = Inr (of_nat c)"
  using int32_of_nat [of c] by (simp add: validate_outgoing_size_def Let_def)

lemma validate_incoming_size_ok [simp]:
  "c < 2 ^ 31 \<Longrightarrow> validate_incoming_size (of_nat c) = Inr c"
  using int32_of_nat [of c] int32_of_nat_nonneg [of c] by (simp add: validate_incoming_size_def Let_def)

lemma utf8_step_bound: "utf8_step a cb = Inr c \<Longrightarrow> cb < length a \<Longrightarrow> c \<le> length a"
  by (auto simp: utf8_step_def Let_def case_exn_Inr utf8_cont_def utf8_last_def split: if_splits)

lemma utf8_scan_count:
  "utf8_scan a cb ccp = Inr (cb', n) \<Longrightarrow> cb \<le> length a \<Longrightarrow> cb' = length a \<and> n + cb \<le> ccp + cb'"
proof (induction a cb ccp rule: utf8_scan.induct)
  case (1 a cb ccp)
  show ?case
  proof (cases "cb < length a")
    case True
    with "1.prems" obtain cb1 where step: "utf8_step a cb = Inr cb1" "utf8_scan a cb1 (ccp + 1) = Inr (cb', n)"
      by (auto simp: utf8_scan.simps [of a cb] split: sum.splits)
    from "1.IH" [OF True this] utf8_step_greater [OF step(1)] utf8_step_bound [OF step(1) True]
    show ?thesis by simp
  next
    case False
    with "1.prems" show ?thesis by (simp add: utf8_scan.simps [of a cb])
  qed
qed

text \<open>A string has at most as many characters as octets.\<close>

lemma string_length_le: "string_length vs \<le> length vs"
  using utf8_scan_count [of vs 0 0]
  by (auto simp: string_length_def utf8_validate_def split: sum.splits)

section \<open>Octets and strings\<close>

definition typed_octet_string :: "bool \<Rightarrow> octet_t list \<Rightarrow> octet_t list" where
  "typed_octet_string fC bs =
     (if bs = [] \<and> fC then pack_int v_string_zero_length
      else pack_int t_octet_string @ pack_int (of_nat (length bs) :: int32_t) @ bs)"

definition typed_char_string :: "bool \<Rightarrow> cstring \<Rightarrow> octet_t list" where
  "typed_char_string fC vs =
     (if string_length vs = 0 \<and> fC then pack_int v_string_zero_length
      else pack_int t_char_string @ string_octets (Some vs))"

lemma emits_abo_write_buffer:
  assumes ok: "rb_ok rb"
  shows "emits (abo_write_buffer rb) (rb_octets rb)"
proof (rule emitsI)
  fix s
  assume bo: "bo_ok s" and room: "length (rb_octets rb) + 9 \<le> bo_room s"
  have len: "length (rb_octets rb) = rb_cb rb" using ok by (rule length_rb_octets)
  have rb: "rb_of rb + rb_cb rb \<le> length (rb_vab rb)" "length (rb_vab rb) < npos"
    using ok by (simp_all add: rb_ok_def)
  then have lt: "rb_of rb + rb_cb rb < size_max" "rb_cb rb < size_max" "rb_of rb < size_max"
    by (simp_all add: npos_def)
  have add: "size_add (rb_of rb) 0 = rb_of rb" "size_add 0 (rb_cb rb) = rb_cb rb"
    using lt by simp_all
  have "rb_of rb + rb_cb rb \<le> length (rb_vab rb)" "length (rb_vab rb) < npos" "rb_cb rb \<le> bo_room s"
    "rb_octets rb = take (rb_cb rb) (drop (rb_of rb) (rb_vab rb))"
    using rb room len by (simp_all add: rb_octets_def)
  from abo_write_range_writes [OF bo this] obtain t where
    run: "abo_write_range (rb_vab rb) (rb_of rb) (rb_cb rb) s = (Inr (), t)" and w: "bo_writes s (rb_octets rb) t" .
  have copy: "wb_copy_in v i d cb = (\<lambda>wb. case array_copy v i (wb_hab wb) d cb of
      Inl e \<Rightarrow> (Inl e, wb) | Inr hab \<Rightarrow> (Inr (), wb\<lparr>wb_hab := hab\<rparr>))" for v i d cb
    by (rule ext) (simp add: wb_copy_in_def)
  have "abo_write_buffer rb s = abo_write_range (rb_vab rb) (rb_of rb) (rb_cb rb) s"
    by (simp add: abo_write_buffer_def abo_write_buffer_range_def abo_write_range_def bo_on_buf_def
        wb_write_buffer_def wb_write_def rb_read_range_def copy seqc_def bindc_def add)
  with run w show "\<exists>t. abo_write_buffer rb s = (Inr (), t) \<and> bo_writes s (rb_octets rb) t" by metis
qed

lemma hands_on_octet_string:
  assumes "rb_cb vBin \<noteq> 0 \<or> \<not> skippable c f" and "plain_top (step_complex c)"
    and rb: "rb_ok vBin" "rb_cb vBin < 2 ^ 31"
  shows "hands c f (on_octet_string iPos vBin)
    (pos_octets c iPos @ typed_octet_string (\<not> f) (rb_octets vBin)) () (step_complex c) False"
proof -
  have len: "length (rb_octets vBin) = rb_cb vBin" using rb(1) by (rule length_rb_octets)
  then have empty: "rb_octets vBin = [] \<longleftrightarrow> rb_cb vBin = 0" by (metis length_0_conv)
  show ?thesis
    unfolding on_octet_string_def Let_def
    by (rule hands_not_skipped [OF assms(1) hands_typed [OF assms(2)]])
      (use rb(2) in \<open>auto simp: typed_octet_string_def empty len intro!: hands_write_int32 hands_seqc
        hands_emits emits_abo_write_buffer [OF rb(1)]\<close>)
qed

lemma hands_on_char_string:
  assumes "string_length vs \<noteq> 0 \<or> \<not> skippable c f" and "plain_top (step_complex c)"
    and "length vs < 2 ^ 31"
  shows "hands c f (on_char_string iPos vs)
    (pos_octets c iPos @ typed_char_string (\<not> f) vs) () (step_complex c) False"
proof -
  have len: "string_length vs < 2 ^ 31" using assms(3) string_length_le [of vs] by simp
  show ?thesis
    unfolding on_char_string_def Let_def
    by (rule hands_not_skipped [OF assms(1) hands_typed [OF assms(2)]])
      (use len assms(3) in \<open>auto simp: typed_char_string_def intro!: hands_write_int32 hands_seqc
        hands_emits emits_obo_write_string\<close>)
qed

section \<open>Elements of uniform arrays\<close>

lemma hands_on_uniform:
  assumes "c \<noteq> []" and "\<not> skippable c f"
  shows "uniform_top t_boolean (step_complex c) \<Longrightarrow>
      hands c f (on_boolean iPos b) (pos_octets c iPos @ bool_octets b) () (step_complex c) False"
    and "uniform_top t_char (step_complex c) \<Longrightarrow>
      hands c f (on_char iPos ch) (pos_octets c iPos @ encode_char16 ch) () (step_complex c) False"
    and "uniform_top t_int16 (step_complex c) \<Longrightarrow>
      hands c f (on_int16 iPos n16) (pos_octets c iPos @ pack_int n16) () (step_complex c) False"
    and "uniform_top t_int32 (step_complex c) \<Longrightarrow>
      hands c f (on_int32 iPos n32) (pos_octets c iPos @ pack_int n32) () (step_complex c) False"
    and "uniform_top t_int64 (step_complex c) \<Longrightarrow>
      hands c f (on_int64 iPos n64) (pos_octets c iPos @ pack_int n64) () (step_complex c) False"
    and "uniform_top t_float32 (step_complex c) \<Longrightarrow>
      hands c f (on_float32 iPos f32) (pos_octets c iPos @ split4 f32) () (step_complex c) False"
    and "uniform_top t_float64 (step_complex c) \<Longrightarrow>
      hands c f (on_float64 iPos f64) (pos_octets c iPos @ split8 f64) () (step_complex c) False"
  unfolding on_boolean_def on_char_def on_int16_def on_int32_def on_int64_def on_float32_def on_float64_def
    bool_octets_def
  by (rule hands_not_skipped [OF disjI2 [OF assms(2)]], erule hands_uniform,
      (rule hands_write_int32 | rule hands_emits, rule emits_obo))+

lemma hands_seqc_same:
  "hands c f m bs () c f \<Longrightarrow> hands c f n cs () c f \<Longrightarrow> hands c f (seqc m n) (bs @ cs) () c f"
  by (rule hands_seqc)

section \<open>Complex values\<close>

definition complex_header :: "int32_t \<Rightarrow> int32_t list \<Rightarrow> nat \<Rightarrow> octet_t list" where
  "complex_header nTypeId nTypes c =
     pack_int nTypeId @ concat (map pack_int nTypes) @ pack_int (of_nat c :: int32_t)"

lemma hands_for_each:
  "(\<And>x. x \<in> set xs \<Longrightarrow> hands c f (m x) (g x) () c f) \<Longrightarrow> hands c f (for_each m xs) (concat (map g xs)) () c f"
  by (induction xs) (auto intro: hands_seqc hands_ret)

text \<open>Loops over indexed elements, as the writer runs them.\<close>

lemma hands_for_each_steps:
  assumes "\<And>x. x \<in> set xs \<Longrightarrow> hands c False (m x) (g x) () c False"
    and "\<And>x. x \<in> set xs \<Longrightarrow> hands c f (m x) (g x) () c False"
  shows "hands c f (for_each m xs) (concat (map g xs)) () c (f \<and> xs = [])"
proof (cases xs)
  case Nil
  then show ?thesis by (cases f) (auto intro: hands_ret)
next
  case (Cons y ys)
  have "hands c False (for_each m ys) (concat (map g ys)) () c False"
    using assms(1) Cons by (intro hands_for_each) auto
  with assms(2) [of y] Cons show ?thesis by (auto intro: hands_seqc)
qed

lemma hands_begin_complex:
  assumes "cElements \<noteq> 0 \<or> f" and "plain_top (step_complex c)" and "cElements < 2 ^ 31"
  shows "hands c f (begin_complex iPos cElements t nTypes cxEmpty cx)
    (pos_octets c iPos @ complex_header t nTypes cElements) () (cx # step_complex c) False"
proof -
  have body: "hands c' False (seqc (for_each wh_write_int32 nTypes)
      (bindc (wh_lift (validate_outgoing_size cElements)) (\<lambda>c. seqc (wh_write_int32 c) (push_complex cx))))
      (concat (map pack_int nTypes) @ pack_int (of_nat cElements :: int32_t)) () (cx # c') False" for c'
    using hands_seqc [OF hands_for_each [of nTypes c' False wh_write_int32 pack_int]
        hands_seqc [OF hands_write_int32 hands_push_complex], of "of_nat cElements" cx]
    using assms(3) by (simp add: hands_write_int32)
  have "(cElements = 0 \<and> skippable c f) = False" using assms(1) by (auto simp: skippable_def)
  then show ?thesis
    unfolding begin_complex_def Let_def complex_header_def
    by (intro hands_bindc_get [where a = "skippable c f"], simp add: is_skippable_def skippable_def,
        simp only: if_False, intro hands_typed [OF assms(2)])
      (use assms(1) hands_seqc [OF hands_write_int32 body] in \<open>auto\<close>)
qed

lemma hands_end_complex:
  "hands (x # c) f end_complex_value (if complex_is_sparse x then pack_int (- 1 :: int32_t) else []) () c f"
proof -
  have last: "hands (x # c) f (\<lambda>h. (Inr (), h\<lparr>wh_complex := c\<rparr>)) [] () c f" by (rule hands_set_complex)
  have "hands (x # c) f (if complex_is_sparse x then wh_write_int32 (- 1) else ret ())
      (if complex_is_sparse x then pack_int (- 1 :: int32_t) else []) () (x # c) f"
    by (auto intro: hands_write_int32 hands_ret)
  from hands_seqc [OF this last] show ?thesis
    unfolding end_complex_value_def
    by (intro hands_bindc_get [where a = "x # c"]) simp_all
qed

section \<open>Dates, times and intervals\<close>

definition date_octets :: "int32_t \<Rightarrow> int32_t \<Rightarrow> int32_t \<Rightarrow> octet_t list" where
  "date_octets nYear nMonth nDay = pack_int nYear @ pack_int nMonth @ pack_int nDay"

definition time_octets ::
  "int32_t \<Rightarrow> int32_t \<Rightarrow> int32_t \<Rightarrow> int32_t \<Rightarrow> int32_t \<Rightarrow> int32_t \<Rightarrow> int32_t \<Rightarrow> octet_t list" where
  "time_octets nHour nMinute nSecond nNano nTimeZoneType nHourOffset nMinuteOffset =
     pack_int nHour @ pack_int nMinute @ pack_int nSecond @ pack_int (time_fraction nNano) @
     [ucast nTimeZoneType] @
     (if nTimeZoneType = 2 then pack_int nHourOffset @ pack_int nMinuteOffset else [])"

lemma emits_write_date: "emits (write_date y m d) (date_octets y m d)"
  unfolding write_date_def date_octets_def by (intro emits_seqc emits_obo)

lemma emits_write_time: "emits (write_time h m s n t ho mo) (time_octets h m s n t ho mo)"
  unfolding write_time_def time_octets_def
  by (intro emits_seqc emits_obo emits_abo_write1) (auto intro!: emits_seqc emits_obo)

text \<open>The handlers without compact form: position, type and content.\<close>

lemma hands_plain_value:
  assumes "plain_top (step_complex c)" and "hands (step_complex c) False m bs () (step_complex c) False"
  shows "hands c f (seqc (encode_position iPos) (bindc (is_type_id_encoded t) (\<lambda>enc.
      seqc (if enc then wh_write_int32 t else ret ()) m)))
    (pos_octets c iPos @ pack_int t @ bs) () (step_complex c) False"
  using hands_seqc [OF hands_encode_position
      hands_bindc [OF hands_type_id_plain [OF assms(1)], where g = "\<lambda>enc.
        seqc (if enc then wh_write_int32 t else ret ()) m"]]
    hands_seqc [OF hands_write_int32 assms(2)] by simp

lemma hands_on_dates:
  assumes "plain_top (step_complex c)"
  shows "hands c f (on_date i y mo d) (pos_octets c i @ pack_int t_date @ date_octets y mo d) () (step_complex c) False"
    and "hands c f (on_time i h mi s n utc)
      (pos_octets c i @ pack_int t_time @ time_octets h mi s n (if utc then 1 else 0) 0 0) () (step_complex c) False"
    and "hands c f (on_time_offset i h mi s n ho mo)
      (pos_octets c i @ pack_int t_time @ time_octets h mi s n 2 ho mo) () (step_complex c) False"
    and "hands c f (on_date_time i y mth d h mi s n utc)
      (pos_octets c i @ pack_int t_datetime @ date_octets y mth d @
       time_octets h mi s n (if utc then 1 else 0) 0 0) () (step_complex c) False"
    and "hands c f (on_date_time_offset i y mth d h mi s n ho mo)
      (pos_octets c i @ pack_int t_datetime @ date_octets y mth d @ time_octets h mi s n 2 ho mo) () (step_complex c) False"
    and "hands c f (on_year_month_interval i y mth)
      (pos_octets c i @ pack_int t_year_month_interval @ pack_int y @ pack_int mth) () (step_complex c) False"
    and "hands c f (on_time_interval i h mi s n)
      (pos_octets c i @ pack_int t_time_interval @ pack_int h @ pack_int mi @ pack_int s @ pack_int n)
      () (step_complex c) False"
    and "hands c f (on_day_time_interval i d h mi s n)
      (pos_octets c i @ pack_int t_day_time_interval @ pack_int d @ pack_int h @ pack_int mi @ pack_int s @ pack_int n)
      () (step_complex c) False"
  unfolding on_date_def on_time_def on_time_offset_def on_date_time_def on_date_time_offset_def
    on_year_month_interval_def on_time_interval_def on_day_time_interval_def
  by (intro hands_plain_value [OF assms] hands_seqc_same hands_emits emits_write_date emits_write_time
      hands_write_int32)+

end
