(* ===== verification/Long_Array.thy ===== *)
theory Long_Array
  imports Coh_Prelude
begin

text \<open>
  The interface \<^verbatim>\<open>LongArray\<close> of \<^verbatim>\<open>coherence/util\<close>: a map from 64-bit indexes to
  values.  Its abstract form is the list of the entries in ascending order of the indexes;
  the locale \<open>long_array\<close> states what an implementation promises over it.
\<close>

section \<open>Ascending lists of entries\<close>

definition la_ok :: "(int \<times> 'a) list \<Rightarrow> bool" where
  "la_ok la \<longleftrightarrow> sorted_wrt (<) (map fst la)"

fun la_get :: "int \<Rightarrow> (int \<times> 'a) list \<Rightarrow> 'a option" where
  "la_get i [] = None"
| "la_get i ((j, x) # la) = (if i = j then Some x else la_get i la)"

fun la_set :: "int \<Rightarrow> 'a \<Rightarrow> (int \<times> 'a) list \<Rightarrow> (int \<times> 'a) list" where
  "la_set i x [] = [(i, x)]"
| "la_set i x ((j, y) # la) =
     (if i < j then (i, x) # (j, y) # la
      else if i = j then (i, x) # la
      else (j, y) # la_set i x la)"

fun la_remove :: "int \<Rightarrow> (int \<times> 'a) list \<Rightarrow> (int \<times> 'a) list" where
  "la_remove i [] = []"
| "la_remove i ((j, y) # la) = (if i = j then la else (j, y) # la_remove i la)"

text \<open>The first and last index are -1 for an empty array.\<close>

definition la_first_index :: "(int \<times> 'a) list \<Rightarrow> int" where
  "la_first_index la = (case la of [] \<Rightarrow> - 1 | (i, _) # _ \<Rightarrow> i)"

definition la_last_index :: "(int \<times> 'a) list \<Rightarrow> int" where
  "la_last_index la = (if la = [] then - 1 else fst (last la))"

lemma la_ok_Nil [simp]: "la_ok []"
  by (simp add: la_ok_def)

lemma la_ok_Cons: "la_ok ((i, x) # la) \<longleftrightarrow> la_ok la \<and> (\<forall>j\<in>fst ` set la. i < j)"
  by (auto simp: la_ok_def)

lemma la_ok_append:
  "la_ok (xs @ ys) \<longleftrightarrow> la_ok xs \<and> la_ok ys \<and> (\<forall>i\<in>fst ` set xs. \<forall>j\<in>fst ` set ys. i < j)"
  by (auto simp: la_ok_def sorted_wrt_append)

lemma keys_la_set: "fst ` set (la_set i x la) = insert i (fst ` set la)"
  by (induction i x la rule: la_set.induct) auto

lemma la_ok_la_set: "la_ok la \<Longrightarrow> la_ok (la_set i x la)"
  by (induction i x la rule: la_set.induct) (auto simp: la_ok_Cons keys_la_set)

lemma la_get_la_set: "la_ok la \<Longrightarrow> la_get j (la_set i x la) = (if i = j then Some x else la_get j la)"
  by (induction i x la rule: la_set.induct) (auto simp: la_ok_Cons)

lemma la_get_None: "la_get i la = None \<longleftrightarrow> i \<notin> fst ` set la"
  by (induction i la rule: la_get.induct) auto

lemma keys_la_remove: "la_ok la \<Longrightarrow> fst ` set (la_remove i la) = fst ` set la - {i}"
  by (induction i la rule: la_remove.induct) (auto simp: la_ok_Cons)

lemma la_ok_la_remove: "la_ok la \<Longrightarrow> la_ok (la_remove i la)"
  by (induction i la rule: la_remove.induct) (auto simp: la_ok_Cons keys_la_remove)

lemma la_get_la_remove: "la_ok la \<Longrightarrow> la_get j (la_remove i la) = (if i = j then None else la_get j la)"
proof (induction i la rule: la_remove.induct)
  case (2 i k y la)
  then show ?case using la_get_None [of i la] by (auto simp: la_ok_Cons)
qed simp

lemma la_ext:
  assumes "la_ok xs" and "la_ok ys" and "\<And>i. la_get i xs = la_get i ys"
  shows "xs = ys"
  using assms
proof (induction xs arbitrary: ys)
  case Nil
  then show ?case by (cases ys) (auto split: if_splits, metis option.distinct(1))
next
  case (Cons p xs)
  obtain i x where p: "p = (i, x)" by (rule prod.exhaust)
  show ?case
  proof (cases ys)
    case Nil
    with Cons.prems(3) [of i] p show ?thesis by simp
  next
    case (Cons q ys')
    obtain j y where q: "q = (j, y)" by (rule prod.exhaust)
    have i: "\<forall>k\<in>fst ` set xs. i < k" and j: "\<forall>k\<in>fst ` set ys'. j < k"
      using Cons.prems(1,2) p q Cons by (auto simp: la_ok_Cons)
    have eq: "i = j"
    proof (rule ccontr)
      assume "i \<noteq> j"
      with Cons.prems(3) [of i] Cons.prems(3) [of j] p q Cons have
        "la_get i ys' = Some x" "la_get j xs = Some y" by (auto split: if_splits)
      with la_get_None [of i ys'] la_get_None [of j xs] i j show False by force
    qed
    with Cons.prems(3) [of i] p q Cons have "x = y" by simp
    moreover have "la_get k xs = la_get k ys'" for k
    proof (cases "k = i")
      case True
      with i j eq la_get_None [of i xs] la_get_None [of i ys'] show ?thesis by force
    next
      case False
      with Cons.prems(3) [of k] p q Cons eq show ?thesis by simp
    qed
    ultimately show ?thesis using Cons.IH [of ys'] Cons.prems(1,2) p q Cons eq by (simp add: la_ok_Cons)
  qed
qed

lemma la_last_index_max: "la_ok la \<Longrightarrow> i \<in> fst ` set la \<Longrightarrow> i \<le> la_last_index la"
  by (cases la rule: rev_cases) (fastforce simp: la_ok_append la_last_index_def)+

text \<open>Operations at a known place of an ascending list.\<close>

lemma la_get_append: "la_get i (xs @ ys) = (case la_get i xs of None \<Rightarrow> la_get i ys | Some x \<Rightarrow> Some x)"
  by (induction xs rule: la_get.induct) auto

lemma la_set_between:
  "\<forall>j\<in>fst ` set xs. j < i \<Longrightarrow> \<forall>j\<in>fst ` set ys. i < j \<Longrightarrow> la_set i x (xs @ ys) = xs @ (i, x) # ys"
proof (induction xs)
  case Nil
  then show ?case by (cases ys) auto
qed auto

lemma la_set_at: "\<forall>j\<in>fst ` set xs. j < i \<Longrightarrow> la_set i x (xs @ (i, y) # ys) = xs @ (i, x) # ys"
  by (induction xs) auto

lemma la_remove_at: "\<forall>j\<in>fst ` set xs. j < i \<Longrightarrow> la_remove i (xs @ (i, y) # ys) = xs @ ys"
  by (induction xs) auto

lemma la_remove_none: "i \<notin> fst ` set la \<Longrightarrow> la_remove i la = la"
  by (induction i la rule: la_remove.induct) auto

section \<open>The interface\<close>

text \<open>A holder is \<^const>\<open>None\<close> when it is \<^verbatim>\<open>NULL\<close>.\<close>

type_synonym 'v holder = "'v option"

text \<open>The value a lookup returns: \<^verbatim>\<open>NULL\<close> when there is no entry.\<close>

definition held :: "'v holder option \<Rightarrow> 'v holder" where
  "held h = (case h of None \<Rightarrow> None | Some x \<Rightarrow> x)"

lemma held_simps [simp]: "held None = None" "held (Some x) = x"
  by (simp_all add: held_def)

text \<open>
  \<open>abs\<close> are the entries of an array, \<open>inv\<close> its representation invariant; \<open>set_entry\<close> and
  \<open>remove_entry\<close> return the value they replace or remove.  They may fail with an exception,
  which the laws exclude.
\<close>

locale long_array =
  fixes abs :: "'t \<Rightarrow> (int \<times> 'v holder) list" and inv :: "'t \<Rightarrow> bool" and empty_array :: "'t"
    and get :: "int \<Rightarrow> 't \<Rightarrow> 'v holder" and exists :: "int \<Rightarrow> 't \<Rightarrow> bool"
    and set_entry :: "int \<Rightarrow> 'v holder \<Rightarrow> ('t, 'v holder) comp"
    and remove_entry :: "int \<Rightarrow> ('t, 'v holder) comp"
  assumes empty_inv: "inv empty_array" and abs_empty: "abs empty_array = []"
    and ascending: "inv t \<Longrightarrow> la_ok (abs t)"
    and get: "inv t \<Longrightarrow> get i t = held (la_get i (abs t))"
    and exists: "inv t \<Longrightarrow> exists i t \<longleftrightarrow> la_get i (abs t) \<noteq> None"
    and set_entry: "inv t \<Longrightarrow>
      \<exists>u. set_entry i x t = (Inr (held (la_get i (abs t))), u) \<and> inv u \<and> abs u = la_set i x (abs t)"
    and remove_entry: "inv t \<Longrightarrow>
      \<exists>u. remove_entry i t = (Inr (held (la_get i (abs t))), u) \<and> inv u \<and> abs u = la_remove i (abs t)"
begin

text \<open>The map laws of the interface.\<close>

lemma set_law:
  assumes "inv t"
  shows "\<exists>u. set_entry i x t = (Inr (get i t), u) \<and> inv u \<and>
    (\<forall>j. get j u = (if i = j then x else get j t)) \<and> (\<forall>j. exists j u \<longleftrightarrow> i = j \<or> exists j t)"
proof -
  from set_entry [OF assms, of i x] obtain u where
    u: "set_entry i x t = (Inr (held (la_get i (abs t))), u)" "inv u" "abs u = la_set i x (abs t)" by blast
  then show ?thesis
    by (simp add: get [OF assms] get [OF u(2)] exists [OF assms] exists [OF u(2)] u(3) la_get_la_set [OF ascending [OF assms]])
qed

lemma remove_law:
  assumes "inv t"
  shows "\<exists>u. remove_entry i t = (Inr (get i t), u) \<and> inv u \<and>
    (\<forall>j. get j u = (if i = j then None else get j t)) \<and> (\<forall>j. exists j u \<longleftrightarrow> i \<noteq> j \<and> exists j t)"
proof -
  from remove_entry [OF assms, of i] obtain u where
    u: "remove_entry i t = (Inr (held (la_get i (abs t))), u)" "inv u" "abs u = la_remove i (abs t)" by blast
  then show ?thesis
    by (simp add: get [OF assms] get [OF u(2)] exists [OF assms] exists [OF u(2)] u(3) la_get_la_remove [OF ascending [OF assms]])
qed

text \<open>An entry that was not there is gone after it was set and removed.\<close>

lemma set_remove:
  assumes "inv t" and "\<not> exists i t"
  shows "\<exists>u w. set_entry i x t = (Inr None, u) \<and> remove_entry i u = (Inr x, w) \<and> inv w \<and> abs w = abs t"
proof -
  from assms exists [of t i] have none: "la_get i (abs t) = None" by simp
  from set_entry [OF assms(1), of i x] none obtain u where
    u: "set_entry i x t = (Inr None, u)" "inv u" "abs u = la_set i x (abs t)" by auto
  from remove_entry [OF u(2), of i] u(3) obtain w where
    w: "remove_entry i u = (Inr x, w)" "inv w" "abs w = la_remove i (la_set i x (abs t))"
    by (auto simp: la_get_la_set [OF ascending [OF assms(1)]])
  have "abs w = abs t"
  proof (rule la_ext [OF ascending [OF w(2)] ascending [OF assms(1)]])
    fix j
    show "la_get j (abs w) = la_get j (abs t)"
      using none ascending [OF assms(1)]
      by (auto simp: w(3) la_get_la_remove la_ok_la_set la_get_la_set)
  qed
  with u w show ?thesis by blast
qed

text \<open>Setting entries one after another.\<close>

lemma set_all:
  assumes "inv t"
  shows "\<exists>u. for_each (\<lambda>(i, x). mapc (\<lambda>_. ()) (set_entry i x)) es t = (Inr (), u) \<and> inv u \<and>
    abs u = fold (\<lambda>(i, x). la_set i x) es (abs t)"
  using assms
proof (induction es arbitrary: t)
  case (Cons e es)
  obtain i x where e: "e = (i, x)" by (rule prod.exhaust)
  from set_entry [OF Cons.prems, of i x] obtain u where
    "set_entry i x t = (Inr (held (la_get i (abs t))), u)" "inv u" "abs u = la_set i x (abs t)" by blast
  with Cons.IH [of u] e show ?case by (auto simp: seqc_def bindc_def mapc_def ret_def)
qed simp

end

text \<open>An ascending list of entries is rebuilt by setting them in order.\<close>

lemma fold_la_set: "la_ok (xs @ es) \<Longrightarrow> fold (\<lambda>(i, x). la_set i x) es xs = xs @ es"
proof (induction es arbitrary: xs)
  case (Cons e es)
  obtain i x where e: "e = (i, x)" by (rule prod.exhaust)
  with Cons.prems have "\<forall>j\<in>fst ` set xs. j < i" by (auto simp: la_ok_append la_ok_Cons)
  from la_set_between [OF this, of "[]" x] Cons.IH [of "xs @ [e]"] Cons.prems e show ?case by simp
qed simp

end
