(* ===== verification/Pof_Writer.thy ===== *)
theory Pof_Writer
  imports Pof_Encoding Long_Array
begin

text \<open>
  The objects the portable object format knows and \<^verbatim>\<open>PofBufferWriter\<close> of
  \<^verbatim>\<open>coherence/io/pof\<close>, which drives a \<^verbatim>\<open>WritingPofHandler\<close>.  The objects of user
  types and what an application's serializer writes for them are parameters.
\<close>

section \<open>Objects\<close>

text \<open>
  One constructor per class \<^verbatim>\<open>PofHelper::getClassTypeId\<close> distinguishes.  Collections and
  maps are the sequences their iterators deliver, a long array the sequence of its indexes
  and values in ascending order; \<open>'u\<close> is the type of the objects of user types.
\<close>

datatype 'u pof_obj =
    ONull
  | OBoolean bool
  | OOctet octet_t
  | OChar16 wchar16_t
  | OInteger16 int16_t
  | OInteger32 int32_t
  | OInteger64 int64_t
  | OFloat32 float32_bits
  | OFloat64 float64_bits
  | OBinary "octet_t list"
  | OString cstring
  | ORawDate raw_date
  | ORawTime raw_time
  | ORawDateTime raw_date raw_time
  | ORawYearMonthInterval int32_t int32_t
  | ORawTimeInterval raw_time_interval
  | ORawDayTimeInterval int32_t int32_t int32_t int32_t int32_t
  | OBooleanArray "bool list"
  | OOctetArray "octet_t list"
  | OChar16Array "wchar16_t list"
  | OInt16Array "int16_t list"
  | OInt32Array "int32_t list"
  | OInt64Array "int64_t list"
  | OFloat32Array "float32_bits list"
  | OFloat64Array "float64_bits list"
  | OObjectArray "'u pof_obj list"
  | OCollection "'u pof_obj list"
  | OMap "('u pof_obj \<times> 'u pof_obj) list"
  | OLongArray "(int \<times> 'u pof_obj) list"
  | OUser 'u

section \<open>Simple properties\<close>

definition begin_property :: "int32_t \<Rightarrow> unit handling" where
  "begin_property iProp =
     bindc (wh_get wh_complex) (\<lambda>cs.
       if 0 <s iProp \<and> cs = [] then throw IllegalArgumentException else ret ())"

definition write_boolean :: "int32_t \<Rightarrow> bool \<Rightarrow> unit handling" where
  "write_boolean iProp f = seqc (begin_property iProp) (on_boolean iProp f)"

definition write_octet :: "int32_t \<Rightarrow> octet_t \<Rightarrow> unit handling" where
  "write_octet iProp b = seqc (begin_property iProp) (on_octet iProp b)"

definition write_char16 :: "int32_t \<Rightarrow> wchar16_t \<Rightarrow> unit handling" where
  "write_char16 iProp ch = seqc (begin_property iProp) (on_char iProp ch)"

definition write_int16 :: "int32_t \<Rightarrow> int16_t \<Rightarrow> unit handling" where
  "write_int16 iProp n = seqc (begin_property iProp) (on_int16 iProp n)"

definition write_int32 :: "int32_t \<Rightarrow> int32_t \<Rightarrow> unit handling" where
  "write_int32 iProp n = seqc (begin_property iProp) (on_int32 iProp n)"

definition write_int64 :: "int32_t \<Rightarrow> int64_t \<Rightarrow> unit handling" where
  "write_int64 iProp l = seqc (begin_property iProp) (on_int64 iProp l)"

definition write_float32 :: "int32_t \<Rightarrow> float32_bits \<Rightarrow> unit handling" where
  "write_float32 iProp fl = seqc (begin_property iProp) (on_float32 iProp fl)"

definition write_float64 :: "int32_t \<Rightarrow> float64_bits \<Rightarrow> unit handling" where
  "write_float64 iProp dfl = seqc (begin_property iProp) (on_float64 iProp dfl)"

text \<open>A property that may be null: a null reference, or the identity marker and a value.\<close>

definition write_nullable :: "int32_t \<Rightarrow> ('a \<Rightarrow> unit handling) \<Rightarrow> 'a option \<Rightarrow> unit handling" where
  "write_nullable iProp m v =
     seqc (begin_property iProp)
       (case v of
          None \<Rightarrow> on_null_reference iProp
        | Some a \<Rightarrow> seqc (register_identity (- 1)) (m a))"

section \<open>Arrays of primitive types\<close>

text \<open>
  The loop of the array methods; the index passed to the handler is validated on every
  iteration.
\<close>

definition indexed :: "(int32_t \<Rightarrow> 'a \<Rightarrow> unit handling) \<Rightarrow> nat \<times> 'a \<Rightarrow> unit handling" where
  "indexed m p = bindc (wh_lift (validate_outgoing_size (fst p))) (\<lambda>i. m i (snd p))"

definition write_uniform_array ::
  "int32_t \<Rightarrow> int32_t \<Rightarrow> (int32_t \<Rightarrow> 'a \<Rightarrow> unit handling) \<Rightarrow> 'a list option \<Rightarrow> unit handling" where
  "write_uniform_array iProp nType m =
     write_nullable iProp (\<lambda>va.
       seqc (begin_uniform_array iProp (length va) nType)
         (seqc (for_each (indexed m) (enumerate 0 va)) end_complex_value))"

definition write_boolean_array :: "int32_t \<Rightarrow> bool list option \<Rightarrow> unit handling" where
  "write_boolean_array iProp = write_uniform_array iProp t_boolean on_boolean"

definition write_octet_array :: "int32_t \<Rightarrow> octet_t list option \<Rightarrow> unit handling" where
  "write_octet_array iProp =
     write_nullable iProp (\<lambda>vab.
       seqc (begin_uniform_array iProp (length vab) t_octet)
         (seqc (wh_on_out (abo_write vab)) end_complex_value))"

definition write_char16_array :: "int32_t \<Rightarrow> wchar16_t list option \<Rightarrow> unit handling" where
  "write_char16_array iProp = write_uniform_array iProp t_char on_char"

definition write_int16_array :: "int32_t \<Rightarrow> int16_t list option \<Rightarrow> unit handling" where
  "write_int16_array iProp = write_uniform_array iProp t_int16 on_int16"

definition write_int32_array :: "int32_t \<Rightarrow> int32_t list option \<Rightarrow> unit handling" where
  "write_int32_array iProp = write_uniform_array iProp t_int32 on_int32"

definition write_int64_array :: "int32_t \<Rightarrow> int64_t list option \<Rightarrow> unit handling" where
  "write_int64_array iProp = write_uniform_array iProp t_int64 on_int64"

definition write_float32_array :: "int32_t \<Rightarrow> float32_bits list option \<Rightarrow> unit handling" where
  "write_float32_array iProp = write_uniform_array iProp t_float32 on_float32"

definition write_float64_array :: "int32_t \<Rightarrow> float64_bits list option \<Rightarrow> unit handling" where
  "write_float64_array iProp = write_uniform_array iProp t_float64 on_float64"

section \<open>Strings, dates, times and intervals\<close>

definition binary_buffer :: "octet_t list \<Rightarrow> read_buffer" where
  "binary_buffer bs = \<lparr>rb_vab = bs, rb_of = 0, rb_cb = length bs\<rparr>"

definition write_binary :: "int32_t \<Rightarrow> octet_t list option \<Rightarrow> unit handling" where
  "write_binary iProp = write_nullable iProp (\<lambda>bs. on_octet_string iProp (binary_buffer bs))"

definition write_string :: "int32_t \<Rightarrow> cstring option \<Rightarrow> unit handling" where
  "write_string iProp = write_nullable iProp (on_char_string iProp)"

definition write_raw_date :: "int32_t \<Rightarrow> raw_date option \<Rightarrow> unit handling" where
  "write_raw_date iProp =
     write_nullable iProp (\<lambda>vDate. on_date iProp (rd_year vDate) (rd_month vDate) (rd_day vDate))"

definition write_raw_date_time :: "int32_t \<Rightarrow> (raw_date \<times> raw_time) option \<Rightarrow> unit handling" where
  "write_raw_date_time iProp =
     write_nullable iProp (\<lambda>(vDate, vTime).
       if rt_zone vTime = TZ_OFFSET
       then on_date_time_offset iProp (rd_year vDate) (rd_month vDate) (rd_day vDate)
              (rt_hour vTime) (rt_minute vTime) (rt_second vTime) (rt_nano vTime)
              (rt_hour_offset vTime) (rt_minute_offset vTime)
       else on_date_time iProp (rd_year vDate) (rd_month vDate) (rd_day vDate)
              (rt_hour vTime) (rt_minute vTime) (rt_second vTime) (rt_nano vTime)
              (rt_zone vTime = TZ_UTC))"

definition write_raw_time :: "int32_t \<Rightarrow> raw_time option \<Rightarrow> unit handling" where
  "write_raw_time iProp =
     write_nullable iProp (\<lambda>vTime.
       if rt_zone vTime = TZ_OFFSET
       then on_time_offset iProp (rt_hour vTime) (rt_minute vTime) (rt_second vTime) (rt_nano vTime)
              (rt_hour_offset vTime) (rt_minute_offset vTime)
       else on_time iProp (rt_hour vTime) (rt_minute vTime) (rt_second vTime) (rt_nano vTime)
              (rt_zone vTime = TZ_UTC))"

definition write_raw_time_interval :: "int32_t \<Rightarrow> raw_time_interval option \<Rightarrow> unit handling" where
  "write_raw_time_interval iProp =
     write_nullable iProp (\<lambda>v.
       on_time_interval iProp (ti_hours v) (ti_minutes v) (ti_seconds v) (ti_nanos v))"

definition write_raw_day_time_interval ::
  "int32_t \<Rightarrow> (int32_t \<times> int32_t \<times> int32_t \<times> int32_t \<times> int32_t) option \<Rightarrow> unit handling" where
  "write_raw_day_time_interval iProp =
     write_nullable iProp (\<lambda>(d, h, m, s, n). on_day_time_interval iProp d h m s n)"

definition write_raw_year_month_interval :: "int32_t \<Rightarrow> (int32_t \<times> int32_t) option \<Rightarrow> unit handling" where
  "write_raw_year_month_interval iProp =
     write_nullable iProp (\<lambda>(y, m). on_year_month_interval iProp y m)"

section \<open>Objects\<close>

lemma for_each_cong [fundef_cong]:
  "xs = ys \<Longrightarrow> (\<And>x. x \<in> set ys \<Longrightarrow> f x = g x) \<Longrightarrow> for_each f xs = for_each g ys"
proof (induction ys arbitrary: xs)
  case (Cons y ys)
  then show ?case by simp
qed simp

lemma size_enumerate: "(i, x) \<in> set (enumerate n xs) \<Longrightarrow> f x < Suc (size_list f xs)"
  by (auto simp: in_set_enumerate_eq less_Suc_eq_le intro!: size_list_estimation')

lemma size_entry:
  assumes "(a, b) \<in> set xs"
  shows "f a < Suc (size_list (size_prod f g) xs)" and "g b < Suc (size_list (size_prod f g) xs)"
proof -
  have "size_prod f g (a, b) \<le> size_list (size_prod f g) xs"
    using assms by (rule size_list_estimation') simp
  then show "f a < Suc (size_list (size_prod f g) xs)" "g b < Suc (size_list (size_prod f g) xs)"
    by simp_all
qed

text \<open>
  \<^verbatim>\<open>writeObject\<close> and the methods of arrays, collections and maps it calls.  The check
  that as many elements were written as the container claims to have cannot fail for the
  sequences of the model.
\<close>

function write_object :: "(int32_t \<Rightarrow> 'u \<Rightarrow> unit handling) \<Rightarrow> int32_t \<Rightarrow> 'u pof_obj \<Rightarrow> unit handling" where
  "write_object writeUserType iProp v =
     seqc (register_identity (- 1))
       (case v of
          ONull \<Rightarrow> seqc (begin_property iProp) (on_null_reference iProp)
        | OBoolean f \<Rightarrow> write_boolean iProp f
        | OOctet b \<Rightarrow> write_octet iProp b
        | OChar16 ch \<Rightarrow> write_char16 iProp ch
        | OInteger16 n \<Rightarrow> write_int16 iProp n
        | OInteger32 n \<Rightarrow> write_int32 iProp n
        | OInteger64 l \<Rightarrow> write_int64 iProp l
        | OFloat32 fl \<Rightarrow> write_float32 iProp fl
        | OFloat64 dfl \<Rightarrow> write_float64 iProp dfl
        | OBinary bs \<Rightarrow> write_binary iProp (Some bs)
        | OString vs \<Rightarrow> write_string iProp (Some vs)
        | ORawDate d \<Rightarrow> write_raw_date iProp (Some d)
        | ORawTime t \<Rightarrow> write_raw_time iProp (Some t)
        | ORawDateTime d t \<Rightarrow> write_raw_date_time iProp (Some (d, t))
        | ORawYearMonthInterval y m \<Rightarrow> write_raw_year_month_interval iProp (Some (y, m))
        | ORawTimeInterval ti \<Rightarrow> write_raw_time_interval iProp (Some ti)
        | ORawDayTimeInterval d h m s n \<Rightarrow> write_raw_day_time_interval iProp (Some (d, h, m, s, n))
        | OBooleanArray a \<Rightarrow> write_boolean_array iProp (Some a)
        | OOctetArray a \<Rightarrow> write_octet_array iProp (Some a)
        | OChar16Array a \<Rightarrow> write_char16_array iProp (Some a)
        | OInt16Array a \<Rightarrow> write_int16_array iProp (Some a)
        | OInt32Array a \<Rightarrow> write_int32_array iProp (Some a)
        | OInt64Array a \<Rightarrow> write_int64_array iProp (Some a)
        | OFloat32Array a \<Rightarrow> write_float32_array iProp (Some a)
        | OFloat64Array a \<Rightarrow> write_float64_array iProp (Some a)
        | OObjectArray va \<Rightarrow>
            seqc (begin_property iProp) (seqc (register_identity (- 1))
              (seqc (begin_array iProp (length va))
                (seqc
                  (for_each (\<lambda>(i, w). bindc (wh_lift (validate_outgoing_size i)) (\<lambda>n.
                     write_object writeUserType n w)) (enumerate 0 va))
                  end_complex_value)))
        | OCollection vCol \<Rightarrow>
            seqc (begin_property iProp) (seqc (register_identity (- 1))
              (seqc (begin_collection iProp (length vCol))
                (seqc
                  (for_each (\<lambda>(i, w). bindc (wh_lift (validate_outgoing_size i)) (\<lambda>n.
                     write_object writeUserType n w)) (enumerate 0 vCol))
                  end_complex_value)))
        | OMap vMap \<Rightarrow>
            seqc (begin_property iProp) (seqc (register_identity (- 1))
              (seqc (begin_map iProp (length vMap))
                (seqc
                  (for_each (\<lambda>(vKey, vValue).
                     seqc (write_object writeUserType 0 vKey) (write_object writeUserType 0 vValue)) vMap)
                  end_complex_value)))
        | OLongArray vla \<Rightarrow>
            seqc (begin_property iProp)
              (let nSize = la_last_index vla + 1 in
               if vla \<noteq> [] \<and> (la_first_index vla < 0 \<or> 2147483647 < nSize)
               then throw IndexOutOfBoundsException
               else
                 seqc (register_identity (- 1))
                   (seqc (begin_sparse_array iProp (nat (nSize mod 2 ^ 32)))
                     (seqc (for_each (\<lambda>(n, w). write_object writeUserType (of_int n) w) vla)
                       end_complex_value)))
        | OUser u \<Rightarrow> writeUserType iProp u)"
  by pat_completeness auto
termination
proof (relation "measure (\<lambda>(ser, i, v). size v)", goal_cases)
  case 1
  then show ?case by simp
qed (auto intro: size_enumerate size_entry)


declare write_object.simps [simp del]

section \<open>The encoding of objects\<close>

definition raw_time_octets :: "raw_time \<Rightarrow> octet_t list" where
  "raw_time_octets t =
     time_octets (rt_hour t) (rt_minute t) (rt_second t) (rt_nano t)
       (case rt_zone t of TZ_NONE \<Rightarrow> 0 | TZ_UTC \<Rightarrow> 1 | TZ_OFFSET \<Rightarrow> 2)
       (if rt_zone t = TZ_OFFSET then rt_hour_offset t else 0)
       (if rt_zone t = TZ_OFFSET then rt_minute_offset t else 0)"

definition raw_date_octets :: "raw_date \<Rightarrow> octet_t list" where
  "raw_date_octets d = date_octets (rd_year d) (rd_month d) (rd_day d)"

definition array_octets :: "int32_t \<Rightarrow> ('a \<Rightarrow> octet_t list) \<Rightarrow> 'a list \<Rightarrow> octet_t list" where
  "array_octets nType g xs = complex_header t_uniform_array [nType] (length xs) @ concat (map g xs)"

text \<open>What \<^verbatim>\<open>writeObject\<close> writes, as a function of the object alone.\<close>

fun obj_octets :: "'u pof_obj \<Rightarrow> octet_t list" where
  "obj_octets ONull = pack_int v_reference_null"
| "obj_octets (OBoolean f) = typed_boolean False f"
| "obj_octets (OOctet b) = typed_octet False b"
| "obj_octets (OChar16 ch) = typed_char False ch"
| "obj_octets (OInteger16 n) = typed_int16 False n"
| "obj_octets (OInteger32 n) = typed_int32 False n"
| "obj_octets (OInteger64 n) = typed_int64 False n"
| "obj_octets (OFloat32 fl) = typed_float32 False fl"
| "obj_octets (OFloat64 dfl) = typed_float64 False dfl"
| "obj_octets (OBinary bs) = typed_octet_string False bs"
| "obj_octets (OString vs) = typed_char_string False vs"
| "obj_octets (ORawDate d) = pack_int t_date @ raw_date_octets d"
| "obj_octets (ORawTime t) = pack_int t_time @ raw_time_octets t"
| "obj_octets (ORawDateTime d t) = pack_int t_datetime @ raw_date_octets d @ raw_time_octets t"
| "obj_octets (ORawYearMonthInterval y m) = pack_int t_year_month_interval @ pack_int y @ pack_int m"
| "obj_octets (ORawTimeInterval ti) =
     pack_int t_time_interval @ pack_int (ti_hours ti) @ pack_int (ti_minutes ti) @
     pack_int (ti_seconds ti) @ pack_int (ti_nanos ti)"
| "obj_octets (ORawDayTimeInterval d h m s n) =
     pack_int t_day_time_interval @ pack_int d @ pack_int h @ pack_int m @ pack_int s @ pack_int n"
| "obj_octets (OBooleanArray a) = array_octets t_boolean bool_octets a"
| "obj_octets (OOctetArray a) = array_octets t_octet (\<lambda>b. [b]) a"
| "obj_octets (OChar16Array a) = array_octets t_char encode_char16 a"
| "obj_octets (OInt16Array a) = array_octets t_int16 pack_int a"
| "obj_octets (OInt32Array a) = array_octets t_int32 pack_int a"
| "obj_octets (OInt64Array a) = array_octets t_int64 pack_int a"
| "obj_octets (OFloat32Array a) = array_octets t_float32 split4 a"
| "obj_octets (OFloat64Array a) = array_octets t_float64 split8 a"
| "obj_octets (OObjectArray va) = complex_header t_array [] (length va) @ concat (map obj_octets va)"
| "obj_octets (OCollection vCol) = complex_header t_collection [] (length vCol) @ concat (map obj_octets vCol)"
| "obj_octets (OMap vMap) =
     complex_header t_map [] (length vMap) @ concat (map (\<lambda>(k, v). obj_octets k @ obj_octets v) vMap)"
| "obj_octets (OLongArray vla) =
     complex_header t_sparse_array [] (nat (la_last_index vla + 1)) @
     concat (map (\<lambda>(i, v). pack_int (of_int i :: int32_t) @ obj_octets v) vla) @
     pack_int (- 1 :: int32_t)"
| "obj_octets (OUser u) = []"

text \<open>The objects the writer can encode: sizes fit 32 bits and no user types.\<close>

definition long_array_ok :: "(int \<times> 'a) list \<Rightarrow> bool" where
  "long_array_ok vla \<longleftrightarrow>
     sorted_wrt (<) (map fst vla) \<and> (\<forall>i\<in>set (map fst vla). 0 \<le> i \<and> i < 2 ^ 31 - 1)"

fun obj_sized :: "'u pof_obj \<Rightarrow> bool" where
  "obj_sized (OBinary bs) \<longleftrightarrow> length bs < 2 ^ 31"
| "obj_sized (OString vs) \<longleftrightarrow> length vs < 2 ^ 31"
| "obj_sized (OBooleanArray a) \<longleftrightarrow> length a < 2 ^ 31"
| "obj_sized (OOctetArray a) \<longleftrightarrow> length a < 2 ^ 31"
| "obj_sized (OChar16Array a) \<longleftrightarrow> length a < 2 ^ 31"
| "obj_sized (OInt16Array a) \<longleftrightarrow> length a < 2 ^ 31"
| "obj_sized (OInt32Array a) \<longleftrightarrow> length a < 2 ^ 31"
| "obj_sized (OInt64Array a) \<longleftrightarrow> length a < 2 ^ 31"
| "obj_sized (OFloat32Array a) \<longleftrightarrow> length a < 2 ^ 31"
| "obj_sized (OFloat64Array a) \<longleftrightarrow> length a < 2 ^ 31"
| "obj_sized (OObjectArray va) \<longleftrightarrow> length va < 2 ^ 31 \<and> (\<forall>v\<in>set va. obj_sized v)"
| "obj_sized (OCollection vCol) \<longleftrightarrow> length vCol < 2 ^ 31 \<and> (\<forall>v\<in>set vCol. obj_sized v)"
| "obj_sized (OMap vMap) \<longleftrightarrow>
     length vMap < 2 ^ 31 \<and> (\<forall>(k, v)\<in>set vMap. obj_sized k \<and> obj_sized v)"
| "obj_sized (OLongArray vla) \<longleftrightarrow> long_array_ok vla \<and> (\<forall>(i, v)\<in>set vla. obj_sized v)"
| "obj_sized (OUser u) \<longleftrightarrow> False"
| "obj_sized _ \<longleftrightarrow> True"

section \<open>The writer writes the encoding\<close>

definition object_top :: "pof_complex list \<Rightarrow> bool" where
  "object_top c \<longleftrightarrow> c = [] \<or> (\<exists>s t. hd c = Complex s False t)"

lemma object_top_step: "object_top c \<Longrightarrow> step_complex c = c \<and> plain_top c"
  by (cases c) (auto simp: object_top_def step_complex_def plain_top_def)

lemma hands_begin_property:
  "\<not> (0 <s iProp \<and> c = []) \<Longrightarrow> hands c f (begin_property iProp) [] () c f"
  unfolding begin_property_def by (rule hands_bindc_get [where a = c]) (auto intro: hands_ret)

lemma hands_property:
  assumes "\<not> (0 <s iProp \<and> c = [])" and "hands c f m bs () c' f'"
  shows "hands c f (seqc (begin_property iProp) m) bs () c' f'"
  using hands_seqc [OF hands_begin_property [OF assms(1)] assms(2)] by simp

lemma hands_nullable:
  assumes "\<not> (0 <s iProp \<and> c = [])" and "hands c True (m v) bs () c' f'"
  shows "hands c f (write_nullable iProp m (Some v)) bs () c' f'"
  unfolding write_nullable_def option.case
  using hands_property [OF assms(1)] hands_seqc [OF hands_register assms(2)] by simp

lemma not_skippable_True [simp]: "\<not> skippable c True"
  by (simp add: skippable_def)

lemma uniform_elements:
  "\<not> skippable (Complex False True t # c) f" "uniform_top t (step_complex (Complex False True t # c))"
  "step_complex (Complex False True t # c) = Complex False True t # c"
  "pos_octets (Complex False u t # c) i = []" "uniform_top t (Complex False True t # c)"
  by (simp_all add: skippable_def uniform_top_def step_complex_def pos_octets_def)

lemma concat_map_indexed: "concat (map (\<lambda>p. g (snd p)) (enumerate n xs)) = concat (map g xs)"
  by (induction xs arbitrary: n) simp_all

lemma hands_array_frame:
  assumes top: "object_top c" and len: "length va < 2 ^ 31"
    and loop: "hands (Complex False True t # c) False m bs () (Complex False True t # c) False"
  shows "hands c True (seqc (begin_uniform_array iPos (length va) t) (seqc m end_complex_value))
    (pos_octets c iPos @ complex_header t_uniform_array [t] (length va) @ bs) () c False"
proof -
  note step = object_top_step [OF top]
  have "hands c True (begin_uniform_array iPos (length va) t)
      (pos_octets c iPos @ complex_header t_uniform_array [t] (length va)) () (Complex False True t # c) False"
    unfolding begin_uniform_array_def complex_create_uniform_def
    using hands_begin_complex [of "length va" True c iPos t_uniform_array "[t]"] step len by simp
  from hands_seqc [OF this hands_seqc [OF loop hands_end_complex]] show ?thesis by simp
qed

lemma hands_indexed:
  assumes len: "length va < 2 ^ 31" and m: "\<And>i x f. hands cx f (m i x) (g x) () cx False"
  shows "hands cx False (for_each (indexed m) (enumerate 0 va)) (concat (map g va)) () cx False"
proof -
  have el: "hands cx f (indexed m p) (g (snd p)) () cx False" if p: "p \<in> set (enumerate 0 va)" for p f
  proof -
    obtain i x where ix: "p = (i, x)" by (rule prod.exhaust)
    with p len have "i < 2 ^ 31" by (simp add: in_set_enumerate_eq)
    then show ?thesis by (simp add: indexed_def ix m)
  qed
  have "hands cx False (for_each (indexed m) (enumerate 0 va))
      (concat (map (\<lambda>p. g (snd p)) (enumerate 0 va))) () cx False"
    by (rule hands_for_each) (rule el)
  then show ?thesis by (simp only: concat_map_indexed)
qed

lemma hands_uniform_array:
  assumes "\<not> (0 <s iProp \<and> c = [])" and top: "object_top c" and len: "length va < 2 ^ 31"
    and m: "\<And>i x f. hands (Complex False True t # c) f (m i x) (g x) () (Complex False True t # c) False"
  shows "hands c f (write_uniform_array iProp t m (Some va)) (pos_octets c iProp @ array_octets t g va) () c False"
  unfolding write_uniform_array_def array_octets_def
  by (rule hands_nullable [OF assms(1)]) (rule hands_array_frame [OF top len hands_indexed [OF len m]])

lemma hands_octet_array:
  assumes "\<not> (0 <s iProp \<and> c = [])" and top: "object_top c" and len: "length va < 2 ^ 31"
  shows "hands c f (write_octet_array iProp (Some va)) (pos_octets c iProp @ array_octets t_octet (\<lambda>b. [b]) va) () c False"
  unfolding write_octet_array_def array_octets_def
  by (rule hands_nullable [OF assms(1)])
    (use hands_array_frame [OF top len hands_emits [OF emits_abo_write]] len in \<open>simp add: npos_def size_max_def\<close>)

lemma hands_primitive_arrays:
  assumes "\<not> (0 <s iProp \<and> c = [])" and "object_top c"
  shows "length vaf < 2 ^ 31 \<Longrightarrow> hands c f (write_boolean_array iProp (Some vaf))
      (pos_octets c iProp @ array_octets t_boolean bool_octets vaf) () c False"
    and "length vach < 2 ^ 31 \<Longrightarrow> hands c f (write_char16_array iProp (Some vach))
      (pos_octets c iProp @ array_octets t_char encode_char16 vach) () c False"
    and "length va16 < 2 ^ 31 \<Longrightarrow> hands c f (write_int16_array iProp (Some va16))
      (pos_octets c iProp @ array_octets t_int16 pack_int va16) () c False"
    and "length va32 < 2 ^ 31 \<Longrightarrow> hands c f (write_int32_array iProp (Some va32))
      (pos_octets c iProp @ array_octets t_int32 pack_int va32) () c False"
    and "length va64 < 2 ^ 31 \<Longrightarrow> hands c f (write_int64_array iProp (Some va64))
      (pos_octets c iProp @ array_octets t_int64 pack_int va64) () c False"
    and "length vaf32 < 2 ^ 31 \<Longrightarrow> hands c f (write_float32_array iProp (Some vaf32))
      (pos_octets c iProp @ array_octets t_float32 split4 vaf32) () c False"
    and "length vaf64 < 2 ^ 31 \<Longrightarrow> hands c f (write_float64_array iProp (Some vaf64))
      (pos_octets c iProp @ array_octets t_float64 split8 vaf64) () c False"
  unfolding write_boolean_array_def write_char16_array_def write_int16_array_def write_int32_array_def
    write_int64_array_def write_float32_array_def write_float64_array_def
  by (erule hands_uniform_array [OF assms],
      use hands_on_uniform [OF _ uniform_elements(1)] in \<open>simp add: uniform_elements\<close>)+


section \<open>Simple values and objects\<close>

lemma hands_raw_values:
  assumes "object_top c"
  shows "hands c f (if rt_zone t = TZ_OFFSET
      then on_time_offset i (rt_hour t) (rt_minute t) (rt_second t) (rt_nano t) (rt_hour_offset t) (rt_minute_offset t)
      else on_time i (rt_hour t) (rt_minute t) (rt_second t) (rt_nano t) (rt_zone t = TZ_UTC))
    (pos_octets c i @ pack_int t_time @ raw_time_octets t) () c False"
    and "hands c f (if rt_zone t = TZ_OFFSET
      then on_date_time_offset i (rd_year d) (rd_month d) (rd_day d)
        (rt_hour t) (rt_minute t) (rt_second t) (rt_nano t) (rt_hour_offset t) (rt_minute_offset t)
      else on_date_time i (rd_year d) (rd_month d) (rd_day d)
        (rt_hour t) (rt_minute t) (rt_second t) (rt_nano t) (rt_zone t = TZ_UTC))
    (pos_octets c i @ pack_int t_datetime @ raw_date_octets d @ raw_time_octets t) () c False"
proof -
  have "plain_top (step_complex c)" and step: "step_complex c = c"
    using object_top_step [OF assms] by simp_all
  note dates = hands_on_dates [OF this(1), unfolded step]
  show "hands c f (if rt_zone t = TZ_OFFSET
      then on_time_offset i (rt_hour t) (rt_minute t) (rt_second t) (rt_nano t) (rt_hour_offset t) (rt_minute_offset t)
      else on_time i (rt_hour t) (rt_minute t) (rt_second t) (rt_nano t) (rt_zone t = TZ_UTC))
    (pos_octets c i @ pack_int t_time @ raw_time_octets t) () c False"
    using dates(2) [of f i "rt_hour t" "rt_minute t" "rt_second t" "rt_nano t" "rt_zone t = TZ_UTC"]
      dates(3) [of f i "rt_hour t" "rt_minute t" "rt_second t" "rt_nano t" "rt_hour_offset t" "rt_minute_offset t"]
    by (cases "rt_zone t") (simp_all add: raw_time_octets_def)
  show "hands c f (if rt_zone t = TZ_OFFSET
      then on_date_time_offset i (rd_year d) (rd_month d) (rd_day d)
        (rt_hour t) (rt_minute t) (rt_second t) (rt_nano t) (rt_hour_offset t) (rt_minute_offset t)
      else on_date_time i (rd_year d) (rd_month d) (rd_day d)
        (rt_hour t) (rt_minute t) (rt_second t) (rt_nano t) (rt_zone t = TZ_UTC))
    (pos_octets c i @ pack_int t_datetime @ raw_date_octets d @ raw_time_octets t) () c False"
    using dates(4) [of f i "rd_year d" "rd_month d" "rd_day d" "rt_hour t" "rt_minute t" "rt_second t" "rt_nano t"
        "rt_zone t = TZ_UTC"]
      dates(5) [of f i "rd_year d" "rd_month d" "rd_day d" "rt_hour t" "rt_minute t" "rt_second t" "rt_nano t"
        "rt_hour_offset t" "rt_minute_offset t"]
    by (cases "rt_zone t") (simp_all add: raw_time_octets_def raw_date_octets_def)
qed

lemma object_top_Complex [simp]: "object_top (Complex s False t # c)"
  by (simp add: object_top_def)

lemma hands_object_frame:
  assumes "object_top c" and "\<not> (0 <s iProp \<and> c = [])"
    and start: "hands c True b (pos_octets c iProp @ hd_octets) () (x # c) False"
    and loop: "hands (x # c) False m bs () (x # c) False"
    and res: "bs' = hd_octets @ bs @ (if complex_is_sparse x then pack_int (- 1 :: int32_t) else [])"
  shows "hands c f (seqc (begin_property iProp) (seqc (register_identity (- 1)) (seqc b (seqc m end_complex_value))))
    (pos_octets c iProp @ bs') () c False"
  using hands_property [OF assms(2)
      hands_seqc [OF hands_register hands_seqc [OF start hands_seqc [OF loop hands_end_complex]]]]
  by (simp add: res)

lemma hands_begin_objects:
  assumes "object_top c" and "n < 2 ^ 31"
  shows "hands c True (begin_array i n) (pos_octets c i @ complex_header t_array [] n) () (Complex False False 0 # c) False"
    and "hands c True (begin_collection i n)
      (pos_octets c i @ complex_header t_collection [] n) () (Complex False False 0 # c) False"
    and "hands c True (begin_map i n) (pos_octets c i @ complex_header t_map [] n) () (Complex False False 0 # c) False"
    and "hands c True (begin_sparse_array i n)
      (pos_octets c i @ complex_header t_sparse_array [] n) () (Complex True False 0 # c) False"
  unfolding begin_array_def begin_collection_def begin_map_def begin_sparse_array_def complex_create_def
  using hands_begin_complex [of n True c] object_top_step [OF assms(1)] assms(2) by simp_all

lemma hands_object_elements:
  assumes len: "length va < 2 ^ 31"
    and el: "\<And>v f n. v \<in> set va \<Longrightarrow> hands cx f (w n v) (g v) () cx False"
  shows "hands cx False (for_each (\<lambda>(i, v). bindc (wh_lift (validate_outgoing_size i)) (\<lambda>n. w n v)) (enumerate 0 va))
    (concat (map g va)) () cx False"
proof -
  have "hands cx False (for_each (\<lambda>(i, v). bindc (wh_lift (validate_outgoing_size i)) (\<lambda>n. w n v)) (enumerate 0 va))
      (concat (map (\<lambda>p. g (snd p)) (enumerate 0 va))) () cx False"
  proof (rule hands_for_each)
    fix p
    assume p: "p \<in> set (enumerate 0 va)"
    obtain i x where ix: "p = (i, x)" by (rule prod.exhaust)
    with p len have "i < 2 ^ 31" "x \<in> set va" by (auto simp: in_set_enumerate_eq)
    then show "hands cx False (case p of (i, v) \<Rightarrow> bindc (wh_lift (validate_outgoing_size i)) (\<lambda>n. w n v))
        (g (snd p)) () cx False"
      by (simp add: ix el)
  qed
  then show ?thesis by (simp only: concat_map_indexed)
qed

lemma long_array_bounds:
  assumes "long_array_ok vla"
  shows "vla \<noteq> [] \<Longrightarrow> 0 \<le> la_first_index vla" and "la_last_index vla + 1 \<le> 2147483647"
    and "0 \<le> la_last_index vla + 1"
proof -
  have b: "0 \<le> fst p \<and> fst p < 2 ^ 31 - 1" if "p \<in> set vla" for p
    using assms that by (auto simp: long_array_ok_def)
  show "0 \<le> la_first_index vla" if "vla \<noteq> []"
    using that b [of "hd vla"] by (cases vla) (auto simp: la_first_index_def)
  show "la_last_index vla + 1 \<le> 2147483647" "0 \<le> la_last_index vla + 1"
    using b [of "last vla"] by (auto simp: la_last_index_def)
qed

lemma int32_of_int_nonneg:
  assumes "0 \<le> i" and "i < 2 ^ 31"
  shows "0 \<le>s (of_int i :: int32_t)"
proof -
  have "signed_take_bit 31 i = i" using assms by (intro signed_take_bit_int_eq_self) simp_all
  then have "sint (of_int i :: int32_t) = i" by (simp only: signed_of_int) simp
  then show ?thesis using assms(1) by (simp add: word_sle_eq)
qed

lemma hands_simple_objects:
  assumes ok: "\<not> (0 <s i \<and> c = [])" and top: "object_top c"
  shows "hands c True (write_boolean i b) (pos_octets c i @ typed_boolean False b) () c False"
    and "hands c True (write_octet i oc) (pos_octets c i @ typed_octet False oc) () c False"
    and "hands c True (write_char16 i ch) (pos_octets c i @ typed_char False ch) () c False"
    and "hands c True (write_int16 i n16) (pos_octets c i @ typed_int16 False n16) () c False"
    and "hands c True (write_int32 i n32) (pos_octets c i @ typed_int32 False n32) () c False"
    and "hands c True (write_int64 i n64) (pos_octets c i @ typed_int64 False n64) () c False"
    and "hands c True (write_float32 i f32) (pos_octets c i @ typed_float32 False f32) () c False"
    and "hands c True (write_float64 i f64) (pos_octets c i @ typed_float64 False f64) () c False"
  using object_top_step [OF top] hands_on_boolean [of b c True i] hands_on_octet [of oc c True i]
    hands_on_char [of ch c True i] hands_on_int16 [of n16 c True i] hands_on_int32 [of n32 c True i]
    hands_on_int64 [of n64 c True i] hands_on_float32 [of f32 c True i] hands_on_float64 [of f64 c True i]
  unfolding write_boolean_def write_octet_def write_char16_def write_int16_def write_int32_def write_int64_def
    write_float32_def write_float64_def
  by (simp_all add: hands_property [OF ok])

lemma hands_nullable_objects:
  assumes ok: "\<not> (0 <s i \<and> c = [])" and top: "object_top c"
  shows "length bs < 2 ^ 31 \<Longrightarrow>
      hands c f (write_binary i (Some bs)) (pos_octets c i @ typed_octet_string False bs) () c False"
    and "length vs < 2 ^ 31 \<Longrightarrow>
      hands c f (write_string i (Some vs)) (pos_octets c i @ typed_char_string False vs) () c False"
    and "hands c f (write_raw_date i (Some d)) (pos_octets c i @ pack_int t_date @ raw_date_octets d) () c False"
    and "hands c f (write_raw_time i (Some t)) (pos_octets c i @ pack_int t_time @ raw_time_octets t) () c False"
    and "hands c f (write_raw_date_time i (Some (d, t)))
      (pos_octets c i @ pack_int t_datetime @ raw_date_octets d @ raw_time_octets t) () c False"
    and "hands c f (write_raw_year_month_interval i (Some (y, m)))
      (pos_octets c i @ pack_int t_year_month_interval @ pack_int y @ pack_int m) () c False"
    and "hands c f (write_raw_time_interval i (Some ti))
      (pos_octets c i @ pack_int t_time_interval @ pack_int (ti_hours ti) @ pack_int (ti_minutes ti) @
       pack_int (ti_seconds ti) @ pack_int (ti_nanos ti)) () c False"
    and "hands c f (write_raw_day_time_interval i (Some (dd, h, mi, s, n)))
      (pos_octets c i @ pack_int t_day_time_interval @ pack_int dd @ pack_int h @ pack_int mi @ pack_int s @
       pack_int n) () c False"
proof -
  have plain: "plain_top (step_complex c)" and step: "step_complex c = c"
    using object_top_step [OF top] by simp_all
  note dates = hands_on_dates [OF plain, unfolded step]
  show "hands c f (write_binary i (Some bs)) (pos_octets c i @ typed_octet_string False bs) () c False"
    if "length bs < 2 ^ 31"
    using that hands_on_octet_string [of "binary_buffer bs" c True i] step plain
    unfolding write_binary_def
    by (intro hands_nullable [OF ok]) (simp add: binary_buffer_def rb_ok_def rb_octets_def npos_def size_max_def)
  show "hands c f (write_string i (Some vs)) (pos_octets c i @ typed_char_string False vs) () c False"
    if "length vs < 2 ^ 31"
    using that hands_on_char_string [of vs c True i] step plain
    unfolding write_string_def by (intro hands_nullable [OF ok]) simp
  show "hands c f (write_raw_date i (Some d)) (pos_octets c i @ pack_int t_date @ raw_date_octets d) () c False"
    unfolding write_raw_date_def raw_date_octets_def by (intro hands_nullable [OF ok] dates(1))
  show "hands c f (write_raw_time i (Some t)) (pos_octets c i @ pack_int t_time @ raw_time_octets t) () c False"
    unfolding write_raw_time_def by (intro hands_nullable [OF ok] hands_raw_values(1) [OF top])
  show "hands c f (write_raw_date_time i (Some (d, t)))
      (pos_octets c i @ pack_int t_datetime @ raw_date_octets d @ raw_time_octets t) () c False"
    unfolding write_raw_date_time_def
    by (intro hands_nullable [OF ok], unfold prod.case) (rule hands_raw_values(2) [OF top])
  show "hands c f (write_raw_year_month_interval i (Some (y, m)))
      (pos_octets c i @ pack_int t_year_month_interval @ pack_int y @ pack_int m) () c False"
    unfolding write_raw_year_month_interval_def
    by (intro hands_nullable [OF ok], unfold prod.case) (rule dates(6))
  show "hands c f (write_raw_time_interval i (Some ti))
      (pos_octets c i @ pack_int t_time_interval @ pack_int (ti_hours ti) @ pack_int (ti_minutes ti) @
       pack_int (ti_seconds ti) @ pack_int (ti_nanos ti)) () c False"
    unfolding write_raw_time_interval_def by (intro hands_nullable [OF ok] dates(7))
  show "hands c f (write_raw_day_time_interval i (Some (dd, h, mi, s, n)))
      (pos_octets c i @ pack_int t_day_time_interval @ pack_int dd @ pack_int h @ pack_int mi @ pack_int s @
       pack_int n) () c False"
    unfolding write_raw_day_time_interval_def
    by (intro hands_nullable [OF ok], unfold prod.case) (rule dates(8))
qed

text \<open>The containers, given what the writer does with their elements.\<close>

lemma hands_write_object_list:
  assumes "object_top c" and "\<not> (0 <s i \<and> c = [])" and "length va < 2 ^ 31"
    and el: "\<And>v c f n. v \<in> set va \<Longrightarrow> object_top c \<Longrightarrow> c \<noteq> [] \<Longrightarrow>
      hands c f (write_object wr n v) (pos_octets c n @ obj_octets v) () c False"
  shows "hands c f (write_object wr i (OObjectArray va)) (pos_octets c i @ obj_octets (OObjectArray va)) () c False"
    and "hands c f (write_object wr i (OCollection va)) (pos_octets c i @ obj_octets (OCollection va)) () c False"
proof -
  let ?c = "Complex False False 0 # c"
  have "hands ?c f (write_object wr n v) (obj_octets v) () ?c False" if "v \<in> set va" for v f n
    using el [OF that, of ?c f n] by (simp add: uniform_elements)
  from hands_object_elements [OF assms(3) this]
  have loop: "hands ?c False (for_each (\<lambda>(i, v). bindc (wh_lift (validate_outgoing_size i))
      (\<lambda>n. write_object wr n v)) (enumerate 0 va)) (concat (map obj_octets va)) () ?c False" .
  note frame = hands_object_frame [OF assms(1,2) _ loop]
  note start = hands_begin_objects [OF assms(1,3)]
  show "hands c f (write_object wr i (OObjectArray va)) (pos_octets c i @ obj_octets (OObjectArray va)) () c False"
    using hands_seqc [OF hands_register frame [OF start(1)]] by (subst write_object.simps) simp
  show "hands c f (write_object wr i (OCollection va)) (pos_octets c i @ obj_octets (OCollection va)) () c False"
    using hands_seqc [OF hands_register frame [OF start(2)]] by (subst write_object.simps) simp
qed

lemma hands_write_map:
  assumes "object_top c" and "\<not> (0 <s i \<and> c = [])" and "length vm < 2 ^ 31"
    and el: "\<And>k v c f n. (k, v) \<in> set vm \<Longrightarrow> object_top c \<Longrightarrow> c \<noteq> [] \<Longrightarrow>
      hands c f (write_object wr n k) (pos_octets c n @ obj_octets k) () c False \<and>
      hands c f (write_object wr n v) (pos_octets c n @ obj_octets v) () c False"
  shows "hands c f (write_object wr i (OMap vm)) (pos_octets c i @ obj_octets (OMap vm)) () c False"
proof -
  let ?c = "Complex False False 0 # c"
  have "hands ?c False (case p of (k, v) \<Rightarrow> seqc (write_object wr 0 k) (write_object wr 0 v))
      (case p of (k, v) \<Rightarrow> obj_octets k @ obj_octets v) () ?c False" if p: "p \<in> set vm" for p
  proof (cases p)
    case (Pair k v)
    with el [of k v ?c False 0] p show ?thesis by (auto simp: uniform_elements intro: hands_seqc)
  qed
  then have loop: "hands ?c False (for_each (\<lambda>(k, v). seqc (write_object wr 0 k) (write_object wr 0 v)) vm)
      (concat (map (\<lambda>(k, v). obj_octets k @ obj_octets v) vm)) () ?c False"
    by (rule hands_for_each)
  show ?thesis
    using hands_seqc [OF hands_register hands_object_frame [OF assms(1,2) hands_begin_objects(3) [OF assms(1,3)] loop]]
    by (subst write_object.simps) simp
qed

lemma hands_write_long_array:
  assumes "object_top c" and "\<not> (0 <s i \<and> c = [])" and la: "long_array_ok vla"
    and el: "\<And>j v c f n. (j, v) \<in> set vla \<Longrightarrow> object_top c \<Longrightarrow> c \<noteq> [] \<Longrightarrow>
      hands c f (write_object wr n v) (pos_octets c n @ obj_octets v) () c False"
  shows "hands c f (write_object wr i (OLongArray vla)) (pos_octets c i @ obj_octets (OLongArray vla)) () c False"
proof -
  let ?c = "Complex True False 0 # c" and ?n = "nat (la_last_index vla + 1)"
  have "hands ?c False (case p of (n, w) \<Rightarrow> write_object wr (of_int n) w)
      (case p of (n, v) \<Rightarrow> pack_int (of_int n :: int32_t) @ obj_octets v) () ?c False" if p: "p \<in> set vla" for p
  proof (cases p)
    case (Pair n v)
    with la p have "0 \<le> n" "n < 2 ^ 31" by (auto simp: long_array_ok_def)
    then have "0 \<le>s (of_int n :: int32_t)" by (rule int32_of_int_nonneg)
    with el [of n v ?c False "of_int n"] p Pair show ?thesis by (simp add: pos_octets_def)
  qed
  then have loop: "hands ?c False (for_each (\<lambda>(n, w). write_object wr (of_int n) w) vla)
      (concat (map (\<lambda>(n, v). pack_int (of_int n :: int32_t) @ obj_octets v) vla)) () ?c False"
    by (rule hands_for_each)
  have size: "?n < 2 ^ 31" "nat ((la_last_index vla + 1) mod 2 ^ 32) = ?n"
    "\<not> (vla \<noteq> [] \<and> (la_first_index vla < 0 \<or> 2147483647 < la_last_index vla + 1))"
    using long_array_bounds [OF la] by auto
  have body: "hands c True (seqc (register_identity (- 1)) (seqc (begin_sparse_array i ?n)
      (seqc (for_each (\<lambda>(n, w). write_object wr (of_int n) w) vla) end_complex_value)))
      (pos_octets c i @ obj_octets (OLongArray vla)) () c False"
    using hands_seqc [OF hands_register hands_seqc [OF hands_begin_objects(4) [OF assms(1) size(1)]
        hands_seqc [OF loop hands_end_complex]]] by simp
  show ?thesis
    using hands_seqc [OF hands_register hands_property [OF assms(2) body]] size(3)
    by (subst write_object.simps) (simp only: pof_obj.case Let_def size(2) if_False, simp)
qed

text \<open>The writer encodes every object of the model as \<open>obj_octets\<close> says.\<close>

lemma hands_write_object:
  "obj_sized v \<Longrightarrow> object_top c \<Longrightarrow> \<not> (0 <s i \<and> c = []) \<Longrightarrow>
   hands c f (write_object wr i v) (pos_octets c i @ obj_octets v) () c False"
proof (induction v arbitrary: c f i)
  case (OObjectArray va)
  then show ?case by (intro hands_write_object_list) auto
next
  case (OCollection va)
  then show ?case by (intro hands_write_object_list) auto
next
  case (OMap vm)
  have "hands c f (write_object wr n k) (pos_octets c n @ obj_octets k) () c False \<and>
      hands c f (write_object wr n v) (pos_octets c n @ obj_octets v) () c False"
    if kv: "(k, v) \<in> set vm" and c: "object_top c" "c \<noteq> []" for k v c f n
    using OMap.IH [OF kv, of k c n f] OMap.IH [OF kv, of v c n f] OMap.prems(1) kv c by auto
  with OMap.prems show ?case by (intro hands_write_map) auto
next
  case (OLongArray vla)
  have "hands c f (write_object wr n v) (pos_octets c n @ obj_octets v) () c False"
    if jv: "(j, v) \<in> set vla" and c: "object_top c" "c \<noteq> []" for j v c f n
    using OLongArray.IH [OF jv, of v c n f] OLongArray.prems(1) jv c by auto
  with OLongArray.prems show ?case by (intro hands_write_long_array) auto
next
  case ONull
  have "hands c True (on_null_reference i) (pos_octets c i @ pack_int v_reference_null) () c False"
    using hands_seqc [OF hands_encode_position [of c True i] hands_write_int32 [of _ _ v_reference_null]]
      object_top_step [OF ONull.prems(2)]
    unfolding on_null_reference_def
    by (intro hands_bindc_get [where a = "skippable c True"]) (auto simp: is_skippable_def skippable_def)
  from hands_seqc [OF hands_register hands_property [OF ONull.prems(3) this]]
  show ?case by (simp add: write_object.simps)
next
  case (OUser u)
  then show ?case by simp
qed (use hands_seqc [OF hands_register hands_simple_objects(1)] hands_seqc [OF hands_register hands_simple_objects(2)]
    hands_seqc [OF hands_register hands_simple_objects(3)] hands_seqc [OF hands_register hands_simple_objects(4)]
    hands_seqc [OF hands_register hands_simple_objects(5)] hands_seqc [OF hands_register hands_simple_objects(6)]
    hands_seqc [OF hands_register hands_simple_objects(7)] hands_seqc [OF hands_register hands_simple_objects(8)]
    hands_seqc [OF hands_register hands_nullable_objects(1)] hands_seqc [OF hands_register hands_nullable_objects(2)]
    hands_seqc [OF hands_register hands_nullable_objects(3)] hands_seqc [OF hands_register hands_nullable_objects(4)]
    hands_seqc [OF hands_register hands_nullable_objects(5)] hands_seqc [OF hands_register hands_nullable_objects(6)]
    hands_seqc [OF hands_register hands_nullable_objects(7)] hands_seqc [OF hands_register hands_nullable_objects(8)]
    hands_seqc [OF hands_register hands_octet_array] hands_seqc [OF hands_register hands_primitive_arrays(1)]
    hands_seqc [OF hands_register hands_primitive_arrays(2)] hands_seqc [OF hands_register hands_primitive_arrays(3)]
    hands_seqc [OF hands_register hands_primitive_arrays(4)] hands_seqc [OF hands_register hands_primitive_arrays(5)]
    hands_seqc [OF hands_register hands_primitive_arrays(6)] hands_seqc [OF hands_register hands_primitive_arrays(7)]
    in \<open>simp add: write_object.simps del: not_skippable_True\<close>)+

end
