(* ===== verification/Coh_String.thy ===== *)
theory Coh_String
  imports Buffer_Roundtrip
begin

text \<open>
  \<^verbatim>\<open>String\<close> of \<^verbatim>\<open>coherence/lang\<close> beyond validation: the iteration over the characters
  of a string (\<^verbatim>\<open>_next\<close>, \<^verbatim>\<open>_prev\<close>, \<^verbatim>\<open>_skip\<close>), the conversion from UTF-16 and the
  comparison of two strings.  A pointer into a string is the list of the octets from there
  on, the terminating NUL included.
\<close>

section \<open>Iterating over characters\<close>

definition string_next :: "octet_t list \<Rightarrow> exn + wchar16_t \<times> octet_t list" where
  "string_next ab =
     (case ab of
        [] \<Rightarrow> Inl UndefinedBehaviour
      | b # r \<Rightarrow>
          let h = b AND 0xF0 in
          if h = 0xE0 then
            (case r of b2 # b3 # r \<Rightarrow> Inr (decode3 b b2 b3, r) | _ \<Rightarrow> Inl UndefinedBehaviour)
          else if h = 0xD0 \<or> h = 0xC0 then
            (case r of b2 # r \<Rightarrow> Inr (decode2 b b2, r) | _ \<Rightarrow> Inl UndefinedBehaviour)
          else if h \<in> {0x70, 0x60, 0x50, 0x40, 0x30, 0x20, 0x10, 0x00} then Inr (ucast b AND 0x7F, r)
          else Inl IllegalArgumentException)"

fun string_skip :: "octet_t list \<Rightarrow> nat \<Rightarrow> exn + octet_t list" where
  "string_skip ab 0 = Inr ab"
| "string_skip ab (Suc cch) =
     (case ab of
        [] \<Rightarrow> Inl UndefinedBehaviour
      | b # r \<Rightarrow>
          let n = (if b AND 0x80 \<noteq> 0 then (if b AND 0xF0 = 0xE0 then 2 else 1) else 0) in
          if length r < n then Inl UndefinedBehaviour else string_skip (drop n r) cch)"

text \<open>The loop that copies the characters of a string to an array.\<close>

fun string_chars :: "octet_t list \<Rightarrow> nat \<Rightarrow> exn + wchar16_t list" where
  "string_chars ab 0 = Inr []"
| "string_chars ab (Suc cch) =
     case_exn (string_next ab) (\<lambda>(ch, ab). case_exn (string_chars ab cch) (\<lambda>chs. Inr (ch # chs)))"

fun strncmp_utf8 :: "octet_t list \<Rightarrow> octet_t list \<Rightarrow> nat \<Rightarrow> exn + int" where
  "strncmp_utf8 ab1 ab2 0 = Inr 0"
| "strncmp_utf8 ab1 ab2 (Suc cch) =
     case_exn (string_next ab1) (\<lambda>(ch1, ab1). case_exn (string_next ab2) (\<lambda>(ch2, ab2).
       if ch1 \<noteq> ch2 then Inr (if ch1 < ch2 then - 1 else 1) else strncmp_utf8 ab1 ab2 cch))"

section \<open>From UTF-16\<close>

text \<open>
  \<^verbatim>\<open>validateUTF16String\<close> for arrays of known length: the octets the string will take.
\<close>

definition utf16_size :: "wchar16_t \<Rightarrow> exn + nat" where
  "utf16_size ch =
     (if ch < 0x80 then Inr 1
      else if ch < 0x800 then Inr 2
      else if ch < 0xD800 then Inr 3
      else if ch < 0xE000 then Inl IllegalArgumentException
      else Inr 3)"

fun validate_utf16 :: "wchar16_t list \<Rightarrow> exn + nat" where
  "validate_utf16 [] = Inr 0"
| "validate_utf16 (ch # chs) =
     case_exn (utf16_size ch) (\<lambda>cb. case_exn (validate_utf16 chs) (\<lambda>n. Inr (cb + n)))"

definition validate_managed_utf16 :: "wchar16_t list \<Rightarrow> nat \<Rightarrow> nat \<Rightarrow> exn + wchar16_t list \<times> nat" where
  "validate_managed_utf16 va off c =
     (let ce = length va in
      if ce \<le> off then Inl IndexOutOfBoundsException
      else if c \<noteq> npos \<and> ce < size_add off c then Inl IndexOutOfBoundsException
      else if c \<noteq> npos \<and> ce < off + c then Inl UndefinedBehaviour
      else
        let a = take (if c = npos then ce - off else c) (drop off va)
        in case_exn (validate_utf16 a) (\<lambda>cb. Inr (a, cb)))"

fun utf16_to_utf8 :: "wchar16_t list \<Rightarrow> exn + octet_t list" where
  "utf16_to_utf8 [] = Inr []"
| "utf16_to_utf8 (ch # chs) =
     (if ch < 0xD800 \<or> 0xDFFF < ch
      then case_exn (utf16_to_utf8 chs) (\<lambda>bs. Inr (encode_char16 ch @ bs))
      else Inl IllegalArgumentException)"

text \<open>
  \<^verbatim>\<open>String::create\<close> over UTF-16; it ensures that the conversion took as many octets as the
  validation announced.
\<close>

definition string_create_utf16 :: "wchar16_t list \<Rightarrow> nat \<Rightarrow> nat \<Rightarrow> exn + cstring" where
  "string_create_utf16 va off cch =
     case_exn (validate_managed_utf16 va off cch) (\<lambda>(a, cb).
     case_exn (utf16_to_utf8 a) (\<lambda>bs.
       if length bs = cb then Inr bs else Inl IllegalStateException))"

section \<open>The characters of a converted string\<close>

lemma string_next_encode: "string_next (encode_char16 ch @ r) = Inr (ch, r)"
proof -
  consider (a) "ch \<le> 0x7F" | (b) "\<not> ch \<le> 0x7F" "ch \<le> 0x7FF" | (c) "\<not> ch \<le> 0x7F" "\<not> ch \<le> 0x7FF" by blast
  then show ?thesis
  proof cases
    case a
    then have "\<not> bit (ucast ch :: octet_t) 7" by (auto simp: char16_ranges utf_bits)
    with lead_octet_classes_utf8 [of "ucast ch"]
    have lead: "(ucast ch :: octet_t) AND 0xF0 \<noteq> 0xE0"
      "\<not> ((ucast ch :: octet_t) AND 0xF0 = 0xD0 \<or> (ucast ch :: octet_t) AND 0xF0 = 0xC0)"
      "(ucast ch :: octet_t) AND 0xF0 \<in> {0x70, 0x60, 0x50, 0x40, 0x30, 0x20, 0x10, 0x00}" by blast+
    have "ucast (ucast ch :: octet_t) AND (0x7F :: wchar16_t) = ch"
      using a by (intro bit_eqI) (auto simp: char16_ranges utf_bits)
    with a lead show ?thesis
      unfolding string_next_def encode_char16_def Let_def by (simp only: if_True if_False append.simps list.case simp_thms)
  next
    case b
    let ?b = "0xC0 OR (ucast (drop_bit 6 ch) AND 0x1F) :: octet_t"
    have "bit ?b 7" "bit ?b 6" "\<not> bit ?b 5" by (simp_all add: utf_bits)
    with lead_octet_classes_utf8 [of ?b] have "?b AND 0xF0 \<noteq> 0xE0" "?b AND 0xF0 = 0xD0 \<or> ?b AND 0xF0 = 0xC0" by blast+
    with b decode2_encode [of ch] show ?thesis
      unfolding string_next_def encode_char16_def Let_def
      by (simp only: if_True if_False append.simps list.case simp_thms)
  next
    case c
    let ?b = "0xE0 OR (ucast (drop_bit 12 ch) AND 0x0F) :: octet_t"
    have "bit ?b 7" "bit ?b 6" "bit ?b 5" "\<not> bit ?b 4" by (simp_all add: utf_bits)
    with lead_octet_classes_utf8 [of ?b] have "?b AND 0xF0 = 0xE0" by blast
    with c decode3_encode [of ch] show ?thesis
      unfolding string_next_def encode_char16_def Let_def
      by (simp only: if_True if_False append.simps list.case simp_thms)
  qed
qed

lemma utf16_to_utf8_octets:
  "utf16_to_utf8 chs = Inr bs \<Longrightarrow> bs = concat (map encode_char16 chs)"
  by (induction chs arbitrary: bs) (auto simp: case_exn_Inr split: if_splits)

lemma utf16_size_encode: "utf16_size ch = Inr cb \<Longrightarrow> cb = length (encode_char16 ch)"
proof -
  have lt: "(x::wchar16_t) < 0x80 \<longleftrightarrow> x \<le> 0x7F" "(x::wchar16_t) < 0x800 \<longleftrightarrow> x \<le> 0x7FF" for x
    by (simp_all add: word_less_nat_alt word_le_nat_alt) linarith+
  assume "utf16_size ch = Inr cb"
  then show ?thesis by (auto simp: utf16_size_def encode_char16_def lt split: if_splits)
qed

lemma utf16_size_valid: "(\<exists>cb. utf16_size ch = Inr cb) \<longleftrightarrow> ch < 0xD800 \<or> 0xDFFF < ch"
proof -
  have "ch < 0x80 \<Longrightarrow> ch < 0xD800" "ch < 0x800 \<Longrightarrow> ch < 0xD800" "ch < 0xE000 \<longleftrightarrow> \<not> 0xDFFF < ch"
    by (simp_all add: word_less_nat_alt not_less) linarith+
  then show ?thesis by (auto simp: utf16_size_def)
qed

lemma validate_utf16_converts:
  "validate_utf16 chs = Inr cb \<Longrightarrow>
   \<exists>bs. utf16_to_utf8 chs = Inr bs \<and> length bs = cb"
proof (induction chs arbitrary: cb)
  case (Cons ch chs)
  then obtain c n where c: "utf16_size ch = Inr c" and n: "validate_utf16 chs = Inr n" and "cb = c + n"
    by (auto simp: case_exn_Inr)
  moreover from Cons.IH [OF n] obtain bs where "utf16_to_utf8 chs = Inr bs" "length bs = n" by auto
  moreover have "ch < 0xD800 \<or> 0xDFFF < ch" using c utf16_size_valid by blast
  ultimately show ?case using utf16_size_encode [OF c] by (simp add: case_exn_def)
qed simp

lemma string_chars_encode:
  "string_chars (concat (map encode_char16 chs) @ r) (length chs) = Inr chs"
  by (induction chs) (simp_all add: string_next_encode case_exn_def)

section \<open>Converted strings are valid\<close>

text \<open>The validation of a string accepts the encoding of a character as a whole.\<close>

lemma utf8_step_encode:
  assumes "drop cb a = encode_char16 ch @ r"
  shows "utf8_step a cb = Inr (cb + length (encode_char16 ch))"
proof -
  have len: "length a = cb + length (encode_char16 ch) + length r"
    using arg_cong [OF assms, of length] length_encode_char16(1) [of ch] by (cases "cb \<le> length a") auto
  have nth: "a ! (cb + i) = (encode_char16 ch @ r) ! i" for i
    using assms nth_drop [of cb a i] len by simp
  note nth0 = nth [of 0] and nth1 = nth [of 1] and nth2 = nth [of 2]
  show ?thesis
  proof (cases ch rule: encode_char16_cases)
    case (one b)
    with lead_octet_classes_utf8 [of b] have "b AND 0xF0 \<noteq> 0xF0" "b AND 0xF0 \<noteq> 0xE0"
      "\<not> (b AND 0xF0 = 0xD0 \<or> b AND 0xF0 = 0xC0)"
      "b AND 0xF0 \<in> {0x70, 0x60, 0x50, 0x40, 0x30, 0x20, 0x10, 0x00}" by auto
    with one nth0 show ?thesis unfolding utf8_step_def Let_def by simp
  next
    case (two b b2)
    with lead_octet_classes_utf8 [of b] have "b AND 0xF0 \<noteq> 0xF0" "b AND 0xF0 \<noteq> 0xE0"
      "b AND 0xF0 = 0xD0 \<or> b AND 0xF0 = 0xC0" by auto
    with two nth0 nth1 len show ?thesis unfolding utf8_step_def utf8_last_def Let_def
      by (simp add: case_exn_def)
  next
    case (three b b2 b3)
    with lead_octet_classes_utf8 [of b] have "b AND 0xF0 \<noteq> 0xF0" "b AND 0xF0 = 0xE0" by auto
    with three nth0 nth1 nth2 len show ?thesis unfolding utf8_step_def utf8_last_def utf8_cont_def Let_def
      by (simp add: case_exn_def numeral_2_eq_2)
  qed
qed

lemma utf8_scan_encode:
  assumes "drop cb a = concat (map encode_char16 chs)" and "cb \<le> length a"
  shows "utf8_scan a cb n = Inr (length a, n + length chs)"
  using assms
proof (induction chs arbitrary: cb n)
  case Nil
  then show ?case by (simp add: utf8_scan.simps)
next
  case (Cons ch chs)
  let ?cb = "cb + length (encode_char16 ch)"
  have "drop ?cb a = drop (length (encode_char16 ch)) (drop cb a)" by (simp add: add.commute)
  also have "\<dots> = concat (map encode_char16 chs)" using Cons.prems(1) by simp
  finally have rest: "drop ?cb a = concat (map encode_char16 chs)" .
  have len: "length a = ?cb + length (concat (map encode_char16 chs))"
    using arg_cong [OF Cons.prems(1), of length] Cons.prems(2) by simp
  then have "cb < length a" using length_encode_char16(1) [of ch] by simp
  then show ?case
    using utf8_step_encode [of cb a ch "concat (map encode_char16 chs)"] Cons.IH [OF rest] Cons.prems(1) len
    by (simp add: utf8_scan.simps [of a cb])
qed

lemma utf8_validate_encode: "utf8_validate (concat (map encode_char16 chs)) = Inr (length chs)"
  using utf8_scan_encode [of 0 "concat (map encode_char16 chs)" chs 0] by (simp add: utf8_validate_def)

lemma string_create_utf16_octets:
  assumes "string_create_utf16 va off cch = Inr s"
  obtains chs where "validate_managed_utf16 va off cch = Inr (chs, length s)"
    and "chs = take (if cch = npos then length va - off else cch) (drop off va)"
    and "s = concat (map encode_char16 chs)"
    and "off + (if cch = npos then length va - off else cch) \<le> length va"
proof -
  from assms obtain chs cb where v: "validate_managed_utf16 va off cch = Inr (chs, cb)"
    and c: "utf16_to_utf8 chs = Inr s" "length s = cb"
    by (auto simp: string_create_utf16_def case_exn_Inr split: if_splits)
  have "chs = take (if cch = npos then length va - off else cch) (drop off va)"
      "off + (if cch = npos then length va - off else cch) \<le> length va"
    using v by (auto simp: validate_managed_utf16_def Let_def case_exn_Inr split: if_splits)
  with v c utf16_to_utf8_octets [OF c(1)] show ?thesis by (intro that) auto
qed

end
