(* ===== verification/Pof_Reader.thy ===== *)
theory Pof_Reader
  imports Pof_Writer Coh_String
begin

text \<open>
  \<^verbatim>\<open>PofBufferReader\<close> of \<^verbatim>\<open>coherence/io/pof\<close>: reading properties of every type from the
  portable object format, the registry of identities and the recursive descent through
  objects.  The serializers of user types, the type identifiers of classes and the equality
  of map keys belong to the application and are fields of an environment.
\<close>

section \<open>References to objects\<close>

text \<open>
  What a \<^verbatim>\<open>Holder\<close> refers to: the identity of the object, whether it is held by a view
  (the target of no \<^verbatim>\<open>Handle\<close> cast) and its value.  \<open>HNew\<close> is an object created by the
  reader, \<open>HShared\<close> one of the flyweights of \<^verbatim>\<open>valueOf\<close> and the shared empty values, of
  which there is one per value.
\<close>

datatype handle_id = HNull | HNew nat | HShared

datatype 'u pof_ref = PofRef (ref_id: handle_id) (ref_view: bool) (ref_obj: "'u pof_obj")

definition null_ref :: "'u pof_ref" where
  "null_ref = PofRef HNull False ONull"

definition same_ref :: "'u pof_ref \<Rightarrow> 'u pof_ref \<Rightarrow> bool" where
  "same_ref r s \<longleftrightarrow> ref_id r = ref_id s \<and> (ref_id r = HShared \<longrightarrow> ref_obj r = ref_obj s)"

text \<open>The values for which \<^verbatim>\<open>valueOf\<close> of the boxed types returns a shared object.\<close>

definition is_flyweight :: "'u pof_obj \<Rightarrow> bool" where
  "is_flyweight v =
     (case v of
        OBoolean f \<Rightarrow> True
      | OOctet b \<Rightarrow> True
      | OChar16 ch \<Rightarrow> ch < 128 \<or> ch = 0xFFFF
      | OInteger16 n \<Rightarrow> (- 1 \<le> sint n \<and> sint n < 255) \<or> n = 0x8000 \<or> n = 0x7FFF
      | OInteger32 n \<Rightarrow> (- 1 \<le> sint n \<and> sint n < 255) \<or> n = 0x80000000 \<or> n = 0x7FFFFFFF
      | OInteger64 n \<Rightarrow>
          (- 1 \<le> sint n \<and> sint n < 255) \<or> n = 0x8000000000000000 \<or> n = 0x7FFFFFFFFFFFFFFF
      | OFloat32 fl \<Rightarrow> fl \<in> {0, 0x3F800000, 0x7F800000, 0xFF800000, 0x7FC00000}
      | OFloat64 dfl \<Rightarrow>
          dfl \<in> {0, 0x3FF0000000000000, 0x7FF0000000000000, 0xFFF0000000000000, 0x7FF8000000000000}
      | _ \<Rightarrow> False)"

section \<open>The reader\<close>

text \<open>
  The input, the registry of identities, the next object identity and the identifier that
  \<^verbatim>\<open>IdentityHolder\<close> keeps for this reader.
\<close>

record 'u pof_reader =
  pr_in :: buffer_input
  pr_refs :: "int32_t \<rightharpoonup> 'u pof_ref"
  pr_next :: nat
  pr_pending :: "int32_t option"

definition pr_create :: "buffer_input \<Rightarrow> 'u pof_reader" where
  "pr_create hIn = \<lparr>pr_in = hIn, pr_refs = Map.empty, pr_next = 0, pr_pending = None\<rparr>"

type_synonym ('u, 'a) reading = "('u pof_reader, 'a) comp"

text \<open>
  \<open>pe_serializer\<close> is the context's \<^verbatim>\<open>getPofSerializer\<close> with what the serializer it
  returns reads for a version, \<open>pe_type_id\<close> the type identifier of an object's class and
  \<open>pe_key_equals\<close> the equality of map keys.
\<close>

record 'u pof_env =
  pe_serializer :: "int32_t \<Rightarrow> exn + (int32_t \<Rightarrow> ('u, 'u pof_ref) reading)"
  pe_type_id :: "'u pof_obj \<Rightarrow> exn + int32_t"
  pe_key_equals :: "'u pof_obj \<Rightarrow> 'u pof_obj \<Rightarrow> bool"

definition pr_get :: "('u pof_reader \<Rightarrow> 'a) \<Rightarrow> ('u, 'a) reading" where
  "pr_get f r = (Inr (f r), r)"

definition pr_lift :: "exn + 'a \<Rightarrow> ('u, 'a) reading" where
  "pr_lift m r = (m, r)"

definition pr_on_in :: "(buffer_input, 'a) comp \<Rightarrow> ('u, 'a) reading" where
  "pr_on_in m r = (case m (pr_in r) of (x, bi) \<Rightarrow> (x, r\<lparr>pr_in := bi\<rparr>))"

definition rd_int32 :: "('u, int32_t) reading" where
  "rd_int32 = pr_on_in obi_read_int32"

definition rd_size :: "('u, nat) reading" where
  "rd_size = pr_on_in (bi_incoming obi_read_int32)"

definition new_ref :: "bool \<Rightarrow> 'u pof_obj \<Rightarrow> ('u, 'u pof_ref) reading" where
  "new_ref fView v r = (Inr (PofRef (HNew (pr_next r)) fView v), r\<lparr>pr_next := Suc (pr_next r)\<rparr>)"

definition box :: "'u pof_obj \<Rightarrow> ('u, 'u pof_ref) reading" where
  "box v = (if is_flyweight v then ret (PofRef HShared True v) else new_ref True v)"

definition advance_to :: "int32_t \<Rightarrow> ('u, unit) reading" where
  "advance_to iProp = (if 0 <s iProp then throw IllegalStateException else ret ())"

definition reader_register_identity :: "int32_t \<Rightarrow> 'u pof_ref \<Rightarrow> ('u, unit) reading" where
  "reader_register_identity nId oh =
     (if 0 \<le>s nId then
        bindc (pr_get pr_refs) (\<lambda>refs.
          if (case refs nId of None \<Rightarrow> False | Some old \<Rightarrow> ref_obj old \<noteq> ONull \<and> \<not> same_ref old oh)
          then throw IOException
          else (\<lambda>r. (Inr (), r\<lparr>pr_refs := (pr_refs r)(nId \<mapsto> oh)\<rparr>)))
      else ret ())"

definition lookup_identity :: "int32_t \<Rightarrow> ('u, 'u pof_ref) reading" where
  "lookup_identity nId =
     bindc (pr_get pr_refs) (\<lambda>refs. case refs nId of None \<Rightarrow> throw IOException | Some oh \<Rightarrow> ret oh)"

definition holder_set :: "int32_t \<Rightarrow> ('u, unit) reading" where
  "holder_set nId r = (Inr (), r\<lparr>pr_pending := Some nId\<rparr>)"

definition holder_reset :: "int32_t \<Rightarrow> 'u pof_ref \<Rightarrow> ('u, unit) reading" where
  "holder_reset nId oh =
     bindc (pr_get pr_pending) (\<lambda>v. case v of
        None \<Rightarrow> ret ()
      | Some nValue \<Rightarrow>
          if nId = - 1 \<or> nValue = nId
          then seqc (reader_register_identity nValue oh) (\<lambda>r. (Inr (), r\<lparr>pr_pending := None\<rparr>))
          else ret ())"

text \<open>The casts of a looked-up holder; null passes every cast.\<close>

definition cast_handle :: "('u pof_obj \<Rightarrow> bool) \<Rightarrow> 'u pof_ref \<Rightarrow> ('u, 'u pof_ref) reading" where
  "cast_handle is oh =
     (if ref_obj oh = ONull then ret null_ref
      else if ref_view oh then throw ConstCastException
      else if is (ref_obj oh) then ret oh
      else throw ClassCastException)"

definition cast_view :: "('u pof_obj \<Rightarrow> bool) \<Rightarrow> 'u pof_ref \<Rightarrow> ('u, 'u pof_ref) reading" where
  "cast_view is oh =
     (if ref_obj oh = ONull then ret null_ref
      else if is (ref_obj oh) then ret oh
      else throw ClassCastException)"

text \<open>
  The loop over the elements of a sparse array: it is left at a negative index or after
  \<open>c + 1\<close> elements, and returns the counter as the code leaves it.
\<close>

fun sparse_loop ::
  "('s, int32_t) comp \<Rightarrow> (int32_t \<Rightarrow> 'a \<Rightarrow> ('s, 'a) comp) \<Rightarrow> nat \<Rightarrow> 'a \<Rightarrow> ('s, 'a \<times> nat) comp" where
  "sparse_loop rd elem 0 acc =
     bindc rd (\<lambda>i. if i <s 0 then ret (acc, 0) else mapc (\<lambda>a. (a, npos)) (elem i acc))"
| "sparse_loop rd elem (Suc c) acc =
     bindc rd (\<lambda>i. if i <s 0 then ret (acc, Suc c)
                   else bindc (elem i acc) (sparse_loop rd elem c))"

definition array_set :: "'a list \<Rightarrow> nat \<Rightarrow> 'a \<Rightarrow> exn + 'a list" where
  "array_set ha i x = (if i < length ha then Inr (ha[i := x]) else Inl IndexOutOfBoundsException)"

definition sparse_element ::
  "(exn + 'a list \<Rightarrow> ('s, 'a list) comp) \<Rightarrow> ('s, 'a) comp \<Rightarrow> int32_t \<Rightarrow> 'a list \<Rightarrow> ('s, 'a list) comp" where
  "sparse_element lift elem iElement ha =
     bindc elem (\<lambda>x. lift (case_exn (validate_incoming_size iElement) (\<lambda>i. array_set ha i x)))"

section \<open>Numbers\<close>

text \<open>\<^verbatim>\<open>Number::getInt32Value\<close> and its siblings; None for objects that are not numbers.\<close>

definition number_int32 :: "'u pof_obj \<Rightarrow> (exn + int32_t) option" where
  "number_int32 v =
     (case v of
        OInteger16 n \<Rightarrow> Some (Inr (scast n))
      | OInteger32 n \<Rightarrow> Some (Inr n)
      | OInteger64 n \<Rightarrow> Some (Inr (scast n))
      | OFloat32 fl \<Rightarrow> Some (fp_to_int (fp_of_bits32 fl))
      | OFloat64 dfl \<Rightarrow> Some (fp_to_int (fp_of_bits64 dfl))
      | _ \<Rightarrow> None)"

definition number_int64 :: "'u pof_obj \<Rightarrow> (exn + int64_t) option" where
  "number_int64 v =
     (case v of
        OInteger16 n \<Rightarrow> Some (Inr (scast n))
      | OInteger32 n \<Rightarrow> Some (Inr (scast n))
      | OInteger64 n \<Rightarrow> Some (Inr n)
      | OFloat32 fl \<Rightarrow> Some (fp_to_int (fp_of_bits32 fl))
      | OFloat64 dfl \<Rightarrow> Some (fp_to_int (fp_of_bits64 dfl))
      | _ \<Rightarrow> None)"

definition number_float32 :: "'u pof_obj \<Rightarrow> (exn + float32_bits) option" where
  "number_float32 v =
     (case v of
        OInteger16 n \<Rightarrow> Some (Inr (int_to_float32 n))
      | OInteger32 n \<Rightarrow> Some (Inr (int_to_float32 n))
      | OInteger64 n \<Rightarrow> Some (Inr (int_to_float32 n))
      | OFloat32 fl \<Rightarrow> Some (Inr fl)
      | OFloat64 dfl \<Rightarrow> Some (Inr (float64_to_float32 dfl))
      | _ \<Rightarrow> None)"

definition number_float64 :: "'u pof_obj \<Rightarrow> (exn + float64_bits) option" where
  "number_float64 v =
     (case v of
        OInteger16 n \<Rightarrow> Some (Inr (int_to_float64 n))
      | OInteger32 n \<Rightarrow> Some (Inr (int_to_float64 n))
      | OInteger64 n \<Rightarrow> Some (Inr (int_to_float64 n))
      | OFloat32 fl \<Rightarrow> Some (Inr (float32_to_float64 fl))
      | OFloat64 dfl \<Rightarrow> Some (Inr dfl)
      | _ \<Rightarrow> None)"

text \<open>
  The four methods that read numbers are one code.  A nested identity recurses, consuming
  at least two octets, so the unread octets bound the depth.
\<close>

fun read_number ::
  "nat \<Rightarrow> 'n \<Rightarrow> ('n \<Rightarrow> 'u pof_obj) \<Rightarrow> ('u pof_obj \<Rightarrow> (exn + 'n) option) \<Rightarrow>
   (int32_t \<Rightarrow> (buffer_input, 'n) comp) \<Rightarrow> int32_t \<Rightarrow> ('u, 'n) reading" where
  "read_number 0 zero boxed get readAs iProp = throw StackOverflow"
| "read_number (Suc d) zero boxed get readAs iProp =
     seqc (advance_to iProp) (bindc rd_int32 (\<lambda>nType.
       if nType = t_identity then
         bindc rd_int32 (\<lambda>nId. bindc (read_number d zero boxed get readAs iProp) (\<lambda>n.
         bindc (box (boxed n)) (\<lambda>oh. seqc (reader_register_identity nId oh) (ret n))))
       else if nType = t_reference then
         bindc (bindc rd_int32 lookup_identity) (\<lambda>oh.
           if ref_obj oh = ONull then ret zero
           else case get (ref_obj oh) of None \<Rightarrow> throw ClassCastException | Some n \<Rightarrow> pr_lift n)
       else if nType = v_reference_null \<or> nType = v_int_0 then ret zero
       else pr_on_in (readAs nType)))"

definition read_depth :: "'u pof_reader \<Rightarrow> nat" where
  "read_depth r = Suc (length (bi_rem (pr_in r)))"

definition read_int32 :: "int32_t \<Rightarrow> ('u, int32_t) reading" where
  "read_int32 iProp r = read_number (read_depth r) 0 OInteger32 number_int32 read_as_int32 iProp r"

definition read_int64 :: "int32_t \<Rightarrow> ('u, int64_t) reading" where
  "read_int64 iProp r = read_number (read_depth r) 0 OInteger64 number_int64 read_as_int64 iProp r"

definition read_float32 :: "int32_t \<Rightarrow> ('u, float32_bits) reading" where
  "read_float32 iProp r =
     read_number (read_depth r) 0 (\<lambda>fl. OFloat32 (float32_value_of fl)) number_float32 read_as_float32 iProp r"

definition read_float64 :: "int32_t \<Rightarrow> ('u, float64_bits) reading" where
  "read_float64 iProp r =
     read_number (read_depth r) 0 (\<lambda>dfl. OFloat64 (float64_value_of dfl)) number_float64 read_as_float64 iProp r"

definition read_boolean :: "int32_t \<Rightarrow> ('u, bool) reading" where
  "read_boolean iProp = mapc (\<lambda>n. n \<noteq> 0) (read_int32 iProp)"

definition read_octet :: "int32_t \<Rightarrow> ('u, octet_t) reading" where
  "read_octet iProp = mapc ucast (read_int32 iProp)"

definition read_char16 :: "int32_t \<Rightarrow> ('u, wchar16_t) reading" where
  "read_char16 iProp = mapc ucast (read_int32 iProp)"

definition read_int16 :: "int32_t \<Rightarrow> ('u, int16_t) reading" where
  "read_int16 iProp = mapc ucast (read_int32 iProp)"

section \<open>Properties that may be shared\<close>

text \<open>
  The frame of every method that returns an object: an identity is registered for the
  value that follows it, a reference is looked up and cast, everything else is the body.
\<close>

fun read_shared ::
  "nat \<Rightarrow> ('u pof_ref \<Rightarrow> ('u, 'u pof_ref) reading) \<Rightarrow> (int32_t \<Rightarrow> ('u, 'u pof_ref) reading) \<Rightarrow>
   int32_t \<Rightarrow> ('u, 'u pof_ref) reading" where
  "read_shared 0 refer body iProp = throw StackOverflow"
| "read_shared (Suc d) refer body iProp =
     seqc (advance_to iProp) (bindc rd_int32 (\<lambda>nType.
       if nType = t_identity then
         bindc rd_int32 (\<lambda>nId. bindc (read_shared d refer body iProp) (\<lambda>oh.
           seqc (reader_register_identity nId oh) (ret oh)))
       else if nType = t_reference then bindc (bindc rd_int32 lookup_identity) refer
       else if nType = v_reference_null then ret null_ref
       else body nType))"

definition read_property ::
  "('u pof_ref \<Rightarrow> ('u, 'u pof_ref) reading) \<Rightarrow> (int32_t \<Rightarrow> ('u, 'u pof_ref) reading) \<Rightarrow>
   int32_t \<Rightarrow> ('u, 'u pof_ref) reading" where
  "read_property refer body iProp r = read_shared (read_depth r) refer body iProp r"


section \<open>Arrays of primitive types\<close>

text \<open>
  The encodings every array method understands.  \<open>elem t\<close> reads an element of type \<open>t\<close> as
  the element type of the array, \<open>unif t c\<close> the \<open>c\<close> elements of a uniform array.
\<close>

definition read_counted :: "(buffer_input, 'a) comp \<Rightarrow> nat \<Rightarrow> ('u, 'a list) reading" where
  "read_counted elem c = pr_on_in (replicatec c elem)"

definition read_typed :: "(int32_t \<Rightarrow> (buffer_input, 'a) comp) \<Rightarrow> (buffer_input, 'a) comp" where
  "read_typed elem = bindc obi_read_int32 elem"

definition read_sparse :: "(buffer_input, 'a) comp \<Rightarrow> 'a \<Rightarrow> nat \<Rightarrow> ('u, 'a list \<times> nat) reading" where
  "read_sparse elem zero c =
     pr_on_in (sparse_loop obi_read_int32 (sparse_element bi_lift elem) c (replicate c zero))"

definition read_array_as ::
  "('a list \<Rightarrow> 'u pof_obj) \<Rightarrow> 'a \<Rightarrow> (int32_t \<Rightarrow> (buffer_input, 'a) comp) \<Rightarrow>
   (int32_t \<Rightarrow> nat \<Rightarrow> (buffer_input, 'a list) comp) \<Rightarrow> int32_t \<Rightarrow> ('u, 'u pof_ref) reading" where
  "read_array_as mk zero elem unif nType =
     (if nType = v_collection_empty then ret (PofRef HShared False (mk []))
      else if nType \<in> {t_collection, t_array} then
        bindc rd_size (\<lambda>c. bindc (read_counted (read_typed elem) c) (\<lambda>va. new_ref False (mk va)))
      else if nType \<in> {t_uniform_collection, t_uniform_array} then
        bindc rd_int32 (\<lambda>nElementType. bindc rd_size (\<lambda>c.
          bindc (pr_on_in (unif nElementType c)) (\<lambda>va. new_ref False (mk va))))
      else if nType = t_sparse_array then
        bindc rd_size (\<lambda>c. bindc (read_sparse (read_typed elem) zero c) (\<lambda>(va, _). new_ref False (mk va)))
      else if nType = t_uniform_sparse_array then
        bindc rd_int32 (\<lambda>nElementType. bindc rd_size (\<lambda>c.
          bindc (read_sparse (elem nElementType) zero c) (\<lambda>(va, _). new_ref False (mk va))))
      else throw IOException)"

text \<open>\<^verbatim>\<open>f_hIn->read(hab)\<close> for a new array of \<open>c\<close> octets.\<close>

definition read_octets :: "nat \<Rightarrow> (buffer_input, octet_t list) comp" where
  "read_octets c = obi_read_into (replicate c 0) 0 c"

definition is_boolean_array :: "'u pof_obj \<Rightarrow> bool" where
  "is_boolean_array v = (case v of OBooleanArray a \<Rightarrow> True | _ \<Rightarrow> False)"

definition is_octet_array :: "'u pof_obj \<Rightarrow> bool" where
  "is_octet_array v = (case v of OOctetArray a \<Rightarrow> True | _ \<Rightarrow> False)"

definition is_char16_array :: "'u pof_obj \<Rightarrow> bool" where
  "is_char16_array v = (case v of OChar16Array a \<Rightarrow> True | _ \<Rightarrow> False)"

definition is_int16_array :: "'u pof_obj \<Rightarrow> bool" where
  "is_int16_array v = (case v of OInt16Array a \<Rightarrow> True | _ \<Rightarrow> False)"

definition is_int32_array :: "'u pof_obj \<Rightarrow> bool" where
  "is_int32_array v = (case v of OInt32Array a \<Rightarrow> True | _ \<Rightarrow> False)"

definition is_int64_array :: "'u pof_obj \<Rightarrow> bool" where
  "is_int64_array v = (case v of OInt64Array a \<Rightarrow> True | _ \<Rightarrow> False)"

definition is_float32_array :: "'u pof_obj \<Rightarrow> bool" where
  "is_float32_array v = (case v of OFloat32Array a \<Rightarrow> True | _ \<Rightarrow> False)"

definition is_float64_array :: "'u pof_obj \<Rightarrow> bool" where
  "is_float64_array v = (case v of OFloat64Array a \<Rightarrow> True | _ \<Rightarrow> False)"

definition read_boolean_array :: "int32_t \<Rightarrow> ('u, 'u pof_ref) reading" where
  "read_boolean_array =
     read_property (cast_handle is_boolean_array) (\<lambda>nType.
       if nType = v_string_zero_length then ret (PofRef HShared False (OBooleanArray []))
       else
         read_array_as OBooleanArray False
           (\<lambda>t. mapc (\<lambda>n. n \<noteq> 0) (read_as_int32 t))
           (\<lambda>t c. replicatec c (mapc (\<lambda>n. n \<noteq> 0)
              (if t \<in> {t_boolean, t_int16, t_int32, t_int64, t_int128} then obi_read_int32
               else read_as_int32 t)))
           nType)"

definition read_octet_array :: "int32_t \<Rightarrow> ('u, 'u pof_ref) reading" where
  "read_octet_array =
     read_property
       (\<lambda>oh. case ref_obj oh of
          OBinary bs \<Rightarrow> new_ref False (OOctetArray bs)
        | _ \<Rightarrow> cast_handle is_octet_array oh)
       (\<lambda>nType.
         if nType = v_string_zero_length then ret (PofRef HShared False (OOctetArray []))
         else if nType = t_octet_string then
           bindc rd_size (\<lambda>cb. bindc (pr_on_in (read_octets cb)) (\<lambda>vab. new_ref False (OOctetArray vab)))
         else
           read_array_as OOctetArray 0
             (\<lambda>t. if t = t_octet then obi_read else mapc ucast (read_as_int32 t))
             (\<lambda>t c. if t = t_octet then read_octets c
                    else replicatec c (mapc ucast (read_as_int32 t)))
             nType)"

text \<open>
  The loop of \<^verbatim>\<open>readChar16Array\<close> over the octets of an octet string increments the
  number of octets instead of the index.
\<close>

function octets_to_chars :: "octet_t list \<Rightarrow> wchar16_t list \<Rightarrow> nat \<Rightarrow> wchar16_t list" where
  "octets_to_chars hab hach cb =
     (if 0 < cb \<and> cb < size_max
      then octets_to_chars hab (hach[0 := ucast (hab ! 0)]) (size_add cb 1) else hach)"
  by pat_completeness auto
termination
  by (relation "measure (\<lambda>(hab, hach, cb). if cb = 0 then 0 else size_max - cb)")
    (auto simp: size_add_def mod_Suc)

declare octets_to_chars.simps [simp del]

text \<open>The characters of a string, by \<^verbatim>\<open>String::next\<close> on its octets and the final NUL.\<close>

definition chars_of_string :: "cstring \<Rightarrow> exn + wchar16_t list" where
  "chars_of_string vs = string_chars (vs @ [0]) (string_length vs)"

definition read_char16_array :: "int32_t \<Rightarrow> ('u, 'u pof_ref) reading" where
  "read_char16_array =
     read_property
       (\<lambda>oh. case ref_obj oh of
          OString vs \<Rightarrow> bindc (pr_lift (chars_of_string vs)) (\<lambda>vach. new_ref False (OChar16Array vach))
        | _ \<Rightarrow> cast_handle is_char16_array oh)
       (\<lambda>nType.
         if nType = v_string_zero_length then ret (PofRef HShared False (OChar16Array []))
         else if nType = t_octet_string then
           bindc rd_size (\<lambda>cb. bindc (pr_on_in (read_octets cb)) (\<lambda>vab.
             new_ref False (OChar16Array (octets_to_chars vab (replicate cb 0) cb))))
         else if nType = t_char_string then
           bindc (pr_on_in obi_read_string) (\<lambda>vs. case vs of
               None \<Rightarrow> throw NullPointerException
             | Some vs \<Rightarrow>
                 bindc (pr_lift (chars_of_string vs)) (\<lambda>vach. new_ref False (OChar16Array vach)))
         else
           read_array_as OChar16Array 0
             (\<lambda>t. if t = t_char then obi_read_char16 else mapc ucast (read_as_int32 t))
             (\<lambda>t c. replicatec c
                (if t = t_char then obi_read_char16 else mapc ucast (read_as_int32 t)))
             nType)"

definition read_int16_array :: "int32_t \<Rightarrow> ('u, 'u pof_ref) reading" where
  "read_int16_array =
     read_property (cast_handle is_int16_array)
       (read_array_as OInt16Array 0 (\<lambda>t. mapc ucast (read_as_int32 t))
         (\<lambda>t c. replicatec c (mapc ucast
            (if t \<in> {t_int16, t_int32, t_int64, t_int128} then obi_read_int32 else read_as_int32 t))))"

definition read_int32_array :: "int32_t \<Rightarrow> ('u, 'u pof_ref) reading" where
  "read_int32_array =
     read_property (cast_handle is_int32_array)
       (read_array_as OInt32Array 0 read_as_int32
         (\<lambda>t c. replicatec c
            (if t \<in> {t_int16, t_int32, t_int64, t_int128} then obi_read_int32 else read_as_int32 t)))"

text \<open>In a uniform sparse array the integer types are read as 64-bit integers, too.\<close>

definition read_as_int64_wide :: "int32_t \<Rightarrow> (buffer_input, int64_t) comp" where
  "read_as_int64_wide t =
     (if t \<in> {t_int16, t_int32, t_int64, t_int128} then obi_read_int64 else read_as_int64 t)"

definition read_int64_array :: "int32_t \<Rightarrow> ('u, 'u pof_ref) reading" where
  "read_int64_array =
     read_property (cast_handle is_int64_array) (\<lambda>nType.
       read_array_as OInt64Array 0
         (if nType = t_uniform_sparse_array then read_as_int64_wide else read_as_int64)
         (\<lambda>t c. replicatec c (read_as_int64_wide t)) nType)"

text \<open>
  The size of a sparse \<^verbatim>\<open>float32_t\<close> array is not validated: a negative one is a size of
  the array and no more than one round of the loop.
\<close>

definition read_float32_array :: "int32_t \<Rightarrow> ('u, 'u pof_ref) reading" where
  "read_float32_array =
     read_property (cast_handle is_float32_array) (\<lambda>nType.
       if nType = t_sparse_array then
         bindc rd_int32 (\<lambda>cElements.
         bindc (pr_on_in (sparse_loop obi_read_int32 (sparse_element bi_lift (read_typed read_as_float32))
             (if cElements <s 0 then 0 else unat cElements) (replicate (unat cElements) 0)))
           (\<lambda>(va, _). new_ref False (OFloat32Array va)))
       else
         read_array_as OFloat32Array 0 (\<lambda>t. if t = t_float32 then obi_read_float32 else read_as_float32 t)
           (\<lambda>t c. replicatec c (if t = t_float32 then obi_read_float32 else read_as_float32 t)) nType)"

definition read_float64_array :: "int32_t \<Rightarrow> ('u, 'u pof_ref) reading" where
  "read_float64_array =
     read_property (cast_handle is_float64_array)
       (read_array_as OFloat64Array 0 (\<lambda>t. if t = t_float64 then obi_read_float64 else read_as_float64 t)
         (\<lambda>t c. replicatec c (if t = t_float64 then obi_read_float64 else read_as_float64 t)))"


section \<open>Binaries and strings\<close>

text \<open>The octets of the underlying buffer, which \<^verbatim>\<open>readBinary\<close> and \<^verbatim>\<open>readString\<close> slice.\<close>

definition read_slice :: "(buffer_input, octet_t list) comp" where
  "read_slice =
     bindc (bi_incoming obi_read_int32) (\<lambda>cb. bindc get_offset (\<lambda>off.
       seqc (abi_skip cb) (bindc (bi_get bi_buf) (\<lambda>buf. bi_lift (rb_to_octets buf off cb)))))"

text \<open>\<^verbatim>\<open>Binary::create\<close> over an array that is not immutable: a copy of the range.\<close>

definition binary_create :: "octet_t list \<Rightarrow> nat \<Rightarrow> nat \<Rightarrow> exn + octet_t list" where
  "binary_create vab off cb =
     (if (if cb = npos then length vab < off else length vab < size_add off cb)
      then Inl IndexOutOfBoundsException
      else
        let cb = (if cb = npos then length vab - off else cb) in
        array_copy vab off (replicate cb 0) 0 npos)"

definition is_binary :: "'u pof_obj \<Rightarrow> bool" where
  "is_binary v = (case v of OBinary a \<Rightarrow> True | _ \<Rightarrow> False)"

definition is_string :: "'u pof_obj \<Rightarrow> bool" where
  "is_string v = (case v of OString a \<Rightarrow> True | _ \<Rightarrow> False)"

text \<open>
  In a sparse array the size given to the binary is the counter the loop has decremented.
\<close>

definition read_binary :: "int32_t \<Rightarrow> ('u, 'u pof_ref) reading" where
  "read_binary =
     (let octet = (\<lambda>t. if t = t_octet then obi_read else mapc ucast (read_as_int32 t));
          binary = (\<lambda>vab cb. bindc (pr_lift (binary_create vab 0 cb)) (\<lambda>bs. new_ref True (OBinary bs))) in
      read_property
        (\<lambda>oh. case ref_obj oh of
           OOctetArray bs \<Rightarrow> binary bs (length bs)
         | _ \<Rightarrow> cast_view is_binary oh)
        (\<lambda>nType.
          if nType = v_string_zero_length \<or> nType = v_collection_empty
          then ret (PofRef HShared True (OBinary []))
          else if nType = t_octet_string then
            bindc (pr_on_in read_slice) (\<lambda>bs. new_ref True (OBinary bs))
          else if nType \<in> {t_collection, t_array} then
            bindc rd_size (\<lambda>cb. bindc (read_counted (read_typed octet) cb) (\<lambda>vab. binary vab cb))
          else if nType \<in> {t_uniform_collection, t_uniform_array} then
            bindc rd_int32 (\<lambda>nElementType. bindc rd_size (\<lambda>cb.
              bindc (pr_on_in (if nElementType = t_octet then read_octets cb
                               else replicatec cb (octet nElementType))) (\<lambda>vab. binary vab cb)))
          else if nType = t_sparse_array then
            bindc rd_size (\<lambda>cb. bindc (read_sparse (read_typed octet) 0 cb) (\<lambda>(vab, cb). binary vab cb))
          else if nType = t_uniform_sparse_array then
            bindc rd_int32 (\<lambda>nElementType. bindc rd_size (\<lambda>cb.
              bindc (read_sparse (octet nElementType) 0 cb) (\<lambda>(vab, cb). binary vab cb)))
          else throw IOException))"

definition read_string :: "int32_t \<Rightarrow> ('u, 'u pof_ref) reading" where
  "read_string =
     (let octets = (\<lambda>vab. bindc (pr_lift (string_create vab 0 npos)) (\<lambda>vs. new_ref True (OString vs)));
          chars = (\<lambda>vach. bindc (pr_lift (string_create_utf16 vach 0 npos)) (\<lambda>vs. new_ref True (OString vs))) in
      read_property
        (\<lambda>oh. case ref_obj oh of
           OOctetArray bs \<Rightarrow> octets bs
         | OBinary bs \<Rightarrow> octets bs
         | _ \<Rightarrow> cast_view is_string oh)
        (\<lambda>nType.
          if nType = v_string_zero_length \<or> nType = v_collection_empty
          then ret (PofRef HShared True (OString []))
          else if nType = t_octet_string then bindc (pr_on_in read_slice) octets
          else if nType = t_char_string then
            bindc (pr_on_in obi_read_string) (\<lambda>vs. case vs of
                None \<Rightarrow> ret null_ref
              | Some vs \<Rightarrow> new_ref True (OString vs))
          else if nType \<in> {t_collection, t_array} then
            bindc rd_size (\<lambda>cch. bindc (read_counted (read_typed read_as_char16) cch) chars)
          else if nType \<in> {t_uniform_collection, t_uniform_array} then
            bindc rd_int32 (\<lambda>nElementType. bindc rd_size (\<lambda>cch.
              bindc (read_counted (read_as_char16 nElementType) cch) chars))
          else if nType = t_sparse_array then
            bindc rd_size (\<lambda>cch. bindc (read_sparse (read_typed read_as_char16) 0 cch) (\<lambda>(vach, _). chars vach))
          else if nType = t_uniform_sparse_array then
            bindc rd_int32 (\<lambda>nElementType. bindc rd_size (\<lambda>cch.
              bindc (read_sparse (read_as_char16 nElementType) 0 cch) (\<lambda>(vach, _). chars vach)))
          else throw IOException))"

section \<open>Dates, times and intervals\<close>

definition raw_time_midnight :: raw_time where
  "raw_time_midnight =
     \<lparr>rt_hour = 0, rt_minute = 0, rt_second = 0, rt_nano = 0, rt_zone = TZ_NONE,
      rt_hour_offset = 0, rt_minute_offset = 0\<rparr>"

definition is_raw_date :: "'u pof_obj \<Rightarrow> bool" where
  "is_raw_date v = (case v of ORawDate d \<Rightarrow> True | _ \<Rightarrow> False)"

definition is_raw_time :: "'u pof_obj \<Rightarrow> bool" where
  "is_raw_time v = (case v of ORawTime t \<Rightarrow> True | _ \<Rightarrow> False)"

definition is_raw_date_time :: "'u pof_obj \<Rightarrow> bool" where
  "is_raw_date_time v = (case v of ORawDateTime d t \<Rightarrow> True | _ \<Rightarrow> False)"

definition is_raw_year_month_interval :: "'u pof_obj \<Rightarrow> bool" where
  "is_raw_year_month_interval v = (case v of ORawYearMonthInterval y m \<Rightarrow> True | _ \<Rightarrow> False)"

definition is_raw_time_interval :: "'u pof_obj \<Rightarrow> bool" where
  "is_raw_time_interval v = (case v of ORawTimeInterval ti \<Rightarrow> True | _ \<Rightarrow> False)"

definition is_raw_day_time_interval :: "'u pof_obj \<Rightarrow> bool" where
  "is_raw_day_time_interval v = (case v of ORawDayTimeInterval d h m s n \<Rightarrow> True | _ \<Rightarrow> False)"

definition read_raw_date_property :: "int32_t \<Rightarrow> ('u, 'u pof_ref) reading" where
  "read_raw_date_property =
     read_property
       (\<lambda>oh. case ref_obj oh of
          ORawDateTime d t \<Rightarrow> new_ref True (ORawDate d)
        | _ \<Rightarrow> cast_view is_raw_date oh)
       (\<lambda>nType.
         if nType = t_date then bindc (pr_on_in read_raw_date) (\<lambda>d. new_ref True (ORawDate d))
         else if nType = t_datetime then
           bindc (pr_on_in read_raw_date) (\<lambda>d. seqc (pr_on_in (seqc (skip_ints 4)
             (bindc obi_read_int32 (\<lambda>nZoneType. if nZoneType = 2 then skip_ints 2 else ret ()))))
             (new_ref True (ORawDate d)))
         else throw IOException)"

definition read_raw_time_property :: "int32_t \<Rightarrow> ('u, 'u pof_ref) reading" where
  "read_raw_time_property =
     read_property
       (\<lambda>oh. case ref_obj oh of
          ORawDateTime d t \<Rightarrow> new_ref True (ORawTime t)
        | _ \<Rightarrow> cast_view is_raw_time oh)
       (\<lambda>nType.
         if nType = t_datetime then
           bindc (pr_on_in (seqc (skip_ints 3) read_raw_time)) (\<lambda>t. new_ref True (ORawTime t))
         else if nType = t_time then bindc (pr_on_in read_raw_time) (\<lambda>t. new_ref True (ORawTime t))
         else throw IOException)"

definition read_raw_date_time :: "int32_t \<Rightarrow> ('u, 'u pof_ref) reading" where
  "read_raw_date_time =
     read_property
       (\<lambda>oh. case ref_obj oh of
          ORawDate d \<Rightarrow> new_ref True (ORawDateTime d raw_time_midnight)
        | _ \<Rightarrow> cast_view is_raw_date_time oh)
       (\<lambda>nType.
         if nType = t_date then
           bindc (pr_on_in read_raw_date) (\<lambda>d. new_ref True (ORawDateTime d raw_time_midnight))
         else if nType = t_datetime then
           bindc (pr_on_in read_raw_date) (\<lambda>d. bindc (pr_on_in read_raw_time) (\<lambda>t.
             new_ref True (ORawDateTime d t)))
         else throw IOException)"

definition read_year_month :: "(buffer_input, 'u pof_obj) comp" where
  "read_year_month =
     bindc obi_read_int32 (\<lambda>cYears. bindc obi_read_int32 (\<lambda>cMonths.
       bi_lift (case_exn (check_year_month_interval cYears cMonths)
         (\<lambda>_. Inr (ORawYearMonthInterval cYears cMonths)))))"

definition read_time_interval :: "(buffer_input, 'u pof_obj) comp" where
  "read_time_interval =
     bindc obi_read_int32 (\<lambda>cHours. bindc obi_read_int32 (\<lambda>cMinutes. bindc obi_read_int32 (\<lambda>cSeconds.
     bindc obi_read_int32 (\<lambda>cNanos.
       bi_lift (case_exn (raw_time_interval_create cHours cMinutes cSeconds cNanos)
         (\<lambda>ti. Inr (ORawTimeInterval ti)))))))"

definition read_day_time_interval :: "(buffer_input, 'u pof_obj) comp" where
  "read_day_time_interval =
     bindc obi_read_int32 (\<lambda>cDays. bindc obi_read_int32 (\<lambda>cHours. bindc obi_read_int32 (\<lambda>cMinutes.
     bindc obi_read_int32 (\<lambda>cSeconds. bindc obi_read_int32 (\<lambda>cNanos.
       bi_lift (case_exn (check_day_time_interval cDays cHours cMinutes cSeconds cNanos)
         (\<lambda>_. Inr (ORawDayTimeInterval cDays cHours cMinutes cSeconds cNanos))))))))"

definition read_raw_year_month_interval :: "int32_t \<Rightarrow> ('u, 'u pof_ref) reading" where
  "read_raw_year_month_interval =
     read_property (cast_view is_raw_year_month_interval)
       (\<lambda>nType. if nType = t_year_month_interval then bindc (pr_on_in read_year_month) (new_ref True)
                else throw IOException)"

definition read_raw_time_interval :: "int32_t \<Rightarrow> ('u, 'u pof_ref) reading" where
  "read_raw_time_interval =
     read_property (cast_view is_raw_time_interval)
       (\<lambda>nType. if nType = t_time_interval then bindc (pr_on_in read_time_interval) (new_ref True)
                else throw IOException)"

definition read_raw_day_time_interval :: "int32_t \<Rightarrow> ('u, 'u pof_ref) reading" where
  "read_raw_day_time_interval =
     read_property (cast_view is_raw_day_time_interval)
       (\<lambda>nType. if nType = t_day_time_interval then bindc (pr_on_in read_day_time_interval) (new_ref True)
                else throw IOException)"


section \<open>Containers\<close>

text \<open>
  A long array is the list of its entries in ascending order of the indexes; a map the list
  of its entries in the order of their first insertion.
\<close>

fun map_put :: "('k \<Rightarrow> 'k \<Rightarrow> bool) \<Rightarrow> 'k \<Rightarrow> 'v \<Rightarrow> ('k \<times> 'v) list \<Rightarrow> ('k \<times> 'v) list" where
  "map_put eq k v [] = [(k, v)]"
| "map_put eq k v ((k', v') # m) =
     (if eq k k' then (k', v) # m else (k', v') # map_put eq k v m)"

fun read_entries ::
  "('u pof_obj \<Rightarrow> 'u pof_obj \<Rightarrow> bool) \<Rightarrow> ('u, 'u pof_ref) reading \<Rightarrow> ('u, 'u pof_ref) reading \<Rightarrow> nat \<Rightarrow>
   ('u pof_obj \<times> 'u pof_obj) list \<Rightarrow> ('u, ('u pof_obj \<times> 'u pof_obj) list) reading" where
  "read_entries eq key val 0 m = ret m"
| "read_entries eq key val (Suc c) m =
     bindc key (\<lambda>ohKey. bindc val (\<lambda>ohVal.
       read_entries eq key val c (map_put eq (ref_obj ohKey) (ref_obj ohVal) m)))"

definition la_element ::
  "('u, 'u pof_ref) reading \<Rightarrow> int32_t \<Rightarrow> (int \<times> 'u pof_obj) list \<Rightarrow> ('u, (int \<times> 'u pof_obj) list) reading" where
  "la_element elem iElement la = bindc elem (\<lambda>oh. ret (la_set (sint iElement) (ref_obj oh) la))"

text \<open>\<^verbatim>\<open>resizeArray\<close>: the array that was passed in, when it is long enough.\<close>

definition resize_array :: "'u pof_ref option \<Rightarrow> nat \<Rightarrow> ('u, 'u pof_ref \<times> 'u pof_obj list) reading" where
  "resize_array haOld cNew =
     (let old = (case haOld of
                   None \<Rightarrow> None
                 | Some h \<Rightarrow> (case ref_obj h of OObjectArray xs \<Rightarrow> Some (h, xs) | _ \<Rightarrow> None)) in
      case old of
        Some (h, xs) \<Rightarrow>
          if length xs < cNew
          then mapc (\<lambda>h. (h, replicate cNew ONull)) (new_ref False (OObjectArray (replicate cNew ONull)))
          else ret (h, xs)
      | None \<Rightarrow> mapc (\<lambda>h. (h, replicate cNew ONull)) (new_ref False (OObjectArray (replicate cNew ONull))))"

definition fill_array :: "'u pof_ref \<Rightarrow> 'u pof_obj list \<Rightarrow> 'u pof_ref" where
  "fill_array h xs = PofRef (ref_id h) (ref_view h) (OObjectArray xs)"

section \<open>Objects\<close>

text \<open>
  Everything that reads objects takes \<open>rec\<close>, the recursive \<^verbatim>\<open>readAsObject\<close>, which
  \<open>read_as_object\<close> below closes over the depth of the recursion.
\<close>

definition read_next :: "(int32_t \<Rightarrow> ('u, 'u pof_ref) reading) \<Rightarrow> ('u, 'u pof_ref) reading" where
  "read_next rec = bindc rd_int32 rec"

definition read_as_uniform_object ::
  "'u pof_env \<Rightarrow> (int32_t \<Rightarrow> ('u, 'u pof_ref) reading) \<Rightarrow> int32_t \<Rightarrow> ('u, 'u pof_ref) reading" where
  "read_as_uniform_object env rec nType =
     (if nType <s 0 then rec nType
      else
        bindc (pr_on_in get_offset) (\<lambda>off.
          if off = 0 then rec nType
          else
            bindc rd_int32 (\<lambda>nValue.
              if nValue = t_identity then
                bindc rd_int32 (\<lambda>nId. seqc (holder_set nId)
                  (bindc (rec nType) (\<lambda>oh. seqc (holder_reset nId oh) (ret oh))))
              else
                bindc (pr_get pr_refs) (\<lambda>refs.
                bindc
                  (case (if 0 <s nValue then refs nValue else None) of
                     None \<Rightarrow> ret None
                   | Some oh \<Rightarrow>
                       if ref_obj oh = ONull then ret None
                       else bindc (pr_lift (pe_type_id env (ref_obj oh))) (\<lambda>nTypeId.
                         ret (if nTypeId = nType then Some oh else None)))
                  (\<lambda>shared. case shared of
                     Some oh \<Rightarrow> ret oh
                   | None \<Rightarrow> seqc (pr_on_in (abi_set_offset off)) (rec nType))))))"

definition read_as_object_array ::
  "'u pof_env \<Rightarrow> (int32_t \<Rightarrow> ('u, 'u pof_ref) reading) \<Rightarrow> int32_t \<Rightarrow> 'u pof_ref option \<Rightarrow>
   ('u, 'u pof_ref) reading" where
  "read_as_object_array env rec nType ha =
     (let fill = (\<lambda>elem c. bindc (resize_array ha c) (\<lambda>(h, xs).
            bindc (replicatec c (mapc ref_obj elem)) (\<lambda>ys. ret (fill_array h (ys @ drop c xs)))));
          scatter = (\<lambda>elem c. bindc (resize_array ha c) (\<lambda>(h, xs).
            bindc (sparse_loop rd_int32 (sparse_element pr_lift (mapc ref_obj elem)) c xs)
              (\<lambda>(ys, _). ret (fill_array h ys)))) in
      if nType = v_reference_null then ret null_ref
      else if nType \<in> {v_string_zero_length, v_collection_empty}
      then ret (PofRef HShared False (OObjectArray []))
      else if nType \<in> {t_collection, t_array} then bindc rd_size (fill (read_next rec))
      else if nType \<in> {t_uniform_collection, t_uniform_array} then
        bindc rd_int32 (\<lambda>nElementType. bindc rd_size (fill (read_as_uniform_object env rec nElementType)))
      else if nType = t_sparse_array then bindc rd_size (scatter (read_next rec))
      else if nType = t_uniform_sparse_array then
        bindc rd_int32 (\<lambda>nElementType. bindc rd_size (scatter (read_as_uniform_object env rec nElementType)))
      else throw IOException)"

text \<open>The boxed values of \<^verbatim>\<open>readAsObject\<close>: None for a type that is none of them.\<close>

definition read_boxed :: "int32_t \<Rightarrow> (buffer_input, 'u pof_obj) comp option" where
  "read_boxed nType =
     (if nType = t_int16 then Some (mapc OInteger16 obi_read_int16)
      else if nType = t_int32 \<or> is_tiny_int nType then Some (mapc OInteger32 (read_as_int32 nType))
      else if nType = t_int64 then Some (mapc OInteger64 obi_read_int64)
      else if nType = t_float32 then Some (mapc (\<lambda>fl. OFloat32 (float32_value_of fl)) obi_read_float32)
      else if nType = t_float64 then Some (mapc (\<lambda>dfl. OFloat64 (float64_value_of dfl)) obi_read_float64)
      else if nType = v_fp_pos_infinity then Some (ret (OFloat64 0x7FF0000000000000))
      else if nType = v_fp_neg_infinity then Some (ret (OFloat64 0xFFF0000000000000))
      else if nType = v_fp_nan then Some (ret (OFloat64 0x7FF8000000000000))
      else if nType = t_boolean then Some (mapc OBoolean obi_read_boolean)
      else if nType = t_octet then Some (mapc OOctet obi_read)
      else if nType = t_char then Some (mapc OChar16 obi_read_char16)
      else if nType = v_boolean_false then Some (ret (OBoolean False))
      else if nType = v_boolean_true then Some (ret (OBoolean True))
      else None)"

text \<open>Strings, dates and intervals, which are new objects.\<close>

definition read_simple :: "int32_t \<Rightarrow> (buffer_input, 'u pof_obj) comp option" where
  "read_simple nType =
     (if nType = t_octet_string then Some (mapc OBinary read_slice)
      else if nType = t_char_string then
        Some (mapc (\<lambda>vs. case vs of None \<Rightarrow> ONull | Some vs \<Rightarrow> OString vs) obi_read_string)
      else if nType = t_date then Some (mapc ORawDate read_raw_date)
      else if nType = t_time then Some (mapc ORawTime read_raw_time)
      else if nType = t_datetime then
        Some (bindc read_raw_date (\<lambda>vDate. mapc (ORawDateTime vDate) read_raw_time))
      else if nType = t_year_month_interval then Some read_year_month
      else if nType = t_time_interval then Some read_time_interval
      else if nType = t_day_time_interval then Some read_day_time_interval
      else None)"

definition read_uniform_array ::
  "'u pof_env \<Rightarrow> (int32_t \<Rightarrow> ('u, 'u pof_ref) reading) \<Rightarrow> int32_t \<Rightarrow> nat \<Rightarrow> ('u, 'u pof_obj) reading" where
  "read_uniform_array env rec nElementType c =
     (if nElementType = t_boolean then mapc OBooleanArray (read_counted obi_read_boolean c)
      else if nElementType = t_octet then mapc OOctetArray (pr_on_in (read_octets c))
      else if nElementType = t_char then mapc OChar16Array (read_counted obi_read_char16 c)
      else if nElementType = t_int16 then mapc OInt16Array (read_counted obi_read_int16 c)
      else if nElementType = t_int32 then mapc OInt32Array (read_counted obi_read_int32 c)
      else if nElementType = t_int64 then mapc OInt64Array (read_counted obi_read_int64 c)
      else if nElementType = t_float32 then mapc OFloat32Array (read_counted obi_read_float32 c)
      else if nElementType = t_float64 then mapc OFloat64Array (read_counted obi_read_float64 c)
      else mapc OObjectArray
        (replicatec c (mapc ref_obj (read_as_uniform_object env rec nElementType))))"

definition read_uniform_sparse_array ::
  "'u pof_env \<Rightarrow> (int32_t \<Rightarrow> ('u, 'u pof_ref) reading) \<Rightarrow> int32_t \<Rightarrow> nat \<Rightarrow> ('u, 'u pof_obj) reading" where
  "read_uniform_sparse_array env rec nElementType c =
     (if nElementType = t_boolean then mapc (OBooleanArray \<circ> fst) (read_sparse obi_read_boolean False c)
      else if nElementType = t_octet then mapc (OOctetArray \<circ> fst) (read_sparse obi_read 0 c)
      else if nElementType = t_char then mapc (OChar16Array \<circ> fst) (read_sparse obi_read_char16 0 c)
      else if nElementType = t_int16 then mapc (OInt16Array \<circ> fst) (read_sparse obi_read_int16 0 c)
      else if nElementType = t_int32 then mapc (OInt32Array \<circ> fst) (read_sparse obi_read_int32 0 c)
      else if nElementType = t_int64 then mapc (OInt64Array \<circ> fst) (read_sparse obi_read_int64 0 c)
      else if nElementType = t_float32 then mapc (OFloat32Array \<circ> fst) (read_sparse obi_read_float32 0 c)
      else if nElementType = t_float64 then mapc (OFloat64Array \<circ> fst) (read_sparse obi_read_float64 0 c)
      else mapc (OLongArray \<circ> fst)
        (sparse_loop rd_int32 (la_element (read_as_uniform_object env rec nElementType)) c []))"

definition read_maps ::
  "'u pof_env \<Rightarrow> (int32_t \<Rightarrow> ('u, 'u pof_ref) reading) \<Rightarrow> int32_t \<Rightarrow>
   ('u pof_obj \<times> 'u pof_obj) list \<Rightarrow> ('u, ('u pof_obj \<times> 'u pof_obj) list) reading" where
  "read_maps env rec nType m =
     (let unif = read_as_uniform_object env rec in
      if nType = t_map then
        bindc rd_size (\<lambda>c. read_entries (pe_key_equals env) (read_next rec) (read_next rec) c m)
      else if nType = t_uniform_keys_map then
        bindc rd_int32 (\<lambda>nKeyType.
        bindc rd_size (\<lambda>c. read_entries (pe_key_equals env) (unif nKeyType) (read_next rec) c m))
      else
        bindc rd_int32 (\<lambda>nKeyType. bindc rd_int32 (\<lambda>nValType.
        bindc rd_size (\<lambda>c. read_entries (pe_key_equals env) (unif nKeyType) (unif nValType) c m))))"

definition read_complex ::
  "'u pof_env \<Rightarrow> (int32_t \<Rightarrow> ('u, 'u pof_ref) reading) \<Rightarrow> int32_t \<Rightarrow> ('u, 'u pof_ref) reading" where
  "read_complex env rec nType =
     (if nType \<in> {t_collection, t_uniform_collection} then
        bindc (read_as_object_array env rec nType None) (\<lambda>ha.
          case ref_obj ha of OObjectArray xs \<Rightarrow> new_ref False (OCollection xs) | _ \<Rightarrow> throw NullPointerException)
      else if nType = t_array then read_as_object_array env rec nType None
      else if nType = t_uniform_array then
        bindc rd_int32 (\<lambda>nElementType. bindc rd_size (\<lambda>c.
          bindc (read_uniform_array env rec nElementType c) (new_ref False)))
      else if nType = t_sparse_array then
        bindc rd_size (\<lambda>c. bindc (sparse_loop rd_int32 (la_element (read_next rec)) c [])
          (\<lambda>(la, _). new_ref True (OLongArray la)))
      else if nType = t_uniform_sparse_array then
        bindc rd_int32 (\<lambda>nElementType. bindc rd_size (\<lambda>c.
          bindc (read_uniform_sparse_array env rec nElementType c) (new_ref False)))
      else bindc (read_maps env rec nType []) (\<lambda>m. new_ref True (OMap m)))"

fun read_as_object :: "'u pof_env \<Rightarrow> nat \<Rightarrow> int32_t \<Rightarrow> ('u, 'u pof_ref) reading" where
  "read_as_object env 0 nType = throw StackOverflow"
| "read_as_object env (Suc d) nType =
     (let rec = read_as_object env d in
      case read_boxed nType of
        Some m \<Rightarrow> bindc (pr_on_in m) box
      | None \<Rightarrow>
          (case read_simple nType of
             Some m \<Rightarrow> bindc (pr_on_in m) (\<lambda>v. case v of ONull \<Rightarrow> ret null_ref | _ \<Rightarrow> new_ref True v)
           | None \<Rightarrow>
               if t_uniform_map \<le>s nType \<and> nType \<le>s t_collection then read_complex env rec nType
               else if nType = t_identity then
                 bindc rd_int32 (\<lambda>nId. bindc rd_int32 (\<lambda>nType. seqc (holder_set nId)
                   (bindc (rec nType) (\<lambda>oh. seqc (holder_reset nId oh) (ret oh)))))
               else if nType = t_reference then bindc rd_int32 lookup_identity
               else if nType = v_string_zero_length then ret (PofRef HShared True (OString []))
               else if nType = v_collection_empty then ret (PofRef HShared True (OCollection []))
               else if nType = v_reference_null then ret null_ref
               else if nType <s 0 then throw IOException
               else bindc (pr_lift (pe_serializer env nType)) (\<lambda>deserialize.
                 bindc rd_int32 deserialize)))"

text \<open>\<^verbatim>\<open>readObject\<close>: as \<open>read_shared\<close>, but with the identity held by \<^verbatim>\<open>IdentityHolder\<close>.\<close>

fun read_object_at :: "'u pof_env \<Rightarrow> nat \<Rightarrow> nat \<Rightarrow> int32_t \<Rightarrow> ('u, 'u pof_ref) reading" where
  "read_object_at env depth 0 iProp = throw StackOverflow"
| "read_object_at env depth (Suc d) iProp =
     seqc (advance_to iProp) (bindc rd_int32 (\<lambda>nType.
       if nType = t_identity then
         bindc rd_int32 (\<lambda>nId. seqc (holder_set nId) (bindc (read_object_at env depth d iProp) (\<lambda>oh.
           seqc (holder_reset nId oh) (ret oh))))
       else if nType = t_reference then bindc rd_int32 lookup_identity
       else if nType = v_reference_null then ret null_ref
       else read_as_object env depth nType))"

definition read_object :: "'u pof_env \<Rightarrow> int32_t \<Rightarrow> ('u, 'u pof_ref) reading" where
  "read_object env iProp r = read_object_at env (read_depth r) (read_depth r) iProp r"


section \<open>Containers as properties\<close>

definition is_object_array :: "'u pof_obj \<Rightarrow> bool" where
  "is_object_array v = (case v of OObjectArray a \<Rightarrow> True | _ \<Rightarrow> False)"

definition is_collection :: "'u pof_obj \<Rightarrow> bool" where
  "is_collection v = (case v of OCollection a \<Rightarrow> True | _ \<Rightarrow> False)"

definition is_long_array :: "'u pof_obj \<Rightarrow> bool" where
  "is_long_array v = (case v of OLongArray a \<Rightarrow> True | _ \<Rightarrow> False)"

definition is_map :: "'u pof_obj \<Rightarrow> bool" where
  "is_map v = (case v of OMap a \<Rightarrow> True | _ \<Rightarrow> False)"

definition read_object_array :: "'u pof_env \<Rightarrow> int32_t \<Rightarrow> 'u pof_ref option \<Rightarrow> ('u, 'u pof_ref) reading" where
  "read_object_array env iProp ha r =
     read_property
       (\<lambda>oh. case ref_obj oh of
          OCollection xs \<Rightarrow> new_ref False (OObjectArray xs)
        | OLongArray la \<Rightarrow>
            if la_first_index la < 0 \<or> int npos < la_last_index la + 1
            then throw IndexOutOfBoundsException
            else bindc (resize_array ha (nat (la_last_index la + 1))) (\<lambda>(h, xs).
              ret (fill_array h (foldl (\<lambda>xs (i, v). xs[nat i := v]) xs la)))
        | _ \<Rightarrow> cast_handle is_object_array oh)
       (\<lambda>nType. read_as_object_array env (read_as_object env (read_depth r)) nType ha)
       iProp r"

text \<open>
  The methods that fill a container of the caller.  They return the caller's container as
  they leave it (None when none was passed) and the result, which is another object when
  the property is a reference.  Under an identity the result of the nested call is ignored:
  the container it was passed is registered and returned.
\<close>

definition ref_with :: "'u pof_ref \<Rightarrow> 'u pof_obj \<Rightarrow> 'u pof_ref" where
  "ref_with h v = PofRef (ref_id h) (ref_view h) v"

definition container_or ::
  "'u pof_obj \<Rightarrow> 'u pof_ref option \<Rightarrow> ('u, 'u pof_ref) reading" where
  "container_or vEmpty h = (case h of None \<Rightarrow> new_ref False vEmpty | Some h \<Rightarrow> ret h)"

definition container_result ::
  "'u pof_ref option \<Rightarrow> 'u pof_ref \<Rightarrow> 'u pof_ref option \<times> 'u pof_ref" where
  "container_result h res = (map_option (\<lambda>_. res) h, res)"

fun read_into ::
  "nat \<Rightarrow> 'u pof_obj \<Rightarrow> ('u pof_ref \<Rightarrow> ('u, 'u pof_ref) reading) \<Rightarrow>
   ('u pof_ref option \<Rightarrow> 'u pof_ref \<Rightarrow> ('u, 'u pof_ref option \<times> 'u pof_ref) reading) \<Rightarrow>
   (int32_t \<Rightarrow> 'u pof_ref option \<Rightarrow> ('u, 'u pof_ref option \<times> 'u pof_ref) reading) \<Rightarrow>
   int32_t \<Rightarrow> 'u pof_ref option \<Rightarrow> ('u, 'u pof_ref option \<times> 'u pof_ref) reading" where
  "read_into 0 vEmpty wrap refer body iProp h = throw StackOverflow"
| "read_into (Suc d) vEmpty wrap refer body iProp h =
     seqc (advance_to iProp) (bindc rd_int32 (\<lambda>nType.
       if nType = t_identity then
         bindc (container_or vEmpty h) (\<lambda>h1. bindc rd_int32 (\<lambda>nId.
         bindc (read_into d vEmpty wrap refer body iProp (Some h1)) (\<lambda>(after, _).
         let h2 = (case after of Some h2 \<Rightarrow> h2 | None \<Rightarrow> h1) in
         bindc (if h = None then wrap h2 else ret h2) (\<lambda>h3.
           seqc (reader_register_identity nId h3) (ret (container_result h h3))))))
       else if nType = t_reference then bindc (bindc rd_int32 lookup_identity) (refer h)
       else if nType \<in> {v_reference_null, v_string_zero_length, v_collection_empty}
       then ret (h, case h of None \<Rightarrow> null_ref | Some h \<Rightarrow> h)
       else body nType h))"

definition entries_of :: "'u pof_ref \<Rightarrow> (int \<times> 'u pof_obj) list" where
  "entries_of h = (case ref_obj h of OLongArray la \<Rightarrow> la | _ \<Rightarrow> [])"

definition elements_of :: "'u pof_ref \<Rightarrow> 'u pof_obj list" where
  "elements_of h = (case ref_obj h of OCollection xs \<Rightarrow> xs | _ \<Rightarrow> [])"

definition mappings_of :: "'u pof_ref \<Rightarrow> ('u pof_obj \<times> 'u pof_obj) list" where
  "mappings_of h = (case ref_obj h of OMap m \<Rightarrow> m | _ \<Rightarrow> [])"

text \<open>\<^verbatim>\<open>hla->set(i, ...)\<close> for \<^verbatim>\<open>i\<close> from 0, and \<^verbatim>\<open>hla->set(++i, ...)\<close> from 1.\<close>

definition la_set_all :: "int \<Rightarrow> 'a list \<Rightarrow> (int \<times> 'a) list \<Rightarrow> (int \<times> 'a) list" where
  "la_set_all i xs la = foldl (\<lambda>la (k, x). la_set (i + int k) x la) la (enumerate 0 xs)"

definition read_long_array ::
  "'u pof_env \<Rightarrow> int32_t \<Rightarrow> 'u pof_ref option \<Rightarrow> ('u, 'u pof_ref option \<times> 'u pof_ref) reading" where
  "read_long_array env iProp hla r =
     (let rec = read_as_object env (read_depth r);
          counted = (\<lambda>elem h. bindc (container_or (OLongArray []) h) (\<lambda>h1. bindc rd_size (\<lambda>co.
            bindc (replicatec co (mapc ref_obj elem)) (\<lambda>xs.
              ret (container_result h (ref_with h1 (OLongArray (la_set_all 0 xs (entries_of h1)))))))));
          scattered = (\<lambda>elem h. bindc (container_or (OLongArray []) h) (\<lambda>h1. bindc rd_size (\<lambda>co.
            bindc (sparse_loop rd_int32 (la_element elem) co (entries_of h1)) (\<lambda>(la, _).
              ret (container_result h (ref_with h1 (OLongArray la))))))) in
      read_into (read_depth r) (OLongArray []) ret
        (\<lambda>h oh. case ref_obj oh of
           OCollection xs \<Rightarrow>
             bindc (container_or (OLongArray []) h) (\<lambda>h1.
               ret (container_result h (ref_with h1 (OLongArray (la_set_all 1 xs (entries_of h1))))))
         | _ \<Rightarrow> mapc (\<lambda>res. (h, res)) (cast_handle is_long_array oh))
        (\<lambda>nType h.
          if nType \<in> {t_collection, t_array} then counted (read_next rec) h
          else if nType \<in> {t_uniform_collection, t_uniform_array} then
            bindc rd_int32 (\<lambda>nElementType. counted (read_as_uniform_object env rec nElementType) h)
          else if nType = t_sparse_array then scattered (read_next rec) h
          else if nType = t_uniform_sparse_array then
            bindc rd_int32 (\<lambda>nElementType. scattered (read_as_uniform_object env rec nElementType) h)
          else throw IOException)
        iProp hla r)"

text \<open>A collection given by the caller is a list: \<^verbatim>\<open>add\<close> and \<^verbatim>\<open>addAll\<close> append.\<close>

definition read_collection ::
  "'u pof_env \<Rightarrow> int32_t \<Rightarrow> 'u pof_ref option \<Rightarrow> ('u, 'u pof_ref option \<times> 'u pof_ref) reading" where
  "read_collection env iProp hCol r =
     (let rec = read_as_object env (read_depth r);
          add = (\<lambda>h h1 xs. ret (container_result h (ref_with h1 (OCollection (elements_of h1 @ xs)))));
          counted = (\<lambda>elem h1. bindc rd_size (\<lambda>c. bindc (replicatec c (mapc ref_obj elem)) (add (Some h1) h1)));
          scattered = (\<lambda>elem h. bindc rd_size (\<lambda>c. bindc (container_or (OCollection []) h) (\<lambda>h1.
            bindc (sparse_loop rd_int32 (\<lambda>_ xs. bindc elem (\<lambda>oh. ret (xs @ [ref_obj oh]))) c [])
              (\<lambda>(xs, _). add h h1 xs)))) in
      read_into (read_depth r) (OCollection []) (\<lambda>h. new_ref False (ref_obj h))
        (\<lambda>h oh. case ref_obj oh of
           OObjectArray xs \<Rightarrow>
             (case h of
                None \<Rightarrow> mapc (\<lambda>res. (None, res)) (new_ref False (OCollection xs))
              | Some h1 \<Rightarrow> add h h1 xs)
         | _ \<Rightarrow> mapc (\<lambda>res. (h, res)) (cast_handle is_collection oh))
        (\<lambda>nType h.
          if nType \<in> {t_collection, t_array, t_uniform_collection, t_uniform_array} then
            (case h of
               None \<Rightarrow>
                 bindc (read_as_object_array env rec nType None) (\<lambda>ha.
                   case ref_obj ha of
                     OObjectArray xs \<Rightarrow> mapc (\<lambda>res. (None, res)) (new_ref False (OCollection xs))
                   | _ \<Rightarrow> throw NullPointerException)
             | Some h1 \<Rightarrow>
                 if nType \<in> {t_collection, t_array} then counted (read_next rec) h1
                 else bindc rd_int32 (\<lambda>nElementType.
                   counted (read_as_uniform_object env rec nElementType) h1))
          else if nType = t_sparse_array then scattered (read_next rec) h
          else if nType = t_uniform_sparse_array then
            bindc rd_int32 (\<lambda>nElementType. scattered (read_as_uniform_object env rec nElementType) h)
          else throw IOException)
        iProp hCol r)"

definition read_map ::
  "'u pof_env \<Rightarrow> int32_t \<Rightarrow> 'u pof_ref option \<Rightarrow> ('u, 'u pof_ref option \<times> 'u pof_ref) reading" where
  "read_map env iProp hMap r =
     (let rec = read_as_object env (read_depth r) in
      read_into (read_depth r) (OMap []) ret
        (\<lambda>h oh. mapc (\<lambda>res. (h, res)) (cast_handle is_map oh))
        (\<lambda>nType h.
          if nType \<in> {t_map, t_uniform_keys_map, t_uniform_map} then
            bindc (container_or (OMap []) h) (\<lambda>h1.
            bindc (read_maps env rec nType (mappings_of h1)) (\<lambda>m.
              ret (container_result h (ref_with h1 (OMap m)))))
          else throw IOException)
        iProp hMap r)"

end
