(* ===== verification/Pof_Roundtrip.thy ===== *)
theory Pof_Roundtrip
  imports Pof_Reader
begin

text \<open>
  What \<^verbatim>\<open>PofBufferWriter\<close> writes, \<^verbatim>\<open>PofBufferReader\<close> reads back: the numbers in their
  full and compact forms, the strings, dates and arrays, and by induction every object that
  needs no serializer of the application.
\<close>

text \<open>
  The readers considered have a well-formed input; \<open>K\<close> is any condition on the registry and
  the pending identity, which reading must therefore leave alone.
\<close>

abbreviation settled ::
  "((int32_t \<rightharpoonup> 'u pof_ref) \<Rightarrow> int32_t option \<Rightarrow> bool) \<Rightarrow> 'u pof_reader \<Rightarrow> bool" where
  "settled K r \<equiv> bi_ok (pr_in r) \<and> K (pr_refs r) (pr_pending r)"

abbreviation preads ::
  "((int32_t \<rightharpoonup> 'u pof_ref) \<Rightarrow> int32_t option \<Rightarrow> bool) \<Rightarrow> ('u, 'a) reading \<Rightarrow> octet_t list \<Rightarrow> 'a \<Rightarrow> bool" where
  "preads K \<equiv> parses (settled K) (\<lambda>r. bi_rem (pr_in r))"

abbreviation preads_obj ::
  "((int32_t \<rightharpoonup> 'u pof_ref) \<Rightarrow> int32_t option \<Rightarrow> bool) \<Rightarrow> ('u, 'u pof_ref) reading \<Rightarrow> octet_t list \<Rightarrow> 'u pof_obj \<Rightarrow> bool" where
  "preads_obj K m \<equiv> preads K (mapc ref_obj m)"

section \<open>Composition\<close>

lemma preads_on_in:
  assumes "reads m bs v"
  shows "preads K (pr_on_in m :: ('u, 'a) reading) bs v"
proof (rule parsesI)
  fix s :: "'u pof_reader" and rest
  assume s: "settled K s" "bi_rem (pr_in s) = bs @ rest"
  then have "bi_ok (pr_in s)" by simp
  from parsesE [OF assms this s(2)] obtain t where "m (pr_in s) = (Inr v, t)" "bi_ok t" "bi_rem t = rest" .
  with s(1) show "\<exists>t. pr_on_in m s = (Inr v, t) \<and> settled K t \<and> bi_rem (pr_in t) = rest"
    by (simp add: pr_on_in_def)
qed

lemma preads_rd_int32: "preads K rd_int32 (pack_int n) n"
  unfolding rd_int32_def by (rule preads_on_in) (rule reads_obi_ints)

lemma reads_bi_lift: "r = Inr v \<Longrightarrow> reads (bi_lift r) [] v"
  by (rule parsesI) (simp add: bi_lift_def)

lemma reads_incoming: "c < 2 ^ 31 \<Longrightarrow> reads (bi_incoming obi_read_int32) (pack_int (of_nat c :: int32_t)) c"
  unfolding bi_incoming_def by (rule parses_bindc_ret [OF reads_obi_ints(2)]) (rule reads_bi_lift, simp)

lemma preads_rd_size: "c < 2 ^ 31 \<Longrightarrow> preads K rd_size (pack_int (of_nat c :: int32_t)) c"
  unfolding rd_size_def by (rule preads_on_in) (rule reads_incoming)

lemma preads_new_ref [intro]: "preads_obj K (new_ref f v) [] v"
  by (rule parsesI) (simp add: mapc_def bindc_def new_ref_def)

lemma preads_box [intro]: "preads_obj K (box v) [] v"
  by (cases "is_flyweight v") (auto simp: box_def mapc_def preads_new_ref [unfolded mapc_def])

lemma mapc_bindc: "mapc f (bindc m g) = bindc m (\<lambda>a. mapc f (g a))"
  by (simp add: mapc_def bindc_assoc)

lemma mapc_seqc: "mapc f (seqc m g) = seqc m (mapc f g)"
  by (simp add: seqc_def mapc_bindc)

lemma mapc_ret [simp]: "mapc f (ret v) = ret (f v)"
  by (simp add: mapc_def)

lemma mapc_mapc: "mapc f (mapc g m) = mapc (\<lambda>x. f (g x)) m"
  by (simp add: mapc_def bindc_assoc)

text \<open>A reading whose depth is that of its state, when one depth is enough for its octets.\<close>

lemma parses_state:
  assumes "\<And>s rest. good s \<Longrightarrow> rem s = bs @ rest \<Longrightarrow> parses good rem (m s) bs v"
  shows "parses good rem (\<lambda>s. m s s) bs v"
  using assms by (auto simp: parses_def)

section \<open>Numbers\<close>

lemma read_number_plain:
  assumes "\<not> 0 <s iProp" and "t \<noteq> t_identity" and "t \<noteq> t_reference"
    and "if t = v_reference_null \<or> t = v_int_0 then bs = [] \<and> n = zero else reads (readAs t) bs n"
  shows "preads K (\<lambda>r. read_number (read_depth (r :: 'u pof_reader)) zero boxed get readAs iProp r) (pack_int t @ bs) n"
proof (rule parses_state [where m = "\<lambda>s. read_number (read_depth s) zero boxed get readAs iProp"])
  fix s :: "'u pof_reader" and rest
  have "preads K (if t = v_reference_null \<or> t = v_int_0 then ret zero else pr_on_in (readAs t)) bs n"
    using assms(4) by (auto intro: preads_on_in split: if_splits)
  with assms(1-3) show "preads K (read_number (read_depth s) zero boxed get readAs iProp) (pack_int t @ bs) n"
    by (simp add: read_depth_def advance_to_def) (rule parses_bindc [OF preads_rd_int32], simp split: if_splits)
qed

text \<open>The lenient readers on the type of the value and on its compact forms.\<close>

lemma tiny_types:
  assumes "- 1 \<le>s n" and "n \<le>s 22"
  shows "decode_tiny_int32 (v_int_0 - n) = Inr n" and "is_tiny_int (v_int_0 - n)"
proof -
  have "sint (v_int_0 - n) = - 42 - sint n"
  proof -
    have b: "- 1 \<le> sint n" "sint n \<le> 22" using assms by (simp_all add: word_sle_eq)
    then have "signed_take_bit 31 (- 42 - sint n) = - 42 - sint n"
      by (intro signed_take_bit_int_eq_self) simp_all
    moreover have "sint (of_int (- 42 - sint n) :: int32_t) = signed_take_bit 31 (- 42 - sint n)"
      by (simp only: signed_of_int) simp
    ultimately show ?thesis by simp
  qed
  then show "decode_tiny_int32 (v_int_0 - n) = Inr n" "is_tiny_int (v_int_0 - n)"
    using assms by (auto simp: decode_tiny_int32_def is_tiny_int_def word_sle_eq)
qed


lemma read_as_int32_plain:
  "read_as_int32 t_int16 = obi_read_int32" "read_as_int32 t_int32 = obi_read_int32"
  "read_as_int32 t_int64 = obi_read_int32" "read_as_int32 t_boolean = obi_read_int32"
  "read_as_int32 t_octet = mapc ucast obi_read" "read_as_int32 t_char = mapc ucast obi_read_char16"
  "read_as_int32 v_boolean_true = ret 1" "read_as_int32 v_boolean_false = ret 0"
  by (simp_all add: read_as_int32_def)

lemma read_as_int32_tiny:
  assumes "- 1 \<le>s n" and "n \<le>s 22"
  shows "reads (read_as_int32 (v_int_0 - n)) [] n"
proof -
  have eq: "v_int_0 - n = t \<longleftrightarrow> n = v_int_0 - t" for t :: int32_t by auto
  have "v_int_0 - n \<notin> {t_boolean, t_int16, t_int32, t_int64, t_int128, t_float32, t_float64, t_octet, t_char,
      v_reference_null, v_boolean_false, v_boolean_true}"
    using assms by (auto simp: eq word_sle_eq)
  moreover have "v_int_0 - n = v_int_0 \<longleftrightarrow> n = 0" "v_int_0 - n = v_int_1 \<longleftrightarrow> n = 1" by (simp_all add: eq)
  ultimately have "read_as_int32 (v_int_0 - n) =
      (if n = 0 then ret 0 else if n = 1 then ret 1 else bi_lift (decode_tiny_int32 (v_int_0 - n)))"
    unfolding read_as_int32_def using tiny_types(2) [OF assms] by simp
  then show ?thesis using tiny_types(1) [OF assms] by (auto intro: reads_bi_lift)
qed


lemma tiny_type_other:
  assumes "- 1 \<le>s n" and "n \<le>s (22 :: int32_t)"
  shows "v_int_0 - n \<notin> {t_identity, t_reference, v_reference_null, t_int64, t_float32, t_float64, t_int128,
    v_fp_neg_infinity, v_fp_pos_infinity, v_fp_nan, t_octet, t_char}"
proof -
  have eq: "v_int_0 - n = t \<longleftrightarrow> n = v_int_0 - t" for t :: int32_t by auto
  show ?thesis using assms by (auto simp: eq word_sle_eq)
qed

text \<open>A compact integer type is read as that integer by every method that reads numbers.\<close>

lemma read_number_tiny:
  assumes "\<not> 0 <s iProp" and tiny: "- 1 \<le>s n" "n \<le>s 22"
    and "n = 0 \<Longrightarrow> m = zero" and "n \<noteq> 0 \<Longrightarrow> reads (readAs (v_int_0 - n)) [] m"
  shows "preads K (\<lambda>r. read_number (read_depth r) zero boxed get readAs iProp r) (pack_int (v_int_0 - n)) m"
  using read_number_plain [of iProp "v_int_0 - n" "[]" m zero readAs K boxed get] assms
    tiny_type_other [OF tiny] by (cases "n = 0") simp_all

lemma preads_read_int32_tiny:
  "\<not> 0 <s i \<Longrightarrow> - 1 \<le>s n \<Longrightarrow> n \<le>s 22 \<Longrightarrow> preads K (read_int32 i) (pack_int (v_int_0 - n)) n"
  unfolding read_int32_def [abs_def] by (intro read_number_tiny) (auto intro: read_as_int32_tiny)

lemma preads_read_int32_plain:
  "\<not> 0 <s i \<Longrightarrow> t \<noteq> t_identity \<Longrightarrow> t \<noteq> t_reference \<Longrightarrow> t \<noteq> v_reference_null \<Longrightarrow> t \<noteq> v_int_0 \<Longrightarrow>
   reads (read_as_int32 t) bs n \<Longrightarrow> preads K (read_int32 i) (pack_int t @ bs) n"
  unfolding read_int32_def [abs_def] by (intro read_number_plain) auto

lemma preads_read_int32_full:
  assumes "\<not> 0 <s i"
  shows "preads K (read_int32 i) (pack_int t_int32 @ pack_int n) n"
    and "preads K (read_int32 i) (pack_int t_int16 @ pack_int n16) (scast (n16 :: int16_t))"
    and "preads K (read_int32 i) (pack_int t_boolean @ bool_octets b) (if b then 1 else 0)"
    and "preads K (read_int32 i) (pack_int t_octet @ [oc]) (ucast oc)"
    and "preads K (read_int32 i) (pack_int t_char @ encode_char16 ch) (ucast ch)"
    and "preads K (read_int32 i) (pack_int v_boolean_true) 1"
    and "preads K (read_int32 i) (pack_int v_boolean_false) 0"
  using assms preads_read_int32_plain [of i v_boolean_true "[]" 1] preads_read_int32_plain [of i v_boolean_false "[]" 0]
    reads_obi_ints(2) [of "scast n16"]
  by (auto simp: read_as_int32_plain bool_octets_def pack_int_scast
      intro!: preads_read_int32_plain reads_obi_ints parses_mapc reads_obi_read reads_obi_read_char16)


section \<open>The methods that read numbers\<close>

lemma tiny_less:
  assumes "- 1 \<le>s n" and "n \<le>s 22" and "6 < LENGTH('w)" and "sint (22 :: 'w word) = 22"
  shows "- 1 \<le>s (scast (n :: 'w::len word) :: int32_t)" and "(scast n :: int32_t) \<le>s 22"
    and "scast (scast n :: int32_t) = n"
proof -
  note sint_scast_tiny [OF assms(1-3)]
  then show "- 1 \<le>s (scast n :: int32_t)" "(scast n :: int32_t) \<le>s 22"
    using assms(1,2,4) by (simp_all add: word_sle_eq)
  from \<open>sint (scast n) = sint n\<close> show "scast (scast n :: int32_t) = n"
    by (subst scast_eq) simp
qed

lemma tiny_ucast:
  assumes "unat (b :: 'w::len word) \<le> 22"
  shows "- 1 \<le>s (ucast b :: int32_t)" and "(ucast b :: int32_t) \<le>s 22"
  using encode_tiny_int32_ucast [OF assms] by (auto simp: encode_tiny_int32_def split: if_splits)

lemma ucast_scast_narrow: "LENGTH('a) \<le> LENGTH('b) \<Longrightarrow> (ucast (scast (n :: 'a::len word) :: 'b::len word) :: 'a word) = n"
  by (rule bit_eqI) (auto simp: bit_unsigned_iff bit_signed_iff dest: bit_imp_le_length)

lemma ucast_ucast_narrow: "LENGTH('a) \<le> LENGTH('b) \<Longrightarrow> (ucast (ucast (n :: 'a::len word) :: 'b::len word) :: 'a word) = n"
  by (rule bit_eqI) (auto simp: bit_unsigned_iff dest: bit_imp_le_length)

lemma preads_read_int64_full:
  assumes "\<not> 0 <s i"
  shows "preads K (read_int64 i) (pack_int t_int64 @ pack_int n) n"
  unfolding read_int64_def [abs_def] using assms
  by (intro read_number_plain) (auto simp: read_as_int64_def intro: reads_obi_ints)

lemma preads_read_int64_tiny:
  assumes "\<not> 0 <s i" and tiny: "- 1 \<le>s n" "n \<le>s 22"
  shows "preads K (read_int64 i) (pack_int (v_int_0 - n)) (scast n)"
  unfolding read_int64_def [abs_def] using assms tiny_type_other [OF tiny]
  by (intro read_number_tiny) (auto simp: read_as_int64_def intro!: parses_mapc read_as_int32_tiny)

lemma preads_int_types:
  assumes "\<not> 0 <s i"
  shows "preads K (read_int16 i) (typed_int16 fC n16) n16"
    and "preads K (read_int32 i) (typed_int32 fC n32) n32"
    and "preads K (read_int64 i) (typed_int64 fC n64) n64"
  using assms tiny_less [of n16] tiny_less [of n64] preads_read_int64_tiny [OF assms, of "scast n64"]
  by (auto simp: typed_int16_def typed_int32_def typed_int64_def read_int16_def ucast_scast_narrow
      intro!: parses_mapc [OF preads_read_int32_tiny] parses_mapc [OF preads_read_int32_full(2)]
        preads_read_int32_tiny preads_read_int32_full preads_read_int64_full)

lemma ucast_minus_1: "(ucast (- 1 :: int32_t) :: octet_t) = 0xFF" "(ucast (- 1 :: int32_t) :: wchar16_t) = 0xFFFF"
  by code_simp+

lemma preads_small_types:
  assumes "\<not> 0 <s i"
  shows "preads K (read_boolean i) (typed_boolean fC b) b"
    and "preads K (read_octet i) (typed_octet fC oc) oc"
    and "preads K (read_char16 i) (typed_char fC ch) ch"
proof -
  have neg1: "preads K (read_int32 i) (pack_int v_int_neg_1) (- 1)"
    using preads_read_int32_tiny [of i "- 1"] assms by (simp add: word_sle_eq)
  show "preads K (read_boolean i) (typed_boolean fC b) b"
    by (auto simp: typed_boolean_def read_boolean_def
        intro!: parses_mapc [OF preads_read_int32_full(3)] parses_mapc [OF preads_read_int32_full(6)]
          parses_mapc [OF preads_read_int32_full(7)] assms)
  show "preads K (read_octet i) (typed_octet fC oc) oc"
    unfolding typed_octet_def read_octet_def
    by (auto simp: ucast_minus_1 ucast_ucast_narrow octet_le22 tiny_ucast
        intro!: parses_mapc [OF preads_read_int32_tiny] parses_mapc [OF preads_read_int32_full(4)]
          parses_mapc [OF neg1] assms)
  show "preads K (read_char16 i) (typed_char fC ch) ch"
    unfolding typed_char_def read_char16_def
    by (auto simp: ucast_minus_1 ucast_ucast_narrow char_le22 tiny_ucast
        intro!: parses_mapc [OF preads_read_int32_tiny] parses_mapc [OF preads_read_int32_full(5)]
          parses_mapc [OF neg1] assms)
qed


lemma int_to_float_0: "int_to_float32 (0 :: int32_t) = 0" "int_to_float64 (0 :: int32_t) = 0"
  by (simp_all add: fp_out_eval)

lemma reads_float_tiny:
  assumes tiny: "- 1 \<le>s n" "n \<le>s 22"
  shows "reads (read_as_float32 (v_int_0 - n)) [] (int_to_float32 n)"
    and "reads (read_as_float64 (v_int_0 - n)) [] (int_to_float64 n)"
  using tiny_type_other [OF tiny]
  by (auto simp: read_as_float32_def read_as_float64_def intro!: parses_mapc read_as_int32_tiny tiny)

lemma preads_float_plain:
  assumes "\<not> 0 <s i" and "t \<notin> {t_identity, t_reference, v_reference_null, v_int_0}"
  shows "reads (read_as_float32 t) bs fl \<Longrightarrow> preads K (read_float32 i) (pack_int t @ bs) fl"
    and "reads (read_as_float64 t) bs dfl \<Longrightarrow> preads K (read_float64 i) (pack_int t @ bs) dfl"
  unfolding read_float32_def [abs_def] read_float64_def [abs_def]
  using assms by (intro read_number_plain; simp)+

lemma preads_float_const:
  assumes "\<not> 0 <s i" and "t \<notin> {t_identity, t_reference, v_reference_null, v_int_0}"
  shows "read_as_float32 t = ret fl \<Longrightarrow> preads K (read_float32 i) (pack_int t) fl"
    and "read_as_float64 t = ret dfl \<Longrightarrow> preads K (read_float64 i) (pack_int t) dfl"
  using preads_float_plain(1) [OF assms, of "[]" fl] preads_float_plain(2) [OF assms, of "[]" dfl]
    parses_ret [of _ _ fl] parses_ret [of _ _ dfl] by auto

lemma preads_float_special:
  assumes "\<not> 0 <s i"
  shows "preads K (read_float32 i) (pack_int v_fp_neg_infinity) 0xFF800000"
    and "preads K (read_float32 i) (pack_int v_fp_pos_infinity) 0x7F800000"
    and "preads K (read_float32 i) (pack_int v_fp_nan) 0x7FC00000"
    and "preads K (read_float64 i) (pack_int v_fp_neg_infinity) 0xFFF0000000000000"
    and "preads K (read_float64 i) (pack_int v_fp_pos_infinity) 0x7FF0000000000000"
    and "preads K (read_float64 i) (pack_int v_fp_nan) 0x7FF8000000000000"
  by (rule preads_float_const [OF assms]; simp add: read_as_float32_def read_as_float64_def)+

lemma preads_float_tiny:
  assumes "\<not> 0 <s i" and tiny: "- 1 \<le>s n" "n \<le>s 22"
  shows "preads K (read_float32 i) (pack_int (v_int_0 - n)) (int_to_float32 n)"
    and "preads K (read_float64 i) (pack_int (v_int_0 - n)) (int_to_float64 n)"
  unfolding read_float32_def [abs_def] read_float64_def [abs_def]
  by (rule read_number_tiny [OF assms]; simp add: int_to_float_0 reads_float_tiny [OF tiny])+

lemma preads_typed_float32:
  assumes i: "\<not> 0 <s i"
  shows "preads K (read_float32 i) (typed_float32 fC fl) fl"
proof (cases "if fC then compact_float32 fl else None")
  case None
  have "preads K (read_float32 i) (pack_int t_float32 @ split4 fl) fl"
    by (rule preads_float_plain [OF i]) (auto simp: read_as_float32_def intro: reads_obi_floats)
  with None show ?thesis by (simp add: typed_float32_def)
next
  case (Some t)
  let ?hi = "drop_bit 16 fl"
  have compact: "compact_float32 fl = Some t" and low: "fl AND 0x0000FFFF = 0"
    using Some by (auto simp: compact_float32_def split: if_splits)
  from high_half32 [OF low] have fl: "push_bit 16 ?hi = fl" .
  have "preads K (read_float32 i) (pack_int t) fl"
  proof (cases "?hi \<in> {0xFF80, 0x7F80, 0x7FC0}")
    case True
    with fl have "fl = 0xFF800000 \<and> ?hi = 0xFF80 \<or> fl = 0x7F800000 \<and> ?hi = 0x7F80 \<or> fl = 0x7FC00000 \<and> ?hi = 0x7FC0"
      by (elim insertE emptyE) (force simp: push_bit_numeral)+
    with compact low preads_float_special(1-3) [OF i] show ?thesis by (auto simp: compact_float32_def)
  next
    case False
    with compact low have hi: "?hi \<in> set tiny_float32"
      and t: "t = v_int_0 - (case fp_to_int (fp_of_bits32 fl) of Inr n \<Rightarrow> n | Inl _ \<Rightarrow> 0)"
      by (auto simp: compact_float32_def Let_def split: if_splits)
    from tiny_float32E [OF hi] obtain n where n: "n \<in> set tiny_ints"
      "fp_to_int (fp_of_bits32 fl) = Inr n" "int_to_float32 n = fl"
      unfolding fl .
    with preads_float_tiny(1) [OF i, of n] tiny_ints_range [OF n(1)] t show ?thesis by simp
  qed
  with Some show ?thesis by (simp add: typed_float32_def)
qed

lemma preads_typed_float64:
  assumes i: "\<not> 0 <s i"
  shows "preads K (read_float64 i) (typed_float64 fC dfl) dfl"
proof (cases "if fC then compact_float64 dfl else None")
  case None
  have "preads K (read_float64 i) (pack_int t_float64 @ split8 dfl) dfl"
    by (rule preads_float_plain [OF i]) (auto simp: read_as_float64_def intro: reads_obi_floats)
  with None show ?thesis by (simp add: typed_float64_def)
next
  case (Some t)
  let ?hi = "drop_bit 48 dfl"
  have compact: "compact_float64 dfl = Some t" and low: "dfl AND 0x0000FFFFFFFFFFFF = 0"
    using Some by (auto simp: compact_float64_def split: if_splits)
  from high_part64 [OF low] have dfl: "push_bit 48 ?hi = dfl" .
  have "preads K (read_float64 i) (pack_int t) dfl"
  proof (cases "?hi \<in> {0xFFF0, 0x7FF0, 0x7FF8}")
    case True
    with dfl have "dfl = 0xFFF0000000000000 \<and> ?hi = 0xFFF0 \<or> dfl = 0x7FF0000000000000 \<and> ?hi = 0x7FF0 \<or>
        dfl = 0x7FF8000000000000 \<and> ?hi = 0x7FF8"
      by (elim insertE emptyE) (force simp: push_bit_numeral)+
    with compact low preads_float_special(4-6) [OF i] show ?thesis by (auto simp: compact_float64_def)
  next
    case False
    with compact low have hi: "?hi \<in> set tiny_float64"
      and t: "t = v_int_0 - (case fp_to_int (fp_of_bits64 dfl) of Inr n \<Rightarrow> n | Inl _ \<Rightarrow> 0)"
      by (auto simp: compact_float64_def Let_def split: if_splits)
    from tiny_float64E [OF hi] obtain n where n: "n \<in> set tiny_ints"
      "fp_to_int (fp_of_bits64 dfl) = Inr n" "int_to_float64 n = dfl"
      unfolding dfl .
    with preads_float_tiny(2) [OF i, of n] tiny_ints_range [OF n(1)] t show ?thesis by simp
  qed
  with Some show ?thesis by (simp add: typed_float64_def)
qed


section \<open>Simple objects\<close>

lemma bool_octets_octet: "bool_octets f = [if f then 1 else 0]"
  by (cases f) (simp_all add: bool_octets_def pack_int_def Let_def word_sless_alt)

lemma reads_obi_read_boolean: "reads obi_read_boolean (bool_octets f) f"
  unfolding obi_read_boolean_def abi_read_boolean_def bool_octets_octet
  by (rule parses_mapc [OF reads_obi_read]) simp

lemma reads_read_slice:
  assumes "length bs < 2 ^ 31"
  shows "reads read_slice (pack_int (of_nat (length bs) :: int32_t) @ bs) bs"
  unfolding read_slice_def
proof (rule parses_bindc [OF reads_incoming [OF assms]], rule parsesI)
  fix s rest
  assume ok: "bi_ok s" and rem: "bi_rem s = bs @ rest"
  note pos = bi_rem_append [OF ok rem] and bounds = bi_ok_bounds [OF ok]
  let ?buf = "bi_buf s"
  have len: "length (rb_vab ?buf) < npos" using ok by (simp add: bi_ok_def rb_ok_def)
  have sz: "size_add (bi_of s) (length bs) = bi_of s + length bs"
    "size_add (bi_of s) (rb_of ?buf) = rb_of ?buf + bi_of s"
    "size_add (rb_of ?buf + bi_of s) (length bs) = rb_of ?buf + bi_of s + length bs"
    "size_sub (rb_cb ?buf) (bi_of s) = rb_cb ?buf - bi_of s"
    using pos(1) bounds by simp_all
  have room: "\<not> rb_cb ?buf - bi_of s < length bs" using pos(1) by linarith
  have skip: "abi_skip (length bs) s = (Inr (), s\<lparr>bi_of := bi_of s + length bs\<rparr>)"
    using room sz by (simp add: abi_skip_def get_offset_def bi_get_def bindc_def bi_length_def set_offset_internal_def)
  have end': "rb_of ?buf + bi_of s + length bs \<le> length (rb_vab ?buf)" using pos(1) bounds(2) by linarith
  have slice: "rb_to_octets ?buf (bi_of s) (length bs) = Inr bs"
  proof (cases "bs = []")
    case True
    then show ?thesis using pos(1) sz(1) by (simp add: rb_to_octets_def rb_check_bounds_def)
  next
    case False
    have "rb_vab ?buf = bs" if "rb_of ?buf + bi_of s = 0" "length bs = length (rb_vab ?buf)"
      using pos(4) that by simp
    moreover have "sub_array (rb_vab ?buf) (rb_of ?buf + bi_of s) (rb_of ?buf + bi_of s + length bs) = Inr bs"
      using end' len pos(4) by (simp add: sub_array_def Let_def)
    ultimately show ?thesis
      using False pos(1) sz by (auto simp: rb_to_octets_def rb_check_bounds_def Let_def)
  qed
  show "\<exists>t. bindc get_offset (\<lambda>off. seqc (abi_skip (length bs)) (bindc (bi_get bi_buf)
      (\<lambda>buf. bi_lift (rb_to_octets buf off (length bs))))) s = (Inr bs, t) \<and> bi_ok t \<and> bi_rem t = rest"
    using pos(2,3) skip slice by (simp add: bindc_def seqc_def get_offset_def bi_get_def bi_lift_def)
qed

definition date_ok :: "raw_date \<Rightarrow> bool" where
  "date_ok d \<longleftrightarrow> check_date (rd_year d) (rd_month d) (rd_day d) = Inr ()"

definition time_ok :: "raw_time \<Rightarrow> bool" where
  "time_ok t \<longleftrightarrow>
     check_time (rt_hour t) (rt_minute t) (rt_second t) (rt_nano t) = Inr () \<and>
     (if rt_zone t = TZ_OFFSET then check_time_zone (rt_hour_offset t) (rt_minute_offset t) = Inr ()
      else rt_hour_offset t = 0 \<and> rt_minute_offset t = 0)"

lemma reads_read_raw_date: "date_ok d \<Longrightarrow> reads read_raw_date (raw_date_octets d) d"
  unfolding read_raw_date_def raw_date_octets_def date_octets_def
  by (intro parses_bindc [OF reads_obi_ints(2)] parses_bindc_ret [OF reads_obi_ints(2)] reads_bi_lift)
    (simp add: raw_date_create_def date_ok_def case_exn_def)

text \<open>The fraction of a second: milliseconds when they are exact, negated nanoseconds otherwise.\<close>

lemma time_fraction_inverse:
  assumes "0 \<le> sint n" and "sint n \<le> 999999999"
  shows "(if time_fraction n \<le>s 0 then - time_fraction n else time_fraction n * 1000000) = n"
proof -
  have sint_of: "sint (of_int k :: int32_t) = k" if "- (2 ^ 31) \<le> k" "k < 2 ^ 31" for k
  proof -
    have "signed_take_bit 31 k = k" using that by (intro signed_take_bit_int_eq_self) simp_all
    then show ?thesis by (simp only: signed_of_int) simp
  qed
  have mod: "cmod (sint n) 1000000 = sint n mod 1000000" "cdiv (sint n) 1000000 = sint n div 1000000"
    using assms(1) by (auto simp: cmod_def cdiv_def sgn_if minus_mult_div_eq_mod)
  have n: "of_int (sint n) = n" by simp
  consider "n = 0" | (ms) "n \<noteq> 0" "sint n mod 1000000 = 0" | (ns) "n \<noteq> 0" "sint n mod 1000000 \<noteq> 0" by blast
  then show ?thesis
  proof cases
    case ms
    then have q: "sint n div 1000000 * 1000000 = sint n" by (metis add.right_neutral div_mult_mod_eq)
    have "sint n \<noteq> 0" using ms(1) n by (metis of_int_0)
    with assms(1) q have pos: "0 < sint n div 1000000" by (smt (verit) mult_eq_0_iff pos_imp_zdiv_nonneg_iff)
    have "sint n div 1000000 \<le> 999999999 div 1000000" using assms(2) by (rule zdiv_mono1) simp
    then have "sint n div 1000000 < 2 ^ 31" by simp
    then have "sint (of_int (sint n div 1000000) :: int32_t) = sint n div 1000000" using pos by (intro sint_of) linarith+
    moreover have "of_int (sint n div 1000000) * 1000000 = n"
      using arg_cong [OF q, of "of_int :: int \<Rightarrow> int32_t"] n by simp
    ultimately show ?thesis using ms pos by (simp add: time_fraction_def mod word_sle_eq)
  next
    case ns
    have "sint (- n) = - sint n" using sint_of [of "- sint n"] assms by (simp add: n)
    then show ?thesis using ns assms(1) by (simp add: time_fraction_def mod word_sle_eq)
  qed (simp add: time_fraction_def word_sle_eq)
qed


lemma check_time_nano: "check_time h m s n = Inr () \<Longrightarrow> 0 \<le> sint n \<and> sint n \<le> 999999999"
  by (auto simp: check_time_def Let_def split: if_splits)

lemma zone_octet: "[ucast (0 :: int32_t)] = pack_int (0 :: int32_t)" "[ucast (1 :: int32_t)] = pack_int (1 :: int32_t)"
  "[ucast (2 :: int32_t)] = pack_int (2 :: int32_t)"
  by (simp_all add: pack_int_def Let_def word_sless_alt)

lemma reads_read_raw_time:
  assumes ok: "time_ok t"
  shows "reads read_raw_time (raw_time_octets t) t"
proof -
  note frac = time_fraction_inverse [of "rt_nano t"] check_time_nano [of "rt_hour t" "rt_minute t" "rt_second t" "rt_nano t"]
  let ?n = "\<lambda>f. if f \<le>s 0 then - f else f * 1000000"
  have n: "?n (time_fraction (rt_nano t)) = rt_nano t" using frac ok by (simp add: time_ok_def)
  have tail: "reads (bindc obi_read_int32 (\<lambda>nZoneType.
         if nZoneType = 2 then
           bindc obi_read_int32 (\<lambda>nHourOffset. bindc obi_read_int32 (\<lambda>nMinuteOffset.
             bi_lift (raw_time_create_offset (rt_hour t) (rt_minute t) (rt_second t) (rt_nano t) nHourOffset nMinuteOffset)))
         else
           seqc (ensure (nZoneType = 0 \<or> nZoneType = 1))
             (bi_lift (raw_time_create (rt_hour t) (rt_minute t) (rt_second t) (rt_nano t) (nZoneType = 1)))))
      (case rt_zone t of TZ_NONE \<Rightarrow> pack_int (0 :: int32_t) @ [] | TZ_UTC \<Rightarrow> pack_int (1 :: int32_t) @ []
       | TZ_OFFSET \<Rightarrow> pack_int (2 :: int32_t) @ pack_int (rt_hour_offset t) @ pack_int (rt_minute_offset t)) t"
    using ok
    by (cases "rt_zone t"; simp only: time_zone.case; intro parses_bindc [OF reads_obi_ints(2)])
      (auto intro!: parses_bindc [OF reads_obi_ints(2)] parses_bindc_ret [OF reads_obi_ints(2)] reads_bi_lift
        simp: raw_time_create_def raw_time_create_offset_def time_ok_def case_exn_def)
  have "raw_time_octets t = pack_int (rt_hour t) @ pack_int (rt_minute t) @ pack_int (rt_second t) @
      pack_int (time_fraction (rt_nano t)) @
      (case rt_zone t of TZ_NONE \<Rightarrow> pack_int (0 :: int32_t) @ [] | TZ_UTC \<Rightarrow> pack_int (1 :: int32_t) @ []
       | TZ_OFFSET \<Rightarrow> pack_int (2 :: int32_t) @ pack_int (rt_hour_offset t) @ pack_int (rt_minute_offset t))"
    using zone_octet by (cases "rt_zone t") (simp_all add: raw_time_octets_def time_octets_def)
  then show ?thesis
    unfolding read_raw_time_def
    by (simp only:) (intro parses_bindc [OF reads_obi_ints(2)]; unfold Let_def n; rule tail)
qed

definition interval_ok :: "raw_time_interval \<Rightarrow> bool" where
  "interval_ok ti \<longleftrightarrow> check_time_interval (ti_hours ti) (ti_minutes ti) (ti_seconds ti) (ti_nanos ti) = Inr ()"

lemma reads_intervals:
  "check_year_month_interval y m = Inr () \<Longrightarrow>
     reads read_year_month (pack_int y @ pack_int m) (ORawYearMonthInterval y m)"
  "interval_ok ti \<Longrightarrow>
     reads read_time_interval (pack_int (ti_hours ti) @ pack_int (ti_minutes ti) @ pack_int (ti_seconds ti) @
       pack_int (ti_nanos ti)) (ORawTimeInterval ti)"
  "check_day_time_interval d h mi s n = Inr () \<Longrightarrow>
     reads read_day_time_interval (pack_int d @ pack_int h @ pack_int mi @ pack_int s @ pack_int n)
       (ORawDayTimeInterval d h mi s n)"
  unfolding read_year_month_def read_time_interval_def read_day_time_interval_def
  by (intro parses_bindc [OF reads_obi_ints(2)] parses_bindc_ret [OF reads_obi_ints(2)] reads_bi_lift;
      simp add: case_exn_def raw_time_interval_create_def interval_ok_def)+


section \<open>Objects that can be read back\<close>

text \<open>
  The objects that reading recreates: sizes fit 32 bits, strings are well-formed, dates and
  intervals passed their checks, boxed floating-point numbers are no negative zeros, no two
  keys of a map are equal, and no object belongs to a user type.
\<close>

fun obj_readable :: "('u pof_obj \<Rightarrow> 'u pof_obj \<Rightarrow> bool) \<Rightarrow> 'u pof_obj \<Rightarrow> bool" where
  "obj_readable eq (OFloat32 fl) \<longleftrightarrow> float32_value_of fl = fl"
| "obj_readable eq (OFloat64 dfl) \<longleftrightarrow> float64_value_of dfl = dfl"
| "obj_readable eq (OBinary bs) \<longleftrightarrow> length bs < 2 ^ 31"
| "obj_readable eq (OString vs) \<longleftrightarrow> valid_string vs \<and> length vs < 2 ^ 31"
| "obj_readable eq (ORawDate d) \<longleftrightarrow> date_ok d"
| "obj_readable eq (ORawTime t) \<longleftrightarrow> time_ok t"
| "obj_readable eq (ORawDateTime d t) \<longleftrightarrow> date_ok d \<and> time_ok t"
| "obj_readable eq (ORawYearMonthInterval y m) \<longleftrightarrow> check_year_month_interval y m = Inr ()"
| "obj_readable eq (ORawTimeInterval ti) \<longleftrightarrow> interval_ok ti"
| "obj_readable eq (ORawDayTimeInterval d h mi s n) \<longleftrightarrow> check_day_time_interval d h mi s n = Inr ()"
| "obj_readable eq (OBooleanArray a) \<longleftrightarrow> length a < 2 ^ 31"
| "obj_readable eq (OOctetArray a) \<longleftrightarrow> length a < 2 ^ 31"
| "obj_readable eq (OChar16Array a) \<longleftrightarrow> length a < 2 ^ 31"
| "obj_readable eq (OInt16Array a) \<longleftrightarrow> length a < 2 ^ 31"
| "obj_readable eq (OInt32Array a) \<longleftrightarrow> length a < 2 ^ 31"
| "obj_readable eq (OInt64Array a) \<longleftrightarrow> length a < 2 ^ 31"
| "obj_readable eq (OFloat32Array a) \<longleftrightarrow> length a < 2 ^ 31"
| "obj_readable eq (OFloat64Array a) \<longleftrightarrow> length a < 2 ^ 31"
| "obj_readable eq (OObjectArray va) \<longleftrightarrow> length va < 2 ^ 31 \<and> (\<forall>v\<in>set va. obj_readable eq v)"
| "obj_readable eq (OCollection vCol) \<longleftrightarrow> length vCol < 2 ^ 31 \<and> (\<forall>v\<in>set vCol. obj_readable eq v)"
| "obj_readable eq (OMap vMap) \<longleftrightarrow>
     length vMap < 2 ^ 31 \<and> sorted_wrt (\<lambda>p q. \<not> eq (fst q) (fst p)) vMap \<and>
     (\<forall>(k, v)\<in>set vMap. obj_readable eq k \<and> obj_readable eq v)"
| "obj_readable eq (OLongArray vla) \<longleftrightarrow> long_array_ok vla \<and> (\<forall>(i, v)\<in>set vla. obj_readable eq v)"
| "obj_readable eq (OUser u) \<longleftrightarrow> False"
| "obj_readable eq _ \<longleftrightarrow> True"

text \<open>Every readable object is one the writer can encode.\<close>

lemma obj_readable_sized: "obj_readable eq v \<Longrightarrow> obj_sized v"
proof (induction v)
  case (OMap vm)
  have "obj_sized k \<and> obj_sized v" if kv: "(k, v) \<in> set vm" for k v
    using OMap.IH [OF kv, of k] OMap.IH [OF kv, of v] OMap.prems kv by auto
  with OMap.prems show ?case by auto
next
  case (OLongArray vla)
  have "obj_sized v" if jv: "(j, v) \<in> set vla" for j v
    using OLongArray.IH [OF jv, of v] OLongArray.prems jv by auto
  with OLongArray.prems show ?case by auto
qed auto

section \<open>Reading the parts of objects\<close>

lemma preads_bindc_new_ref:
  fixes k :: "'u pof_ref \<Rightarrow> ('u, 'a) reading"
  assumes "\<And>h. ref_obj h = v \<Longrightarrow> preads K (k h) bs x"
  shows "preads K (bindc (new_ref f v) k) bs x"
proof (rule parsesI)
  fix s :: "'u pof_reader" and rest
  let ?t = "s\<lparr>pr_next := Suc (pr_next s)\<rparr>"
  assume "settled K s" and "bi_rem (pr_in s) = bs @ rest"
  then have t: "settled K ?t" "bi_rem (pr_in ?t) = bs @ rest" by simp_all
  have "preads K (k (PofRef (HNew (pr_next s)) f v)) bs x" by (rule assms) simp
  from parsesE [OF this t] obtain u where
    "k (PofRef (HNew (pr_next s)) f v) ?t = (Inr x, u)" "settled K u" "bi_rem (pr_in u) = rest" .
  then show "\<exists>t. bindc (new_ref f v) k s = (Inr x, t) \<and> settled K t \<and> bi_rem (pr_in t) = rest"
    by (simp add: bindc_def new_ref_def)
qed

lemma preads_boxed:
  assumes "read_boxed t = Some m" and "reads m bs v"
  shows "preads_obj K (read_next (read_as_object env (Suc d))) (pack_int t @ bs) v"
  unfolding read_next_def mapc_bindc
  by (rule parses_bindc [OF preads_rd_int32])
    (simp add: assms(1) mapc_bindc, rule parses_bindc_ret [OF preads_on_in [OF assms(2)] preads_box])

lemma preads_simple:
  assumes "read_boxed t = (None :: (buffer_input, 'u pof_obj) comp option)" and "read_simple t = Some m"
    and "reads m bs v" and "v \<noteq> (ONull :: 'u pof_obj)"
  shows "preads_obj K (read_next (read_as_object env (Suc d))) (pack_int t @ bs) v"
proof -
  have "preads_obj K (case v of ONull \<Rightarrow> ret null_ref | _ \<Rightarrow> new_ref True v) [] v"
    using assms(4) by (cases v) (simp_all add: preads_new_ref)
  then show ?thesis
    unfolding read_next_def mapc_bindc
    by (intro parses_bindc [OF preads_rd_int32])
      (simp add: assms(1,2) mapc_bindc, rule parses_bindc_ret [OF preads_on_in [OF assms(3)]])
qed

definition complex_type :: "int32_t \<Rightarrow> bool" where
  "complex_type t \<longleftrightarrow> t \<in> {t_collection, t_array, t_uniform_array, t_sparse_array, t_map}"

lemma preads_complex:
  fixes env :: "'u pof_env"
  assumes "complex_type t" and "preads_obj K (read_complex env (read_as_object env d) t) bs v"
  shows "preads_obj K (read_next (read_as_object env (Suc d))) (pack_int t @ bs) v"
proof -
  have "read_boxed t = (None :: (buffer_input, 'u pof_obj) comp option)"
    "read_simple t = (None :: (buffer_input, 'u pof_obj) comp option)" "t_uniform_map \<le>s t" "t \<le>s t_collection"
    using assms(1) by (auto simp: complex_type_def read_boxed_def read_simple_def is_tiny_int_def word_sle_eq)
  then have "read_as_object env (Suc d) t = read_complex env (read_as_object env d) t"
    by (simp only: read_as_object.simps Let_def option.case if_True simp_thms)
  with assms(2) show ?thesis
    unfolding read_next_def mapc_bindc by (intro parses_bindc [OF preads_rd_int32]) simp
qed

lemma preads_elements:
  assumes "\<And>v. v \<in> set va \<Longrightarrow> parses good rem m (g v) v"
  shows "parses good rem (replicatec (length va) m) (concat (map g va)) va"
  by (rule parses_replicatec) (auto simp: list_all2_conv_all_nth intro: assms)

lemma preads_counted:
  assumes "\<And>v. v \<in> set va \<Longrightarrow> reads m (g v) v"
  shows "preads K (read_counted m (length va)) (concat (map g va)) va"
  unfolding read_counted_def by (rule preads_on_in) (rule preads_elements [OF assms])

lemma reads_read_octets: "length bs < 2 ^ 31 \<Longrightarrow> reads (read_octets (length bs)) bs bs"
  unfolding read_octets_def by (rule reads_obi_read_all) (simp add: npos_def size_max_def)

lemma preads_primitive_arrays:
  fixes env :: "'u pof_env"
  shows "length vaf < 2 ^ 31 \<Longrightarrow> preads_obj K (read_next (read_as_object env (Suc d)))
      (array_octets t_boolean bool_octets vaf) (OBooleanArray vaf)"
    and "length vab < 2 ^ 31 \<Longrightarrow> preads_obj K (read_next (read_as_object env (Suc d)))
      (array_octets t_octet (\<lambda>b. [b]) vab) (OOctetArray vab)"
    and "length vach < 2 ^ 31 \<Longrightarrow> preads_obj K (read_next (read_as_object env (Suc d)))
      (array_octets t_char encode_char16 vach) (OChar16Array vach)"
    and "length va16 < 2 ^ 31 \<Longrightarrow> preads_obj K (read_next (read_as_object env (Suc d)))
      (array_octets t_int16 pack_int va16) (OInt16Array va16)"
    and "length va32 < 2 ^ 31 \<Longrightarrow> preads_obj K (read_next (read_as_object env (Suc d)))
      (array_octets t_int32 pack_int va32) (OInt32Array va32)"
    and "length va64 < 2 ^ 31 \<Longrightarrow> preads_obj K (read_next (read_as_object env (Suc d)))
      (array_octets t_int64 pack_int va64) (OInt64Array va64)"
    and "length vaf32 < 2 ^ 31 \<Longrightarrow> preads_obj K (read_next (read_as_object env (Suc d)))
      (array_octets t_float32 split4 vaf32) (OFloat32Array vaf32)"
    and "length vaf64 < 2 ^ 31 \<Longrightarrow> preads_obj K (read_next (read_as_object env (Suc d)))
      (array_octets t_float64 split8 vaf64) (OFloat64Array vaf64)"
proof -
  have arr: "preads_obj K (read_next (read_as_object env (Suc d))) (array_octets t g va) v"
    if "length va < 2 ^ 31" and "preads K (read_uniform_array env (read_as_object env d) t (length va)) (concat (map g va)) v"
    for t v and g :: "'a \<Rightarrow> octet_t list" and va
  proof -
    have "preads_obj K (read_complex env (read_as_object env d) t_uniform_array)
        (pack_int t @ pack_int (of_nat (length va) :: int32_t) @ concat (map g va)) v"
      by (simp add: read_complex_def mapc_bindc)
        (intro parses_bindc [OF preads_rd_int32] parses_bindc [OF preads_rd_size [OF that(1)]]
          parses_bindc_ret [OF that(2)] preads_new_ref)
    with preads_complex [of t_uniform_array] show ?thesis
      by (simp add: complex_type_def array_octets_def complex_header_def)
  qed
  note unf = read_uniform_array_def
  show "length vaf < 2 ^ 31 \<Longrightarrow> preads_obj K (read_next (read_as_object env (Suc d)))
      (array_octets t_boolean bool_octets vaf) (OBooleanArray vaf)"
    by (erule arr) (simp add: unf parses_mapc [OF preads_counted] reads_obi_read_boolean)
  show "length vab < 2 ^ 31 \<Longrightarrow> preads_obj K (read_next (read_as_object env (Suc d)))
      (array_octets t_octet (\<lambda>b. [b]) vab) (OOctetArray vab)"
    by (rule arr, assumption) (simp add: unf parses_mapc [OF preads_on_in [OF reads_read_octets]])
  show "length vach < 2 ^ 31 \<Longrightarrow> preads_obj K (read_next (read_as_object env (Suc d)))
      (array_octets t_char encode_char16 vach) (OChar16Array vach)"
    by (erule arr) (simp add: unf parses_mapc [OF preads_counted] reads_obi_read_char16)
  show "length va16 < 2 ^ 31 \<Longrightarrow> preads_obj K (read_next (read_as_object env (Suc d)))
      (array_octets t_int16 pack_int va16) (OInt16Array va16)"
    by (erule arr) (simp add: unf parses_mapc [OF preads_counted] reads_obi_ints)
  show "length va32 < 2 ^ 31 \<Longrightarrow> preads_obj K (read_next (read_as_object env (Suc d)))
      (array_octets t_int32 pack_int va32) (OInt32Array va32)"
    by (erule arr) (simp add: unf parses_mapc [OF preads_counted] reads_obi_ints)
  show "length va64 < 2 ^ 31 \<Longrightarrow> preads_obj K (read_next (read_as_object env (Suc d)))
      (array_octets t_int64 pack_int va64) (OInt64Array va64)"
    by (erule arr) (simp add: unf parses_mapc [OF preads_counted] reads_obi_ints)
  show "length vaf32 < 2 ^ 31 \<Longrightarrow> preads_obj K (read_next (read_as_object env (Suc d)))
      (array_octets t_float32 split4 vaf32) (OFloat32Array vaf32)"
    by (erule arr) (simp add: unf parses_mapc [OF preads_counted] reads_obi_floats)
  show "length vaf64 < 2 ^ 31 \<Longrightarrow> preads_obj K (read_next (read_as_object env (Suc d)))
      (array_octets t_float64 split8 vaf64) (OFloat64Array vaf64)"
    by (erule arr) (simp add: unf parses_mapc [OF preads_counted] reads_obi_floats)
qed


section \<open>Containers\<close>

abbreviation next_obj :: "'u pof_env \<Rightarrow> nat \<Rightarrow> ('u, 'u pof_ref) reading" where
  "next_obj env d \<equiv> read_next (read_as_object env d)"

lemma resize_array_None:
  "resize_array None c = bindc (new_ref False (OObjectArray (replicate c ONull))) (\<lambda>h. ret (h, replicate c ONull))"
  by (simp add: resize_array_def mapc_def)

lemma preads_object_lists:
  fixes env :: "'u pof_env"
  assumes len: "length va < 2 ^ 31"
    and el: "\<And>v. v \<in> set va \<Longrightarrow> preads_obj K (next_obj env d) (obj_octets v) v"
  shows "preads_obj K (next_obj env (Suc d)) (obj_octets (OObjectArray va)) (OObjectArray va)"
    and "preads_obj K (next_obj env (Suc d)) (obj_octets (OCollection va)) (OCollection va)"
proof -
  let ?rec = "read_as_object env d"
  have elems: "preads K (replicatec (length va) (mapc ref_obj (next_obj env d))) (concat (map obj_octets va)) va"
    by (rule preads_elements) (rule el)
  have arr: "preads K (bindc (read_as_object_array env ?rec t None) k)
      (pack_int (of_nat (length va) :: int32_t) @ concat (map obj_octets va)) x"
    if t: "t \<in> {t_collection, t_array}" and k: "\<And>h. preads K (k (PofRef h False (OObjectArray va))) [] x" for t x
      and k :: "'u pof_ref \<Rightarrow> ('u, 'a) reading"
  proof -
    have tail: "preads K (bindc (replicatec (length va) (mapc ref_obj (next_obj env d)))
        (\<lambda>ys. k (fill_array h (ys @ drop (length va) (replicate (length va) ONull)))))
        (concat (map obj_octets va)) x" if "ref_view h = False" for h
      using k [of "ref_id h"] that by (intro parses_bindc_ret [OF elems]) (simp add: fill_array_def)
    have "preads K (bindc (new_ref False (OObjectArray (replicate (length va) ONull)))
        (\<lambda>h. bindc (replicatec (length va) (mapc ref_obj (next_obj env d)))
          (\<lambda>ys. k (fill_array h (ys @ drop (length va) (replicate (length va) ONull))))))
        (concat (map obj_octets va)) x"
    proof (rule parsesI)
      fix s :: "'u pof_reader" and rest
      let ?h = "PofRef (HNew (pr_next s)) False (OObjectArray (replicate (length va) ONull))"
        and ?t = "s\<lparr>pr_next := Suc (pr_next s)\<rparr>"
      assume "settled K s" and "bi_rem (pr_in s) = concat (map obj_octets va) @ rest"
      then have t: "settled K ?t" "bi_rem (pr_in ?t) = concat (map obj_octets va) @ rest" by simp_all
      from parsesE [OF tail t, of ?h] show "\<exists>t. bindc (new_ref False (OObjectArray (replicate (length va) ONull)))
          (\<lambda>h. bindc (replicatec (length va) (mapc ref_obj (next_obj env d)))
            (\<lambda>ys. k (fill_array h (ys @ drop (length va) (replicate (length va) ONull))))) s = (Inr x, t) \<and>
          settled K t \<and> bi_rem (pr_in t) = rest"
        by (auto simp: bindc_def new_ref_def)
    qed
    with t show ?thesis
      by (auto simp: read_as_object_array_def Let_def bindc_assoc resize_array_None
          intro!: parses_bindc [OF preads_rd_size [OF len]])
  qed
  have "preads_obj K (read_complex env ?rec t_array)
      (pack_int (of_nat (length va) :: int32_t) @ concat (map obj_octets va)) (OObjectArray va)"
    by (simp add: read_complex_def mapc_def) (rule arr; simp add: parses_ret)
  then show "preads_obj K (next_obj env (Suc d)) (obj_octets (OObjectArray va)) (OObjectArray va)"
    using preads_complex [of t_array] by (simp add: complex_type_def complex_header_def)
  have "preads_obj K (read_complex env ?rec t_collection)
      (pack_int (of_nat (length va) :: int32_t) @ concat (map obj_octets va)) (OCollection va)"
    by (simp add: read_complex_def mapc_bindc) (rule arr; simp add: preads_new_ref)
  then show "preads_obj K (next_obj env (Suc d)) (obj_octets (OCollection va)) (OCollection va)"
    using preads_complex [of t_collection] by (simp add: complex_type_def complex_header_def)
qed


lemma bindc_mapc: "bindc (mapc f m) g = bindc m (\<lambda>a. g (f a))"
  by (simp add: mapc_def bindc_assoc)

lemma map_put_new: "\<forall>p\<in>set m. \<not> eq k (fst p) \<Longrightarrow> map_put eq k v m = m @ [(k, v)]"
  by (induction m) auto

lemma preads_entries:
  assumes "\<And>k v. (k, v) \<in> set vm \<Longrightarrow> preads_obj K key (obj_octets k) k \<and> preads_obj K val (obj_octets v) v"
    and "sorted_wrt (\<lambda>p q. \<not> eq (fst q) (fst p)) (m @ vm)"
  shows "preads K (read_entries eq key val (length vm) m)
    (concat (map (\<lambda>(k, v). obj_octets k @ obj_octets v) vm)) (m @ vm)"
  using assms
proof (induction vm arbitrary: m)
  case Nil
  then show ?case by (auto intro: parses_ret)
next
  case (Cons p vm)
  obtain k v where p: "p = (k, v)" by (rule prod.exhaust)
  have new: "map_put eq k v m = m @ [(k, v)]"
    using Cons.prems(2) p by (intro map_put_new) (auto simp: sorted_wrt_append)
  have "preads K (read_entries eq key val (length vm) (m @ [(k, v)]))
      (concat (map (\<lambda>(k, v). obj_octets k @ obj_octets v) vm)) ((m @ [(k, v)]) @ vm)"
    using Cons.prems p by (intro Cons.IH) auto
  then have "preads K (bindc (mapc ref_obj key) (\<lambda>k. bindc (mapc ref_obj val) (\<lambda>v.
      read_entries eq key val (length vm) (map_put eq k v m))))
      (obj_octets k @ obj_octets v @ concat (map (\<lambda>(k, v). obj_octets k @ obj_octets v) vm)) (m @ (k, v) # vm)"
    using Cons.prems(1) [of k v] p by (auto simp: new intro!: parses_bindc)
  then show ?case by (simp add: p bindc_mapc)
qed

lemma preads_map:
  fixes env :: "'u pof_env"
  assumes len: "length vm < 2 ^ 31" and keys: "sorted_wrt (\<lambda>p q. \<not> pe_key_equals env (fst q) (fst p)) vm"
    and el: "\<And>k v. (k, v) \<in> set vm \<Longrightarrow>
      preads_obj K (next_obj env d) (obj_octets k) k \<and> preads_obj K (next_obj env d) (obj_octets v) v"
  shows "preads_obj K (next_obj env (Suc d)) (obj_octets (OMap vm)) (OMap vm)"
proof -
  have "preads K (read_entries (pe_key_equals env) (next_obj env d) (next_obj env d) (length vm) [])
      (concat (map (\<lambda>(k, v). obj_octets k @ obj_octets v) vm)) ([] @ vm)"
    using el keys by (intro preads_entries) auto
  then have "preads_obj K (read_complex env (read_as_object env d) t_map)
      (pack_int (of_nat (length vm) :: int32_t) @ concat (map (\<lambda>(k, v). obj_octets k @ obj_octets v) vm)) (OMap vm)"
    by (simp add: read_complex_def read_maps_def mapc_bindc bindc_assoc Let_def)
      (intro parses_bindc [OF preads_rd_size [OF len]] parses_bindc_ret, simp, rule preads_new_ref)
  with preads_complex [of t_map] show ?thesis by (simp add: complex_type_def complex_header_def)
qed

lemma la_set_last: "\<forall>p\<in>set la. fst p < i \<Longrightarrow> la_set i x la = la @ [(i, x)]"
  by (induction la) auto

lemma preads_sparse_objects:
  assumes "\<And>j v. (j, v) \<in> set vla \<Longrightarrow> preads_obj K elem (obj_octets v) v"
    and "sorted_wrt (<) (map fst (la @ vla))" and "\<forall>p\<in>set vla. 0 \<le> fst p \<and> fst p < 2 ^ 31"
    and "length vla \<le> c"
  shows "preads K (sparse_loop rd_int32 (la_element elem) c la)
    (concat (map (\<lambda>(i, v). pack_int (of_int i :: int32_t) @ obj_octets v) vla) @ pack_int (- 1 :: int32_t))
    (la @ vla, c - length vla)"
  using assms
proof (induction vla arbitrary: la c)
  case Nil
  have stop: "preads K (bindc rd_int32 (\<lambda>i. if i <s 0 then ret (la, n) else k i)) (pack_int (- 1 :: int32_t)) (la, n)" for k n
    by (rule parses_bindc_ret [OF preads_rd_int32]) (auto simp: word_sless_alt)
  show ?case by (cases c) (simp_all add: stop)
next
  case (Cons p vla)
  obtain i v where p: "p = (i, v)" by (rule prod.exhaust)
  from Cons.prems(4) obtain c' where c: "c = Suc c'" "length vla \<le> c'" by (cases c) auto
  have i: "0 \<le> i" "i < 2 ^ 31" using Cons.prems(3) p by auto
  have sint: "sint (of_int i :: int32_t) = i"
  proof -
    have "signed_take_bit 31 i = i" using i by (intro signed_take_bit_int_eq_self) simp_all
    then show ?thesis by (simp only: signed_of_int) simp
  qed
  have last: "la_set i v la = la @ [(i, v)]"
    using Cons.prems(2) p by (intro la_set_last) (auto simp: sorted_wrt_append)
  have rest: "preads K (sparse_loop rd_int32 (la_element elem) c' (la @ [(i, v)]))
      (concat (map (\<lambda>(i, v). pack_int (of_int i :: int32_t) @ obj_octets v) vla) @ pack_int (- 1 :: int32_t))
      ((la @ [(i, v)]) @ vla, c' - length vla)"
    using Cons.prems c(2) by (intro Cons.IH) (auto simp: p)
  have elem: "preads K (la_element elem (of_int i) la) (obj_octets v) (la @ [(i, v)])"
  proof -
    have "preads K (bindc (mapc ref_obj elem) (\<lambda>v. ret (la_set i v la))) (obj_octets v) (la @ [(i, v)])"
      using Cons.prems(1) [of i v] p by (intro parses_bindc_ret [where a = v]) (auto simp: last)
    then show ?thesis by (simp add: la_element_def bindc_mapc sint)
  qed
  have "preads K (bindc rd_int32 (\<lambda>i. if i <s 0 then ret (la, Suc c')
        else bindc (la_element elem i la) (sparse_loop rd_int32 (la_element elem) c')))
      (pack_int (of_int i :: int32_t) @ obj_octets v @
        (concat (map (\<lambda>(i, v). pack_int (of_int i :: int32_t) @ obj_octets v) vla) @ pack_int (- 1 :: int32_t)))
      ((la @ [(i, v)]) @ vla, c' - length vla)"
    by (rule parses_bindc [OF preads_rd_int32])
      (use i sint parses_bindc [OF elem, where f = "sparse_loop rd_int32 (la_element elem) c'", OF rest]
        in \<open>simp add: word_sless_alt del: append_assoc\<close>)
  then show ?case by (simp add: c p)
qed

lemma ascending_length:
  "sorted_wrt (<) xs \<Longrightarrow> \<forall>i\<in>set xs. 0 \<le> i \<Longrightarrow> xs \<noteq> [] \<Longrightarrow> int (length xs) \<le> last xs + 1"
proof (induction xs rule: rev_induct)
  case (snoc x xs)
  show ?case
  proof (cases "xs = []")
    case False
    with snoc have "int (length xs) \<le> last xs + 1" by (simp add: sorted_wrt_append)
    moreover have "last xs < x" using snoc.prems False by (simp add: sorted_wrt_append)
    ultimately show ?thesis by simp
  qed (use snoc in simp)
qed simp

lemma preads_long_array:
  fixes env :: "'u pof_env"
  assumes la: "long_array_ok vla"
    and el: "\<And>j v. (j, v) \<in> set vla \<Longrightarrow> preads_obj K (next_obj env d) (obj_octets v) v"
  shows "preads_obj K (next_obj env (Suc d)) (obj_octets (OLongArray vla)) (OLongArray vla)"
proof -
  let ?n = "nat (la_last_index vla + 1)"
  have "length vla \<le> ?n"
    using ascending_length [of "map fst vla"] la
    by (auto simp: long_array_ok_def la_last_index_def last_map)
  moreover have "?n < 2 ^ 31" using long_array_bounds [OF la] by simp
  moreover have "\<forall>p\<in>set vla. 0 \<le> fst p \<and> fst p < 2 ^ 31" "sorted_wrt (<) (map fst ([] @ vla))"
    using la by (auto simp: long_array_ok_def)
  ultimately have "preads_obj K (read_complex env (read_as_object env d) t_sparse_array)
      (pack_int (of_nat ?n :: int32_t) @ (concat (map (\<lambda>(i, v). pack_int (of_int i :: int32_t) @ obj_octets v) vla) @
        pack_int (- 1 :: int32_t))) (OLongArray vla)"
    by (simp add: read_complex_def mapc_bindc)
      (intro parses_bindc [OF preads_rd_size] parses_bindc_ret [OF preads_sparse_objects [where la = "[]"]] el,
        auto intro: preads_new_ref)
  with preads_complex [of t_sparse_array] show ?thesis by (simp add: complex_type_def complex_header_def)
qed


section \<open>Every object\<close>

lemma length_pack_int_pos: "1 \<le> length (pack_int n)"
  by (simp add: pack_int_def Let_def pack_loop.simps)

lemma read_boxed_types:
  "read_boxed t_boolean = Some (mapc OBoolean obi_read_boolean)"
  "read_boxed t_octet = Some (mapc OOctet obi_read)"
  "read_boxed t_char = Some (mapc OChar16 obi_read_char16)"
  "read_boxed t_int16 = Some (mapc OInteger16 obi_read_int16)"
  "read_boxed t_int32 = Some (mapc OInteger32 obi_read_int32)"
  "read_boxed t_int64 = Some (mapc OInteger64 obi_read_int64)"
  "read_boxed t_float32 = Some (mapc (\<lambda>fl. OFloat32 (float32_value_of fl)) obi_read_float32)"
  "read_boxed t_float64 = Some (mapc (\<lambda>dfl. OFloat64 (float64_value_of dfl)) obi_read_float64)"
  by (simp_all add: read_boxed_def is_tiny_int_def word_sle_eq read_as_int32_def)

lemma read_simple_types:
  "t \<in> {t_octet_string, t_char_string, t_date, t_time, t_datetime, t_year_month_interval, t_time_interval,
    t_day_time_interval} \<Longrightarrow> read_boxed t = None"
  "read_simple t_octet_string = Some (mapc OBinary read_slice)"
  "read_simple t_char_string =
     Some (mapc (\<lambda>vs. case vs of None \<Rightarrow> ONull | Some vs \<Rightarrow> OString vs) obi_read_string)"
  "read_simple t_date = Some (mapc ORawDate read_raw_date)"
  "read_simple t_time = Some (mapc ORawTime read_raw_time)"
  "read_simple t_datetime = Some (bindc read_raw_date (\<lambda>vDate. mapc (ORawDateTime vDate) read_raw_time))"
  "read_simple t_year_month_interval = Some read_year_month"
  "read_simple t_time_interval = Some read_time_interval"
  "read_simple t_day_time_interval = Some read_day_time_interval"
  by (auto simp: read_boxed_def read_simple_def is_tiny_int_def word_sle_eq)

lemma preads_boxed_objects:
  fixes env :: "'u pof_env"
  shows "preads_obj K (next_obj env (Suc d)) (obj_octets (OBoolean f)) (OBoolean f)"
    and "preads_obj K (next_obj env (Suc d)) (obj_octets (OOctet b)) (OOctet b)"
    and "preads_obj K (next_obj env (Suc d)) (obj_octets (OChar16 ch)) (OChar16 ch)"
    and "preads_obj K (next_obj env (Suc d)) (obj_octets (OInteger16 n16)) (OInteger16 n16)"
    and "preads_obj K (next_obj env (Suc d)) (obj_octets (OInteger32 n32)) (OInteger32 n32)"
    and "preads_obj K (next_obj env (Suc d)) (obj_octets (OInteger64 n64)) (OInteger64 n64)"
    and "float32_value_of fl = fl \<Longrightarrow>
      preads_obj K (next_obj env (Suc d)) (obj_octets (OFloat32 fl)) (OFloat32 fl)"
    and "float64_value_of dfl = dfl \<Longrightarrow>
      preads_obj K (next_obj env (Suc d)) (obj_octets (OFloat64 dfl)) (OFloat64 dfl)"
  using preads_boxed [OF read_boxed_types(1) parses_mapc [OF reads_obi_read_boolean refl]]
    preads_boxed [OF read_boxed_types(2) parses_mapc [OF reads_obi_read refl]]
    preads_boxed [OF read_boxed_types(3) parses_mapc [OF reads_obi_read_char16 refl]]
    preads_boxed [OF read_boxed_types(4) parses_mapc [OF reads_obi_ints(1) refl]]
    preads_boxed [OF read_boxed_types(5) parses_mapc [OF reads_obi_ints(2) refl]]
    preads_boxed [OF read_boxed_types(6) parses_mapc [OF reads_obi_ints(3) refl]]
    preads_boxed [OF read_boxed_types(7) parses_mapc [OF reads_obi_floats(1) refl], of K env d fl]
    preads_boxed [OF read_boxed_types(8) parses_mapc [OF reads_obi_floats(2) refl], of K env d dfl]
  by (simp_all add: typed_boolean_def typed_octet_def typed_char_def typed_int16_def typed_int32_def
      typed_int64_def typed_float32_def typed_float64_def)

lemma preads_simple_objects:
  fixes env :: "'u pof_env"
  shows "length bs < 2 ^ 31 \<Longrightarrow> preads_obj K (next_obj env (Suc d)) (obj_octets (OBinary bs)) (OBinary bs)"
    and "valid_string vs \<Longrightarrow> length vs < 2 ^ 31 \<Longrightarrow>
      preads_obj K (next_obj env (Suc d)) (obj_octets (OString vs)) (OString vs)"
    and "date_ok dt \<Longrightarrow> preads_obj K (next_obj env (Suc d)) (obj_octets (ORawDate dt)) (ORawDate dt)"
    and "time_ok t \<Longrightarrow> preads_obj K (next_obj env (Suc d)) (obj_octets (ORawTime t)) (ORawTime t)"
    and "date_ok dt \<Longrightarrow> time_ok t \<Longrightarrow>
      preads_obj K (next_obj env (Suc d)) (obj_octets (ORawDateTime dt t)) (ORawDateTime dt t)"
    and "check_year_month_interval y m = Inr () \<Longrightarrow>
      preads_obj K (next_obj env (Suc d)) (obj_octets (ORawYearMonthInterval y m)) (ORawYearMonthInterval y m)"
    and "interval_ok ti \<Longrightarrow>
      preads_obj K (next_obj env (Suc d)) (obj_octets (ORawTimeInterval ti)) (ORawTimeInterval ti)"
    and "check_day_time_interval dd h mi s n = Inr () \<Longrightarrow>
      preads_obj K (next_obj env (Suc d)) (obj_octets (ORawDayTimeInterval dd h mi s n)) (ORawDayTimeInterval dd h mi s n)"
proof -
  note simple = preads_simple [OF read_simple_types(1)]
  show "length bs < 2 ^ 31 \<Longrightarrow> preads_obj K (next_obj env (Suc d)) (obj_octets (OBinary bs)) (OBinary bs)"
    using simple [OF _ read_simple_types(2) parses_mapc [OF reads_read_slice refl], of bs K env d]
    by (simp add: typed_octet_string_def)
  show "valid_string vs \<Longrightarrow> length vs < 2 ^ 31 \<Longrightarrow>
      preads_obj K (next_obj env (Suc d)) (obj_octets (OString vs)) (OString vs)"
    using simple [OF _ read_simple_types(3) parses_mapc [OF reads_obi_read_string refl], of "Some vs" K env d]
    by (simp add: typed_char_string_def string_ok_def)
  show "date_ok dt \<Longrightarrow> preads_obj K (next_obj env (Suc d)) (obj_octets (ORawDate dt)) (ORawDate dt)"
    using simple [OF _ read_simple_types(4) parses_mapc [OF reads_read_raw_date refl], of dt K env d] by simp
  show "time_ok t \<Longrightarrow> preads_obj K (next_obj env (Suc d)) (obj_octets (ORawTime t)) (ORawTime t)"
    using simple [OF _ read_simple_types(5) parses_mapc [OF reads_read_raw_time refl], of t K env d] by simp
  show "date_ok dt \<Longrightarrow> time_ok t \<Longrightarrow>
      preads_obj K (next_obj env (Suc d)) (obj_octets (ORawDateTime dt t)) (ORawDateTime dt t)"
    using simple [OF _ read_simple_types(6) parses_bindc [OF reads_read_raw_date
        parses_mapc [OF reads_read_raw_time refl]], of dt t K env d] by simp
  show "check_year_month_interval y m = Inr () \<Longrightarrow>
      preads_obj K (next_obj env (Suc d)) (obj_octets (ORawYearMonthInterval y m)) (ORawYearMonthInterval y m)"
    using simple [OF _ read_simple_types(7) reads_intervals(1), of y m K env d] by simp
  show "interval_ok ti \<Longrightarrow>
      preads_obj K (next_obj env (Suc d)) (obj_octets (ORawTimeInterval ti)) (ORawTimeInterval ti)"
    using simple [OF _ read_simple_types(8) reads_intervals(2), of ti K env d] by simp
  show "check_day_time_interval dd h mi s n = Inr () \<Longrightarrow>
      preads_obj K (next_obj env (Suc d)) (obj_octets (ORawDayTimeInterval dd h mi s n)) (ORawDayTimeInterval dd h mi s n)"
    using simple [OF _ read_simple_types(9) reads_intervals(3), of dd h mi s n K env d] by simp
qed

lemma preads_null: "preads_obj K (next_obj env (Suc d)) (obj_octets ONull) ONull"
proof -
  have "read_as_object env (Suc d) v_reference_null = ret null_ref"
    by (simp add: read_boxed_def read_simple_def is_tiny_int_def word_sle_eq)
  then have "preads K (mapc ref_obj (read_as_object env (Suc d) v_reference_null)) [] ONull"
    by (simp add: null_ref_def parses_ret del: read_as_object.simps)
  then show ?thesis
    unfolding read_next_def mapc_bindc by (simp add: parses_bindc_ret [OF preads_rd_int32] del: read_as_object.simps)
qed

lemma length_concat_member: "x \<in> set xs \<Longrightarrow> length (g x) \<le> length (concat (map g xs))"
  by (induction xs) auto

fun is_container :: "'u pof_obj \<Rightarrow> bool" where
  "is_container (OObjectArray va) \<longleftrightarrow> True"
| "is_container (OCollection vCol) \<longleftrightarrow> True"
| "is_container (OMap vMap) \<longleftrightarrow> True"
| "is_container (OLongArray vla) \<longleftrightarrow> True"
| "is_container _ \<longleftrightarrow> False"

lemma preads_atomic:
  fixes env :: "'u pof_env"
  assumes "obj_readable (pe_key_equals env) v" and "\<not> is_container v" and "length (obj_octets v) \<le> d"
  shows "preads_obj K (next_obj env d) (obj_octets v) v"
proof -
  have "pack_int n \<noteq> []" for n :: "'w::len word" using length_pack_int_pos [of n] by auto
  then have "obj_octets v \<noteq> []"
    using assms(1) by (cases v) (simp_all add: typed_boolean_def typed_octet_def typed_char_def typed_int16_def
      typed_int32_def typed_int64_def typed_float32_def typed_float64_def typed_octet_string_def
      typed_char_string_def array_octets_def complex_header_def)
  with assms(3) obtain d' where d: "d = Suc d'" by (cases d) auto
  show ?thesis
    unfolding d using assms(1,2)
    by (cases v) (simp_all only: obj_readable.simps is_container.simps simp_thms preads_null preads_boxed_objects
        preads_simple_objects, simp_all only: obj_octets.simps preads_primitive_arrays)
qed

lemma preads_next_obj:
  fixes env :: "'u pof_env"
  shows "obj_readable (pe_key_equals env) v \<Longrightarrow> length (obj_octets v) \<le> d \<Longrightarrow>
    preads_obj K (next_obj env d) (obj_octets v) v"
proof (induction v arbitrary: d)
  case (OObjectArray va)
  have small: "length (obj_octets v) < d" if "v \<in> set va" for v
    using OObjectArray.prems(2) length_concat_member [OF that, of obj_octets] length_pack_int_pos [of t_array]
    by (simp add: complex_header_def)
  from OObjectArray.prems(2) length_pack_int_pos [of t_array] obtain d' where d: "d = Suc d'"
    by (cases d) (auto simp: complex_header_def)
  show ?case unfolding d
    using OObjectArray.prems(1) small by (intro preads_object_lists OObjectArray.IH) (auto simp: d less_Suc_eq_le)
next
  case (OCollection va)
  have small: "length (obj_octets v) < d" if "v \<in> set va" for v
    using OCollection.prems(2) length_concat_member [OF that, of obj_octets] length_pack_int_pos [of t_collection]
    by (simp add: complex_header_def)
  from OCollection.prems(2) length_pack_int_pos [of t_collection] obtain d' where d: "d = Suc d'"
    by (cases d) (auto simp: complex_header_def)
  show ?case unfolding d
    using OCollection.prems(1) small by (intro preads_object_lists OCollection.IH) (auto simp: d less_Suc_eq_le)
next
  case (OMap vm)
  have small: "length (obj_octets k) < d \<and> length (obj_octets v) < d" if "(k, v) \<in> set vm" for k v
    using OMap.prems(2) length_concat_member [OF that, of "\<lambda>(k, v). obj_octets k @ obj_octets v"]
      length_pack_int_pos [of t_map] by (simp add: complex_header_def)
  from OMap.prems(2) length_pack_int_pos [of t_map] obtain d' where d: "d = Suc d'"
    by (cases d) (auto simp: complex_header_def)
  have "preads_obj K (next_obj env d') (obj_octets k) k \<and> preads_obj K (next_obj env d') (obj_octets v) v"
    if kv: "(k, v) \<in> set vm" for k v
    using OMap.IH [OF kv, of k d'] OMap.IH [OF kv, of v d'] OMap.prems(1) small [OF kv] kv by (auto simp: d)
  with OMap.prems(1) show ?case unfolding d by (intro preads_map) auto
next
  case (OLongArray vla)
  have small: "length (obj_octets v) < d" if "(j, v) \<in> set vla" for j v
    using OLongArray.prems(2) length_pack_int_pos [of t_sparse_array]
      length_concat_member [OF that, of "\<lambda>(i, v). pack_int (of_int i :: int32_t) @ obj_octets v"]
    by (simp add: complex_header_def)
  from OLongArray.prems(2) length_pack_int_pos [of t_sparse_array] obtain d' where d: "d = Suc d'"
    by (cases d) (auto simp: complex_header_def)
  have "preads_obj K (next_obj env d') (obj_octets v) v" if jv: "(j, v) \<in> set vla" for j v
    using OLongArray.IH [OF jv, of v d'] OLongArray.prems(1) small [OF jv] jv by (auto simp: d)
  with OLongArray.prems(1) show ?case unfolding d by (intro preads_long_array) auto
qed (rule preads_atomic; simp)+


section \<open>Whole properties\<close>

lemma obj_octets_type:
  assumes "obj_readable eq v"
  obtains t bs where "obj_octets v = pack_int t @ bs" and "t \<noteq> t_identity" and "t \<noteq> t_reference"
proof -
  have "\<exists>t bs. obj_octets v = pack_int t @ bs \<and> t \<noteq> t_identity \<and> t \<noteq> t_reference"
  proof (cases v)
    case ONull
    then show ?thesis by (intro exI [of _ v_reference_null] exI [of _ "[]"]) simp
  next
    case (OUser u)
    with assms show ?thesis by simp
  qed (simp only: obj_octets.simps typed_boolean_def typed_octet_def typed_char_def typed_int16_def typed_int32_def
        typed_int64_def typed_float32_def typed_float64_def typed_octet_string_def typed_char_string_def
        array_octets_def complex_header_def append_assoc if_False simp_thms option.case, rule exI, rule exI,
        rule conjI, rule refl, simp)+
  with that show ?thesis by blast
qed

text \<open>
  \<^verbatim>\<open>readObject\<close> at a depth of its own, and at the depth it chooses: the octets of the
  object are enough.
\<close>

lemma preads_read_object_at:
  fixes env :: "'u pof_env"
  assumes i: "\<not> 0 <s i" and v: "obj_readable (pe_key_equals env) v" and n: "length (obj_octets v) \<le> Suc n"
  shows "preads_obj K (read_object_at env (Suc n) (Suc m) i) (obj_octets v) v"
proof (rule parsesI)
  fix s :: "'u pof_reader" and rest
  assume s: "settled K s" "bi_rem (pr_in s) = obj_octets v @ rest"
  from obj_octets_type [OF v] obtain t bs where
    t: "obj_octets v = pack_int t @ bs" "t \<noteq> t_identity" "t \<noteq> t_reference" .
  from s have "bi_rem (pr_in s) = pack_int t @ (bs @ rest)" by (simp add: t(1))
  from parsesE [where good = "settled K", OF preads_rd_int32 s(1) this] obtain u where u: "rd_int32 s = (Inr t, u)" .
  have bind: "bindc rd_int32 k s = k t u" for k :: "int32_t \<Rightarrow> ('u, 'u pof_ref) reading"
    using u by (simp add: bindc_def)
  have "read_as_object env (Suc n) v_reference_null = ret null_ref"
    by (simp add: read_boxed_def read_simple_def is_tiny_int_def word_sle_eq)
  with i t(2,3) have "read_object_at env (Suc n) (Suc m) i s = next_obj env (Suc n) s"
    by (simp add: advance_to_def read_next_def bind del: read_as_object.simps)
  then have "mapc ref_obj (read_object_at env (Suc n) (Suc m) i) s = mapc ref_obj (next_obj env (Suc n)) s"
    by (simp add: mapc_def bindc_def del: read_object_at.simps)
  with parsesE [where good = "settled K", OF preads_next_obj [OF v n] s] show
    "\<exists>t. mapc ref_obj (read_object_at env (Suc n) (Suc m) i) s = (Inr v, t) \<and> settled K t \<and> bi_rem (pr_in t) = rest"
    by metis
qed

lemma preads_read_object:
  fixes env :: "'u pof_env"
  assumes i: "\<not> 0 <s i" and v: "obj_readable (pe_key_equals env) v"
  shows "preads_obj K (read_object env i) (obj_octets v) v"
proof (rule parsesI)
  fix s :: "'u pof_reader" and rest
  assume s: "settled K s" "bi_rem (pr_in s) = obj_octets v @ rest"
  have "mapc ref_obj (read_object env i) s = mapc ref_obj (read_object_at env (read_depth s) (read_depth s) i) s"
    by (simp add: mapc_def bindc_def read_object_def)
  moreover have "length (obj_octets v) \<le> read_depth s" using s(2) by (simp add: read_depth_def)
  ultimately show "\<exists>t. mapc ref_obj (read_object env i) s = (Inr v, t) \<and> settled K t \<and> bi_rem (pr_in t) = rest"
    using preads_read_object_at [OF i v, of "length (bi_rem (pr_in s))" K "length (bi_rem (pr_in s))"] s
    by (auto simp: read_depth_def elim: parsesE)
qed

end
