(* ===== verification/Pof_Skip.thy ===== *)
theory Pof_Skip
  imports Pof_Roundtrip
begin

text \<open>
  What \<^verbatim>\<open>PofHelper::skipValue\<close> skips: exactly the octets \<^verbatim>\<open>PofBufferWriter\<close> writes for
  an object, except that the end marker of a sparse array is left behind when the array has
  no gap.
\<close>

section \<open>Skipping the parts\<close>

lemma reads_skip_octets:
  "\<not> bit b 7 \<Longrightarrow> length (pack_loop b un) \<le> n \<Longrightarrow> reads (skip_octets n) (pack_loop b un) ()"
proof (induction b un arbitrary: n rule: pack_loop.induct)
  case (1 b un)
  then obtain n' where n: "n = Suc n'" by (cases n) (auto simp: pack_loop_nonzero)
  show ?case
  proof (cases "un = 0")
    case True
    with 1 n show ?thesis by (auto simp: octet_high_clear intro!: parses_bindc_ret [OF reads_obi_read])
  next
    case False
    have "(b OR 0x80) AND 0x80 \<noteq> (0 :: octet_t)" using octet_high_clear [of "b OR 0x80"] by simp
    moreover have "reads (skip_octets n') (pack_loop (ucast (un AND 0x7F)) (drop_bit 7 un)) ()"
      using 1 n False by (intro "1.IH") (simp_all add: pack_loop_nonzero)
    ultimately show ?thesis
      using n False by (simp add: pack_loop_nonzero) (rule obi.parses_rd_bindc, simp)
  qed
qed

lemma reads_skip_int: "reads skip_int (pack_int n) ()"
  unfolding skip_int_def
proof (rule parses_state [where m = "\<lambda>s. skip_octets (Suc (length (bi_rem s)))"])
  fix s rest
  assume rem: "bi_rem s = pack_int n @ rest"
  have "\<not> bit ((if n <s 0 then 0x40 else 0) OR (ucast (if n <s 0 then NOT n else n) AND 0x3F) :: octet_t) 7"
    by (simp add: packed_bits bit_simps)
  then show "reads (skip_octets (Suc (length (bi_rem s)))) (pack_int n) ()"
    unfolding pack_int_def Let_def using rem by (intro reads_skip_octets) (simp_all add: pack_int_def Let_def)
qed

lemma reads_skip_ints:
  "reads (skip_ints 0) [] ()"
  "reads (skip_ints c) bs () \<Longrightarrow> reads (skip_ints (Suc c)) (pack_int n @ bs) ()"
  "reads (skip_ints (Suc 0)) (pack_int n) ()"
  using parses_seqc [OF reads_skip_int, of _ "[]" "()" n] by (auto intro: parses_seqc reads_skip_int)

lemma reads_abi_skip:
  assumes "k = length bs" and "k < npos"
  shows "reads (abi_skip k) bs ()"
proof (rule parsesI)
  fix s rest
  assume ok: "bi_ok s" and rem: "bi_rem s = bs @ rest"
  note app = bi_rem_append [OF ok rem]
  have "size_sub (bi_length s) (bi_of s) = bi_length s - bi_of s" "size_add (bi_of s) k = bi_of s + k"
    using app(1) bi_ok_bounds [OF ok] assms by (simp_all add: bi_length_def)
  moreover have "\<not> bi_length s - bi_of s < k" using app(1) assms(1) by (simp add: bi_length_def)
  ultimately show "\<exists>t. abi_skip k s = (Inr (), t) \<and> bi_ok t \<and> bi_rem t = rest"
    using app assms(1) by (simp add: abi_skip_def get_offset_def bi_get_def bindc_def set_offset_internal_def)
qed

lemma reads_repeatc:
  assumes "\<And>x. x \<in> set xs \<Longrightarrow> reads m (g x) ()" and "k = length xs"
  shows "reads (repeatc k m) (concat (map g xs)) ()"
proof -
  have "list_all2 (reads m) (map g xs) (map (\<lambda>_. ()) xs)"
    using assms(1) by (induction xs) auto
  from parses_replicatec [OF this, of k] assms(2) show ?thesis
    unfolding repeatc_def by (auto intro: parses_mapc)
qed

lemma reads_skip_char: "reads skip_char (encode_char16 ch) ()"
proof (cases ch rule: encode_char16_cases)
  case (one b)
  with lead_octet_classes_utf8 [of b] have "\<not> (b AND 0xF0 = 0xC0 \<or> b AND 0xF0 = 0xD0)" "b AND 0xF0 \<noteq> 0xE0" by auto
  with one show ?thesis unfolding skip_char_def by (auto intro!: parses_bindc_ret [OF reads_obi_read])
next
  case (two b b2)
  with lead_octet_classes_utf8 [of b] have "b AND 0xF0 = 0xC0 \<or> b AND 0xF0 = 0xD0" by auto
  with two show ?thesis
    unfolding skip_char_def by (auto intro!: obi.parses_rd_bindc reads_abi_skip simp: npos_def size_max_def)
next
  case (three b b2 b3)
  with lead_octet_classes_utf8 [of b] have "\<not> (b AND 0xF0 = 0xC0 \<or> b AND 0xF0 = 0xD0)" "b AND 0xF0 = 0xE0" by auto
  with three show ?thesis
    unfolding skip_char_def by (auto intro!: obi.parses_rd_bindc reads_abi_skip simp: npos_def size_max_def)
qed

lemma reads_skip_string:
  assumes "length bs < 2 ^ 31"
  shows "reads skip_string (pack_int (of_nat (length bs) :: int32_t) @ bs) ()"
proof -
  have "(of_nat (length bs) :: int32_t) \<noteq> v_reference_null"
    using int32_of_nat(1) [OF assms] by (auto simp: word_sless_alt)
  with assms have "reads (if of_nat (length bs) = v_reference_null then ret ()
      else bindc (bi_lift (validate_incoming_size (of_nat (length bs) :: int32_t))) abi_skip) bs ()"
    using parses_bindc [OF reads_bi_lift [OF validate_incoming_size_ok [OF assms]], of abi_skip bs "()"]
    by (simp add: reads_abi_skip npos_def size_max_def)
  then show ?thesis unfolding skip_string_def by (rule parses_bindc [OF reads_obi_ints(2)])
qed

lemma reads_skip_date: "reads (skip_ints 3) (raw_date_octets d) ()"
  unfolding raw_date_octets_def date_octets_def numeral_3_eq_3 by (intro reads_skip_ints)

lemma reads_skip_time: "reads skip_time (raw_time_octets t) ()"
proof -
  have four: "reads (skip_ints 4) (pack_int a @ pack_int b @ pack_int c @ pack_int d) ()"
    for a b c d :: int32_t
    unfolding numeral_nat by (intro reads_skip_ints)
  have two: "reads (skip_ints 2) (pack_int a @ pack_int b) ()" for a b :: int32_t
    unfolding numeral_nat by (intro reads_skip_ints)
  have "reads (bindc obi_read_int32 (\<lambda>z. if z = 2 then skip_ints 2 else ret ()))
      (pack_int z @ (if z = 2 then pack_int a @ pack_int b else [])) ()" for z a b :: int32_t
    by (rule parses_bindc [OF reads_obi_ints(2)]) (auto simp: two)
  note all = parses_seqc [OF four this]
  have "reads skip_time (time_octets h m s n z a b) ()" if "z \<in> {0, 1, 2}" for h m s n z a b
  proof -
    have "[ucast z] = pack_int z" using that zone_octet by blast
    with all [of h m s "time_fraction n" z a b] show ?thesis
      unfolding skip_time_def time_octets_def by simp
  qed
  then show ?thesis unfolding raw_time_octets_def by (cases "rt_zone t") simp_all
qed

section \<open>Skipping values of a known type\<close>

lemma reads_skip_typed:
  assumes "t \<noteq> t_identity" and "reads (skip_uniform_value n t) bs ()"
  shows "reads (skip_value (Suc n)) (pack_int t @ bs) ()"
  using assms by (auto intro!: parses_bindc [OF reads_obi_ints(2)])

lemma reads_skip_uniform:
  "reads (skip_uniform_value (Suc n) t_int16) (pack_int n16) ()"
  "reads (skip_uniform_value (Suc n) t_int32) (pack_int n32) ()"
  "reads (skip_uniform_value (Suc n) t_int64) (pack_int n64) ()"
  "reads (skip_uniform_value (Suc n) t_boolean) (bool_octets b) ()"
  "reads (skip_uniform_value (Suc n) t_octet) [oc] ()"
  "reads (skip_uniform_value (Suc n) t_char) (encode_char16 ch) ()"
  "reads (skip_uniform_value (Suc n) t_float32) (split4 fl) ()"
  "reads (skip_uniform_value (Suc n) t_float64) (split8 dfl) ()"
  "reads (skip_uniform_value (Suc n) v_reference_null) [] ()"
  by (auto simp: skip_uniform_value.simps bool_octets_def npos_def size_max_def simp del: skip_ints.simps
      intro!: reads_skip_ints reads_abi_skip reads_skip_char)

lemma skip_uniform_types:
  "skip_uniform_value (Suc n) t_octet_string = skip_string"
  "skip_uniform_value (Suc n) t_char_string = skip_string"
  "skip_uniform_value (Suc n) t_date = skip_ints 3"
  "skip_uniform_value (Suc n) t_time = skip_time"
  "skip_uniform_value (Suc n) t_datetime = seqc (skip_ints 3) skip_time"
  "skip_uniform_value (Suc n) t_year_month_interval = skip_ints 2"
  "skip_uniform_value (Suc n) t_time_interval = skip_ints 4"
  "skip_uniform_value (Suc n) t_day_time_interval = skip_ints 5"
  by (simp_all add: skip_uniform_value.simps)

lemma reads_skip_uniform_values:
  "length bs < 2 ^ 31 \<Longrightarrow>
    reads (skip_uniform_value (Suc n) t_octet_string) (pack_int (of_nat (length bs) :: int32_t) @ bs) ()"
  "length bs < 2 ^ 31 \<Longrightarrow>
    reads (skip_uniform_value (Suc n) t_char_string) (pack_int (of_nat (length bs) :: int32_t) @ bs) ()"
  "reads (skip_uniform_value (Suc n) t_date) (raw_date_octets d) ()"
  "reads (skip_uniform_value (Suc n) t_time) (raw_time_octets t) ()"
  "reads (skip_uniform_value (Suc n) t_datetime) (raw_date_octets d @ raw_time_octets t) ()"
  "reads (skip_uniform_value (Suc n) t_year_month_interval) (pack_int i1 @ pack_int i2) ()"
  "reads (skip_uniform_value (Suc n) t_time_interval) (pack_int i1 @ pack_int i2 @ pack_int i3 @ pack_int i4) ()"
  "reads (skip_uniform_value (Suc n) t_day_time_interval)
     (pack_int i1 @ pack_int i2 @ pack_int i3 @ pack_int i4 @ pack_int i5) ()"
  for i1 i2 i3 i4 i5 :: int32_t
  unfolding skip_uniform_types
  by (intro reads_skip_string reads_skip_date reads_skip_time parses_seqc; assumption?)+
    (unfold numeral_nat, (rule reads_skip_ints)+)

lemma reads_skip_counted:
  assumes "\<And>x. x \<in> set xs \<Longrightarrow> reads m (g x) ()" and "length xs < 2 ^ 31"
  shows "reads (bindc (bi_incoming obi_read_int32) (\<lambda>c. repeatc c m))
    (pack_int (of_nat (length xs) :: int32_t) @ concat (map g xs)) ()"
  using assms by (intro parses_bindc [OF reads_incoming] reads_repeatc) auto

lemma reads_skip_array:
  assumes "\<And>x. x \<in> set xs \<Longrightarrow> reads (skip_uniform_value n t) (g x) ()" and "length xs < 2 ^ 31"
  shows "reads (skip_value (Suc (Suc n))) (array_octets t g xs) ()"
proof -
  have "reads (skip_uniform_value (Suc n) t_uniform_array)
      (pack_int t @ pack_int (of_nat (length xs) :: int32_t) @ concat (map g xs)) ()"
    unfolding skip_uniform_value.simps
    by simp (intro parses_bindc [OF reads_obi_ints(2)] reads_skip_counted assms)
  from reads_skip_typed [OF _ this] show ?thesis by (simp add: array_octets_def complex_header_def)
qed

text \<open>The positions of a sparse array that has room for more.\<close>

lemma reads_skip_positions:
  assumes "\<And>i v. (i, v) \<in> set vla \<Longrightarrow> reads m (g v) () \<and> \<not> (of_int i :: int32_t) <s 0"
    and "length vla < c"
  shows "reads (skip_positions c m)
    (concat (map (\<lambda>(i, v). pack_int (of_int i :: int32_t) @ g v) vla) @ pack_int (- 1 :: int32_t)) ()"
  using assms
proof (induction vla arbitrary: c)
  case Nil
  then obtain c' where c: "c = Suc c'" by (cases c) auto
  have "reads (skip_positions c m) (pack_int (- 1 :: int32_t) @ []) ()"
    unfolding c skip_positions.simps by (rule parses_bindc [OF reads_obi_ints(2)]) (auto simp: word_sless_alt)
  then show ?case by simp
next
  case (Cons p vla)
  obtain i v where p: "p = (i, v)" by (rule prod.exhaust)
  from Cons.prems(2) obtain c' where c: "c = Suc c'" by (cases c) auto
  have "reads (skip_positions c' m)
      (concat (map (\<lambda>(i, v). pack_int (of_int i :: int32_t) @ g v) vla) @ pack_int (- 1 :: int32_t)) ()"
    using Cons.prems c by (intro Cons.IH) auto
  from parses_seqc [OF conjunct1 [OF Cons.prems(1) [of i v]] this] p Cons.prems(1) [of i v]
  have "reads (skip_positions c m) (pack_int (of_int i :: int32_t) @ (g v @
      concat (map (\<lambda>(i, v). pack_int (of_int i :: int32_t) @ g v) vla) @ pack_int (- 1 :: int32_t))) ()"
    unfolding c skip_positions.simps by (intro parses_bindc [OF reads_obi_ints(2)]) simp
  with p show ?case by simp
qed

text \<open>The positions of a sparse array without a gap: the loop ends with the last of them.\<close>

lemma reads_skip_positions_dense:
  assumes "\<And>i v. (i, v) \<in> set vla \<Longrightarrow> reads m (g v) () \<and> \<not> (of_int i :: int32_t) <s 0"
  shows "reads (skip_positions (length vla) m)
    (concat (map (\<lambda>(i, v). pack_int (of_int i :: int32_t) @ g v) vla)) ()"
  using assms
proof (induction vla)
  case (Cons p vla)
  obtain i v where p: "p = (i, v)" by (rule prod.exhaust)
  have "reads (skip_positions (length vla) m) (concat (map (\<lambda>(i, v). pack_int (of_int i :: int32_t) @ g v) vla)) ()"
    using Cons.prems by (intro Cons.IH) auto
  from parses_seqc [OF conjunct1 [OF Cons.prems(1) [of i v]] this] p Cons.prems(1) [of i v]
  have "reads (skip_positions (Suc (length vla)) m) (pack_int (of_int i :: int32_t) @ (g v @
      concat (map (\<lambda>(i, v). pack_int (of_int i :: int32_t) @ g v) vla))) ()"
    unfolding skip_positions.simps by (intro parses_bindc [OF reads_obi_ints(2)]) simp
  with p show ?case by simp
qed auto

section \<open>Skipping objects\<close>

text \<open>Every sparse array in the object has fewer entries than its size.\<close>

fun obj_gapped :: "'u pof_obj \<Rightarrow> bool" where
  "obj_gapped (OObjectArray va) \<longleftrightarrow> (\<forall>v\<in>set va. obj_gapped v)"
| "obj_gapped (OCollection vCol) \<longleftrightarrow> (\<forall>v\<in>set vCol. obj_gapped v)"
| "obj_gapped (OMap vMap) \<longleftrightarrow> (\<forall>(k, v)\<in>set vMap. obj_gapped k \<and> obj_gapped v)"
| "obj_gapped (OLongArray vla) \<longleftrightarrow>
     int (length vla) < la_last_index vla + 1 \<and> (\<forall>(i, v)\<in>set vla. obj_gapped v)"
| "obj_gapped _ \<longleftrightarrow> True"

lemma length_pack_ge1: "Suc 0 \<le> length (pack_int n)"
  using length_pack_int_pos [of n] by simp

lemma reads_skip_null: "reads (skip_value (Suc (Suc m))) (pack_int v_reference_null) ()"
  using reads_skip_typed [OF _ reads_skip_uniform(9)] by simp

lemma reads_skip_scalars:
  fixes f b ch n16 n32 n64 fl dfl
  shows "reads (skip_value (Suc (Suc m))) (obj_octets ONull) ()"
    and "reads (skip_value (Suc (Suc m))) (obj_octets (OBoolean f)) ()"
    and "reads (skip_value (Suc (Suc m))) (obj_octets (OOctet b)) ()"
    and "reads (skip_value (Suc (Suc m))) (obj_octets (OChar16 ch)) ()"
    and "reads (skip_value (Suc (Suc m))) (obj_octets (OInteger16 n16)) ()"
    and "reads (skip_value (Suc (Suc m))) (obj_octets (OInteger32 n32)) ()"
    and "reads (skip_value (Suc (Suc m))) (obj_octets (OInteger64 n64)) ()"
    and "reads (skip_value (Suc (Suc m))) (obj_octets (OFloat32 fl)) ()"
    and "reads (skip_value (Suc (Suc m))) (obj_octets (OFloat64 dfl)) ()"
  unfolding obj_octets.simps typed_boolean_def typed_octet_def typed_char_def typed_int16_def
    typed_int32_def typed_int64_def typed_float32_def typed_float64_def if_False simp_thms option.case
  by (rule reads_skip_null) (rule reads_skip_typed, simp, rule reads_skip_uniform)+

lemma reads_skip_texts:
  "length bs < 2 ^ 31 \<Longrightarrow> reads (skip_value (Suc (Suc m))) (obj_octets (OBinary bs)) ()"
  "length vs < 2 ^ 31 \<Longrightarrow> reads (skip_value (Suc (Suc m))) (obj_octets (OString vs)) ()"
  "reads (skip_value (Suc (Suc m))) (obj_octets (ORawDate d)) ()"
  "reads (skip_value (Suc (Suc m))) (obj_octets (ORawTime t)) ()"
  "reads (skip_value (Suc (Suc m))) (obj_octets (ORawDateTime d t)) ()"
  "reads (skip_value (Suc (Suc m))) (obj_octets (ORawYearMonthInterval y mo)) ()"
  "reads (skip_value (Suc (Suc m))) (obj_octets (ORawTimeInterval ti)) ()"
  "reads (skip_value (Suc (Suc m))) (obj_octets (ORawDayTimeInterval da h mi se n)) ()"
  unfolding obj_octets.simps typed_octet_string_def typed_char_string_def string_octets_def
    if_False simp_thms option.case
  by (rule reads_skip_typed, simp, rule reads_skip_uniform_values, assumption?)+

lemma reads_skip_arrays:
  "length a1 < 2 ^ 31 \<Longrightarrow> reads (skip_value (Suc (Suc (Suc m)))) (obj_octets (OBooleanArray a1)) ()"
  "length a2 < 2 ^ 31 \<Longrightarrow> reads (skip_value (Suc (Suc (Suc m)))) (obj_octets (OOctetArray a2)) ()"
  "length a3 < 2 ^ 31 \<Longrightarrow> reads (skip_value (Suc (Suc (Suc m)))) (obj_octets (OChar16Array a3)) ()"
  "length a4 < 2 ^ 31 \<Longrightarrow> reads (skip_value (Suc (Suc (Suc m)))) (obj_octets (OInt16Array a4)) ()"
  "length a5 < 2 ^ 31 \<Longrightarrow> reads (skip_value (Suc (Suc (Suc m)))) (obj_octets (OInt32Array a5)) ()"
  "length a6 < 2 ^ 31 \<Longrightarrow> reads (skip_value (Suc (Suc (Suc m)))) (obj_octets (OInt64Array a6)) ()"
  "length a7 < 2 ^ 31 \<Longrightarrow> reads (skip_value (Suc (Suc (Suc m)))) (obj_octets (OFloat32Array a7)) ()"
  "length a8 < 2 ^ 31 \<Longrightarrow> reads (skip_value (Suc (Suc (Suc m)))) (obj_octets (OFloat64Array a8)) ()"
  unfolding obj_octets.simps by (rule reads_skip_array, rule reads_skip_uniform, assumption)+

text \<open>Containers, whose elements are skipped one level deeper.\<close>

lemma reads_skip_elements:
  assumes "\<And>v. v \<in> set va \<Longrightarrow> reads (skip_value n) (obj_octets v) ()" and "length va < 2 ^ 31"
  shows "reads (skip_value (Suc (Suc n))) (obj_octets (OObjectArray va)) ()"
    and "reads (skip_value (Suc (Suc n))) (obj_octets (OCollection va)) ()"
proof -
  have "reads (skip_uniform_value (Suc n) t) (pack_int (of_nat (length va) :: int32_t) @ concat (map obj_octets va)) ()"
    if "t \<in> {t_array, t_collection}" for t
    using that reads_skip_counted [OF assms] by (auto simp: skip_uniform_value.simps)
  then show "reads (skip_value (Suc (Suc n))) (obj_octets (OObjectArray va)) ()"
    "reads (skip_value (Suc (Suc n))) (obj_octets (OCollection va)) ()"
    using reads_skip_typed [of t_array "Suc n"] reads_skip_typed [of t_collection "Suc n"]
    by (simp_all add: complex_header_def del: skip_value.simps)
qed

lemma reads_skip_map:
  assumes "\<And>k v. (k, v) \<in> set vm \<Longrightarrow>
      reads (skip_value n) (obj_octets k) () \<and> reads (skip_value n) (obj_octets v) ()" and "length vm < 2 ^ 31"
  shows "reads (skip_value (Suc (Suc n))) (obj_octets (OMap vm)) ()"
proof -
  have "reads (seqc (skip_value n) (skip_value n)) ((\<lambda>(k, v). obj_octets k @ obj_octets v) p) ()"
    if "p \<in> set vm" for p
    using assms(1) [of "fst p" "snd p"] that by (cases p) (auto intro: parses_seqc)
  from reads_skip_counted [OF this assms(2)] reads_skip_typed [of t_map "Suc n"] show ?thesis
    by (simp add: skip_uniform_value.simps complex_header_def del: skip_value.simps)
qed

lemma reads_skip_long_array:
  assumes "\<And>i v. (i, v) \<in> set vla \<Longrightarrow> reads (skip_value n) (obj_octets v) ()"
    and la: "long_array_ok vla" and gap: "int (length vla) < la_last_index vla + 1"
  shows "reads (skip_value (Suc (Suc n))) (obj_octets (OLongArray vla)) ()"
proof -
  let ?n = "nat (la_last_index vla + 1)"
  have n: "?n < 2 ^ 31" using long_array_bounds [OF la] by simp
  have "\<not> (of_int i :: int32_t) <s 0" if "(i, v) \<in> set vla" for i v
    using la that int32_of_int_nonneg [of i] by (force simp: long_array_ok_def word_sless_alt word_sle_eq)
  with assms(1) gap have "reads (skip_positions ?n (skip_value n))
      (concat (map (\<lambda>(i, v). pack_int (of_int i :: int32_t) @ obj_octets v) vla) @ pack_int (- 1 :: int32_t)) ()"
    by (intro reads_skip_positions) auto
  then have "reads (bindc (bi_incoming obi_read_int32) (\<lambda>c. skip_positions c (skip_value n)))
      (pack_int (of_nat ?n :: int32_t) @
       concat (map (\<lambda>(i, v). pack_int (of_int i :: int32_t) @ obj_octets v) vla) @ pack_int (- 1 :: int32_t)) ()"
    by (rule parses_bindc [OF reads_incoming [OF n]])
  with reads_skip_typed [of t_sparse_array "Suc n"] show ?thesis
    by (simp add: skip_uniform_value.simps complex_header_def del: skip_value.simps)
qed

lemma length_array_octets: "\<not> length (array_octets t g xs) < 3"
  using length_pack_ge1 [of t_uniform_array] length_pack_ge1 [of t] length_pack_ge1 [of "of_nat (length xs) :: int32_t"]
  by (simp add: array_octets_def complex_header_def)

lemma arrays_long:
  "\<not> length (obj_octets (OBooleanArray a1)) < 3"
  "\<not> length (obj_octets (OOctetArray a2)) < 3"
  "\<not> length (obj_octets (OChar16Array a3)) < 3"
  "\<not> length (obj_octets (OInt16Array a4)) < 3"
  "\<not> length (obj_octets (OInt32Array a5)) < 3"
  "\<not> length (obj_octets (OInt64Array a6)) < 3"
  "\<not> length (obj_octets (OFloat32Array a7)) < 3"
  "\<not> length (obj_octets (OFloat64Array a8)) < 3"
  by (simp_all only: obj_octets.simps length_array_octets not_False_eq_True)

lemma reads_skip_atomic:
  assumes "obj_sized v" and "\<not> is_container v" and "length (obj_octets v) < n"
  shows "reads (skip_value n) (obj_octets v) ()"
proof -
  have "obj_octets v \<noteq> []" using assms(1,2)
    by (cases v) (auto simp: typed_boolean_def typed_octet_def typed_char_def typed_int16_def typed_int32_def
        typed_int64_def typed_float32_def typed_float64_def typed_octet_string_def typed_char_string_def
        array_octets_def complex_header_def)
  then have "0 < length (obj_octets v)" by blast
  with assms(3) consider (long) m where "n = Suc (Suc (Suc m))"
    | (short) m where "n = Suc (Suc m)" "length (obj_octets v) < 3"
    by (cases n; cases "n - 1"; cases "n - 2") auto
  then show ?thesis
  proof cases
    case long
    with assms(1,2) show ?thesis
      by (cases v) (simp_all only: obj_sized.simps is_container.simps reads_skip_scalars reads_skip_texts
          reads_skip_arrays simp_thms)
  next
    case short
    with assms(1,2) show ?thesis
      by (cases v) (simp_all only: obj_sized.simps is_container.simps reads_skip_scalars reads_skip_texts
          arrays_long simp_thms)
  qed
qed

text \<open>The recursion depth the octets of an object need is below their number.\<close>

lemma container_depth:
  assumes "length (complex_header t ts c @ bs) < n" and "length cs \<le> length bs"
  shows "\<exists>m. n = Suc (Suc m) \<and> length cs < m"
proof -
  have "2 \<le> length (complex_header t ts c)"
    using length_pack_ge1 [of t] length_pack_ge1 [of "of_nat c :: int32_t"] by (simp add: complex_header_def)
  with assms show ?thesis by (cases n; cases "n - 1") auto
qed

lemma reads_skip_value:
  "obj_sized v \<Longrightarrow> obj_gapped v \<Longrightarrow> length (obj_octets v) < n \<Longrightarrow> reads (skip_value n) (obj_octets v) ()"
proof (induction v arbitrary: n)
  case (OObjectArray va)
  from OObjectArray.prems(3) container_depth [of t_array "[]" "length va" "concat (map obj_octets va)" n "concat (map obj_octets va)"]
  obtain m where m: "n = Suc (Suc m)" "length (concat (map obj_octets va)) < m" by auto
  have "reads (skip_value m) (obj_octets v) ()" if "v \<in> set va" for v
    using OObjectArray.IH [OF that] OObjectArray.prems that m(2) length_concat_member [OF that, of obj_octets] by auto
  with OObjectArray.prems m(1) show ?case by (auto simp del: obj_octets.simps skip_value.simps intro: reads_skip_elements)
next
  case (OCollection va)
  from OCollection.prems(3) container_depth [of t_collection "[]" "length va" "concat (map obj_octets va)" n "concat (map obj_octets va)"]
  obtain m where m: "n = Suc (Suc m)" "length (concat (map obj_octets va)) < m" by auto
  have "reads (skip_value m) (obj_octets v) ()" if "v \<in> set va" for v
    using OCollection.IH [OF that] OCollection.prems that m(2) length_concat_member [OF that, of obj_octets] by auto
  with OCollection.prems m(1) show ?case by (auto simp del: obj_octets.simps skip_value.simps intro: reads_skip_elements)
next
  case (OMap vm)
  let ?g = "\<lambda>(k, v). obj_octets k @ obj_octets v"
  from OMap.prems(3) container_depth [of t_map "[]" "length vm" "concat (map ?g vm)" n "concat (map ?g vm)"]
  obtain m where m: "n = Suc (Suc m)" "length (concat (map ?g vm)) < m" by auto
  have "reads (skip_value m) (obj_octets k) () \<and> reads (skip_value m) (obj_octets v) ()" if "(k, v) \<in> set vm" for k v
    using OMap.IH [OF that, of k m] OMap.IH [OF that, of v m] OMap.prems that m(2)
      length_concat_member [OF that, of ?g] by auto
  with OMap.prems m(1) show ?case by (auto simp del: obj_octets.simps skip_value.simps intro: reads_skip_map)
next
  case (OLongArray vla)
  let ?g = "\<lambda>(i, v). pack_int (of_int i :: int32_t) @ obj_octets v"
  from OLongArray.prems(3) container_depth [of t_sparse_array "[]" "nat (la_last_index vla + 1)"
      "concat (map ?g vla) @ pack_int (- 1 :: int32_t)" n "concat (map ?g vla)"]
  obtain m where m: "n = Suc (Suc m)" "length (concat (map ?g vla)) < m" by auto
  have "reads (skip_value m) (obj_octets v) ()" if "(i, v) \<in> set vla" for i v
    using OLongArray.IH [OF that, of v m] OLongArray.prems that m(2)
      length_concat_member [OF that, of ?g] by auto
  with OLongArray.prems m(1) show ?case by (auto simp del: obj_octets.simps skip_value.simps intro: reads_skip_long_array)
qed (rule reads_skip_atomic; simp)+

end
