(* ===== verification/Pof_Property_Roundtrip.thy ===== *)
theory Pof_Property_Roundtrip
  imports Pof_Skip
begin

text \<open>
  The typed methods of \<^verbatim>\<open>PofBufferReader\<close> on what the typed methods of
  \<^verbatim>\<open>PofBufferWriter\<close> write: arrays, binaries, strings, dates and intervals; and the sharing
  of objects by the registry of identities.
\<close>

section \<open>Properties that may be shared\<close>

lemma preads_property:
  assumes i: "\<not> 0 <s i" and t: "t \<notin> {t_identity, t_reference, v_reference_null}"
    and body: "preads_obj K (body t) bs v"
  shows "preads_obj K (read_property refer body i :: ('u, 'u pof_ref) reading) (pack_int t @ bs) v"
proof -
  have "preads_obj K (read_shared (Suc d) refer body i) (pack_int t @ bs) v" for d
    using i t body by (simp add: advance_to_def mapc_bindc) (rule parses_bindc [OF preads_rd_int32], simp)
  then have "preads K (\<lambda>r. mapc ref_obj (read_shared (read_depth r) refer body i) r) (pack_int t @ bs) v"
    by (intro parses_state [where m = "\<lambda>r. mapc ref_obj (read_shared (read_depth r) refer body i)"])
      (simp add: read_depth_def)
  moreover have "(\<lambda>r. mapc ref_obj (read_shared (read_depth r) refer body i) r) = mapc ref_obj (read_property refer body i)"
    by (rule ext) (simp add: mapc_def bindc_def read_property_def)
  ultimately show ?thesis by simp
qed

lemma preads_property_null:
  assumes i: "\<not> 0 <s i"
  shows "preads_obj K (read_property refer body i :: ('u, 'u pof_ref) reading) (pack_int v_reference_null) ONull"
proof -
  have "preads_obj K (read_shared (Suc d) refer body i) (pack_int v_reference_null) ONull" for d
    using i by (simp add: advance_to_def mapc_bindc)
      (rule parses_bindc_ret [OF preads_rd_int32], auto simp: null_ref_def)
  then have "preads K (\<lambda>r. mapc ref_obj (read_shared (read_depth r) refer body i) r) (pack_int v_reference_null) ONull"
    by (intro parses_state [where m = "\<lambda>r. mapc ref_obj (read_shared (read_depth r) refer body i)"])
      (simp add: read_depth_def)
  moreover have "(\<lambda>r. mapc ref_obj (read_shared (read_depth r) refer body i) r) = mapc ref_obj (read_property refer body i)"
    by (rule ext) (simp add: mapc_def bindc_def read_property_def)
  ultimately show ?thesis by simp
qed

section \<open>Arrays of primitive types\<close>

lemma preads_array_as:
  assumes "length va < 2 ^ 31" and "reads (unif t (length va)) (concat (map g va)) va"
  shows "preads_obj K (read_array_as mk zero elem unif t_uniform_array)
    (pack_int t @ pack_int (of_nat (length va) :: int32_t) @ concat (map g va)) (mk va)"
  by (simp add: read_array_as_def mapc_bindc)
    (intro parses_bindc [OF preads_rd_int32] parses_bindc [OF preads_rd_size [OF assms(1)]]
      parses_bindc_ret [OF preads_on_in [OF assms(2)]] preads_new_ref)

lemma preads_array_property:
  assumes "\<not> 0 <s i" and "length va < 2 ^ 31" and "reads (unif t (length va)) (concat (map g va)) va"
    and "\<And>nType. nType = t_uniform_array \<Longrightarrow> body nType = read_array_as mk zero elem unif nType"
  shows "preads_obj K (read_property refer body i) (array_octets t g va) (mk va)"
  unfolding array_octets_def complex_header_def
  using preads_property [OF assms(1), where body = body and K = K and t = t_uniform_array] preads_array_as [where g = g and unif = unif and va = va and t = t and K = K] assms by simp

lemma reads_elements:
  "(\<And>v. v \<in> set va \<Longrightarrow> reads m (g v) v) \<Longrightarrow> reads (replicatec (length va) m) (concat (map g va)) va"
  by (rule preads_elements)

lemma preads_array_properties:
  assumes i: "\<not> 0 <s i"
  shows "length vaf < 2 ^ 31 \<Longrightarrow> preads_obj K (read_boolean_array i) (array_octets t_boolean bool_octets vaf) (OBooleanArray vaf)"
    and "length vab < 2 ^ 31 \<Longrightarrow> preads_obj K (read_octet_array i) (array_octets t_octet (\<lambda>b. [b]) vab) (OOctetArray vab)"
    and "length vach < 2 ^ 31 \<Longrightarrow> preads_obj K (read_char16_array i) (array_octets t_char encode_char16 vach) (OChar16Array vach)"
    and "length va16 < 2 ^ 31 \<Longrightarrow> preads_obj K (read_int16_array i) (array_octets t_int16 pack_int va16) (OInt16Array va16)"
    and "length va32 < 2 ^ 31 \<Longrightarrow> preads_obj K (read_int32_array i) (array_octets t_int32 pack_int va32) (OInt32Array va32)"
    and "length va64 < 2 ^ 31 \<Longrightarrow> preads_obj K (read_int64_array i) (array_octets t_int64 pack_int va64) (OInt64Array va64)"
    and "length vaf32 < 2 ^ 31 \<Longrightarrow> preads_obj K (read_float32_array i) (array_octets t_float32 split4 vaf32) (OFloat32Array vaf32)"
    and "length vaf64 < 2 ^ 31 \<Longrightarrow> preads_obj K (read_float64_array i) (array_octets t_float64 split8 vaf64) (OFloat64Array vaf64)"
proof -
  have bool: "reads (mapc (\<lambda>n. n \<noteq> 0) obi_read_int32) (bool_octets f) f" for f
    unfolding bool_octets_def by (rule parses_mapc [OF reads_obi_ints(2)]) simp
  have i16: "reads (mapc ucast obi_read_int32) (pack_int n) n" for n :: int16_t
    using parses_mapc [OF reads_obi_ints(2) [of "scast n"], of n ucast]
    by (simp add: pack_int_scast ucast_scast_narrow)
  show "length vaf < 2 ^ 31 \<Longrightarrow> preads_obj K (read_boolean_array i) (array_octets t_boolean bool_octets vaf) (OBooleanArray vaf)"
    unfolding read_boolean_array_def by (rule preads_array_property [OF i]) (simp_all add: reads_elements bool)
  show "length vab < 2 ^ 31 \<Longrightarrow> preads_obj K (read_octet_array i) (array_octets t_octet (\<lambda>b. [b]) vab) (OOctetArray vab)"
    unfolding read_octet_array_def by (rule preads_array_property [OF i]) (simp_all add: reads_read_octets)
  show "length vach < 2 ^ 31 \<Longrightarrow> preads_obj K (read_char16_array i) (array_octets t_char encode_char16 vach) (OChar16Array vach)"
    unfolding read_char16_array_def by (rule preads_array_property [OF i]) (simp_all add: reads_elements reads_obi_read_char16)
  show "length va16 < 2 ^ 31 \<Longrightarrow> preads_obj K (read_int16_array i) (array_octets t_int16 pack_int va16) (OInt16Array va16)"
    unfolding read_int16_array_def by (rule preads_array_property [OF i]) (simp_all add: reads_elements i16)
  show "length va32 < 2 ^ 31 \<Longrightarrow> preads_obj K (read_int32_array i) (array_octets t_int32 pack_int va32) (OInt32Array va32)"
    unfolding read_int32_array_def by (rule preads_array_property [OF i]) (simp_all add: reads_elements reads_obi_ints)
  show "length va64 < 2 ^ 31 \<Longrightarrow> preads_obj K (read_int64_array i) (array_octets t_int64 pack_int va64) (OInt64Array va64)"
    unfolding read_int64_array_def
    by (rule preads_array_property [OF i, where elem = read_as_int64]) (simp_all add: reads_elements reads_obi_ints read_as_int64_wide_def)
  show "length vaf32 < 2 ^ 31 \<Longrightarrow> preads_obj K (read_float32_array i) (array_octets t_float32 split4 vaf32) (OFloat32Array vaf32)"
    unfolding read_float32_array_def by (rule preads_array_property [OF i]) (simp_all add: reads_elements reads_obi_floats)
  show "length vaf64 < 2 ^ 31 \<Longrightarrow> preads_obj K (read_float64_array i) (array_octets t_float64 split8 vaf64) (OFloat64Array vaf64)"
    unfolding read_float64_array_def by (rule preads_array_property [OF i]) (simp_all add: reads_elements reads_obi_floats)
qed

section \<open>Binaries, strings, dates and intervals\<close>

lemma preads_text_properties:
  assumes i: "\<not> 0 <s i"
  shows "length bs < 2 ^ 31 \<Longrightarrow> preads_obj K (read_binary i) (typed_octet_string False bs) (OBinary bs)"
    and "valid_string vs \<Longrightarrow> length vs < 2 ^ 31 \<Longrightarrow>
      preads_obj K (read_string i) (typed_char_string False vs) (OString vs)"
    and "date_ok d \<Longrightarrow> preads_obj K (read_raw_date_property i) (pack_int t_date @ raw_date_octets d) (ORawDate d)"
    and "time_ok t \<Longrightarrow> preads_obj K (read_raw_time_property i) (pack_int t_time @ raw_time_octets t) (ORawTime t)"
    and "date_ok d \<Longrightarrow> time_ok t \<Longrightarrow> preads_obj K (read_raw_date_time i)
      (pack_int t_datetime @ raw_date_octets d @ raw_time_octets t) (ORawDateTime d t)"
proof -
  show "length bs < 2 ^ 31 \<Longrightarrow> preads_obj K (read_binary i) (typed_octet_string False bs) (OBinary bs)"
    unfolding read_binary_def Let_def typed_octet_string_def if_False simp_thms
    by (rule preads_property [OF i]) (simp_all add: mapc_bindc parses_bindc_ret [OF preads_on_in [OF reads_read_slice]] preads_new_ref)
  show "valid_string vs \<Longrightarrow> length vs < 2 ^ 31 \<Longrightarrow> preads_obj K (read_string i) (typed_char_string False vs) (OString vs)"
    unfolding read_string_def Let_def typed_char_string_def if_False simp_thms
    by (rule preads_property [OF i])
      (simp_all add: mapc_bindc string_ok_def parses_bindc_ret [OF preads_on_in [OF reads_obi_read_string]] preads_new_ref)
  show "date_ok d \<Longrightarrow> preads_obj K (read_raw_date_property i) (pack_int t_date @ raw_date_octets d) (ORawDate d)"
    unfolding read_raw_date_property_def
    by (rule preads_property [OF i])
      (simp_all add: mapc_bindc parses_bindc_ret [OF preads_on_in [OF reads_read_raw_date]] preads_new_ref)
  show "time_ok t \<Longrightarrow> preads_obj K (read_raw_time_property i) (pack_int t_time @ raw_time_octets t) (ORawTime t)"
    unfolding read_raw_time_property_def
    by (rule preads_property [OF i])
      (simp_all add: mapc_bindc parses_bindc_ret [OF preads_on_in [OF reads_read_raw_time]] preads_new_ref)
  show "date_ok d \<Longrightarrow> time_ok t \<Longrightarrow> preads_obj K (read_raw_date_time i)
      (pack_int t_datetime @ raw_date_octets d @ raw_time_octets t) (ORawDateTime d t)"
    unfolding read_raw_date_time_def
    by (rule preads_property [OF i])
      (simp_all add: mapc_bindc parses_bindc [OF preads_on_in [OF reads_read_raw_date]]
        parses_bindc_ret [OF preads_on_in [OF reads_read_raw_time]] preads_new_ref)
qed

text \<open>The date of a date and time, whose time is skipped, and the time, whose date is.\<close>

lemma preads_parts_of_date_time:
  assumes i: "\<not> 0 <s i" and d: "date_ok d" and t: "time_ok t"
  shows "preads_obj K (read_raw_date_property i) (pack_int t_datetime @ raw_date_octets d @ raw_time_octets t) (ORawDate d)"
    and "preads_obj K (read_raw_time_property i) (pack_int t_datetime @ raw_date_octets d @ raw_time_octets t) (ORawTime t)"
proof -
  have skip: "preads K (seqc (pr_on_in skip_time) (mapc ref_obj (new_ref True (ORawDate d)))) (raw_time_octets t @ []) (ORawDate d)"
    by (rule parses_seqc) (rule preads_on_in, rule reads_skip_time, rule preads_new_ref)
  show "preads_obj K (read_raw_date_property i) (pack_int t_datetime @ raw_date_octets d @ raw_time_octets t) (ORawDate d)"
    unfolding read_raw_date_property_def skip_time_def [symmetric]
    by (rule preads_property [OF i])
      (simp_all add: mapc_bindc mapc_seqc parses_bindc [OF preads_on_in [OF reads_read_raw_date [OF d]]]
        skip [simplified])
  have "reads (seqc (skip_ints 3) read_raw_time) (raw_date_octets d @ raw_time_octets t) t"
    by (rule parses_seqc [OF reads_skip_date reads_read_raw_time [OF t]])
  then show "preads_obj K (read_raw_time_property i) (pack_int t_datetime @ raw_date_octets d @ raw_time_octets t) (ORawTime t)"
    unfolding read_raw_time_property_def
    by (intro preads_property [OF i]) (simp_all add: mapc_bindc parses_bindc_ret [OF preads_on_in] preads_new_ref)
qed

section \<open>Identities and references\<close>

lemma mapc_Inr: "mapc f m s = (Inr v, t) \<longleftrightarrow> (\<exists>a. m s = (Inr a, t) \<and> v = f a)"
  by (auto simp: mapc_def bindc_def ret_def split: prod.splits sum.splits)

text \<open>Reading an integer, with everything but the input and the counter of objects unchanged.\<close>

lemma rd_int32_step:
  fixes r :: "'u pof_reader"
  assumes "bi_ok (pr_in r)" and "bi_rem (pr_in r) = pack_int (n :: int32_t) @ rest"
  obtains r' where "rd_int32 r = (Inr n, r')" and "bi_ok (pr_in r')" and "bi_rem (pr_in r') = rest"
    and "pr_refs r' = pr_refs r" and "pr_pending r' = pr_pending r"
proof -
  let ?K = "\<lambda>R P. R = pr_refs r \<and> P = pr_pending r"
  have "settled ?K r" using assms(1) by simp
  from parsesE [where good = "settled ?K", OF preads_rd_int32 this assms(2)] obtain r' where
    "rd_int32 r = (Inr n, r')" "settled ?K r'" "bi_rem (pr_in r') = rest" .
  then show ?thesis by (intro that [of r']) auto
qed

lemma read_object_identity:
  fixes env :: "'u pof_env"
  assumes i: "\<not> 0 <s i" and v: "obj_readable (pe_key_equals env) v" and nId: "0 \<le>s nId"
    and ok: "bi_ok (pr_in r)" and fresh: "pr_refs r nId = None"
    and rem: "bi_rem (pr_in r) = pack_int t_identity @ pack_int nId @ obj_octets v @ rest"
  obtains oh r' where "read_object env i r = (Inr oh, r')" and "ref_obj oh = v"
    and "pr_refs r' = (pr_refs r)(nId \<mapsto> oh)" and "bi_ok (pr_in r')" and "bi_rem (pr_in r') = rest"
proof -
  from rd_int32_step [OF ok rem] obtain r1 where r1: "rd_int32 r = (Inr t_identity, r1)"
    "bi_ok (pr_in r1)" "bi_rem (pr_in r1) = pack_int nId @ obj_octets v @ rest" "pr_refs r1 = pr_refs r" .
  from rd_int32_step [OF r1(2,3)] obtain r2 where r2: "rd_int32 r1 = (Inr nId, r2)"
    "bi_ok (pr_in r2)" "bi_rem (pr_in r2) = obj_octets v @ rest" "pr_refs r2 = pr_refs r" using r1(4) by metis
  let ?r3 = "r2\<lparr>pr_pending := Some nId\<rparr>" and ?K = "\<lambda>R P. R = pr_refs r \<and> P = Some nId"
  have len: "length (bi_rem (pr_in r)) = length (pack_int t_identity) + length (pack_int nId) + length (obj_octets v) + length rest"
    by (simp add: rem)
  define m where "m = length (bi_rem (pr_in r)) - 1"
  have m: "length (bi_rem (pr_in r)) = Suc m" "length (obj_octets v) \<le> Suc (Suc m)"
    unfolding m_def len using length_pack_ge1 [of t_identity] by simp_all
  have "settled ?K ?r3" "bi_rem (pr_in ?r3) = obj_octets v @ rest" using r2 by simp_all
  from parsesE [where good = "settled ?K", OF preads_read_object_at [OF i v m(2), where m = m] this] obtain r4 where
    r4: "mapc ref_obj (read_object_at env (Suc (Suc m)) (Suc m) i) ?r3 = (Inr v, r4)" "settled ?K r4" "bi_rem (pr_in r4) = rest" .
  then obtain oh where oh: "read_object_at env (Suc (Suc m)) (Suc m) i ?r3 = (Inr oh, r4)" "ref_obj oh = v"
    by (auto simp: mapc_Inr)
  let ?r5 = "r4\<lparr>pr_refs := (pr_refs r)(nId \<mapsto> oh), pr_pending := None\<rparr>"
  have "holder_reset nId oh r4 = (Inr (), ?r5)"
    using r4(2) nId fresh
    by (simp add: holder_reset_def reader_register_identity_def pr_get_def bindc_def seqc_def)
  then have "read_object env i r = (Inr oh, ?r5)"
    using i r1(1) r2(1) oh(1) m(1)
    by (simp add: read_object_def read_depth_def advance_to_def bindc_def seqc_def ret_def holder_set_def)
  with oh(2) r4 show ?thesis by (intro that [of oh ?r5]) auto
qed

lemma read_object_reference:
  fixes env :: "'u pof_env"
  assumes i: "\<not> 0 <s i" and ok: "bi_ok (pr_in r)"
    and rem: "bi_rem (pr_in r) = pack_int t_reference @ pack_int nId @ rest"
  shows "\<exists>r'. read_object env i r = ((case pr_refs r nId of None \<Rightarrow> Inl IOException | Some oh \<Rightarrow> Inr oh), r') \<and>
    pr_refs r' = pr_refs r \<and> bi_ok (pr_in r') \<and> bi_rem (pr_in r') = rest"
proof -
  from rd_int32_step [OF ok rem] obtain r1 where r1: "rd_int32 r = (Inr t_reference, r1)"
    "bi_ok (pr_in r1)" "bi_rem (pr_in r1) = pack_int nId @ rest" "pr_refs r1 = pr_refs r" .
  from rd_int32_step [OF r1(2,3)] obtain r2 where r2: "rd_int32 r1 = (Inr nId, r2)"
    "bi_ok (pr_in r2)" "bi_rem (pr_in r2) = rest" "pr_refs r2 = pr_refs r" using r1(4) by metis
  then show ?thesis using i r1(1)
    by (auto simp: read_object_def read_depth_def advance_to_def bindc_def seqc_def ret_def throw_def
        lookup_identity_def pr_get_def split: option.splits)
qed

text \<open>Another object under an identity that is taken is refused; the same object is not.\<close>

lemma register_identity_taken:
  assumes "0 \<le>s nId" and "pr_refs r nId = Some old" and "ref_obj old \<noteq> ONull"
  shows "reader_register_identity nId oh r =
    (if same_ref old oh then (Inr (), r\<lparr>pr_refs := (pr_refs r)(nId \<mapsto> oh)\<rparr>) else (Inl IOException, r))"
  using assms by (simp add: reader_register_identity_def pr_get_def bindc_def throw_def)

end
