(* ===== verification/Buffer_Properties.thy ===== *)
theory Buffer_Properties
  imports Coh_String
begin

text \<open>
  The properties of the buffers and strings of \<^verbatim>\<open>coherence/io\<close> and \<^verbatim>\<open>coherence/lang\<close>,
  each with a witness where it has a hypothesis.
\<close>

section \<open>Facts the properties rest on\<close>

lemma wb_octets_length: "wb_ok wb \<Longrightarrow> length (wb_octets wb) = wb_cb wb"
  by (simp add: wb_octets_def wb_ok_def)

text \<open>A write of an array at any offset up to the length.\<close>

lemma wb_write_ok:
  assumes ok: "wb_ok wb" and src: "off + cb \<le> length vab" "length vab < npos"
    and dest: "ofDest \<le> wb_cb wb" "ofDest + cb \<le> wb_limit wb"
  obtains wb' where "wb_write ofDest vab off cb wb = (Inr (), wb')" and "wb_ok wb'"
    and "wb_octets wb' = overwrite ofDest (take cb (drop off vab)) (wb_octets wb)"
    and "wb_max wb' = wb_max wb"
proof -
  let ?s = "\<lparr>bo_buf = wb, bo_of = ofDest\<rparr>"
  have "bo_ok ?s" "cb \<le> bo_room ?s" using ok dest by (simp_all add: bo_ok_def bo_room_def)
  from wb_write_bo [OF this(1) src this(2) refl] obtain wb' where
    w: "wb_write ofDest vab off cb wb = (Inr (), wb')"
    "bo_writes ?s (take cb (drop off vab)) \<lparr>bo_buf = wb', bo_of = ofDest + length (take cb (drop off vab))\<rparr>"
    by auto
  then show ?thesis by (intro that [of wb']) (auto simp: bo_writes_def bo_ok_def)
qed

lemma wb_write_full:
  assumes "ofDest + cb < size_max" and "wb_max wb < ofDest + cb"
  shows "wb_write ofDest vab off cb wb = (Inl IndexOutOfBoundsException, wb)"
  using wb_check_bounds_full [OF assms] by (simp add: wb_write_def seqc_def bindc_def)

lemma wb_retain_ok:
  assumes ok: "wb_ok wb" and range: "off + cb \<le> wb_cb wb"
  obtains wb' where "wb_retain off cb wb = (Inr (), wb')" and "wb_ok wb'"
    and "wb_octets wb' = take cb (drop off (wb_octets wb))"
proof -
  have le: "wb_cb wb \<le> length (wb_hab wb)" "length (wb_hab wb) < size_max"
    using ok by (simp_all add: wb_ok_def)
  then have sz: "size_add off cb = off + cb" using range by simp
  show ?thesis
  proof (cases "0 < off \<and> 0 < cb")
    case True
    with range le have "cb < npos" unfolding npos_def by linarith
    then have "cb \<noteq> npos" by simp
    then have "array_copy_within (wb_hab wb) off 0 cb =
        Inr (overwrite 0 (take cb (drop off (wb_hab wb))) (wb_hab wb))"
      using range le by (intro array_copy_within_ok) simp_all
    with True range ok le sz show ?thesis
      by (intro that [of "wb\<lparr>wb_hab := overwrite 0 (take cb (drop off (wb_hab wb))) (wb_hab wb), wb_cb := cb\<rparr>"])
        (auto simp: wb_retain_def wb_ok_def wb_octets_def overwrite_def take_drop min_absorb1 add.commute)
  next
    case False
    with range ok sz show ?thesis
      by (intro that [of "wb\<lparr>wb_cb := cb\<rparr>"])
        (auto simp: wb_retain_def wb_ok_def wb_octets_def min_def)
  qed
qed

text \<open>A slice of a read buffer.\<close>

lemma rb_slice:
  assumes ok: "rb_ok rb" and range: "off + cb \<le> rb_cb rb"
  obtains rb' where "rb_get_read_buffer rb off cb = Inr rb'" and "rb_ok rb'"
    and "rb_octets rb' = take cb (drop off (rb_octets rb))"
    and "rb_to_octets rb off cb = Inr (take cb (drop off (rb_octets rb)))"
proof -
  have len: "rb_of rb + rb_cb rb \<le> length (rb_vab rb)" "length (rb_vab rb) < npos"
    using ok by (simp_all add: rb_ok_def)
  have sz: "size_add off cb = off + cb" "size_add (rb_of rb) off = rb_of rb + off"
    "size_add off (rb_of rb) = off + rb_of rb" "size_add (rb_of rb + off) cb = rb_of rb + off + cb"
    "size_add (off + rb_of rb) cb = off + rb_of rb + cb" "cb \<noteq> npos"
    "off + rb_of rb + cb \<noteq> npos"
    using range len by simp_all
  let ?rb = "if off = 0 \<and> cb = rb_cb rb then rb else \<lparr>rb_vab = rb_vab rb, rb_of = rb_of rb + off, rb_cb = cb\<rparr>"
  have "rb_get_read_buffer rb off cb = Inr ?rb"
    using range len sz by (auto simp: rb_get_read_buffer_def rb_check_bounds_def rb_create_def)
  moreover have "rb_ok ?rb" using range len ok by (auto simp: rb_ok_def)
  moreover have "rb_octets ?rb = take cb (drop off (rb_octets rb))"
    using range len by (auto simp: rb_octets_def take_drop min_def add.commute)
  moreover have "rb_to_octets rb off cb = Inr (take cb (drop off (rb_octets rb)))"
    using range len sz
    by (auto simp: rb_to_octets_def rb_check_bounds_def sub_array_def rb_octets_def Let_def take_drop
        min_def add.commute)
  ultimately show ?thesis by (rule that)
qed

lemma rb_slice_full:
  "rb_cb rb < off + cb \<Longrightarrow> off + cb < size_max \<Longrightarrow>
   rb_get_read_buffer rb off cb = Inl IndexOutOfBoundsException \<and>
   rb_to_octets rb off cb = Inl IndexOutOfBoundsException"
  by (simp add: rb_get_read_buffer_def rb_to_octets_def rb_check_bounds_def)

section \<open>Packed integers\<close>

text \<open>
  C11: the generic and the optimised output write a 16, 32 or 64-bit integer as the same
  octets, in every well-formed buffer that has room for them and for nine octets more below
  the length up to which it grows (its maximum capacity, but at most $2^{32} - 1025$), and both
  inputs read those octets back as the integer, whatever follows them.
\<close>

theorem packed_int_roundtrip:
  "emits (abo_write_int16 n16) (pack_int n16) \<and> emits (obo_write_int16 n16) (pack_int n16) \<and>
   reads (abi_read_int16 abi_read) (pack_int n16) n16 \<and> reads obi_read_int16 (pack_int n16) n16 \<and>
   emits (abo_write_int32 n32) (pack_int n32) \<and> emits (obo_write_int32 n32) (pack_int n32) \<and>
   reads (abi_read_int32 abi_read) (pack_int n32) n32 \<and> reads obi_read_int32 (pack_int n32) n32 \<and>
   emits (abo_write_int64 n64) (pack_int n64) \<and> emits (obo_write_int64 n64) (pack_int n64) \<and>
   reads (abi_read_int64 abi_read) (pack_int n64) n64 \<and> reads obi_read_int64 (pack_int n64) n64"
  by (intro conjI emits_abo emits_obo reads_abi_ints reads_obi_ints)

text \<open>
  the octets of a packed integer fit the reservations of the optimised output (3, 5 and
  10 octets), and a value of a narrower type packs to the same octets in a wider one.
\<close>

theorem packed_int_bounds:
  "length (pack_int (n16 :: int16_t)) \<le> 3 \<and> length (pack_int (n32 :: int32_t)) \<le> 5 \<and>
   length (pack_int (n64 :: int64_t)) \<le> 10 \<and>
   pack_int (scast n16 :: int32_t) = pack_int n16 \<and> pack_int (scast n32 :: int64_t) = pack_int n32"
  by (simp add: length_pack_int16 length_pack_int32 length_pack_int64 pack_int_scast)

text \<open>
  C9: on every well-formed input, valid encoding or not, the optimised \<^verbatim>\<open>read\<close>,
  \<^verbatim>\<open>readInt16\<close>, \<^verbatim>\<open>readInt32\<close> and \<^verbatim>\<open>readInt64\<close> return what the generic ones do; where
  the three integer methods fail they leave the read position where it was, and \<^verbatim>\<open>read\<close>
  leaves what the generic one leaves.  (\<^verbatim>\<open>readChar16\<close> does not refine the generic method,
  see \<open>read_char16_past_end\<close>.)
\<close>

theorem octet_array_input_refines:
  assumes "bi_ok s"
  shows "obi_read s = abi_read s \<and>
    obi_read_int16 s =
      (case abi_read_int16 abi_read s of (Inr n, t) \<Rightarrow> (Inr n, t) | (Inl e, t) \<Rightarrow> (Inl e, s)) \<and>
    obi_read_int32 s =
      (case abi_read_int32 abi_read s of (Inr n, t) \<Rightarrow> (Inr n, t) | (Inl e, t) \<Rightarrow> (Inl e, s)) \<and>
    obi_read_int64 s =
      (case abi_read_int64 abi_read s of (Inr n, t) \<Rightarrow> (Inr n, t) | (Inl e, t) \<Rightarrow> (Inl e, s))"
  by (simp add: obi_read_eq_abi_read [OF assms] obi_unpack_int_refines [OF assms] obi_read_int16_def obi_read_int32_def obi_read_int64_def
      abi_read_int16_def abi_read_int32_def abi_read_int64_def)

definition sample_input :: buffer_input where
  "sample_input = \<lparr>bi_buf = \<lparr>rb_vab = [0xFF, 0x81, 0x02], rb_of = 1, rb_cb = 2\<rparr>, bi_of = 0\<rparr>"

lemma sample_input_ok: "bi_ok sample_input"
  by (simp add: sample_input_def bi_ok_def rb_ok_def npos_def size_max_def)

theorem octet_array_input_refines_witness:
  "obi_read_int32 sample_input =
     (case abi_read_int32 abi_read sample_input of (Inr n, t) \<Rightarrow> (Inr n, t) | (Inl e, t) \<Rightarrow> (Inl e, sample_input))"
  using octet_array_input_refines [OF sample_input_ok] by blast

section \<open>Characters, strings and floating-point numbers\<close>

text \<open>
  a character is written as the same octets by both outputs and read back by the
  optimised input.
\<close>

theorem char16_roundtrip:
  "emits (abo_write_char16 ch) (encode_char16 ch) \<and> emits (obo_write_char16 ch) (encode_char16 ch) \<and>
   reads obi_read_char16 (encode_char16 ch) ch"
  by (intro conjI emits_abo emits_obo reads_obi_read_char16)

text \<open>
  the optimised \<^verbatim>\<open>readChar16\<close> checks the end of the buffer for the lead octet only: at
  the last octet of a buffer over a longer array it returns a character made of octets that
  do not belong to the buffer and moves the position past the end, where the generic method
  throws an \<^verbatim>\<open>EOFException\<close>.
\<close>

theorem read_char16_past_end:
  "\<exists>s. bi_ok s \<and>
     fst (abi_read_char16 abi_read s) = Inl EOFException \<and>
     (\<exists>ch t. obi_read_char16 s = (Inr ch, t) \<and> \<not> bi_ok t \<and> bi_length t < bi_of t)"
proof -
  let ?s = "\<lparr>bi_buf = \<lparr>rb_vab = [0xC2, 0xA9], rb_of = 0, rb_cb = 1\<rparr>, bi_of = 0\<rparr>"
  have "bi_ok ?s" by (simp add: bi_ok_def rb_ok_def npos_def size_max_def)
  moreover have "fst (abi_read_char16 abi_read ?s) = Inl EOFException"
    by (simp add: abi_read_char16_def bindc_def abi_read_def rb_read_def raw_at_def size_add_def
        size_max_def throw_def Let_def)
  moreover have "obi_read_char16 ?s = (Inr 0xA9, ?s\<lparr>bi_of := 2\<rparr>)"
    by (simp add: obi_read_char16_def obi_decode_char16_def raw_at_def size_add_def size_sub_def size_max_def
        case_exn_def is_cont_def decode2_def Let_def)
  ultimately show ?thesis by (intro exI [of _ ?s]) (simp add: bi_ok_def bi_length_def)
qed

text \<open>
  C10: a string, null included, is written as the same octets by both outputs and read back
  equal by the optimised input, when it is well-formed and its length fits 31 bits.  The
  outputs succeed in every well-formed buffer with room for the octets and nine more below the
  length up to which it grows (its maximum capacity, but at most $2^{32} - 1025$); a write
  for which there is less room is not part of the claim.
\<close>

theorem string_roundtrip:
  assumes "string_ok vs"
  shows "emits (abo_write_string vs) (string_octets vs) \<and> emits (obo_write_string vs) (string_octets vs) \<and>
    reads obi_read_string (string_octets vs) vs"
  using assms by (intro conjI emits_abo_write_string emits_obo_write_string reads_obi_read_string)
    (simp_all add: string_ok_def)

theorem string_roundtrip_witness:
  "reads obi_read_string (string_octets (Some [0x48, 0xC3, 0xA9])) (Some [0x48, 0xC3, 0xA9])"
proof -
  have "string_ok (Some [0x48, 0xC3, 0xA9])"
    by (simp add: string_ok_def valid_string_def utf8_validate_def utf8_scan.simps utf8_step_def
        utf8_last_def is_cont_def case_exn_def Let_def)
  from string_roundtrip [OF this] show ?thesis by blast
qed

text \<open>
  C22: when \<^verbatim>\<open>String::create\<close> accepts a range of an array of UTF-16 units, the range lies in
  the array, the string is valid UTF-8 with as many characters as the range has units, and
  iterating over it returns the units.  (A range whose end wraps around 32 bits is not
  accepted in the model: the code reads past the array.)
\<close>

theorem utf16_string_chars:
  assumes "string_create_utf16 vach off cch = Inr s"
  shows "let n = (if cch = npos then length vach - off else cch) in
    off + n \<le> length vach \<and> utf8_validate s = Inr n \<and>
    string_chars (s @ [0]) n = Inr (take n (drop off vach))"
proof -
  let ?n = "if cch = npos then length vach - off else cch"
  from string_create_utf16_octets [OF assms] obtain chs where
    chs: "chs = take ?n (drop off vach)" "s = concat (map encode_char16 chs)" "off + ?n \<le> length vach" by blast
  then have "length chs = ?n" by simp
  with chs utf8_validate_encode [of chs] string_chars_encode [of chs "[0]"] show ?thesis
    unfolding Let_def by simp
qed

theorem utf16_string_chars_witness:
  "string_create_utf16 [0x41, 0x20AC] 0 npos = Inr [0x41, 0xE2, 0x82, 0xAC] \<and>
   string_chars [0x41, 0xE2, 0x82, 0xAC, 0] 2 = Inr [0x41, 0x20AC]"
proof -
  have "string_create_utf16 [0x41, 0x20AC] 0 npos = Inr [0x41, 0xE2, 0x82, 0xAC]"
    by (simp add: string_create_utf16_def validate_managed_utf16_def utf16_size_def encode_char16_def
        case_exn_def Let_def)
  from utf16_string_chars [OF this] this show ?thesis by (simp add: numeral_2_eq_2 Let_def)
qed

text \<open>floating-point numbers are written and read back bit by bit.\<close>

theorem float_bits_roundtrip:
  "emits (abo_write_float32 fl) (split4 fl) \<and> emits (obo_write_float32 fl) (split4 fl) \<and>
   reads obi_read_float32 (split4 fl) fl \<and>
   emits (abo_write_float64 dfl) (split8 dfl) \<and> emits (obo_write_float64 dfl) (split8 dfl) \<and>
   reads obi_read_float64 (split8 dfl) dfl"
  by (intro conjI emits_abo emits_obo reads_obi_floats)

section \<open>Buffers\<close>

text \<open>
  C24: writing part of an array at an offset up to the length of a buffer, whatever its
  current and its maximum capacity are, replaces the octets from there on and keeps the
  invariant when the result fits the maximum capacity; otherwise it throws and leaves the
  buffer unchanged.  The end of the write is below $2^{32} - 1024$, where the sums of the
  capacity check and of \<^verbatim>\<open>grow\<close> do not wrap around.
\<close>

theorem write_buffer_write:
  assumes "wb_ok wb" and "ofDest \<le> wb_cb wb" and "off + cb \<le> length vab" and "length vab < npos"
    and "ofDest + cb + 1024 < size_max"
  shows "if ofDest + cb \<le> wb_max wb
    then \<exists>wb'. wb_write ofDest vab off cb wb = (Inr (), wb') \<and> wb_ok wb' \<and> wb_max wb' = wb_max wb \<and>
      wb_octets wb' = overwrite ofDest (take cb (drop off vab)) (wb_octets wb)
    else wb_write ofDest vab off cb wb = (Inl IndexOutOfBoundsException, wb)"
proof (cases "ofDest + cb \<le> wb_max wb")
  case True
  with assms(5) have "ofDest + cb \<le> wb_limit wb" by (simp add: wb_limit_def)
  from wb_write_ok [OF assms(1,3,4,2) this] show ?thesis using True by auto
next
  case False
  with wb_write_full [of ofDest cb wb vab off] assms(5) show ?thesis by simp
qed

definition sample_buffer :: write_buffer where
  "sample_buffer = \<lparr>wb_hab = [1, 2, 3, 0], wb_cb = 3, wb_max = 6\<rparr>"

lemma sample_buffer_ok: "wb_ok sample_buffer" "wb_cb sample_buffer = 3" "wb_max sample_buffer = 6"
  "wb_octets sample_buffer = [1, 2, 3]"
  by (simp_all add: sample_buffer_def wb_ok_def wb_octets_def size_max_def)

theorem write_buffer_write_witness:
  "(\<exists>wb'. wb_write 2 [7, 8, 9] 0 3 sample_buffer = (Inr (), wb') \<and> wb_octets wb' = [1, 2, 7, 8, 9]) \<and>
   wb_write 3 [4, 5, 6, 7] 0 4 sample_buffer = (Inl IndexOutOfBoundsException, sample_buffer)"
  using write_buffer_write [of sample_buffer 2 0 3 "[7, 8, 9]"] write_buffer_write [of sample_buffer 3 0 4 "[4, 5, 6, 7]"]
  by (auto simp: sample_buffer_ok overwrite_def npos_def size_max_def)

text \<open>
  C25: \<^verbatim>\<open>retain\<close> of a range within the length keeps exactly the octets of the range, and the
  invariant, whatever the maximum capacity is; also when the loop of \<^verbatim>\<open>Array::copy\<close> moves
  them over themselves.
\<close>

theorem write_buffer_retain:
  assumes "wb_ok wb" and "off + cb \<le> wb_cb wb"
  shows "\<exists>wb'. wb_retain off cb wb = (Inr (), wb') \<and> wb_ok wb' \<and>
    wb_octets wb' = take cb (drop off (wb_octets wb))"
  using wb_retain_ok [OF assms] by blast

theorem write_buffer_retain_witness:
  "\<exists>wb'. wb_retain 1 2 sample_buffer = (Inr (), wb') \<and> wb_octets wb' = [2, 3]"
  using write_buffer_retain [of sample_buffer 1 2] by (auto simp: sample_buffer_ok)

text \<open>
  C26: a slice of a read buffer holds the octets of its range and nothing else, whether it
  is taken as a buffer or copied to an array; both refuse a range that ends past the buffer
  with an \<^verbatim>\<open>IndexOutOfBoundsException\<close>.  The end of the range is below $2^{32}$: one that
  wraps around is not caught by the check.
\<close>

theorem read_buffer_slice:
  assumes "rb_ok rb" and "off + cb < size_max"
  shows "if off + cb \<le> rb_cb rb
    then \<exists>rb'. rb_get_read_buffer rb off cb = Inr rb' \<and> rb_ok rb' \<and>
      rb_octets rb' = take cb (drop off (rb_octets rb)) \<and>
      rb_to_octets rb off cb = Inr (take cb (drop off (rb_octets rb)))
    else rb_get_read_buffer rb off cb = Inl IndexOutOfBoundsException \<and>
      rb_to_octets rb off cb = Inl IndexOutOfBoundsException"
  using rb_slice [OF assms(1), of off cb] rb_slice_full [of rb off cb] assms(2) by (auto simp: not_le)

theorem read_buffer_slice_witness:
  "\<exists>rb'. rb_get_read_buffer \<lparr>rb_vab = [9, 1, 2, 3], rb_of = 1, rb_cb = 3\<rparr> 1 2 = Inr rb' \<and> rb_octets rb' = [2, 3]"
  using read_buffer_slice [of "\<lparr>rb_vab = [9, 1, 2, 3], rb_of = 1, rb_cb = 3\<rparr>" 1 2]
  by (auto simp: rb_ok_def rb_octets_def npos_def size_max_def)

end
