(* ===== verification/Pof_Properties.thy ===== *)
theory Pof_Properties
  imports Pof_Property_Roundtrip Buffer_Properties
begin

text \<open>
  The properties of the portable object format: what \<^verbatim>\<open>PofBufferWriter\<close> writes into a
  buffer, \<^verbatim>\<open>PofBufferReader\<close> reads and \<^verbatim>\<open>PofHelper::skipValue\<close> skips.
\<close>

section \<open>From a written buffer to its reader\<close>

lemma wb_get_read_buffer_ok:
  assumes "wb_ok wb" and cb: "wb_cb wb < npos"
  obtains rb where "wb_get_read_buffer wb = Inr rb" and "rb_ok rb" and "rb_octets rb = wb_octets wb"
proof -
  have len: "wb_cb wb \<le> length (wb_hab wb)" and oct: "wb_octets wb = take (wb_cb wb) (wb_hab wb)"
    using assms by (simp_all add: wb_ok_def wb_octets_def)
  let ?full = "\<lparr>rb_vab = wb_hab wb, rb_of = 0, rb_cb = wb_cb wb\<rparr>"
  have unsafe: "wb_unsafe_read_buffer wb = Inr ?full"
    using len cb by (simp add: wb_unsafe_read_buffer_def rb_create_def npos_def)
  have "rb_to_octets ?full 0 (wb_cb wb) = Inr (wb_octets wb)"
    using len cb by (simp add: rb_to_octets_def rb_check_bounds_def sub_array_def oct npos_def Let_def)
  with unsafe have "wb_to_octets wb = Inr (wb_octets wb)" by (simp add: wb_to_octets_def case_exn_def)
  moreover have "length (wb_octets wb) < npos" using len cb by (simp add: oct)
  ultimately show ?thesis
    by (intro that [of "\<lparr>rb_vab = wb_octets wb, rb_of = 0, rb_cb = length (wb_octets wb)\<rparr>"])
      (simp_all add: wb_get_read_buffer_def case_exn_def rb_create_def rb_ok_def rb_octets_def npos_def)
qed

lemma wb_create_ok:
  assumes "wb_create cbCap cbMax = Inr wb" and "cbMax < size_max"
  shows "bo_ok \<lparr>bo_buf = wb, bo_of = 0\<rparr>"
    and "bo_room \<lparr>bo_buf = wb, bo_of = 0\<rparr> = min cbMax (size_max - 1025)" and "wb_octets wb = []"
  using assms
  by (auto simp: wb_create_def bo_ok_def bo_room_def wb_limit_def wb_ok_def wb_octets_def split: if_splits)

text \<open>A handler that starts on an empty buffer leaves what it writes as the octets of the buffer.\<close>

lemma hands_on_empty_buffer:
  assumes "hands [] False m bs v c' f'" and "wb_create cbCap cbMax = Inr wb" and "cbMax < size_max"
    and "length bs + 9 \<le> min cbMax (size_max - 1025)"
  obtains h rb where "m (wh_create \<lparr>bo_buf = wb, bo_of = 0\<rparr>) = (Inr v, h)"
    and "wb_get_read_buffer (bo_buf (wh_out h)) = Inr rb" and "rb_ok rb" and "rb_octets rb = bs"
proof -
  note c = wb_create_ok [OF assms(2,3)]
  from assms(4) c(2) have "length bs + 9 \<le> bo_room \<lparr>bo_buf = wb, bo_of = 0\<rparr>" by simp
  from handsE [OF assms(1) c(1) this] obtain bo' where
    run: "m \<lparr>wh_out = \<lparr>bo_buf = wb, bo_of = 0\<rparr>, wh_complex = [], wh_has_identity = False\<rparr> =
      (Inr v, \<lparr>wh_out = bo', wh_complex = c', wh_has_identity = f'\<rparr>)"
    and w: "bo_writes \<lparr>bo_buf = wb, bo_of = 0\<rparr> bs bo'" .
  have oct: "wb_ok (bo_buf bo')" "wb_octets (bo_buf bo') = bs"
    using w c(3) by (simp_all add: bo_writes_def bo_ok_def overwrite_def)
  then have "wb_cb (bo_buf bo') < npos"
    using wb_octets_length [OF oct(1)] assms(4) by (simp add: npos_def size_max_def)
  from wb_get_read_buffer_ok [OF oct(1) this] obtain rb where
    "wb_get_read_buffer (bo_buf bo') = Inr rb" "rb_ok rb" "rb_octets rb = bs" unfolding oct(2) .
  with run show ?thesis
    by (intro that [of "\<lparr>wh_out = bo', wh_complex = c', wh_has_identity = f'\<rparr>" rb])
      (simp_all add: wh_create_def)
qed

definition sample_env :: "unit pof_env" where
  "sample_env = \<lparr>pe_serializer = \<lambda>_. Inl IOException, pe_type_id = \<lambda>_. Inl IOException, pe_key_equals = (=)\<rparr>"

definition sample_object :: "unit pof_obj" where
  "sample_object = OCollection [OInteger32 300, ONull, OObjectArray [OBoolean True]]"




lemma top_empty [simp]: "\<not> skippable [] f" "plain_top (step_complex [])"
  by (simp_all add: skippable_def plain_top_def step_complex_def)

section \<open>Round trips\<close>

text \<open>
  C1: an object written with \<^verbatim>\<open>writeObject\<close> into an empty buffer is the object that
  \<^verbatim>\<open>readObject\<close> returns on the octets of the buffer, and the reader consumes them all.  The
  buffer is one of any capacities, the default ones included, with room for the octets of the
  object and nine more below its maximum capacity and below $2^{32} - 1025$.  The object is any
  that \<open>obj_readable\<close> describes: it needs no serializer of the application, its lengths fit 31
  bits, its strings are well-formed, its dates, times and intervals are valid, its maps have
  no two equal keys, its sparse arrays have indexes from 0 on, and no boxed floating-point
  number in it is a negative zero, which the boxes lose.
\<close>

theorem object_roundtrip:
  fixes env :: "'u pof_env"
  assumes "obj_readable (pe_key_equals env) v" and "wb_create cbCap cbMax = Inr wb" and "cbMax < size_max"
    and "length (obj_octets v) + 9 \<le> min cbMax (size_max - 1025)"
  shows "\<exists>h rb oh r. write_object writeUserType 0 v (wh_create \<lparr>bo_buf = wb, bo_of = 0\<rparr>) = (Inr (), h) \<and>
    wb_get_read_buffer (bo_buf (wh_out h)) = Inr rb \<and>
    read_object env 0 (pr_create \<lparr>bi_buf = rb, bi_of = 0\<rparr>) = (Inr oh, r) \<and>
    ref_obj oh = v \<and> bi_rem (pr_in r) = []"
proof -
  have "hands [] False (write_object writeUserType 0 v) (obj_octets v) () [] False"
    using hands_write_object [OF obj_readable_sized [OF assms(1)], of "[]" 0 False writeUserType]
    by (simp add: object_top_def pos_octets_def word_sless_alt)
  from hands_on_empty_buffer [OF this assms(2-4)] obtain h rb where
    h: "write_object writeUserType 0 v (wh_create \<lparr>bo_buf = wb, bo_of = 0\<rparr>) = (Inr (), h)"
    "wb_get_read_buffer (bo_buf (wh_out h)) = Inr rb" "rb_ok rb" "rb_octets rb = obj_octets v" .
  let ?r = "pr_create \<lparr>bi_buf = rb, bi_of = 0\<rparr> :: 'u pof_reader" and ?K = "\<lambda>_ _. True"
  have "settled ?K ?r" "bi_rem (pr_in ?r) = obj_octets v @ []"
    using h(3,4) by (simp_all add: pr_create_def bi_ok_def bi_rem_def)
  from parsesE [where good = "settled ?K", OF preads_read_object [OF _ assms(1), of 0] this] obtain r where
    "mapc ref_obj (read_object env 0) ?r = (Inr v, r)" "bi_rem (pr_in r) = []" by (auto simp: word_sless_alt)
  with h(1,2) show ?thesis by (auto simp: mapc_Inr)
qed

theorem object_roundtrip_witness:
  "\<exists>wb h rb oh r. write_object (\<lambda>_ _. throw IOException) 0 sample_object (wh_create \<lparr>bo_buf = wb, bo_of = 0\<rparr>) = (Inr (), h) \<and>
    wb_get_read_buffer (bo_buf (wh_out h)) = Inr rb \<and>
    read_object sample_env 0 (pr_create \<lparr>bi_buf = rb, bi_of = 0\<rparr>) = (Inr oh, r) \<and>
    ref_obj oh = sample_object \<and> bi_rem (pr_in r) = []"
proof -
  have readable: "obj_readable (pe_key_equals sample_env) sample_object"
    by (simp add: sample_object_def)
  obtain wb where wb: "wb_create 16 (size_max - 1) = Inr wb" by (simp add: wb_create_def size_max_def)
  have "length (obj_octets sample_object) \<le> 55"
    by (simp add: sample_object_def complex_header_def typed_int32_def typed_boolean_def bool_octets_def
        pack_int_def pack_loop.simps Let_def word_sless_alt)
  then have "length (obj_octets sample_object) + 9 \<le> min (size_max - 1) (size_max - 1025)"
    by (simp add: size_max_def)
  from object_roundtrip [OF readable wb _ this, of "\<lambda>_ _. throw IOException"] show ?thesis
    by (intro exI [of _ wb]) (simp add: size_max_def)
qed





section \<open>Identities\<close>

text \<open>
  C6: an object that was written with an identity and is referred to by it is read once: the
  reference returns the very holder the first read returned, whatever follows.
\<close>

theorem identity_shared:
  fixes env :: "'u pof_env"
  assumes "\<not> 0 <s iProp" and "obj_readable (pe_key_equals env) v" and "0 \<le>s nId"
    and "bi_ok (pr_in r)" and "pr_refs r nId = None"
    and "bi_rem (pr_in r) = pack_int t_identity @ pack_int nId @ obj_octets v @
      pack_int t_reference @ pack_int nId @ rest"
  shows "\<exists>oh r1 r2. read_object env iProp r = (Inr oh, r1) \<and> ref_obj oh = v \<and>
    read_object env iProp r1 = (Inr oh, r2) \<and> bi_rem (pr_in r2) = rest"
proof -
  from read_object_identity [OF assms(1,2,3,4,5,6)] obtain oh r1 where
    r1: "read_object env iProp r = (Inr oh, r1)" "ref_obj oh = v" "pr_refs r1 = (pr_refs r)(nId \<mapsto> oh)"
    "bi_ok (pr_in r1)" "bi_rem (pr_in r1) = pack_int t_reference @ pack_int nId @ rest" .
  from read_object_reference [OF assms(1) r1(4,5), of env] r1(1-3) show ?thesis by auto
qed

definition reader_over :: "octet_t list \<Rightarrow> 'u pof_reader" where
  "reader_over bs = pr_create \<lparr>bi_buf = \<lparr>rb_vab = bs, rb_of = 0, rb_cb = length bs\<rparr>, bi_of = 0\<rparr>"

lemma reader_over_ok:
  "length bs < npos \<Longrightarrow> bi_ok (pr_in (reader_over bs))" "bi_rem (pr_in (reader_over bs)) = bs"
  "pr_refs (reader_over bs) n = None"
  by (simp_all add: reader_over_def pr_create_def bi_ok_def rb_ok_def bi_rem_def rb_octets_def)

lemma octets_eval:
  "pack_int (1 :: int32_t) = [0x01]" "pack_int (300 :: int32_t) = [0xAC, 0x04]"
  "pack_int t_identity = [0x5E]" "pack_int t_reference = [0x5F]" "pack_int t_int32 = [0x41]"
  by (simp_all add: pack_int_def pack_loop.simps Let_def word_sless_alt)

theorem identity_shared_witness:
  "\<exists>oh r1 r2. read_object sample_env 0 (reader_over [0x5E, 0x01, 0x41, 0xAC, 0x04, 0x5F, 0x01]) = (Inr oh, r1) \<and>
     ref_obj oh = OInteger32 300 \<and> read_object sample_env 0 r1 = (Inr oh, r2) \<and> bi_rem (pr_in r2) = []"
  using identity_shared [of 0 sample_env "OInteger32 300" 1 "reader_over [0x5E, 0x01, 0x41, 0xAC, 0x04, 0x5F, 0x01]" "[]"]
  by (simp add: reader_over_ok octets_eval typed_int32_def word_sless_alt word_sle_eq npos_def size_max_def)

text \<open>
  C23: a reference to an identity that was not registered is an \<^verbatim>\<open>IOException\<close>, as is the
  registration of another object under an identity that is taken, which leaves the registry
  as it was; registering the same object again is no error.
\<close>

theorem identity_errors:
  fixes env :: "'u pof_env"
  assumes "\<not> 0 <s iProp" and "bi_ok (pr_in r)" and "bi_rem (pr_in r) = pack_int t_reference @ pack_int nId @ rest"
    and "pr_refs r nId = None" and "0 \<le>s nTaken" and "pr_refs r nTaken = Some old" and "ref_obj old \<noteq> ONull"
  shows "fst (read_object env iProp r) = Inl IOException \<and>
    reader_register_identity nTaken oh r =
      (if same_ref old oh then (Inr (), r\<lparr>pr_refs := (pr_refs r)(nTaken \<mapsto> oh)\<rparr>) else (Inl IOException, r))"
  using read_object_reference [OF assms(1-3), of env] register_identity_taken [OF assms(5-7), of oh] assms(4) by auto

theorem identity_errors_witness:
  "fst (read_object sample_env 0 ((reader_over [0x5F, 0x01])
     \<lparr>pr_refs := [2 \<mapsto> PofRef (HNew 0) True (OString [])]\<rparr>)) = Inl IOException"
  using identity_errors [of 0 "(reader_over [0x5F, 0x01]) \<lparr>pr_refs := [2 \<mapsto> PofRef (HNew 0) True (OString [])]\<rparr>" 1 "[]"
      2 "PofRef (HNew 0) True (OString [])" sample_env null_ref]
  by (simp add: reader_over_ok octets_eval word_sless_alt word_sle_eq npos_def size_max_def)

section \<open>Skipping\<close>

text \<open>
  C7: \<^verbatim>\<open>skipValue\<close> consumes exactly the octets of an object whose sparse arrays have
  gaps, and never runs out of the recursion depth the unread octets allow.
\<close>

theorem skip_value_exact:
  assumes "obj_sized v" and "obj_gapped v" and "bi_ok s" and "bi_rem s = obj_octets v @ rest"
  shows "\<exists>t. skip_value (Suc (length (bi_rem s))) s = (Inr (), t) \<and> bi_ok t \<and> bi_rem t = rest"
  using parsesE [OF reads_skip_value [OF assms(1,2), of "Suc (length (bi_rem s))"] assms(3,4)] assms(4) by auto

theorem skip_value_exact_witness:
  "\<exists>t. skip_value 5 \<lparr>bi_buf = \<lparr>rb_vab = [0x41, 0xAC, 0x04, 0xFF], rb_of = 0, rb_cb = 4\<rparr>, bi_of = 0\<rparr> = (Inr (), t) \<and>
     bi_rem t = [0xFF]"
proof -
  let ?s = "\<lparr>bi_buf = \<lparr>rb_vab = [0x41, 0xAC, 0x04, 0xFF], rb_of = 0, rb_cb = 4\<rparr>, bi_of = 0\<rparr>"
  have ok: "bi_ok ?s" by (simp add: bi_ok_def rb_ok_def npos_def size_max_def)
  have rem: "bi_rem ?s = [0x41, 0xAC, 0x04, 0xFF]" by (simp add: bi_rem_def rb_octets_def)
  have octets: "obj_octets (OInteger32 300 :: unit pof_obj) = [0x41, 0xAC, 0x04]"
    by (simp add: octets_eval typed_int32_def)
  have n: "Suc (length (bi_rem ?s)) = 5" by (simp add: rem)
  have "\<exists>t. skip_value (Suc (length (bi_rem ?s))) ?s = (Inr (), t) \<and> bi_ok t \<and> bi_rem t = [0xFF]"
    using skip_value_exact [of "OInteger32 300 :: unit pof_obj" ?s "[0xFF]"] ok octets by (simp add: rem del: skip_value.simps)
  then show ?thesis unfolding n by blast
qed

text \<open>
  C8: on arbitrary octets \<^verbatim>\<open>skipValue\<close> terminates: the recursion depth stays within the
  number of unread octets, and when no exception is thrown at least one octet is consumed.
\<close>

theorem skip_value_terminates:
  assumes "bi_ok s"
  shows "\<exists>r t. skip_value (Suc (length (bi_rem s))) s = (r, t) \<and> bi_ok t \<and> r \<noteq> Inl StackOverflow \<and>
    (isl r \<or> length (bi_rem t) < length (bi_rem s))"
proof (cases "skip_value (Suc (length (bi_rem s))) s")
  case (Pair r t)
  then show ?thesis using skip_terminates [OF assms, of "Suc (length (bi_rem s))"] by (auto simp del: skip_value.simps)
qed

theorem skip_value_terminates_witness:
  "\<exists>r t. skip_value (Suc (length (bi_rem sample_input))) sample_input = (r, t) \<and> r \<noteq> Inl StackOverflow"
  using skip_value_terminates [OF sample_input_ok] by blast

text \<open>
  C28: a sparse array without a gap (as many elements as its size), of any objects that are
  skipped exactly, is not skipped as a whole: the loop counts the elements and ends before it
  reads the -1 that ends the array, so that the next value read is that marker instead of
  what follows the array.
\<close>

theorem skip_dense_sparse_array:
  assumes "obj_sized (OLongArray vla)" and "\<forall>(i, v)\<in>set vla. obj_gapped v"
    and dense: "int (length vla) = la_last_index vla + 1" and "bi_ok s"
    and "bi_rem s = obj_octets (OLongArray vla) @ rest"
  shows "\<exists>t. skip_value (Suc (length (bi_rem s))) s = (Inr (), t) \<and> bi_rem t = pack_int (- 1 :: int32_t) @ rest"
proof -
  let ?g = "\<lambda>(i, v). pack_int (of_int i :: int32_t) @ obj_octets v"
  let ?n = "length vla" and ?body = "concat (map ?g vla)"
  have la: "long_array_ok vla" and sized: "\<forall>(i, v)\<in>set vla. obj_sized v" using assms(1) by simp_all
  have n: "nat (la_last_index vla + 1) = ?n" using dense by simp
  with long_array_bounds [OF la] have n31: "?n < 2 ^ 31" by simp
  have rem: "bi_rem s = pack_int t_sparse_array @ pack_int (of_nat ?n :: int32_t) @ ?body @
      pack_int (- 1 :: int32_t) @ rest"
    using assms(5) n by (simp add: complex_header_def)
  obtain m where m: "length (bi_rem s) = Suc m" "length ?body < m"
    using length_pack_ge1 [of t_sparse_array] length_pack_ge1 [of "of_nat ?n :: int32_t"]
      length_pack_ge1 [of "- 1 :: int32_t"]
    by (cases "length (bi_rem s)") (simp_all add: rem)
  have el: "reads (skip_value m) (obj_octets v) () \<and> \<not> (of_int i :: int32_t) <s 0" if "(i, v) \<in> set vla" for i v
    using reads_skip_value [of v m] sized assms(2) that m(2) length_concat_member [OF that, of ?g] la
      int32_of_int_nonneg [of i]
    by (force simp: long_array_ok_def word_sless_alt word_sle_eq simp del: skip_value.simps)
  have "reads (skip_uniform_value (Suc m) t_sparse_array) (pack_int (of_nat ?n :: int32_t) @ ?body) ()"
    using parses_bindc [where f = "\<lambda>c. skip_positions c (skip_value m)",
        OF reads_incoming [OF n31] reads_skip_positions_dense [where g = obj_octets, OF el]]
    by (simp add: skip_uniform_value.simps del: skip_value.simps)
  from reads_skip_typed [OF _ this]
  have "reads (skip_value (Suc (Suc m))) (pack_int t_sparse_array @ pack_int (of_nat ?n :: int32_t) @ ?body) ()" by simp
  with assms(4) m(1) rem show ?thesis by (auto elim!: parsesE simp del: skip_value.simps)
qed

theorem skip_dense_sparse_array_witness:
  "\<exists>s t. bi_rem s = obj_octets (OLongArray [(0, ONull), (1, ONull :: unit pof_obj)]) @ [0x2A] \<and>
     skip_value (Suc (length (bi_rem s))) s = (Inr (), t) \<and> bi_rem t = pack_int (- 1 :: int32_t) @ [0x2A]"
proof -
  let ?la = "[(0, ONull), (1, ONull :: unit pof_obj)]"
  let ?bs = "obj_octets (OLongArray ?la) @ [0x2A]"
  have "length ?bs < npos"
    by (simp add: complex_header_def la_last_index_def pack_int_def pack_loop.simps word_sless_alt Let_def npos_def size_max_def)
  from reader_over_ok(1) [OF this] have ok: "bi_ok (pr_in (reader_over ?bs :: unit pof_reader))" .
  have "obj_sized (OLongArray ?la)" "\<forall>(i, v)\<in>set ?la. obj_gapped v" "int (length ?la) = la_last_index ?la + 1"
    by (simp_all add: long_array_ok_def la_last_index_def)
  from skip_dense_sparse_array [OF this ok, of "[0x2A]"] show ?thesis
    using reader_over_ok(2) [of ?bs] by metis
qed

end
