(* ===== verification/Sparse_Array.thy ===== *)
theory Sparse_Array
  imports Long_Array
begin

text \<open>
  \<^verbatim>\<open>AbstractSparseArray\<close> and \<^verbatim>\<open>SparseArray\<close> of \<^verbatim>\<open>coherence/util\<close>: a long array kept as an
  AVL tree whose nodes store their balance factor.  A node handle of the code is a position
  in the tree: the sub-tree at the node and the path up to the head, which stands for the
  \<^verbatim>\<open>parent\<close> members.  Keys identify nodes, as a node never changes its key.  The
  interpretation of \<open>long_array\<close> at the end shows that the tree implements the
  interface.
\<close>

section \<open>Nodes and positions\<close>

text \<open>The balance factor counts to the right.\<close>

datatype 'v sa_node =
    SaNull
  | SaNode (sa_left: "'v sa_node") (sa_key: int) (sa_value: "'v holder") (sa_balance: int)
      (sa_right: "'v sa_node")
where
  "sa_balance SaNull = 0"
| "sa_left SaNull = SaNull"
| "sa_right SaNull = SaNull"

record 'v sparse_array =
  sa_size :: nat
  sa_head :: "'v sa_node"

text \<open>One step up: the parent, less the child one came from.\<close>

datatype 'v sa_step =
    InLeft int "'v holder" int "'v sa_node"
  | InRight "'v sa_node" int "'v holder" int

type_synonym 'v sa_path = "'v sa_step list"

text \<open>\<^verbatim>\<open>replace\<close>: the node at a position is replaced by another one, or by none.\<close>

fun sa_replace :: "'v sa_node \<Rightarrow> 'v sa_path \<Rightarrow> 'v sa_node" where
  "sa_replace t [] = t"
| "sa_replace t (InLeft k v b r # c) = sa_replace (SaNode t k v b r) c"
| "sa_replace t (InRight l k v b # c) = sa_replace (SaNode l k v b t) c"

definition sa_empty :: "'v sparse_array" where
  "sa_empty = \<lparr>sa_size = 0, sa_head = SaNull\<rparr>"

definition sa_clear :: "'v sparse_array \<Rightarrow> 'v sparse_array" where
  "sa_clear a = a\<lparr>sa_head := SaNull, sa_size := 0\<rparr>"

section \<open>Searching\<close>

fun sa_find_at :: "int \<Rightarrow> 'v sa_node \<Rightarrow> 'v sa_path \<Rightarrow> ('v sa_node \<times> 'v sa_path) option" where
  "sa_find_at i SaNull c = None"
| "sa_find_at i (SaNode l k v b r) c =
     (if i < k then sa_find_at i l (InLeft k v b r # c)
      else if k < i then sa_find_at i r (InRight l k v b # c)
      else Some (SaNode l k v b r, c))"

definition sa_find :: "int \<Rightarrow> 'v sparse_array \<Rightarrow> ('v sa_node \<times> 'v sa_path) option" where
  "sa_find i a = sa_find_at i (sa_head a) []"

text \<open>A missing entry and an entry that holds \<^verbatim>\<open>NULL\<close> give the same result.\<close>

definition sa_get :: "int \<Rightarrow> 'v sparse_array \<Rightarrow> 'v holder" where
  "sa_get i a = (case sa_find i a of None \<Rightarrow> None | Some (t, c) \<Rightarrow> sa_value t)"

definition sa_exists :: "int \<Rightarrow> 'v sparse_array \<Rightarrow> bool" where
  "sa_exists i a = (sa_find i a \<noteq> None)"

fun sa_first_from :: "'v sa_node \<Rightarrow> int \<Rightarrow> int" where
  "sa_first_from SaNull n = n"
| "sa_first_from (SaNode l k v b r) n = sa_first_from l k"

fun sa_last_from :: "'v sa_node \<Rightarrow> int \<Rightarrow> int" where
  "sa_last_from SaNull n = n"
| "sa_last_from (SaNode l k v b r) n = sa_last_from r k"

definition sa_first_index :: "'v sparse_array \<Rightarrow> int" where
  "sa_first_index a = sa_first_from (sa_head a) (- 1)"

definition sa_last_index :: "'v sparse_array \<Rightarrow> int" where
  "sa_last_index a = sa_last_from (sa_head a) (- 1)"

text \<open>The node with the key, or the node that becomes the parent of a new one.\<close>

fun sa_insertion_point_at :: "int \<Rightarrow> 'v sa_node \<Rightarrow> 'v sa_path \<Rightarrow> ('v sa_node \<times> 'v sa_path) option" where
  "sa_insertion_point_at i SaNull c = None"
| "sa_insertion_point_at i (SaNode l k v b r) c =
     (if k < i then
        if r = SaNull then Some (SaNode l k v b r, c) else sa_insertion_point_at i r (InRight l k v b # c)
      else if i < k then
        if l = SaNull then Some (SaNode l k v b r, c) else sa_insertion_point_at i l (InLeft k v b r # c)
      else Some (SaNode l k v b r, c))"

definition sa_insertion_point :: "int \<Rightarrow> 'v sparse_array \<Rightarrow> ('v sa_node \<times> 'v sa_path) option" where
  "sa_insertion_point i a = sa_insertion_point_at i (sa_head a) []"

section \<open>Rotations\<close>

text \<open>The use of a child that is \<^verbatim>\<open>NULL\<close> is a \<^verbatim>\<open>NullPointerException\<close>.\<close>

fun sa_rotate :: "'v sa_node \<Rightarrow> bool \<Rightarrow> exn + 'v sa_node" where
  "sa_rotate (SaNode l k v b (SaNode rl rk rv rb rr)) True = Inr (SaNode (SaNode l k v b rl) rk rv rb rr)"
| "sa_rotate (SaNode (SaNode ll lk lv lb lr) k v b r) False = Inr (SaNode ll lk lv lb (SaNode lr k v b r))"
| "sa_rotate _ _ = Inl NullPointerException"

fun sa_double_rotate :: "'v sa_node \<Rightarrow> bool \<Rightarrow> exn + 'v sa_node" where
  "sa_double_rotate SaNull fLeft = Inl NullPointerException"
| "sa_double_rotate (SaNode l k v b r) fLeft =
     (if fLeft then
        case sa_rotate r (\<not> fLeft) of Inl e \<Rightarrow> Inl e | Inr r' \<Rightarrow> sa_rotate (SaNode l k v b r') fLeft
      else
        case sa_rotate l (\<not> fLeft) of Inl e \<Rightarrow> Inl e | Inr l' \<Rightarrow> sa_rotate (SaNode l' k v b r) fLeft)"

text \<open>The balance factors of a node, of its left or right child, and of the grandchild between them.\<close>

fun sa_adjust_double_balance :: "'v sa_node \<Rightarrow> bool \<Rightarrow> int \<Rightarrow> exn + 'v sa_node" where
  "sa_adjust_double_balance (SaNode (SaNode ll lk lv lb (SaNode gl gk gv gb gr)) k v b r) True nBal =
     (if gb = 0 then Inr (SaNode (SaNode ll lk lv 0 (SaNode gl gk gv 0 gr)) k v 0 r)
      else if gb = nBal then Inr (SaNode (SaNode ll lk lv 0 (SaNode gl gk gv 0 gr)) k v (- nBal) r)
      else Inr (SaNode (SaNode ll lk lv nBal (SaNode gl gk gv 0 gr)) k v 0 r))"
| "sa_adjust_double_balance (SaNode l k v b (SaNode (SaNode gl gk gv gb gr) rk rv rb rr)) False nBal =
     (if gb = 0 then Inr (SaNode l k v 0 (SaNode (SaNode gl gk gv 0 gr) rk rv 0 rr))
      else if gb = nBal then Inr (SaNode l k v (- nBal) (SaNode (SaNode gl gk gv 0 gr) rk rv 0 rr))
      else Inr (SaNode l k v 0 (SaNode (SaNode gl gk gv 0 gr) rk rv nBal rr)))"
| "sa_adjust_double_balance _ _ _ = Inl NullPointerException"

fun sa_with_balance :: "int \<Rightarrow> 'v sa_node \<Rightarrow> 'v sa_node" where
  "sa_with_balance n SaNull = SaNull"
| "sa_with_balance n (SaNode l k v b r) = SaNode l k v n r"

definition sa_set_balances :: "int \<Rightarrow> bool \<Rightarrow> int \<Rightarrow> 'v sa_node \<Rightarrow> 'v sa_node" where
  "sa_set_balances n fLeft nChild t =
     (case t of SaNull \<Rightarrow> SaNull
      | SaNode l k v b r \<Rightarrow>
          if fLeft then SaNode (sa_with_balance nChild l) k v n r
          else SaNode l k v n (sa_with_balance nChild r))"

section \<open>Insertion\<close>

text \<open>
  The loop of \<^verbatim>\<open>balancedInsertion\<close>: \<open>fLeft\<close> tells that \<^verbatim>\<open>hChild\<close> is the left child of
  \<^verbatim>\<open>hParent\<close>, the node at the position.  The result is the head of the tree.
\<close>

function sa_balance_insertion :: "bool \<Rightarrow> 'v sa_node \<Rightarrow> 'v sa_path \<Rightarrow> exn + 'v sa_node" where
  "sa_balance_insertion fLeft t c =
     (if sa_balance t = 0 then Inr (sa_replace t c)
      else if sa_balance t = - 1 \<or> sa_balance t = 1 then
        (case c of
           [] \<Rightarrow> Inr t
         | InLeft k v b r # c' \<Rightarrow> sa_balance_insertion True (SaNode t k v (b - 1) r) c'
         | InRight l k v b # c' \<Rightarrow> sa_balance_insertion False (SaNode l k v (b + 1) t) c')
      else if sa_balance t = - 2 \<or> sa_balance t = 2 then
        (let nBal = (if fLeft then - 1 else 1);
             hChild = (if fLeft then sa_left t else sa_right t)
         in case
              (if sa_balance hChild = nBal
               then sa_rotate (sa_set_balances 0 fLeft 0 t) (\<not> fLeft)
               else case sa_adjust_double_balance t fLeft nBal of
                      Inl e \<Rightarrow> Inl e
                    | Inr u \<Rightarrow> sa_double_rotate u (\<not> fLeft)) of
              Inl e \<Rightarrow> Inl e
            | Inr u \<Rightarrow> Inr (sa_replace u c))
      else Inl IllegalStateException)"
  by pat_completeness auto
termination by (relation "measure (\<lambda>(f, t, c). length c)") auto

declare sa_balance_insertion.simps [simp del]

definition sa_balanced_insertion ::
  "('v sa_node \<times> 'v sa_path) option \<Rightarrow> int \<Rightarrow> 'v holder \<Rightarrow> ('v sparse_array, unit) comp" where
  "sa_balanced_insertion hParent lIndex ohValue a =
     (let hChild = SaNode SaNull lIndex ohValue 0 SaNull in
      case hParent of
        None \<Rightarrow> (Inr (), a\<lparr>sa_head := hChild, sa_size := 1\<rparr>)
      | Some (t, c) \<Rightarrow>
          (case
             (if lIndex < sa_key t
              then sa_balance_insertion True (SaNode hChild (sa_key t) (sa_value t) (sa_balance t - 1) (sa_right t)) c
              else sa_balance_insertion False (SaNode (sa_left t) (sa_key t) (sa_value t) (sa_balance t + 1) hChild) c) of
             Inl e \<Rightarrow> (Inl e, a)
           | Inr hHead \<Rightarrow> (Inr (), a\<lparr>sa_head := hHead, sa_size := size_add (sa_size a) 1\<rparr>)))"

definition sa_set :: "int \<Rightarrow> 'v holder \<Rightarrow> ('v sparse_array, 'v holder) comp" where
  "sa_set lIndex ohValue a =
     (case sa_insertion_point lIndex a of
        Some (SaNode l k v b r, c) \<Rightarrow>
          if k = lIndex then (Inr v, a\<lparr>sa_head := sa_replace (SaNode l k ohValue b r) c\<rparr>)
          else mapc (\<lambda>_. None) (sa_balanced_insertion (Some (SaNode l k v b r, c)) lIndex ohValue) a
      | hNode \<Rightarrow> mapc (\<lambda>_. None) (sa_balanced_insertion hNode lIndex ohValue) a)"

text \<open>\<^verbatim>\<open>AbstractLongArray::add\<close>: the 64-bit index is not checked for overflow.\<close>

definition sa_add :: "'v holder \<Rightarrow> ('v sparse_array, int) comp" where
  "sa_add ohValue a =
     (let lIndex = sint (of_int (sa_last_index a + 1) :: int64_t)
      in mapc (\<lambda>_. lIndex) (sa_set lIndex ohValue) a)"

section \<open>Removal\<close>

text \<open>
  The loop of \<^verbatim>\<open>balancePostRemove\<close>: \<open>fPrunedLeft\<close> tells on which side the sub-tree at the
  position has shrunk; its balance factor has not been updated.
\<close>

function sa_balance_post_remove :: "'v sa_node \<Rightarrow> bool \<Rightarrow> 'v sa_path \<Rightarrow> exn + 'v sa_node" where
  "sa_balance_post_remove t fPrunedLeft c =
     (let n = sa_balance t + (if fPrunedLeft then 1 else - 1);
          t = sa_with_balance n t;
          walk_up = (\<lambda>u. case c of
             [] \<Rightarrow> Inr u
           | InLeft k v b r # c' \<Rightarrow> sa_balance_post_remove (SaNode u k v b r) True c'
           | InRight l k v b # c' \<Rightarrow> sa_balance_post_remove (SaNode l k v b u) False c')
      in if n = - 1 \<or> n = 1 then Inr (sa_replace t c)
         else if n = - 2 \<or> n = 2 then
           (let hChild = (if fPrunedLeft then sa_right t else sa_left t);
                nBal = (if fPrunedLeft then - 1 else 1)
            in if sa_balance hChild = - nBal then
                 (case sa_rotate (sa_set_balances 0 (\<not> fPrunedLeft) 0 t) fPrunedLeft of
                    Inl e \<Rightarrow> Inl e | Inr u \<Rightarrow> walk_up u)
               else if sa_balance hChild = nBal then
                 (case sa_adjust_double_balance t (\<not> fPrunedLeft) (- nBal) of
                    Inl e \<Rightarrow> Inl e
                  | Inr u \<Rightarrow> (case sa_double_rotate u fPrunedLeft of Inl e \<Rightarrow> Inl e | Inr u \<Rightarrow> walk_up u))
               else
                 (case sa_rotate (sa_set_balances (- nBal) (\<not> fPrunedLeft) nBal t) fPrunedLeft of
                    Inl e \<Rightarrow> Inl e | Inr u \<Rightarrow> Inr (sa_replace u c)))
         else if n = 0 then walk_up t
         else Inl IllegalStateException)"
  by pat_completeness auto
termination by (relation "measure (\<lambda>(t, f, c). length c)") auto

declare sa_balance_post_remove.simps [simp del]

text \<open>The node's in-order successor: the leftmost node below a position.\<close>

fun sa_leftmost :: "'v sa_node \<Rightarrow> 'v sa_path \<Rightarrow> 'v sa_node \<times> 'v sa_path" where
  "sa_leftmost (SaNode (SaNode ll lk lv lb lr) k v b r) c =
     sa_leftmost (SaNode ll lk lv lb lr) (InLeft k v b r # c)"
| "sa_leftmost t c = (t, c)"

text \<open>\<^verbatim>\<open>remove(Node)\<close>: the result is the head of the tree.\<close>

definition sa_remove_node :: "'v sa_node \<times> 'v sa_path \<Rightarrow> exn + 'v sa_node" where
  "sa_remove_node hNode =
     (case hNode of
        (SaNull, c) \<Rightarrow> Inl NullPointerException
      | (SaNode l k v b r, c) \<Rightarrow>
          if l = SaNull \<or> r = SaNull then
            (let hChild = (if l = SaNull then r else l)
             in case c of
                  [] \<Rightarrow> Inr hChild
                | InLeft pk pv pb pr # c' \<Rightarrow> sa_balance_post_remove (SaNode hChild pk pv pb pr) (k < pk) c'
                | InRight pl pk pv pb # c' \<Rightarrow> sa_balance_post_remove (SaNode pl pk pv pb hChild) (k < pk) c')
          else
            (case sa_leftmost r [] of
               (hHeir, []) \<Rightarrow>
                 sa_balance_post_remove (SaNode l (sa_key hHeir) (sa_value hHeir) b (sa_right hHeir)) False c
             | (hHeir, InLeft pk pv pb pr # c') \<Rightarrow>
                 sa_balance_post_remove (SaNode (sa_right hHeir) pk pv pb pr) True
                   (c' @ InRight l (sa_key hHeir) (sa_value hHeir) b # c)
             | (hHeir, InRight _ _ _ _ # _) \<Rightarrow> Inl UndefinedBehaviour))"

definition sa_remove_at :: "'v sa_node \<times> 'v sa_path \<Rightarrow> ('v sparse_array, unit) comp" where
  "sa_remove_at hNode a =
     (case sa_remove_node hNode of
        Inl e \<Rightarrow> (Inl e, a)
      | Inr hHead \<Rightarrow> (Inr (), a\<lparr>sa_head := hHead, sa_size := size_sub (sa_size a) 1\<rparr>))"

definition sa_remove :: "int \<Rightarrow> ('v sparse_array, 'v holder) comp" where
  "sa_remove lIndex a =
     (case sa_find lIndex a of
        None \<Rightarrow> (Inr None, a)
      | Some (t, c) \<Rightarrow> mapc (\<lambda>_. sa_value t) (sa_remove_at (t, c)) a)"

section \<open>The entries of a tree\<close>

fun sa_entries :: "'v sa_node \<Rightarrow> (int \<times> 'v holder) list" where
  "sa_entries SaNull = []"
| "sa_entries (SaNode l k v b r) = sa_entries l @ (k, v) # sa_entries r"

text \<open>The entries before and after a position.\<close>

fun sa_before :: "'v sa_path \<Rightarrow> (int \<times> 'v holder) list" where
  "sa_before [] = []"
| "sa_before (InLeft k v b r # c) = sa_before c"
| "sa_before (InRight l k v b # c) = sa_before c @ sa_entries l @ [(k, v)]"

fun sa_after :: "'v sa_path \<Rightarrow> (int \<times> 'v holder) list" where
  "sa_after [] = []"
| "sa_after (InLeft k v b r # c) = (k, v) # sa_entries r @ sa_after c"
| "sa_after (InRight l k v b # c) = sa_after c"

lemma entries_replace: "sa_entries (sa_replace t c) = sa_before c @ sa_entries t @ sa_after c"
  by (induction t c rule: sa_replace.induct) simp_all

lemma entries_with_balance [simp]: "sa_entries (sa_with_balance n t) = sa_entries t"
  by (cases t) simp_all

lemma entries_set_balances [simp]: "sa_entries (sa_set_balances n f m t) = sa_entries t"
  by (cases t) (simp_all add: sa_set_balances_def)

lemma entries_rotate: "sa_rotate t f = Inr u \<Longrightarrow> sa_entries u = sa_entries t"
  by (induction t f rule: sa_rotate.induct) auto

lemma entries_double_rotate: "sa_double_rotate t f = Inr u \<Longrightarrow> sa_entries u = sa_entries t"
  by (induction t f rule: sa_double_rotate.induct)
    (auto dest!: entries_rotate split: if_splits sum.splits)

lemma entries_adjust: "sa_adjust_double_balance t f n = Inr u \<Longrightarrow> sa_entries u = sa_entries t"
  by (induction t f n rule: sa_adjust_double_balance.induct) (auto split: if_splits)

lemmas entries_rotations = entries_rotate entries_double_rotate entries_adjust

text \<open>Rebalancing keeps the entries.\<close>

lemma entries_balance_insertion:
  "sa_balance_insertion f t c = Inr u \<Longrightarrow> sa_entries u = sa_before c @ sa_entries t @ sa_after c"
proof (induction f t c arbitrary: u rule: sa_balance_insertion.induct)
  case (1 f t c)
  show ?case
  proof (cases "sa_balance t = - 1 \<or> sa_balance t = 1")
    case True
    then have *: "sa_balance t \<noteq> 0" by auto
    show ?thesis
      using 1(3) 1(1) [OF * True] 1(2) [OF * True] True
      by (subst (asm) sa_balance_insertion.simps) (auto split: list.splits sa_step.splits)
  next
    case False
    with 1(3) show ?thesis
      by (subst (asm) sa_balance_insertion.simps)
        (auto simp: Let_def entries_replace dest!: entries_rotations split: if_splits sum.splits)
  qed
qed

lemma entries_balance_post_remove:
  "sa_balance_post_remove t f c = Inr u \<Longrightarrow> sa_entries u = sa_before c @ sa_entries t @ sa_after c"
proof (induction "length c" arbitrary: t f c u)
  case 0
  then show ?case
    by (subst (asm) sa_balance_post_remove.simps)
      (auto simp: Let_def dest!: entries_rotations split: if_splits sum.splits)
next
  case (Suc n)
  obtain p c' where c: "c = p # c'" "n = length c'" using Suc.hyps(2) by (cases c) auto
  have up: "sa_entries u = sa_before c @ sa_entries w @ sa_after c"
    if "(case p of InLeft k v b r \<Rightarrow> sa_balance_post_remove (SaNode w k v b r) True c'
      | InRight l k v b \<Rightarrow> sa_balance_post_remove (SaNode l k v b w) False c') = Inr u" for w
    using that Suc.hyps(1) [OF c(2)] c(1) by (cases p) auto
  from Suc.prems show ?case
    unfolding c(1)
    by (subst (asm) sa_balance_post_remove.simps)
      (auto simp: Let_def entries_replace dest!: entries_rotations up [unfolded c(1)] split: if_splits sum.splits)
qed

section \<open>Balanced trees\<close>

fun sa_height :: "'v sa_node \<Rightarrow> nat" where
  "sa_height SaNull = 0"
| "sa_height (SaNode l k v b r) = 1 + max (sa_height l) (sa_height r)"

fun sa_avl :: "'v sa_node \<Rightarrow> bool" where
  "sa_avl SaNull \<longleftrightarrow> True"
| "sa_avl (SaNode l k v b r) \<longleftrightarrow>
     sa_avl l \<and> sa_avl r \<and> b = int (sa_height r) - int (sa_height l) \<and> \<bar>b\<bar> \<le> 1"

text \<open>A path that a balanced tree of height \<open>h\<close> completes to a balanced tree.\<close>

fun sa_path_avl :: "'v sa_path \<Rightarrow> nat \<Rightarrow> bool" where
  "sa_path_avl [] h \<longleftrightarrow> True"
| "sa_path_avl (InLeft k v b r # c) h \<longleftrightarrow>
     sa_avl r \<and> b = int (sa_height r) - int h \<and> \<bar>b\<bar> \<le> 1 \<and> sa_path_avl c (1 + max h (sa_height r))"
| "sa_path_avl (InRight l k v b # c) h \<longleftrightarrow>
     sa_avl l \<and> b = int h - int (sa_height l) \<and> \<bar>b\<bar> \<le> 1 \<and> sa_path_avl c (1 + max (sa_height l) h)"

lemma avl_replace: "sa_avl (sa_replace t c) \<longleftrightarrow> sa_avl t \<and> sa_path_avl c (sa_height t)"
  by (induction t c rule: sa_replace.induct) auto

lemma path_avl_append:
  "sa_path_avl (c @ d) (sa_height t) \<longleftrightarrow> sa_path_avl c (sa_height t) \<and> sa_path_avl d (sa_height (sa_replace t c))"
  by (induction t c rule: sa_replace.induct) auto

lemma height_pos: "0 < sa_height t \<longleftrightarrow> t \<noteq> SaNull"
  by (cases t) simp_all

lemma balance_balanced: "sa_avl t \<Longrightarrow> \<bar>sa_balance t\<bar> \<le> 1"
  by (cases t) simp_all

text \<open>
  The repairs of a node that is too heavy on one side (left when \<open>f\<close>), by the balance of
  the child on that side.
\<close>

abbreviation sa_side :: "bool \<Rightarrow> int" where
  "sa_side f \<equiv> if f then - 1 else 1"

lemma repair_single:
  assumes "sa_avl l" and "sa_avl r" and "int (sa_height r) - int (sa_height l) = 2 * sa_side f"
    and "sa_balance (if f then l else r) = sa_side f"
  obtains u where "sa_rotate (sa_set_balances 0 f 0 (SaNode l k v b r)) (\<not> f) = Inr u" "sa_avl u"
    "sa_height u = max (sa_height l) (sa_height r)"
  using assms by (cases f; cases l; cases r) (auto simp: sa_set_balances_def)

lemma repair_even:
  assumes "sa_avl l" and "sa_avl r" and "int (sa_height r) - int (sa_height l) = 2 * sa_side f"
    and "sa_balance (if f then l else r) = 0"
  obtains u where "sa_rotate (sa_set_balances (sa_side f) f (- sa_side f) (SaNode l k v b r)) (\<not> f) = Inr u"
    "sa_avl u" "sa_height u = 1 + max (sa_height l) (sa_height r)"
  using assms by (cases f; cases l; cases r) (auto simp: sa_set_balances_def)

lemma repair_double:
  assumes "sa_avl l" and "sa_avl r" and "int (sa_height r) - int (sa_height l) = 2 * sa_side f"
    and "sa_balance (if f then l else r) = - sa_side f"
  obtains w u where "sa_adjust_double_balance (SaNode l k v b r) f (sa_side f) = Inr w"
    "sa_double_rotate w (\<not> f) = Inr u" "sa_avl u" "sa_height u = max (sa_height l) (sa_height r)"
proof (cases f)
  case True
  with assms obtain ll lk lv lb lr where l: "l = SaNode ll lk lv lb lr" by (cases l) auto
  with assms True obtain gl gk gv gb gr where g: "lr = SaNode gl gk gv gb gr" by (cases lr) auto
  show ?thesis using that assms True l g by (cases "gb = 0"; cases "gb = - 1") auto
next
  case False
  with assms obtain rl rk rv rb rr where r: "r = SaNode rl rk rv rb rr" by (cases r) auto
  with assms False obtain gl gk gv gb gr where g: "rl = SaNode gl gk gv gb gr" by (cases rl) auto
  show ?thesis using that assms False r g by (cases "gb = 0"; cases "gb = 1") auto
qed

lemma balance_cases:
  assumes "\<bar>b - sa_side f\<bar> \<le> 1"
  obtains "b = 0" | "b = sa_side f" | "b = 2 * sa_side f"
proof -
  from assms have "b = 0 \<or> b = sa_side f \<or> b = 2 * sa_side f" by (cases f) (simp_all, arith+)
  with that show ?thesis by blast
qed

text \<open>A repaired node that has the height of the node before the change fits its path.\<close>

lemma repair_grown:
  assumes "sa_avl l" and "sa_avl r" and "int (sa_height r) - int (sa_height l) = 2 * sa_side f"
    and "sa_balance (if f then l else r) \<noteq> 0" and "sa_path_avl c (max (sa_height l) (sa_height r))"
  shows "\<exists>u. sa_balance_insertion f (SaNode l k v (2 * sa_side f) r) c = Inr u \<and> sa_avl u"
proof -
  let ?ch = "if f then l else r"
  have b: "sa_balance ?ch = sa_side f \<or> sa_balance ?ch = - sa_side f"
    using assms(4) balance_balanced [of ?ch] assms(1,2) by (cases f) auto
  then show ?thesis
  proof
    assume 1: "sa_balance ?ch = sa_side f"
    from repair_single [OF assms(1-3) 1, of k v "2 * sa_side f"] obtain u where
      "sa_rotate (sa_set_balances 0 f 0 (SaNode l k v (2 * sa_side f) r)) (\<not> f) = Inr u"
      "sa_avl u" "sa_height u = max (sa_height l) (sa_height r)" .
    with 1 assms(5) show ?thesis by (cases f) (simp_all add: sa_balance_insertion.simps avl_replace)
  next
    assume 1: "sa_balance ?ch = - sa_side f"
    from repair_double [OF assms(1-3) 1, of k v "2 * sa_side f"] obtain w u where
      "sa_adjust_double_balance (SaNode l k v (2 * sa_side f) r) f (sa_side f) = Inr w"
      "sa_double_rotate w (\<not> f) = Inr u" "sa_avl u" "sa_height u = max (sa_height l) (sa_height r)" .
    with 1 assms(5) show ?thesis by (cases f) (simp_all add: sa_balance_insertion.simps avl_replace)
  qed
qed

text \<open>
  Insertion: the sub-tree on one side of the node has grown by one, and its root is not in
  balance unless it is the new node.
\<close>

lemma avl_balance_insertion:
  assumes "sa_avl l" and "sa_avl r" and "b = int (sa_height r) - int (sa_height l)"
    and "\<bar>b - sa_side f\<bar> \<le> 1" and "sa_path_avl c h"
    and "h = max (sa_height l + of_bool (\<not> f)) (sa_height r + of_bool f)"
    and "sa_balance (if f then l else r) \<noteq> 0 \<or> sa_height (if f then l else r) = 1"
    and "0 < sa_height (if f then l else r)"
  shows "\<exists>u. sa_balance_insertion f (SaNode l k v b r) c = Inr u \<and> sa_avl u"
  using assms
proof (induction c arbitrary: f l k v b r h)
  case Nil
  from Nil(4) show ?case
  proof (cases rule: balance_cases)
    case 3
    with Nil show ?thesis using repair_grown [of l r f "[]" k v] by (cases f) auto
  qed (use Nil in \<open>auto simp: sa_balance_insertion.simps\<close>)
next
  case (Cons p c)
  from Cons.prems(4) show ?case
  proof (cases rule: balance_cases)
    case 1
    with Cons.prems show ?thesis by (cases f) (auto simp: sa_balance_insertion.simps [of _ _ "p # c"] avl_replace)
  next
    case 2
    let ?t = "SaNode l k v b r"
    have t: "sa_avl ?t" "sa_balance ?t \<noteq> 0" "sa_height ?t = h + 1"
      using Cons.prems 2 by (cases f; simp)+
    show ?thesis
    proof (cases p)
      case (InLeft k' v' b' r')
      have "\<exists>u. sa_balance_insertion True (SaNode ?t k' v' (b' - 1) r') c = Inr u \<and> sa_avl u"
        by (rule Cons.IH) (use t Cons.prems(5) InLeft in auto)
      with InLeft 2 show ?thesis by (subst sa_balance_insertion.simps) auto
    next
      case (InRight l' k' v' b')
      have "\<exists>u. sa_balance_insertion False (SaNode l' k' v' (b' + 1) ?t) c = Inr u \<and> sa_avl u"
        by (rule Cons.IH) (use t Cons.prems(5) InRight in auto)
      with InRight 2 show ?thesis by (subst sa_balance_insertion.simps) auto
    qed
  next
    case 3
    with Cons.prems show ?thesis using repair_grown [of l r f "p # c" k v] by (cases f) auto
  qed
qed

text \<open>Removal: the sub-tree on one side of the node has shrunk by one.\<close>

lemma avl_balance_post_remove:
  assumes "sa_avl l" and "sa_avl r"
    and "b = int (sa_height r + of_bool (\<not> f)) - int (sa_height l + of_bool f)" and "\<bar>b\<bar> \<le> 1"
    and "sa_path_avl c h" and "h = 1 + max (sa_height l + of_bool f) (sa_height r + of_bool (\<not> f))"
  shows "\<exists>u. sa_balance_post_remove (SaNode l k v b r) f c = Inr u \<and> sa_avl u"
  using assms
proof (induction "length c" arbitrary: f l k v b r c h rule: less_induct)
  case less
  let ?g = "\<not> f" and ?n = "int (sa_height r) - int (sa_height l)"
  let ?t = "SaNode l k v ?n r" and ?ch = "if f then r else l"
  have step: "b = ?n - (if f then 1 else - 1)"
    using less.prems(3) by (cases f) auto
  have up: "\<exists>w. (case c of [] \<Rightarrow> Inr u
      | InLeft k v b r # c' \<Rightarrow> sa_balance_post_remove (SaNode u k v b r) True c'
      | InRight l k v b # c' \<Rightarrow> sa_balance_post_remove (SaNode l k v b u) False c') = Inr w \<and> sa_avl w"
    if "sa_avl u" "sa_height u + 1 = h" for u :: "'a sa_node"
  proof (cases c)
    case (Cons p c')
    show ?thesis
    proof (cases p)
      case (InLeft k' v' b' r')
      have "\<exists>w. sa_balance_post_remove (SaNode u k' v' b' r') True c' = Inr w \<and> sa_avl w"
        by (rule less.hyps) (use that less.prems(5) Cons InLeft in auto)
      with Cons InLeft show ?thesis by simp
    next
      case (InRight l' k' v' b')
      have "\<exists>w. sa_balance_post_remove (SaNode l' k' v' b' u) False c' = Inr w \<and> sa_avl w"
        by (rule less.hyps) (use that less.prems(5) Cons InRight in auto)
      with Cons InRight show ?thesis by simp
    qed
  qed (use that in simp)
  from less.prems(3,4) have "\<bar>?n - sa_side ?g\<bar> \<le> 1" by (cases f) auto
  then show ?case
  proof (cases rule: balance_cases)
    case 1
    with up [of "SaNode l k v 0 r"] less.prems show ?thesis
      by (subst step, subst sa_balance_post_remove.simps) (cases f; auto simp: Let_def)
  next
    case 2
    then have m: "1 + max (sa_height l) (sa_height r) = h" using less.prems(6) by (cases f) auto
    have avl: "sa_avl (sa_replace ?t c)" using less.prems(1,2,5) 2 m by (cases f) (simp_all add: avl_replace)
    from 2 have "b = 0" using step by (cases f) simp_all
    with 2 avl show ?thesis by (subst sa_balance_post_remove.simps) (cases f; simp)
  next
    case 3
    have h: "h = 1 + max (sa_height l) (sa_height r)" using 3 less.prems(6) by (cases f) auto
    have ch: "sa_balance (if ?g then l else r) = sa_side ?g \<or> sa_balance (if ?g then l else r) = - sa_side ?g \<or>
        sa_balance (if ?g then l else r) = 0"
      using balance_balanced [of ?ch] less.prems(1,2) by (cases f) auto
    then show ?thesis
    proof (elim disjE)
      assume s: "sa_balance (if ?g then l else r) = sa_side ?g"
      from repair_single [OF less.prems(1,2) 3 s, of k v ?n] obtain u where
        "sa_rotate (sa_set_balances 0 ?g 0 ?t) (\<not> ?g) = Inr u" "sa_avl u" "sa_height u + 1 = h" using h by auto
      with up [of u] s 3 show ?thesis
        by (subst step, subst sa_balance_post_remove.simps) (cases f; simp)
    next
      assume s: "sa_balance (if ?g then l else r) = - sa_side ?g"
      from repair_double [OF less.prems(1,2) 3 s, of k v ?n] obtain w u where
        "sa_adjust_double_balance ?t ?g (sa_side ?g) = Inr w" "sa_double_rotate w (\<not> ?g) = Inr u"
        "sa_avl u" "sa_height u + 1 = h" using h by auto
      with up [of u] s 3 show ?thesis
        by (subst step, subst sa_balance_post_remove.simps) (cases f; simp)
    next
      assume s: "sa_balance (if ?g then l else r) = 0"
      from repair_even [OF less.prems(1,2) 3 s, of k v ?n] obtain u where
        "sa_rotate (sa_set_balances (sa_side ?g) ?g (- sa_side ?g) ?t) (\<not> ?g) = Inr u" "sa_avl u" "sa_height u = h"
        using h by auto
      with less.prems(5) s 3 show ?thesis
        by (subst step, subst sa_balance_post_remove.simps) (cases f; simp add: avl_replace)
    qed
  qed
qed

section \<open>Positions of keys\<close>

lemma find_at_position:
  "sa_find_at i t c = Some (u, d) \<Longrightarrow> sa_replace u d = sa_replace t c \<and> u \<noteq> SaNull \<and> sa_key u = i"
  by (induction i t c rule: sa_find_at.induct) (auto split: if_splits)

lemma find_at_get:
  "la_ok (sa_entries t) \<Longrightarrow> map_option (sa_value \<circ> fst) (sa_find_at i t c) = la_get i (sa_entries t)"
proof (induction i t c rule: sa_find_at.induct)
  case (2 i l k v b r c)
  from 2(3) have ok: "la_ok (sa_entries l)" "la_ok (sa_entries r)"
    "\<forall>j\<in>fst ` set (sa_entries l). j < k" "\<forall>j\<in>fst ` set (sa_entries r). k < j"
    by (auto simp: la_ok_append la_ok_Cons)
  show ?case
  proof (cases "i < k")
    case True
    with ok(4) have "la_get i (sa_entries r) = None" by (auto simp: la_get_None)
    with True 2(1) [OF True ok(1)] show ?thesis by (simp add: la_get_append split: option.split)
  next
    case False
    with ok(3) have "la_get i (sa_entries l) = None" by (auto simp: la_get_None)
    with False 2(2) [OF False _ ok(2)] show ?thesis by (auto simp: la_get_append)
  qed
qed simp

lemma insertion_point_at:
  assumes "sa_insertion_point_at i t c = Some (u, d)" and "la_ok (sa_entries t)"
    and "\<forall>j\<in>fst ` set (sa_before c). j < i" and "\<forall>j\<in>fst ` set (sa_after c). i < j"
  shows "sa_replace u d = sa_replace t c \<and> u \<noteq> SaNull \<and>
    (sa_key u < i \<longrightarrow> sa_right u = SaNull) \<and> (i < sa_key u \<longrightarrow> sa_left u = SaNull) \<and>
    (\<forall>j\<in>fst ` set (sa_before d). j < i) \<and> (\<forall>j\<in>fst ` set (sa_after d). i < j)"
  using assms
proof (induction i t c rule: sa_insertion_point_at.induct)
  case (2 i l k v b r c)
  from 2(4) have ok: "la_ok (sa_entries l)" "la_ok (sa_entries r)"
    "\<forall>j\<in>fst ` set (sa_entries l). j < k" "\<forall>j\<in>fst ` set (sa_entries r). k < j"
    by (auto simp: la_ok_append la_ok_Cons)
  consider "i = k" | "k < i" "r = SaNull" | "k < i" "r \<noteq> SaNull" | "i < k" "l = SaNull" | "i < k" "l \<noteq> SaNull"
    by linarith
  then show ?case
  proof cases
    case 3
    with 2(5) ok(3) have "\<forall>j\<in>fst ` set (sa_before (InRight l k v b # c)). j < i" by force
    with 2(1) [OF 3 _ ok(2)] 2(3,6) 3 show ?thesis by simp
  next
    case 5
    with 2(6) ok(4) have "\<forall>j\<in>fst ` set (sa_after (InLeft k v b r # c)). i < j" by force
    with 2(2) [OF _ 5 _ ok(1)] 2(3,5) 5 show ?thesis by simp
  qed (use 2(3,5,6) in auto)
qed simp

lemma insertion_point_None: "sa_insertion_point_at i t c = None \<longleftrightarrow> t = SaNull"
  by (induction i t c rule: sa_insertion_point_at.induct) auto

section \<open>The invariant and what the operations do to the entries\<close>

definition sa_ok :: "'v sparse_array \<Rightarrow> bool" where
  "sa_ok a \<longleftrightarrow> sa_avl (sa_head a) \<and> la_ok (sa_entries (sa_head a)) \<and>
     sa_size a = length (sa_entries (sa_head a)) mod size_max"

abbreviation sa_abs :: "'v sparse_array \<Rightarrow> (int \<times> 'v holder) list" where
  "sa_abs a \<equiv> sa_entries (sa_head a)"

lemma sa_empty_ok: "sa_ok sa_empty" "sa_abs sa_empty = []"
  by (simp_all add: sa_empty_def sa_ok_def)

lemma sa_clear_ok: "sa_ok (sa_clear a)" "sa_abs (sa_clear a) = []"
  by (simp_all add: sa_clear_def sa_ok_def)

lemma sa_find_get: "sa_ok a \<Longrightarrow> map_option (sa_value \<circ> fst) (sa_find i a) = la_get i (sa_abs a)"
  by (simp add: sa_ok_def sa_find_def find_at_get)

lemma sa_find_None: "sa_ok a \<Longrightarrow> sa_find i a = None \<longleftrightarrow> i \<notin> fst ` set (sa_abs a)"
  using sa_find_get [of a i] la_get_None [of i "sa_abs a"] by (metis map_option_is_None)

lemma first_from: "sa_first_from t n = (if t = SaNull then n else fst (hd (sa_entries t)))"
  by (induction t n rule: sa_first_from.induct) (auto simp: hd_append elim: sa_entries.elims)

lemma last_from: "sa_last_from t n = (if t = SaNull then n else fst (last (sa_entries t)))"
  by (induction t n rule: sa_last_from.induct) (auto elim: sa_entries.elims)

lemma size_counts: "size_add (n mod size_max) 1 = Suc n mod size_max" "size_sub (Suc n mod size_max) 1 = n mod size_max"
proof -
  show "size_add (n mod size_max) 1 = Suc n mod size_max" by (simp add: size_add_def mod_simps)
  have "1 \<le> size_max" by (simp add: size_max_def)
  then have "Suc n mod size_max + size_max - 1 = Suc n mod size_max + (size_max - 1)" by simp
  then have "size_sub (Suc n mod size_max) 1 = (Suc n + (size_max - 1)) mod size_max"
    by (simp only: size_sub_def mod_add_left_eq)
  then show "size_sub (Suc n mod size_max) 1 = n mod size_max" by (simp add: size_max_def)
qed

lemma sa_get_spec: "sa_ok a \<Longrightarrow> sa_get i a = held (la_get i (sa_abs a))"
  using sa_find_get [of a i] by (auto simp: sa_get_def held_def split: option.splits)

lemma sa_exists_spec: "sa_ok a \<Longrightarrow> sa_exists i a \<longleftrightarrow> la_get i (sa_abs a) \<noteq> None"
  using sa_find_None [of a i] by (auto simp: sa_exists_def la_get_None)

lemma sa_first_index_spec: "sa_first_index a = la_first_index (sa_abs a)"
  by (cases "sa_head a"; cases "sa_entries (sa_left (sa_head a))")
    (auto simp: sa_first_index_def la_first_index_def first_from)

lemma sa_last_index_spec: "sa_last_index a = la_last_index (sa_abs a)"
  by (cases "sa_head a") (auto simp: sa_last_index_def la_last_index_def last_from)

text \<open>A new leaf below the node at a position.\<close>

lemma new_leaf_left:
  assumes "sa_avl (sa_replace (SaNode SaNull k v b r) d)" and "la_ok (sa_entries (sa_replace (SaNode SaNull k v b r) d))"
    and "i < k" and "\<forall>j\<in>fst ` set (sa_before d). j < i" and "\<forall>j\<in>fst ` set (sa_after d). i < j"
  shows "\<exists>w. sa_balance_insertion True (SaNode (SaNode SaNull i x 0 SaNull) k v (b - 1) r) d = Inr w \<and> sa_avl w \<and>
    sa_entries w = la_set i x (sa_entries (sa_replace (SaNode SaNull k v b r) d)) \<and>
    length (sa_entries w) = Suc (length (sa_entries (sa_replace (SaNode SaNull k v b r) d)))"
proof -
  from assms(1) have avl: "sa_avl r" "b = int (sa_height r)" "\<bar>b\<bar> \<le> 1" "sa_path_avl d (1 + sa_height r)"
    by (auto simp: avl_replace)
  have "\<exists>w. sa_balance_insertion True (SaNode (SaNode SaNull i x 0 SaNull) k v (b - 1) r) d = Inr w \<and> sa_avl w"
    by (rule avl_balance_insertion [where h = "1 + sa_height r"]) (use avl in auto)
  then obtain w where w: "sa_balance_insertion True (SaNode (SaNode SaNull i x 0 SaNull) k v (b - 1) r) d = Inr w"
    "sa_avl w" by blast
  have "\<forall>j\<in>fst ` set ((k, v) # sa_entries r @ sa_after d). i < j"
    using assms(2,3,5) by (auto simp: entries_replace la_ok_append la_ok_Cons ball_Un; force)
  from la_set_between [OF assms(4) this, of x] entries_balance_insertion [OF w(1)] w show ?thesis
    by (simp add: entries_replace)
qed

lemma new_leaf_right:
  assumes "sa_avl (sa_replace (SaNode l k v b SaNull) d)" and "la_ok (sa_entries (sa_replace (SaNode l k v b SaNull) d))"
    and "k < i" and "\<forall>j\<in>fst ` set (sa_before d). j < i" and "\<forall>j\<in>fst ` set (sa_after d). i < j"
  shows "\<exists>w. sa_balance_insertion False (SaNode l k v (b + 1) (SaNode SaNull i x 0 SaNull)) d = Inr w \<and> sa_avl w \<and>
    sa_entries w = la_set i x (sa_entries (sa_replace (SaNode l k v b SaNull) d)) \<and>
    length (sa_entries w) = Suc (length (sa_entries (sa_replace (SaNode l k v b SaNull) d)))"
proof -
  from assms(1) have avl: "sa_avl l" "b = - int (sa_height l)" "\<bar>b\<bar> \<le> 1" "sa_path_avl d (1 + sa_height l)"
    by (auto simp: avl_replace)
  have "\<exists>w. sa_balance_insertion False (SaNode l k v (b + 1) (SaNode SaNull i x 0 SaNull)) d = Inr w \<and> sa_avl w"
    by (rule avl_balance_insertion [where h = "1 + sa_height l"]) (use avl in auto)
  then obtain w where w: "sa_balance_insertion False (SaNode l k v (b + 1) (SaNode SaNull i x 0 SaNull)) d = Inr w"
    "sa_avl w" by blast
  have "\<forall>j\<in>fst ` set (sa_before d @ sa_entries l @ [(k, v)]). j < i"
    using assms(2,3,4) by (auto simp: entries_replace la_ok_append la_ok_Cons ball_Un; force)
  from la_set_between [OF this assms(5), of x] entries_balance_insertion [OF w(1)] w show ?thesis
    by (simp add: entries_replace)
qed

lemma sa_set_spec:
  assumes "sa_ok a"
  shows "\<exists>b. sa_set i x a = (Inr (held (la_get i (sa_abs a))), b) \<and> sa_ok b \<and> sa_abs b = la_set i x (sa_abs a)"
proof (cases "sa_insertion_point i a")
  case None
  then have "sa_head a = SaNull" by (simp add: sa_insertion_point_def insertion_point_None)
  then show ?thesis using None
    by (simp add: sa_set_def sa_balanced_insertion_def mapc_def bindc_def sa_ok_def held_def size_max_def ret_def la_ok_Cons)
next
  case (Some p)
  obtain u d where p: "p = (u, d)" by (rule prod.exhaust)
  from insertion_point_at [of i "sa_head a" "[]" u d] Some p assms have u: "sa_replace u d = sa_head a" "u \<noteq> SaNull"
    "sa_key u < i \<longrightarrow> sa_right u = SaNull" "i < sa_key u \<longrightarrow> sa_left u = SaNull"
    "\<forall>j\<in>fst ` set (sa_before d). j < i" "\<forall>j\<in>fst ` set (sa_after d). i < j"
    by (auto simp: sa_insertion_point_def sa_ok_def)
  obtain l k v b r where n: "u = SaNode l k v b r" using u(2) by (cases u) auto
  have ok: "sa_avl (sa_replace u d)" "la_ok (sa_entries (sa_replace u d))"
    "sa_size a = length (sa_entries (sa_replace u d)) mod size_max"
    using assms u(1) by (simp_all add: sa_ok_def)
  have abs: "sa_abs a = sa_before d @ (sa_entries l @ (k, v) # sa_entries r) @ sa_after d"
    using n by (simp add: u(1) [symmetric] entries_replace)
  have keys: "\<forall>j\<in>fst ` set (sa_entries l). j < k" "\<forall>j\<in>fst ` set (sa_entries r). k < j"
    using assms by (simp_all add: sa_ok_def abs la_ok_append la_ok_Cons)
  have absent: "la_get i (sa_abs a) = None" if "sa_key u \<noteq> i"
  proof (cases "k < i")
    case True
    with u(3) n have "r = SaNull" by simp
    with True keys u(5,6) show ?thesis by (auto simp: abs la_get_None)
  next
    case False
    with that u(4) n have "l = SaNull" "i < k" by simp_all
    with keys u(5,6) show ?thesis by (auto simp: abs la_get_None)
  qed
  consider "k = i" | "i < k" | "k < i" by linarith
  then show ?thesis
  proof cases
    case 1
    have lt: "\<forall>j\<in>fst ` set (sa_before d @ sa_entries l). j < i"
      using 1 u(5) keys(1) by auto
    then have "la_get i (sa_before d @ sa_entries l) = None" by (auto simp: la_get_None)
    then have "la_get i (sa_abs a) = Some v"
      using 1 la_get_append [of i "sa_before d @ sa_entries l" "(k, v) # sa_entries r @ sa_after d"] by (simp add: abs)
    moreover have "sa_entries (sa_replace (SaNode l k x b r) d) = la_set i x (sa_abs a)"
      using 1 la_set_at [OF lt, of x v "sa_entries r @ sa_after d"] by (simp add: abs entries_replace)
    moreover have "sa_avl (sa_replace (SaNode l k x b r) d)" using ok(1) n by (auto simp: avl_replace)
    moreover have "length (sa_entries (sa_replace (SaNode l k x b r) d)) = length (sa_abs a)"
      by (simp add: abs entries_replace)
    ultimately show ?thesis using Some p n 1 ok la_ok_la_set [of "sa_abs a" i x] u(1)
      by (simp add: sa_set_def sa_ok_def held_def)
  next
    case 2
    with n u(4) have "l = SaNull" by simp
    with new_leaf_left [of k v b r d i x] ok(1,2) n 2 u(5,6) obtain w where
      "sa_balance_insertion True (SaNode (SaNode SaNull i x 0 SaNull) k v (b - 1) r) d = Inr w" "sa_avl w"
      "sa_entries w = la_set i x (sa_abs a)" "length (sa_entries w) = Suc (length (sa_abs a))"
      using u(1) by auto
    then show ?thesis using Some p n 2 ok absent la_ok_la_set [of "sa_abs a" i x] u(1)
      by (auto simp: sa_set_def sa_balanced_insertion_def mapc_def bindc_def ret_def sa_ok_def held_def size_counts [simplified])
  next
    case 3
    with n u(3) have "r = SaNull" by simp
    with new_leaf_right [of l k v b d i x] ok(1,2) n 3 u(5,6) obtain w where
      "sa_balance_insertion False (SaNode l k v (b + 1) (SaNode SaNull i x 0 SaNull)) d = Inr w" "sa_avl w"
      "sa_entries w = la_set i x (sa_abs a)" "length (sa_entries w) = Suc (length (sa_abs a))"
      using u(1) by auto
    then show ?thesis using Some p n 3 ok absent la_ok_la_set [of "sa_abs a" i x] u(1)
      by (auto simp: sa_set_def sa_balanced_insertion_def mapc_def bindc_def ret_def sa_ok_def held_def size_counts [simplified])
  qed
qed

text \<open>Removal of the node at a position.\<close>

lemma leftmost_path:
  assumes "sa_leftmost t c = (u, d)" and "t \<noteq> SaNull"
  shows "sa_replace u d = sa_replace t c \<and> u \<noteq> SaNull \<and> sa_left u = SaNull \<and>
    (\<exists>e. d = e @ c \<and> (\<forall>p\<in>set e. \<exists>k v b r. p = InLeft k v b r))"
  using assms
proof (induction t c rule: sa_leftmost.induct)
  case (1 ll lk lv lb lr k v b r c)
  then show ?case by fastforce
qed auto

lemma before_append: "sa_before (c @ d) = sa_before d @ sa_before c"
  by (induction c rule: sa_before.induct) auto

lemma after_append: "sa_after (c @ d) = sa_after c @ sa_after d"
  by (induction c rule: sa_after.induct) auto

lemma before_left_spine: "\<forall>p\<in>set e. \<exists>k v b r. p = InLeft k v b r \<Longrightarrow> sa_before e = []"
  by (induction e rule: sa_before.induct) auto

lemma balance_post_remove:
  assumes "sa_avl l" and "sa_avl r"
    and "b = int (sa_height r + of_bool (\<not> f)) - int (sa_height l + of_bool f)" and "\<bar>b\<bar> \<le> 1"
    and "sa_path_avl c h" and "h = 1 + max (sa_height l + of_bool f) (sa_height r + of_bool (\<not> f))"
  shows "\<exists>u. sa_balance_post_remove (SaNode l k v b r) f c = Inr u \<and> sa_avl u \<and>
    sa_entries u = sa_before c @ (sa_entries l @ (k, v) # sa_entries r) @ sa_after c"
  using avl_balance_post_remove [OF assms, of k v] entries_balance_post_remove [of "SaNode l k v b r" f c] by fastforce

lemma remove_node_spec:
  assumes "sa_avl (sa_replace (SaNode l k v b r) c)"
    and "la_ok (sa_entries (sa_replace (SaNode l k v b r) c))"
  shows "\<exists>u. sa_remove_node (SaNode l k v b r, c) = Inr u \<and> sa_avl u \<and>
    sa_entries u = sa_before c @ sa_entries l @ sa_entries r @ sa_after c"
proof -
  from assms(1) have avl: "sa_avl l" "sa_avl r" "b = int (sa_height r) - int (sa_height l)" "\<bar>b\<bar> \<le> 1"
    "sa_path_avl c (1 + max (sa_height l) (sa_height r))" by (auto simp: avl_replace)
  show ?thesis
  proof (cases "l = SaNull \<or> r = SaNull")
    case True
    define w where "w = (if l = SaNull then r else l)"
    have w: "sa_avl w" "sa_entries w = sa_entries l @ sa_entries r"
      "1 + max (sa_height l) (sa_height r) = Suc (sa_height w)"
      using True avl(1,2) by (auto simp: w_def)
    show ?thesis
    proof (cases c)
      case Nil
      with True w show ?thesis by (auto simp: sa_remove_node_def Let_def w_def)
    next
      case (Cons p c')
      show ?thesis
      proof (cases p)
        case (InLeft pk pv pb pr)
        have "k < pk" using assms(2) Cons InLeft by (auto simp: entries_replace la_ok_append la_ok_Cons)
        moreover have "\<exists>u. sa_balance_post_remove (SaNode w pk pv pb pr) True c' = Inr u \<and> sa_avl u \<and>
          sa_entries u = sa_before c' @ (sa_entries w @ (pk, pv) # sa_entries pr) @ sa_after c'"
          by (rule balance_post_remove) (use avl(5) w Cons InLeft in auto)
        ultimately show ?thesis using True Cons InLeft w(2)
          by (auto simp: sa_remove_node_def Let_def w_def)
      next
        case (InRight pl pk pv pb)
        have "\<not> k < pk" using assms(2) Cons InRight by (auto simp: entries_replace la_ok_append la_ok_Cons)
        moreover have "\<exists>u. sa_balance_post_remove (SaNode pl pk pv pb w) False c' = Inr u \<and> sa_avl u \<and>
          sa_entries u = sa_before c' @ (sa_entries pl @ (pk, pv) # sa_entries w) @ sa_after c'"
          by (rule balance_post_remove) (use avl(5) w Cons InRight in auto)
        ultimately show ?thesis using True Cons InRight w(2)
          by (auto simp: sa_remove_node_def Let_def w_def)
      qed
    qed
  next
    case False
    obtain h e where h: "sa_leftmost r [] = (h, e)" by (rule prod.exhaust)
    from leftmost_path [OF h] False have r: "r = sa_replace h e" "h \<noteq> SaNull" "sa_left h = SaNull"
      and spine: "\<forall>p\<in>set e. \<exists>k v b r. p = InLeft k v b r" by auto
    obtain hk hv hb hr where n: "h = SaNode SaNull hk hv hb hr" using r(2,3) by (cases h) auto
    have entries: "sa_entries r = (hk, hv) # sa_entries hr @ sa_after e"
      using n before_left_spine [OF spine] by (simp add: r(1) entries_replace)
    have heir: "sa_avl hr" "sa_path_avl e (Suc (sa_height hr))" "sa_height h = Suc (sa_height hr)"
      using avl(2) n by (auto simp: r(1) avl_replace)
    show ?thesis
    proof (cases e)
      case Nil
      have "\<exists>u. sa_balance_post_remove (SaNode l hk hv b hr) False c = Inr u \<and> sa_avl u \<and>
          sa_entries u = sa_before c @ (sa_entries l @ (hk, hv) # sa_entries hr) @ sa_after c"
        by (rule balance_post_remove) (use avl heir r(1) Nil in auto)
      with False h Nil n entries show ?thesis
        by (auto simp: sa_remove_node_def)
    next
      case (Cons p e')
      with spine obtain pk pv pb pr where p: "p = InLeft pk pv pb pr" by auto
      let ?c = "e' @ InRight l hk hv b # c" and ?h = "1 + max (Suc (sa_height hr)) (sa_height pr)"
      have node: "sa_avl pr" "pb = int (sa_height pr) - int (Suc (sa_height hr))" "\<bar>pb\<bar> \<le> 1" "sa_path_avl e' ?h"
        using heir(2) Cons p by auto
      have "sa_height (sa_replace (SaNode h pk pv pb pr) e') = sa_height r"
        using r(1) Cons p by simp
      with path_avl_append [of e' "InRight l hk hv b # c" "SaNode h pk pv pb pr"] node(4) avl heir(3)
      have path: "sa_path_avl ?c ?h" by auto
      have "\<exists>u. sa_balance_post_remove (SaNode hr pk pv pb pr) True ?c = Inr u \<and> sa_avl u \<and>
          sa_entries u = sa_before (?c) @ (sa_entries hr @ (pk, pv) # sa_entries pr) @ sa_after (?c)"
        by (rule balance_post_remove [OF heir(1) node(1) _ _ path]) (use node in auto)
      moreover have "sa_before e' = []" "sa_after e = (pk, pv) # sa_entries pr @ sa_after e'"
        using Cons p spine by (auto intro: before_left_spine)
      ultimately show ?thesis using False h Cons p n entries
        by (auto simp: sa_remove_node_def before_append after_append)
    qed
  qed
qed

lemma sa_remove_spec:
  assumes "sa_ok a"
  shows "\<exists>b. sa_remove i a = (Inr (held (la_get i (sa_abs a))), b) \<and> sa_ok b \<and> sa_abs b = la_remove i (sa_abs a)"
proof (cases "sa_find i a")
  case None
  with assms have "i \<notin> fst ` set (sa_abs a)" by (simp add: sa_find_None)
  with None assms show ?thesis by (simp add: sa_remove_def la_remove_none la_get_None [THEN iffD2])
next
  case (Some p)
  obtain u d where p: "p = (u, d)" by (rule prod.exhaust)
  from find_at_position [of i "sa_head a" "[]" u d] Some p have u: "sa_replace u d = sa_head a" "u \<noteq> SaNull" "sa_key u = i"
    by (simp_all add: sa_find_def)
  obtain l v b r where n: "u = SaNode l i v b r" using u(2,3) by (cases u) auto
  have abs: "sa_abs a = sa_before d @ (sa_entries l @ (i, v) # sa_entries r) @ sa_after d"
    using n by (simp add: u(1) [symmetric] entries_replace)
  have ok: "sa_avl (sa_head a)" "la_ok (sa_abs a)" "sa_size a = length (sa_abs a) mod size_max"
    using assms by (simp_all add: sa_ok_def)
  from remove_node_spec [of l i v b r d] u(1) n ok(1,2) obtain w where
    w: "sa_remove_node (u, d) = Inr w" "sa_avl w" "sa_entries w = sa_before d @ sa_entries l @ sa_entries r @ sa_after d"
    by auto
  have "\<forall>j\<in>fst ` set (sa_before d @ sa_entries l). j < i"
    using ok(2) by (auto simp: abs la_ok_append la_ok_Cons)
  from la_remove_at [OF this, of v "sa_entries r @ sa_after d"] w(3) have "sa_entries w = la_remove i (sa_abs a)"
    by (simp add: abs)
  moreover have "length (sa_abs a) = Suc (length (sa_entries w))" using w(3) abs by simp
  moreover have "la_get i (sa_abs a) = Some v"
    using sa_find_get [OF assms, of i] Some p n by simp
  ultimately show ?thesis using Some p w(1,2) ok la_ok_la_remove [OF ok(2), of i] n
    by (auto simp: sa_remove_def sa_remove_at_def mapc_def bindc_def ret_def sa_ok_def size_counts [simplified])
qed

interpretation sparse: long_array sa_abs sa_ok sa_empty sa_get sa_exists sa_set sa_remove
  by unfold_locales
    (simp_all add: sa_empty_ok sa_get_spec sa_exists_spec sa_set_spec sa_remove_spec, simp add: sa_ok_def)

section \<open>The height of the tree\<close>

fun min_nodes :: "nat \<Rightarrow> nat" where
  "min_nodes 0 = 0"
| "min_nodes (Suc 0) = 1"
| "min_nodes (Suc (Suc h)) = 1 + min_nodes (Suc h) + min_nodes h"

lemma min_nodes_mono: "h \<le> h' \<Longrightarrow> min_nodes h \<le> min_nodes h'"
proof (induction h' rule: min_nodes.induct)
  case (3 n)
  then show ?case by (cases "h = Suc (Suc n)") (auto simp: le_Suc_eq)
qed (auto simp: le_Suc_eq)

lemma avl_min_nodes: "sa_avl t \<Longrightarrow> min_nodes (sa_height t) \<le> length (sa_entries t)"
proof (induction t)
  case (SaNode l k v b r)
  let ?m = "max (sa_height l) (sa_height r)" and ?n = "min (sa_height l) (sa_height r)"
  have "?m - 1 \<le> ?n" using SaNode.prems by auto
  from min_nodes_mono [OF this] have "min_nodes (Suc ?m) \<le> 1 + min_nodes ?m + min_nodes ?n"
    by (cases ?m) simp_all
  moreover have "min_nodes ?m + min_nodes ?n = min_nodes (sa_height l) + min_nodes (sa_height r)"
    by (simp add: max_def min_def)
  moreover have "min_nodes (sa_height l) \<le> length (sa_entries l)" "min_nodes (sa_height r) \<le> length (sa_entries r)"
    using SaNode by auto
  ultimately show ?case by simp
qed simp

lemma min_nodes_exponential: "2 ^ (h div 2) \<le> Suc (min_nodes h)"
proof (induction h rule: min_nodes.induct)
  case (3 h)
  then show ?case using min_nodes_mono [of h "Suc h"] by simp
qed simp_all

text \<open>A search visits at most as many nodes as the tree is high.\<close>

lemma avl_height: "sa_avl t \<Longrightarrow> 2 ^ (sa_height t div 2) \<le> Suc (length (sa_entries t))"
  using avl_min_nodes [of t] min_nodes_exponential [of "sa_height t"] by linarith

end
