(* ===== verification/Array_Crawler.thy ===== *)
theory Array_Crawler
  imports Sparse_Array
begin

text \<open>
  The iterators of \<^verbatim>\<open>AbstractSparseArray\<close>: a \<^verbatim>\<open>Crawler\<close> is a node handle and the side it
  came from, and crawls along the links of the tree; it can remove the entry it sits on
  while it goes.  \<^verbatim>\<open>AbstractLongArray\<close> implements the interface by iterators alone; the last
  sections show that its methods agree with those of the tree.
\<close>

section \<open>The crawler\<close>

datatype relative_position = ABOVE | LEFT | SITTING | RIGHT

record crawler =
  cr_current :: "int option"
  cr_dir :: relative_position
  cr_read_only :: bool

text \<open>
  The node a handle points to, by its key: a node that was removed from the tree has no
  links and holds \<^verbatim>\<open>NULL\<close>.
\<close>

definition node_at :: "'v sparse_array \<Rightarrow> int \<Rightarrow> 'v sa_node \<times> 'v sa_path" where
  "node_at a k = (case sa_find k a of None \<Rightarrow> (SaNode SaNull k None 0 SaNull, []) | Some p \<Rightarrow> p)"

text \<open>The loop shared by \<^verbatim>\<open>hasNext\<close> and \<^verbatim>\<open>nextNode\<close>: the node to return next, and the direction.\<close>

function crawl ::
  "relative_position \<Rightarrow> 'v sa_node \<Rightarrow> 'v sa_path \<Rightarrow> ('v sa_node \<times> 'v sa_path) option \<times> relative_position" where
  "crawl ABOVE t c =
     (case t of
        SaNode (SaNode ll lk lv lb lr) k v b r \<Rightarrow> crawl ABOVE (SaNode ll lk lv lb lr) (InLeft k v b r # c)
      | _ \<Rightarrow> crawl LEFT t c)"
| "crawl LEFT t c = (Some (t, c), LEFT)"
| "crawl SITTING t c =
     (case t of
        SaNode l k v b (SaNode rl rk rv rb rr) \<Rightarrow> crawl ABOVE (SaNode rl rk rv rb rr) (InRight l k v b # c)
      | _ \<Rightarrow> (case c of
          [] \<Rightarrow> (None, SITTING)
        | InLeft k v b r # c' \<Rightarrow> crawl LEFT (SaNode t k v b r) c'
        | InRight l k v b # c' \<Rightarrow> crawl RIGHT (SaNode l k v b t) c'))"
| "crawl RIGHT t c =
     (case c of
        [] \<Rightarrow> (None, RIGHT)
      | InLeft k v b r # c' \<Rightarrow> crawl LEFT (SaNode t k v b r) c'
      | InRight l k v b # c' \<Rightarrow> crawl RIGHT (SaNode l k v b t) c')"
  by pat_completeness auto
termination
  by (relation "measures [\<lambda>(d, t, c). case d of SITTING \<Rightarrow> 3 | ABOVE \<Rightarrow> 2 | RIGHT \<Rightarrow> 1 | LEFT \<Rightarrow> 0,
        \<lambda>(d, t, c). if d = ABOVE then size t else length c]") auto

declare crawl.simps [simp del]

definition cr_has_next :: "'v sparse_array \<Rightarrow> (crawler, bool) comp" where
  "cr_has_next a cr =
     (case cr_current cr of
        None \<Rightarrow> (Inr False, cr)
      | Some n \<Rightarrow>
          (case node_at a n of (t, c) \<Rightarrow>
           case crawl (cr_dir cr) t c of
             (Some (u, d), dir) \<Rightarrow> (Inr True, cr\<lparr>cr_current := Some (sa_key u), cr_dir := dir\<rparr>)
           | (None, dir) \<Rightarrow> (Inr False, cr\<lparr>cr_current := None, cr_dir := dir\<rparr>)))"

text \<open>The node that is returned is given by its key and its value.\<close>

definition cr_next_node :: "bool \<Rightarrow> 'v sparse_array \<Rightarrow> (crawler, int \<times> 'v holder) comp" where
  "cr_next_node fPeek a cr =
     (case cr_current cr of
        None \<Rightarrow> (Inl NoSuchElementException, cr)
      | Some n \<Rightarrow>
          (case node_at a n of (t, c) \<Rightarrow>
           case crawl (cr_dir cr) t c of
             (Some (u, d), _) \<Rightarrow>
               (Inr (sa_key u, sa_value u),
                if fPeek then cr else cr\<lparr>cr_current := Some (sa_key u), cr_dir := SITTING\<rparr>)
           | (None, dir) \<Rightarrow>
               (Inl NoSuchElementException,
                if fPeek then cr else cr\<lparr>cr_current := None, cr_dir := dir\<rparr>)))"

definition cr_next :: "'v sparse_array \<Rightarrow> (crawler, 'v holder) comp" where
  "cr_next a = mapc snd (cr_next_node False a)"

definition cr_current_node :: "crawler \<Rightarrow> exn + int" where
  "cr_current_node cr =
     (case cr_current cr of
        None \<Rightarrow> Inl IllegalStateException
      | Some n \<Rightarrow> if cr_dir cr \<noteq> SITTING then Inl IllegalStateException else Inr n)"

definition cr_get_index :: "crawler \<Rightarrow> exn + int" where
  "cr_get_index cr = cr_current_node cr"

definition cr_get_value :: "'v sparse_array \<Rightarrow> crawler \<Rightarrow> exn + 'v holder" where
  "cr_get_value a cr =
     (case cr_current_node cr of Inl e \<Rightarrow> Inl e | Inr n \<Rightarrow> Inr (sa_value (fst (node_at a n))))"

definition cr_set_value :: "'v holder \<Rightarrow> crawler \<Rightarrow> ('v sparse_array, 'v holder) comp" where
  "cr_set_value ohValue cr a =
     (if cr_read_only cr then (Inl UnsupportedOperationException, a)
      else case cr_current_node cr of
        Inl e \<Rightarrow> (Inl e, a)
      | Inr n \<Rightarrow>
          (case sa_find n a of
             Some (SaNode l k v b r, c) \<Rightarrow> (Inr v, a\<lparr>sa_head := sa_replace (SaNode l k ohValue b r) c\<rparr>)
           | _ \<Rightarrow> (Inr None, a)))"

fun node_is_linked :: "'v sa_node \<times> 'v sa_path \<Rightarrow> bool" where
  "node_is_linked (t, c) \<longleftrightarrow> c \<noteq> [] \<or> sa_left t \<noteq> SaNull \<or> sa_right t \<noteq> SaNull"

definition sa_is_head :: "'v sparse_array \<Rightarrow> int \<Rightarrow> bool" where
  "sa_is_head a k \<longleftrightarrow> sa_head a \<noteq> SaNull \<and> sa_key (sa_head a) = k"

text \<open>\<^verbatim>\<open>remove\<close> works on the array and on the crawler.\<close>

definition cr_remove :: "('v sparse_array \<times> crawler, unit) comp" where
  "cr_remove s =
     (case s of (a, cr) \<Rightarrow>
      if cr_read_only cr then (Inl UnsupportedOperationException, s)
      else case cr_current_node cr of
        Inl e \<Rightarrow> (Inl e, s)
      | Inr n \<Rightarrow>
          (case cr_has_next a cr of
             (Inl e, cr) \<Rightarrow> (Inl e, (a, cr))
           | (Inr fNext, cr) \<Rightarrow>
               let cr = (if fNext then (snd (cr_next a cr))\<lparr>cr_dir := LEFT\<rparr> else cr)
               in if node_is_linked (node_at a n) \<or> sa_is_head a n
                  then (case sa_remove_at (node_at a n) a of (r, b) \<Rightarrow> (r, (b, cr)))
                  else (Inl IllegalStateException, (a, cr))))"

section \<open>Creating iterators\<close>

definition sa_iterator :: "bool \<Rightarrow> 'v sparse_array \<Rightarrow> crawler" where
  "sa_iterator fReadOnly a =
     \<lparr>cr_current = (if sa_head a = SaNull then None else Some (sa_key (sa_head a))), cr_dir = ABOVE,
      cr_read_only = fReadOnly\<rparr>"

fun sa_closest :: "int \<Rightarrow> 'v sa_node \<Rightarrow> int option \<Rightarrow> int option" where
  "sa_closest i SaNull hClosest = hClosest"
| "sa_closest i (SaNode l k v b r) hClosest =
     (if i < k then sa_closest i l (Some k)
      else if k < i then sa_closest i r hClosest
      else Some k)"

definition sa_iterator_at :: "bool \<Rightarrow> int \<Rightarrow> 'v sparse_array \<Rightarrow> crawler" where
  "sa_iterator_at fReadOnly i a =
     \<lparr>cr_current = sa_closest i (sa_head a) None, cr_dir = LEFT, cr_read_only = fReadOnly\<rparr>"

section \<open>What is left to return\<close>

fun pending :: "relative_position \<Rightarrow> 'v sa_node \<Rightarrow> 'v sa_path \<Rightarrow> (int \<times> 'v holder) list" where
  "pending d SaNull c = []"
| "pending d (SaNode l k v b r) c =
     (case d of
        ABOVE \<Rightarrow> sa_entries l @ (k, v) # sa_entries r @ sa_after c
      | LEFT \<Rightarrow> (k, v) # sa_entries r @ sa_after c
      | SITTING \<Rightarrow> sa_entries r @ sa_after c
      | RIGHT \<Rightarrow> sa_after c)"

text \<open>Crawling stops at the node of the first entry that is left.\<close>

definition crawled ::
  "('v sa_node \<times> 'v sa_path) option \<times> relative_position \<Rightarrow> (int \<times> 'v holder) list \<Rightarrow> 'v sa_node \<Rightarrow> bool" where
  "crawled res es hHead \<longleftrightarrow>
     (case res of
        (None, _) \<Rightarrow> es = []
      | (Some (u, e), d) \<Rightarrow> d = LEFT \<and> u \<noteq> SaNull \<and> sa_replace u e = hHead \<and> pending LEFT u e = es)"

lemma crawl_pending: "t \<noteq> SaNull \<Longrightarrow> crawled (crawl d t c) (pending d t c) (sa_replace t c)"
proof (induction d t c rule: crawl.induct)
  case (1 t c)
  obtain l k v b r where t: "t = SaNode l k v b r" using "1.prems" by (cases t) auto
  with "1.IH" show ?case by (cases l) (auto simp: crawl.simps)
next
  case (2 t c)
  then show ?case by (simp add: crawl.simps crawled_def)
next
  case (3 t c)
  obtain l k v b r where t: "t = SaNode l k v b r" using "3.prems" by (cases t) auto
  show ?case
  proof (cases r)
    case SaNull
    with "3.IH" t show ?thesis by (cases c; cases "hd c") (auto simp: crawl.simps crawled_def)
  next
    case (SaNode rl rk rv rb rr)
    with "3.IH" t show ?thesis by (auto simp: crawl.simps)
  qed
next
  case (4 t c)
  obtain l k v b r where t: "t = SaNode l k v b r" using "4.prems" by (cases t) auto
  with "4.IH" show ?case by (cases c; cases "hd c") (auto simp: crawl.simps crawled_def)
qed

lemma node_at_position:
  assumes "sa_ok a" and "sa_exists k a"
  obtains l v b r c where "sa_find k a = Some (SaNode l k v b r, c)" "node_at a k = (SaNode l k v b r, c)"
    "sa_replace (SaNode l k v b r) c = sa_head a"
    "\<And>j x. (j, x) \<in> set (sa_before c @ sa_entries l) \<Longrightarrow> j < k"
    "\<And>j x. (j, x) \<in> set (sa_entries r @ sa_after c) \<Longrightarrow> k < j"
proof -
  from assms(2) obtain u c where u: "sa_find k a = Some (u, c)" by (auto simp: sa_exists_def)
  from find_at_position [of k "sa_head a" "[]" u c] u have r: "sa_replace u c = sa_head a" "u \<noteq> SaNull" "sa_key u = k"
    by (simp_all add: sa_find_def)
  then obtain l v b r where n: "u = SaNode l k v b r" by (cases u) auto
  have "la_ok (sa_before c @ (sa_entries l @ (k, v) # sa_entries r) @ sa_after c)"
    using assms(1) n by (simp add: sa_ok_def r(1) [symmetric] entries_replace)
  then have "j < k" if "(j, x) \<in> set (sa_before c @ sa_entries l)" for j x
    using that by (force simp: la_ok_append la_ok_Cons)
  moreover have "k < j" if "(j, x) \<in> set (sa_entries r @ sa_after c)" for j x
    using that \<open>la_ok _\<close> by (force simp: la_ok_append la_ok_Cons)
  ultimately show ?thesis using that [of l v b r c] u n r(1) by (simp add: node_at_def)
qed

text \<open>
  The entries that are left, by their keys, and the states in which that is what the
  crawler returns: it starts above the head of the tree and moves to nodes of the tree.
\<close>

definition remaining :: "'v sparse_array \<Rightarrow> crawler \<Rightarrow> (int \<times> 'v holder) list" where
  "remaining a cr =
     (case cr_current cr of
        None \<Rightarrow> []
      | Some k \<Rightarrow>
          (case cr_dir cr of
             ABOVE \<Rightarrow> sa_abs a
           | LEFT \<Rightarrow> filter (\<lambda>(j, _). k \<le> j) (sa_abs a)
           | SITTING \<Rightarrow> filter (\<lambda>(j, _). k < j) (sa_abs a)
           | RIGHT \<Rightarrow> []))"

definition cr_ok :: "'v sparse_array \<Rightarrow> crawler \<Rightarrow> bool" where
  "cr_ok a cr \<longleftrightarrow>
     (case cr_current cr of
        None \<Rightarrow> True
      | Some k \<Rightarrow> sa_exists k a \<and> cr_dir cr \<noteq> RIGHT \<and> (cr_dir cr = ABOVE \<longrightarrow> sa_key (sa_head a) = k))"

lemma filter_keys_ge:
  fixes xs ys :: "(int \<times> 'a) list"
  assumes "\<And>j x. (j, x) \<in> set xs \<Longrightarrow> j < k" and "\<And>j x. (j, x) \<in> set ys \<Longrightarrow> k < j"
  shows "filter (\<lambda>(j, _). k \<le> j) (xs @ (k, v) # ys) = (k, v) # ys"
    "filter (\<lambda>(j, _). k < j) (xs @ (k, v) # ys) = ys"
proof -
  have "filter (\<lambda>(j, _). k \<le> j) xs = []" "filter (\<lambda>(j, _). k < j) xs = []"
    using assms(1) by (auto simp: filter_empty_conv dest!: assms(1))
  moreover have "filter (\<lambda>(j, _). k \<le> j) ys = ys" "filter (\<lambda>(j, _). k < j) ys = ys"
    using assms(2) by (auto simp: filter_id_conv dest!: assms(2))
  ultimately show "filter (\<lambda>(j, _). k \<le> j) (xs @ (k, v) # ys) = (k, v) # ys"
    "filter (\<lambda>(j, _). k < j) (xs @ (k, v) # ys) = ys" by simp_all
qed

lemma remaining_pending:
  assumes "sa_ok a" and "sa_exists k a" and "d \<noteq> RIGHT" and "d = ABOVE \<Longrightarrow> sa_key (sa_head a) = k"
  shows "remaining a \<lparr>cr_current = Some k, cr_dir = d, cr_read_only = f\<rparr> = (case node_at a k of (t, c) \<Rightarrow> pending d t c)"
proof -
  from node_at_position [OF assms(1,2)] obtain l v b r c where
    n: "node_at a k = (SaNode l k v b r, c)" "sa_replace (SaNode l k v b r) c = sa_head a" "sa_find k a = Some (SaNode l k v b r, c)"
    and lt: "\<And>j x. (j, x) \<in> set (sa_before c @ sa_entries l) \<Longrightarrow> j < k"
    and gt: "\<And>j x. (j, x) \<in> set (sa_entries r @ sa_after c) \<Longrightarrow> k < j" by metis
  have abs: "sa_abs a = (sa_before c @ sa_entries l) @ (k, v) # sa_entries r @ sa_after c"
    by (simp add: n(2) [symmetric] entries_replace)
  show ?thesis
  proof (cases d)
    case ABOVE
    with assms(4) have "sa_key (sa_head a) = k" by simp
    with n(3) have "c = []" by (cases "sa_head a") (auto simp: sa_find_def)
    with ABOVE n(1) abs show ?thesis by (simp add: remaining_def)
  next
    case LEFT
    then show ?thesis 
      using filter_keys_ge(1) [of "sa_before c @ sa_entries l" k "sa_entries r @ sa_after c" v, OF lt gt] by (simp only: remaining_def n(1) abs) simp
  next
    case SITTING
    then show ?thesis 
      using filter_keys_ge(2) [of "sa_before c @ sa_entries l" k "sa_entries r @ sa_after c" v, OF lt gt] by (simp only: remaining_def n(1) abs) simp
  qed (use assms in simp)
qed

lemma key_exists: "sa_ok a \<Longrightarrow> sa_exists k a \<longleftrightarrow> k \<in> fst ` set (sa_abs a)"
  using sa_exists_spec [of a k] la_get_None [of k "sa_abs a"] by simp

lemma crawl_from:
  assumes "sa_ok a" and "cr_ok a cr" and "cr_current cr = Some k"
  obtains t c where "node_at a k = (t, c)" "crawled (crawl (cr_dir cr) t c) (remaining a cr) (sa_head a)"
proof -
  from assms(2,3) have e: "sa_exists k a" "cr_dir cr \<noteq> RIGHT" "cr_dir cr = ABOVE \<Longrightarrow> sa_key (sa_head a) = k"
    by (auto simp: cr_ok_def)
  from node_at_position [OF assms(1) e(1)] obtain l v b r c where
    n: "node_at a k = (SaNode l k v b r, c)" "sa_replace (SaNode l k v b r) c = sa_head a" by metis
  have "remaining a cr = pending (cr_dir cr) (SaNode l k v b r) c"
    using remaining_pending [OF assms(1) e, of "cr_read_only cr"] assms(3) n(1) by (simp add: remaining_def)
  with crawl_pending [of "SaNode l k v b r" "cr_dir cr" c] n that show ?thesis by simp
qed

text \<open>The node a crawl ends at.\<close>

lemma crawled_node:
  assumes "sa_ok a" and "crawled (Some (u, e), d) es (sa_head a)"
  obtains v rest where "es = (sa_key u, v) # rest" "sa_value u = v" "sa_exists (sa_key u) a" "d = LEFT"
    "filter (\<lambda>(j, _). sa_key u \<le> j) (sa_abs a) = es" "filter (\<lambda>(j, _). sa_key u < j) (sa_abs a) = rest"
proof -
  from assms(2) have u: "d = LEFT" "u \<noteq> SaNull" "sa_replace u e = sa_head a" "pending LEFT u e = es"
    by (simp_all add: crawled_def)
  then obtain l k v b r where n: "u = SaNode l k v b r" by (cases u) auto
  have abs: "sa_abs a = (sa_before e @ sa_entries l) @ (k, v) # sa_entries r @ sa_after e"
    using n by (simp add: u(3) [symmetric] entries_replace)
  have "la_ok (sa_abs a)" using assms(1) by (simp add: sa_ok_def)
  then have lt: "j < k" if "(j, x) \<in> set (sa_before e @ sa_entries l)" for j x
    using that by (force simp: abs la_ok_append la_ok_Cons)
  have gt: "k < j" if "(j, x) \<in> set (sa_entries r @ sa_after e)" for j x
    using that \<open>la_ok (sa_abs a)\<close> by (force simp: abs la_ok_append la_ok_Cons)
  have "k \<in> fst ` set (sa_abs a)" by (simp add: abs)
  with that [of v "sa_entries r @ sa_after e"] u n show ?thesis
    using filter_keys_ge [of "sa_before e @ sa_entries l" k "sa_entries r @ sa_after e" v, OF lt gt] assms(1)
    by (auto simp: key_exists abs)
qed

lemma has_next_spec:
  assumes "sa_ok a" and "cr_ok a cr"
  shows "\<exists>cr'. cr_has_next a cr = (Inr (remaining a cr \<noteq> []), cr') \<and> cr_ok a cr' \<and> remaining a cr' = remaining a cr \<and>
    (remaining a cr \<noteq> [] \<longrightarrow> cr_current cr' = Some (fst (hd (remaining a cr))) \<and> cr_dir cr' = LEFT) \<and>
    (remaining a cr = [] \<longrightarrow> cr_current cr' = None) \<and>
    cr_read_only cr' = cr_read_only cr"
proof (cases "cr_current cr")
  case None
  with assms show ?thesis by (simp add: cr_has_next_def remaining_def)
next
  case (Some k)
  from crawl_from [OF assms Some] obtain t c where
    n: "node_at a k = (t, c)" "crawled (crawl (cr_dir cr) t c) (remaining a cr) (sa_head a)" .
  obtain p d where p: "crawl (cr_dir cr) t c = (p, d)" by (rule prod.exhaust)
  show ?thesis
  proof (cases p)
    case None
    with n p have "remaining a cr = []" by (simp add: crawled_def)
    with Some n(1) p None show ?thesis by (simp add: cr_has_next_def cr_ok_def remaining_def)
  next
    case (Some q)
    obtain u e where q: "q = (u, e)" by (rule prod.exhaust)
    with n(2) p Some have "crawled (Some (u, e), d) (remaining a cr) (sa_head a)" by simp
    from crawled_node [OF assms(1) this] obtain v rest where r: "remaining a cr = (sa_key u, v) # rest"
      "sa_exists (sa_key u) a" "d = LEFT" "filter (\<lambda>(j, _). sa_key u \<le> j) (sa_abs a) = remaining a cr" by metis
    have "remaining a (cr\<lparr>cr_current := Some (sa_key u), cr_dir := LEFT\<rparr>) = remaining a cr"
      using r(4) by (simp add: remaining_def [of a "cr\<lparr>cr_current := _, cr_dir := _\<rparr>"])
    with \<open>cr_current cr = Some k\<close> n(1) p Some q r show ?thesis by (simp add: cr_has_next_def cr_ok_def)
  qed
qed

lemma next_node_spec:
  assumes "sa_ok a" and "cr_ok a cr"
  shows "case remaining a cr of
      [] \<Rightarrow> fst (cr_next_node False a cr) = Inl NoSuchElementException
    | (k, v) # rest \<Rightarrow> \<exists>cr'. cr_next_node False a cr = (Inr (k, v), cr') \<and> cr_ok a cr' \<and>
        cr_current cr' = Some k \<and> cr_dir cr' = SITTING \<and> remaining a cr' = rest \<and> cr_read_only cr' = cr_read_only cr"
proof (cases "cr_current cr")
  case None
  with assms show ?thesis by (simp add: cr_next_node_def remaining_def)
next
  case (Some k)
  from crawl_from [OF assms Some] obtain t c where
    n: "node_at a k = (t, c)" "crawled (crawl (cr_dir cr) t c) (remaining a cr) (sa_head a)" .
  obtain p d where p: "crawl (cr_dir cr) t c = (p, d)" by (rule prod.exhaust)
  show ?thesis
  proof (cases p)
    case None
    with n p have "remaining a cr = []" by (simp add: crawled_def)
    with Some n(1) p None show ?thesis by (simp add: cr_next_node_def)
  next
    case (Some q)
    obtain u e where q: "q = (u, e)" by (rule prod.exhaust)
    with n(2) p Some have "crawled (Some (u, e), d) (remaining a cr) (sa_head a)" by simp
    from crawled_node [OF assms(1) this] obtain v rest where r: "remaining a cr = (sa_key u, v) # rest" "sa_value u = v"
      "sa_exists (sa_key u) a" "filter (\<lambda>(j, _). sa_key u < j) (sa_abs a) = rest" by metis
    have "remaining a (cr\<lparr>cr_current := Some (sa_key u), cr_dir := SITTING\<rparr>) = rest"
      using r(4) by (simp add: remaining_def)
    with \<open>cr_current cr = Some k\<close> n(1) p Some q r show ?thesis by (simp add: cr_next_node_def cr_ok_def)
  qed
qed

lemma filter_la_remove: "k < i \<Longrightarrow> filter (\<lambda>(j, _). i \<le> j) (la_remove k la) = filter (\<lambda>(j, _). i \<le> j) la"
  by (induction k la rule: la_remove.induct) auto

lemma remove_at_spec:
  assumes "sa_ok a" and "sa_exists k a"
  shows "(node_is_linked (node_at a k) \<or> sa_is_head a k) \<and>
    (\<exists>b. sa_remove_at (node_at a k) a = (Inr (), b) \<and> sa_ok b \<and> sa_abs b = la_remove k (sa_abs a))"
proof
  from node_at_position [OF assms] obtain l v b r c where
    n: "sa_find k a = Some (SaNode l k v b r, c)" "node_at a k = (SaNode l k v b r, c)"
      "sa_replace (SaNode l k v b r) c = sa_head a" by metis
  show "node_is_linked (node_at a k) \<or> sa_is_head a k"
    using n(2) n(3) [symmetric] by (cases c) (auto simp: sa_is_head_def)
  show "\<exists>b. sa_remove_at (node_at a k) a = (Inr (), b) \<and> sa_ok b \<and> sa_abs b = la_remove k (sa_abs a)"
    using sa_remove_spec [OF assms(1), of k] n
    by (auto simp: sa_remove_def mapc_def bindc_def ret_def split: prod.splits sum.splits)
qed

lemma cr_remove_spec:
  assumes "sa_ok a" and "cr_ok a cr" and "cr_current cr = Some k" and "cr_dir cr = SITTING" and "\<not> cr_read_only cr"
  shows "\<exists>b cr'. cr_remove (a, cr) = (Inr (), (b, cr')) \<and> sa_ok b \<and> sa_abs b = la_remove k (sa_abs a) \<and>
    cr_ok b cr' \<and> remaining b cr' = remaining a cr \<and> \<not> cr_read_only cr'"
proof -
  have e: "sa_exists k a" using assms(2,3) by (simp add: cr_ok_def)
  from remove_at_spec [OF assms(1) e] obtain b where
    b: "node_is_linked (node_at a k) \<or> sa_is_head a k" "sa_remove_at (node_at a k) a = (Inr (), b)" "sa_ok b"
    "sa_abs b = la_remove k (sa_abs a)" by blast
  from has_next_spec [OF assms(1,2)] obtain cr1 where
    cr1: "cr_has_next a cr = (Inr (remaining a cr \<noteq> []), cr1)" "cr_ok a cr1" "remaining a cr1 = remaining a cr"
    "remaining a cr \<noteq> [] \<Longrightarrow> cr_current cr1 = Some (fst (hd (remaining a cr))) \<and> cr_dir cr1 = LEFT"
    "remaining a cr = [] \<Longrightarrow> cr_current cr1 = None" "cr_read_only cr1 = cr_read_only cr" by auto
  have current: "cr_current_node cr = Inr k" using assms(3,4) by (simp add: cr_current_node_def)
  show ?thesis
  proof (cases "remaining a cr")
    case Nil
    with assms(5) current cr1 b show ?thesis by (simp add: cr_remove_def Let_def cr_ok_def remaining_def)
  next
    case (Cons p rest)
    obtain i v where p: "p = (i, v)" by (rule prod.exhaust)
    with next_node_spec [OF assms(1) cr1(2)] Cons cr1(3,6) obtain cr2 where
      cr2: "cr_next_node False a cr1 = (Inr (i, v), cr2)" "cr_ok a cr2" "cr_current cr2 = Some i" "cr_dir cr2 = SITTING"
      "cr_read_only cr2 = cr_read_only cr" by auto
    have "remaining a cr = filter (\<lambda>(j, _). k < j) (sa_abs a)"
      using assms(3,4) by (simp add: remaining_def)
    then have "(i, v) \<in> set (filter (\<lambda>(j, _). k < j) (sa_abs a))"
      using Cons p by (metis list.set_intros(1))
    then have i: "k < i" "i \<in> fst ` set (sa_abs a)" by force+
    have ok: "la_ok (sa_abs a)" using assms(1) by (simp add: sa_ok_def)
    have "cr_ok b (cr2\<lparr>cr_dir := LEFT\<rparr>)"
      using i b(3,4) by (simp add: cr_ok_def cr2(3) key_exists keys_la_remove [OF ok])
    moreover have "remaining b (cr2\<lparr>cr_dir := LEFT\<rparr>) = remaining a cr"
    proof -
      have "remaining a cr = filter (\<lambda>(j, _). i \<le> j) (sa_abs a)"
        using cr1(3,4) Cons p by (simp add: remaining_def [of a cr1])
      then show ?thesis using filter_la_remove [OF i(1)] by (simp add: remaining_def [of b] cr2(3) b(4))
    qed
    ultimately show ?thesis using assms(5) current cr1(1) Cons b cr2
      by (simp add: cr_remove_def Let_def cr_next_def mapc_def bindc_def ret_def)
  qed
qed

text \<open>After a removal the crawler does not sit on a node.\<close>

lemma cr_remove_leaves:
  "cr_remove (a, cr) = (Inr (), (b, cr')) \<Longrightarrow> cr_current cr' = None \<or> cr_dir cr' \<noteq> SITTING"
  by (auto simp: cr_remove_def cr_has_next_def Let_def split: if_splits sum.splits option.splits prod.splits)

lemma sa_iterator_spec: "sa_ok a \<Longrightarrow> cr_ok a (sa_iterator f a)" "remaining a (sa_iterator f a) = sa_abs a"
proof -
  show "cr_ok a (sa_iterator f a)" if "sa_ok a"
    using that by (cases "sa_head a") (auto simp: cr_ok_def sa_iterator_def key_exists)
  show "remaining a (sa_iterator f a) = sa_abs a"
    by (cases "sa_head a") (simp_all add: remaining_def sa_iterator_def)
qed

lemma closest_spec:
  "la_ok (sa_entries t) \<Longrightarrow> sa_closest i t h =
     (case filter (\<lambda>(j, _). i \<le> j) (sa_entries t) of [] \<Rightarrow> h | (k, _) # _ \<Rightarrow> Some k)"
proof (induction i t h rule: sa_closest.induct)
  case (2 i l k v b r h)
  from "2.prems" have ok: "la_ok (sa_entries l)" "la_ok (sa_entries r)"
    and lt: "\<And>j x. (j, x) \<in> set (sa_entries l) \<Longrightarrow> j < k"
    by (auto simp: la_ok_append la_ok_Cons)
  consider "i < k" | "k < i" | "i = k" by linarith
  then show ?case
  proof cases
    case 1
    with "2.IH"(1) [OF 1 ok(1)] show ?thesis
      by (cases "filter (\<lambda>(j, _). i \<le> j) (sa_entries l)") auto
  next
    case 2
    then have "filter (\<lambda>(j, _). i \<le> j) (sa_entries l) = []" by (force simp: filter_empty_conv dest: lt)
    with 2 "2.IH"(2) [OF _ _ ok(2)] show ?thesis by auto
  next
    case 3
    then have "filter (\<lambda>(j, _). i \<le> j) (sa_entries l) = []" by (force simp: filter_empty_conv dest: lt)
    with 3 show ?thesis by auto
  qed
qed simp

lemma sa_iterator_at_spec:
  assumes "sa_ok a"
  shows "cr_ok a (sa_iterator_at f i a)" "remaining a (sa_iterator_at f i a) = filter (\<lambda>(j, _). i \<le> j) (sa_abs a)"
proof -
  have ok: "la_ok (sa_abs a)" using assms by (simp add: sa_ok_def)
  let ?es = "filter (\<lambda>(j, _). i \<le> j) (sa_abs a)"
  have "cr_ok a (sa_iterator_at f i a) \<and> remaining a (sa_iterator_at f i a) = ?es"
  proof (cases ?es)
    case Nil
    with closest_spec [OF ok, of i None] show ?thesis by (simp add: sa_iterator_at_def cr_ok_def remaining_def)
  next
    case (Cons p es)
    obtain k v where p: "p = (k, v)" by (rule prod.exhaust)
    have "(k, v) \<in> set ?es" using Cons p by simp
    then have k: "(k, v) \<in> set (sa_abs a)" "i \<le> k" by auto
    have "filter (\<lambda>(j, _). k \<le> j) (sa_abs a) = ?es"
    proof (rule filter_cong [OF refl], clarify)
      fix j x assume "(j, x) \<in> set (sa_abs a)"
      have "sorted_wrt (<) (map fst ?es)"
        using ok by (auto simp: la_ok_def sorted_wrt_map intro: sorted_wrt_filter)
      then have gt: "\<forall>q\<in>set es. k < fst q" using Cons p by simp
      have "k \<le> j" if "i \<le> j"
      proof -
        have "(j, x) \<in> set ?es" using that \<open>(j, x) \<in> set (sa_abs a)\<close> by simp
        then have "(j, x) = (k, v) \<or> (j, x) \<in> set es" unfolding Cons p by simp
        with gt show ?thesis by force
      qed
      with k(2) show "k \<le> j \<longleftrightarrow> i \<le> j" by auto
    qed
    with closest_spec [OF ok, of i None] Cons p k assms show ?thesis
      by (force simp: sa_iterator_at_def cr_ok_def remaining_def key_exists)
  qed
  then show "cr_ok a (sa_iterator_at f i a)" "remaining a (sa_iterator_at f i a) = ?es" by simp_all
qed

section \<open>The methods of AbstractLongArray\<close>

definition cr_index :: "(crawler, int) comp" where
  "cr_index cr = (cr_get_index cr, cr)"

definition ala_find :: "int \<Rightarrow> 'v sparse_array \<Rightarrow> 'b \<Rightarrow> ('v holder \<Rightarrow> (crawler, 'b) comp) \<Rightarrow> (crawler, 'b) comp" where
  "ala_find lIndex a none found =
     bindc (cr_has_next a) (\<lambda>fNext.
       if fNext then
         bindc (cr_next a) (\<lambda>oh. bindc cr_index (\<lambda>k. if k = lIndex then found oh else ret none))
       else ret none)"

definition ala_get :: "int \<Rightarrow> 'v sparse_array \<Rightarrow> exn + 'v holder" where
  "ala_get lIndex a = fst (ala_find lIndex a None ret (sa_iterator_at True lIndex a))"

definition ala_exists :: "int \<Rightarrow> 'v sparse_array \<Rightarrow> exn + bool" where
  "ala_exists lIndex a = fst (ala_find lIndex a False (\<lambda>_. ret True) (sa_iterator_at True lIndex a))"

definition ala_remove :: "int \<Rightarrow> ('v sparse_array, 'v holder) comp" where
  "ala_remove lIndex a =
     (case ala_find lIndex a (None, False) (\<lambda>oh. ret (oh, True)) (sa_iterator_at False lIndex a) of
        (Inl e, _) \<Rightarrow> (Inl e, a)
      | (Inr (oh, False), _) \<Rightarrow> (Inr oh, a)
      | (Inr (oh, True), cr) \<Rightarrow> (case cr_remove (a, cr) of (r, (b, _)) \<Rightarrow> (map_sum id (\<lambda>_. oh) r, b)))"

text \<open>
  A \<^verbatim>\<open>while\<close> loop over the rest of an iteration.  The body returns the new value of the
  variables, to return it at once (\<^const>\<open>Inl\<close>) or to continue with it (\<^const>\<open>Inr\<close>).
  The bound \<open>n\<close> on the rounds is one more than the number of entries.
\<close>

fun cr_loop :: "nat \<Rightarrow> 'v sparse_array \<Rightarrow> (int \<Rightarrow> 'v holder \<Rightarrow> 's \<Rightarrow> 's + 's) \<Rightarrow> 's \<Rightarrow> (crawler, 's) comp" where
  "cr_loop 0 a f s = throw StackOverflow"
| "cr_loop (Suc n) a f s =
     bindc (cr_has_next a) (\<lambda>fNext.
       if fNext then
         bindc (cr_next a) (\<lambda>oh. bindc cr_index (\<lambda>k.
           case f k oh s of Inl s \<Rightarrow> ret s | Inr s \<Rightarrow> cr_loop n a f s))
       else ret s)"

definition ala_rounds :: "'v sparse_array \<Rightarrow> nat" where
  "ala_rounds a = Suc (length (sa_abs a))"

definition ala_contains :: "('v holder \<Rightarrow> bool) \<Rightarrow> 'v sparse_array \<Rightarrow> exn + bool" where
  "ala_contains equalsElement a =
     fst (cr_loop (ala_rounds a) a (\<lambda>_ oh s. if equalsElement oh then Inl True else Inr s) False (sa_iterator True a))"

definition ala_get_size :: "'v sparse_array \<Rightarrow> exn + nat" where
  "ala_get_size a = fst (cr_loop (ala_rounds a) a (\<lambda>_ _ c. Inr (size_add c 1)) 0 (sa_iterator True a))"

definition ala_hash_code :: "('v holder \<Rightarrow> nat) \<Rightarrow> 'v sparse_array \<Rightarrow> exn + nat" where
  "ala_hash_code hash a =
     fst (cr_loop (ala_rounds a) a (\<lambda>_ oh nHash. Inr (size_add nHash (hash oh))) 0 (sa_iterator True a))"

definition ala_first_index :: "'v sparse_array \<Rightarrow> exn + int" where
  "ala_first_index a =
     fst (bindc (cr_has_next a) (\<lambda>fNext. if fNext then bindc (cr_next a) (\<lambda>_. cr_index) else ret (- 1))
       (sa_iterator True a))"

definition ala_last_index :: "'v sparse_array \<Rightarrow> exn + int" where
  "ala_last_index a =
     fst (bindc (cr_has_next a) (\<lambda>fNext.
       if \<not> fNext then ret (- 1)
       else bindc (cr_loop (ala_rounds a) a (\<lambda>_ _. Inr) ()) (\<lambda>_. cr_index)) (sa_iterator True a))"

text \<open>\<^verbatim>\<open>clear\<close> removes one entry after the other with the iterator.\<close>

fun ala_clear_loop :: "nat \<Rightarrow> ('v sparse_array \<times> crawler, unit) comp" where
  "ala_clear_loop 0 = throw StackOverflow"
| "ala_clear_loop (Suc n) = (\<lambda>(a, cr).
     case cr_has_next a cr of
       (Inl e, cr) \<Rightarrow> (Inl e, (a, cr))
     | (Inr False, cr) \<Rightarrow> (Inr (), (a, cr))
     | (Inr True, cr) \<Rightarrow>
         (case cr_next a cr of
            (Inl e, cr) \<Rightarrow> (Inl e, (a, cr))
          | (Inr _, cr) \<Rightarrow> seqc cr_remove (ala_clear_loop n) (a, cr)))"

definition ala_clear :: "('v sparse_array, unit) comp" where
  "ala_clear a = (case ala_clear_loop (ala_rounds a) (a, sa_iterator False a) of (r, (b, _)) \<Rightarrow> (r, b))"

text \<open>\<^verbatim>\<open>equals\<close> walks two arrays side by side.\<close>

fun ala_equals_loop ::
  "nat \<Rightarrow> ('v holder \<Rightarrow> 'v holder \<Rightarrow> bool) \<Rightarrow> 'v sparse_array \<Rightarrow> crawler \<Rightarrow> 'v sparse_array \<Rightarrow> crawler \<Rightarrow> exn + bool" where
  "ala_equals_loop 0 eq a cr b cr' = Inl StackOverflow"
| "ala_equals_loop (Suc n) eq a cr b cr' =
     (case (cr_has_next a cr, cr_has_next b cr') of
        ((Inr True, cr), (Inr True, cr')) \<Rightarrow>
          (case (bindc (cr_next a) (\<lambda>x. mapc (Pair x) cr_index) cr, bindc (cr_next b) (\<lambda>x. mapc (Pair x) cr_index) cr') of
             ((Inr (x, i), cr), (Inr (y, j), cr')) \<Rightarrow>
               if \<not> eq x y \<or> i \<noteq> j then Inr False else ala_equals_loop n eq a cr b cr'
           | _ \<Rightarrow> Inl NoSuchElementException)
      | ((Inr f, cr), (Inr g, cr')) \<Rightarrow> Inr (f = g)
      | _ \<Rightarrow> Inl IllegalStateException)"

definition ala_equals ::
  "('v holder \<Rightarrow> 'v holder \<Rightarrow> bool) \<Rightarrow> 'v sparse_array \<Rightarrow> 'v sparse_array \<Rightarrow> exn + bool" where
  "ala_equals eq a b =
     (if sa_size a = sa_size b then
        if sa_size a = 0 then Inr True
        else ala_equals_loop (ala_rounds a) eq a (sa_iterator True a) b (sa_iterator True b)
      else Inr False)"

section \<open>The loops compute over the entries\<close>

lemma no_more: "sa_ok a \<Longrightarrow> cr_ok a cr \<Longrightarrow> remaining a cr = [] \<Longrightarrow>
  \<exists>cr'. cr_has_next a cr = (Inr False, cr') \<and> cr_current cr' = None \<and> cr_read_only cr' = cr_read_only cr"
  using has_next_spec [of a cr] by auto

lemma one_more:
  assumes "sa_ok a" and "cr_ok a cr" and "remaining a cr = (k, v) # rest"
  obtains cr1 cr2 where "cr_has_next a cr = (Inr True, cr1)" "cr_next a cr1 = (Inr v, cr2)"
    "cr_index cr2 = (Inr k, cr2)" "cr_ok a cr2" "remaining a cr2 = rest" "cr_current cr2 = Some k"
    "cr_dir cr2 = SITTING" "cr_read_only cr2 = cr_read_only cr"
proof -
  from has_next_spec [OF assms(1,2)] assms(3) obtain cr1 where cr1: "cr_has_next a cr = (Inr True, cr1)" "cr_ok a cr1"
    "remaining a cr1 = (k, v) # rest" "cr_read_only cr1 = cr_read_only cr" by auto
  from next_node_spec [OF assms(1) cr1(2)] cr1(3,4) obtain cr2 where
    "cr_next_node False a cr1 = (Inr (k, v), cr2)" "cr_ok a cr2" "cr_current cr2 = Some k" "cr_dir cr2 = SITTING"
    "remaining a cr2 = rest" "cr_read_only cr2 = cr_read_only cr" by auto
  with that [of cr1 cr2] cr1(1) show ?thesis
    by (simp add: cr_next_def mapc_def bindc_def ret_def cr_index_def cr_get_index_def cr_current_node_def)
qed

fun fold_until :: "('a \<Rightarrow> 'b \<Rightarrow> 's \<Rightarrow> 's + 's) \<Rightarrow> ('a \<times> 'b) list \<Rightarrow> 's \<Rightarrow> 's" where
  "fold_until f [] s = s"
| "fold_until f ((k, v) # es) s = (case f k v s of Inl s \<Rightarrow> s | Inr s \<Rightarrow> fold_until f es s)"

lemma cr_loop_spec:
  assumes "sa_ok a" and "cr_ok a cr" and "length (remaining a cr) < n"
  shows "\<exists>cr'. cr_loop n a f s cr = (Inr (fold_until f (remaining a cr) s), cr') \<and>
    ((\<forall>k v s. \<not> isl (f k v s)) \<longrightarrow> cr_current cr' = None)"
  using assms(2,3)
proof (induction n arbitrary: cr s)
  case (Suc n)
  show ?case
  proof (cases "remaining a cr")
    case Nil
    with no_more [OF assms(1) Suc.prems(1)] show ?thesis by (auto simp: bindc_def)
  next
    case (Cons p rest)
    obtain k v where p: "p = (k, v)" by (rule prod.exhaust)
    from one_more [OF assms(1) Suc.prems(1), of k v rest] Cons p obtain cr1 cr2 where
      c: "cr_has_next a cr = (Inr True, cr1)" "cr_next a cr1 = (Inr v, cr2)" "cr_index cr2 = (Inr k, cr2)" "cr_ok a cr2"
      "remaining a cr2 = rest" by metis
    show ?thesis
    proof (cases "f k v s")
      case (Inl s')
      then have "\<not> (\<forall>k v s. \<not> isl (f k v s))" by (metis sum.disc(1))
      moreover have "\<exists>cr'. cr_loop (Suc n) a f s cr = (Inr (fold_until f (remaining a cr) s), cr')"
        using Inl c Cons p by (simp add: bindc_def)
      ultimately show ?thesis by blast
    next
      case (Inr s')
      with c Cons p Suc.IH [OF c(4), of s'] Suc.prems show ?thesis by (simp add: bindc_def)
    qed
  qed
qed simp

lemma cr_loop_all:
  "sa_ok a \<Longrightarrow> fst (cr_loop (ala_rounds a) a f s (sa_iterator g a)) = Inr (fold_until f (sa_abs a) s)"
  using cr_loop_spec [of a "sa_iterator g a" "ala_rounds a" f s] sa_iterator_spec [of a g]
  by (auto simp: ala_rounds_def)

lemma la_get_filter:
  "la_ok la \<Longrightarrow> la_get i la =
     (case filter (\<lambda>(j, _). i \<le> j) la of [] \<Rightarrow> None | (k, v) # _ \<Rightarrow> if k = i then Some v else None)"
proof (induction i la rule: la_get.induct)
  case (2 i j x la)
  then show ?case using la_get_None [of i la] by (auto simp: la_ok_Cons)
qed simp

lemma ala_find_spec:
  assumes "sa_ok a"
  shows "\<exists>cr. ala_find i a none found (sa_iterator_at g i a) =
    (case la_get i (sa_abs a) of None \<Rightarrow> (Inr none, cr) | Some oh \<Rightarrow> found oh cr) \<and>
    (la_get i (sa_abs a) \<noteq> None \<longrightarrow> cr_ok a cr \<and> cr_current cr = Some i \<and> cr_dir cr = SITTING \<and> cr_read_only cr = g)"
proof -
  let ?cr = "sa_iterator_at g i a"
  have ok: "la_ok (sa_abs a)" using assms by (simp add: sa_ok_def)
  note it = sa_iterator_at_spec [OF assms, of g i]
  have get: "la_get i (sa_abs a) =
    (case remaining a ?cr of [] \<Rightarrow> None | (k, v) # _ \<Rightarrow> if k = i then Some v else None)"
    unfolding it(2) by (rule la_get_filter [OF ok])
  show ?thesis
  proof (cases "remaining a ?cr")
    case Nil
    with no_more [OF assms it(1)] get show ?thesis by (auto simp: ala_find_def bindc_def)
  next
    case (Cons p rest)
    obtain k v where p: "p = (k, v)" by (rule prod.exhaust)
    from one_more [OF assms it(1), of k v rest] Cons p obtain cr1 cr2 where
      "cr_has_next a ?cr = (Inr True, cr1)" "cr_next a cr1 = (Inr v, cr2)" "cr_index cr2 = (Inr k, cr2)" "cr_ok a cr2"
      "cr_current cr2 = Some k" "cr_dir cr2 = SITTING" "cr_read_only cr2 = g"
      by (metis sa_iterator_at_def crawler.select_convs(3))
    with get Cons p show ?thesis by (intro exI [of _ cr2]) (simp add: ala_find_def bindc_def)
  qed
qed

section \<open>The methods by iterators agree with those of the tree\<close>

lemma fold_until_size: "fold_until (\<lambda>_ _ c. Inr (size_add c 1)) es (n mod size_max) = (n + length es) mod size_max"
proof (induction es arbitrary: n)
  case (Cons p es)
  show ?case using Cons.IH [of "Suc n"] by (cases p) (simp add: size_counts [simplified])
qed simp

lemma fold_until_contains:
  "fold_until (\<lambda>_ oh s. if eq oh then Inl True else Inr s) es False \<longleftrightarrow> (\<exists>(k, v)\<in>set es. eq v)"
  by (induction es) auto

lemma ala_get_eq: "sa_ok a \<Longrightarrow> ala_get i a = Inr (sa_get i a)"
  using ala_find_spec [of a i None ret True]
  by (cases "la_get i (sa_abs a)") (auto simp: ala_get_def sa_get_spec ret_def)

lemma ala_exists_eq: "sa_ok a \<Longrightarrow> ala_exists i a = Inr (sa_exists i a)"
  using ala_find_spec [of a i False "\<lambda>_. ret True" True]
  by (auto simp: ala_exists_def sa_exists_spec ret_def split: option.splits)

lemma ala_get_size_eq: "sa_ok a \<Longrightarrow> ala_get_size a = Inr (sa_size a)"
  using fold_until_size [of "sa_abs a" 0] by (simp add: ala_get_size_def cr_loop_all sa_ok_def)

lemma ala_contains_eq: "sa_ok a \<Longrightarrow> ala_contains eq a = Inr (\<exists>(k, v)\<in>set (sa_abs a). eq v)"
  by (simp add: ala_contains_def cr_loop_all fold_until_contains)

lemma ala_first_index_eq:
  assumes "sa_ok a"
  shows "ala_first_index a = Inr (sa_first_index a)"
proof (cases "sa_abs a")
  case Nil
  with no_more [OF assms sa_iterator_spec(1) [OF assms, of True]] sa_iterator_spec(2) [of a True] show ?thesis
    by (auto simp: ala_first_index_def sa_first_index_spec la_first_index_def bindc_def ret_def)
next
  case (Cons p rest)
  obtain k v where p: "p = (k, v)" by (rule prod.exhaust)
  with one_more [OF assms sa_iterator_spec(1) [OF assms, of True], of k v rest] Cons sa_iterator_spec(2) [of a True]
  obtain cr1 cr2 where "cr_has_next a (sa_iterator True a) = (Inr True, cr1)" "cr_next a cr1 = (Inr v, cr2)"
    "cr_index cr2 = (Inr k, cr2)" by metis
  with Cons p show ?thesis by (simp add: ala_first_index_def sa_first_index_spec la_first_index_def bindc_def)
qed

lemma ala_remove_eq:
  assumes "sa_ok a"
  shows "\<exists>b. ala_remove i a = (Inr (sa_get i a), b) \<and> sa_ok b \<and> sa_abs b = la_remove i (sa_abs a)"
proof -
  from ala_find_spec [OF assms, of i "(None, False)" "\<lambda>oh. ret (oh, True)" False] obtain cr where
    cr: "ala_find i a (None, False) (\<lambda>oh. ret (oh, True)) (sa_iterator_at False i a) =
      (case la_get i (sa_abs a) of None \<Rightarrow> (Inr (None, False), cr) | Some oh \<Rightarrow> ret (oh, True) cr)"
    "la_get i (sa_abs a) \<noteq> None \<Longrightarrow> cr_ok a cr \<and> cr_current cr = Some i \<and> cr_dir cr = SITTING \<and> \<not> cr_read_only cr"
    by auto
  show ?thesis
  proof (cases "la_get i (sa_abs a)")
    case None
    then have "i \<notin> fst ` set (sa_abs a)" by (simp add: la_get_None)
    with None cr(1) assms show ?thesis by (simp add: ala_remove_def sa_get_spec la_remove_none)
  next
    case (Some oh)
    with cr(2) cr_remove_spec [OF assms, of cr i] obtain b cr' where
      "cr_remove (a, cr) = (Inr (), (b, cr'))" "sa_ok b" "sa_abs b = la_remove i (sa_abs a)" by auto
    with cr(1) Some assms show ?thesis by (simp add: ala_remove_def sa_get_spec ret_def)
  qed
qed

text \<open>
  \<^verbatim>\<open>getLastIndex\<close> asks the iterator for its index after \<^verbatim>\<open>hasNext\<close> has found no further
  entry, which left the crawler without a current node.
\<close>

lemma ala_last_index_fails:
  assumes "sa_ok a"
  shows "ala_last_index a = (if sa_abs a = [] then Inr (- 1) else Inl IllegalStateException)"
proof (cases "sa_abs a")
  case Nil
  with no_more [OF assms sa_iterator_spec(1) [OF assms, of True]] sa_iterator_spec(2) [of a True] show ?thesis
    by (auto simp: ala_last_index_def bindc_def ret_def)
next
  case (Cons p rest)
  from has_next_spec [OF assms sa_iterator_spec(1) [OF assms, of True]] Cons obtain cr where
    cr: "cr_has_next a (sa_iterator True a) = (Inr True, cr)" "cr_ok a cr" "remaining a cr = sa_abs a"
    by (auto simp: sa_iterator_spec(2))
  from cr_loop_spec [OF assms cr(2), of "ala_rounds a" "\<lambda>_ _. Inr" "()"] cr(3) obtain cr' where
    "cr_loop (ala_rounds a) a (\<lambda>_ _. Inr) () cr = (Inr (), cr')" "cr_current cr' = None"
    by (auto simp: ala_rounds_def)
  with cr(1) Cons show ?thesis
    by (simp add: ala_last_index_def bindc_def cr_index_def cr_get_index_def cr_current_node_def)
qed

lemma ala_clear_loop_spec:
  assumes "sa_ok a" and "cr_ok a cr" and "remaining a cr = sa_abs a" and "\<not> cr_read_only cr" and "length (sa_abs a) < n"
  shows "\<exists>b cr'. ala_clear_loop n (a, cr) = (Inr (), (b, cr')) \<and> sa_ok b \<and> sa_abs b = []"
  using assms
proof (induction n arbitrary: a cr)
  case (Suc n)
  show ?case
  proof (cases "sa_abs a")
    case Nil
    with no_more [OF Suc.prems(1,2)] Suc.prems show ?thesis by auto
  next
    case (Cons p rest)
    obtain k v where p: "p = (k, v)" by (rule prod.exhaust)
    with one_more [OF Suc.prems(1,2), of k v rest] Cons Suc.prems(3) obtain cr1 cr2 where
      c: "cr_has_next a cr = (Inr True, cr1)" "cr_next a cr1 = (Inr v, cr2)" "cr_ok a cr2" "remaining a cr2 = rest"
      "cr_current cr2 = Some k" "cr_dir cr2 = SITTING" "cr_read_only cr2 = cr_read_only cr" by metis
    from cr_remove_spec [OF Suc.prems(1) c(3,5,6)] c(7) Suc.prems(4) obtain b cr3 where
      b: "cr_remove (a, cr2) = (Inr (), (b, cr3))" "sa_ok b" "sa_abs b = la_remove k (sa_abs a)" "cr_ok b cr3"
      "remaining b cr3 = rest" "\<not> cr_read_only cr3" using c(4) by auto
    from b(3) Cons p have "sa_abs b = rest" by simp
    with Suc.IH [of b cr3] b c(1,2) Cons Suc.prems(5) show ?thesis by (simp add: seqc_def bindc_def)
  qed
qed simp

lemma ala_clear_eq:
  assumes "sa_ok a"
  shows "\<exists>b. ala_clear a = (Inr (), b) \<and> sa_ok b \<and> sa_abs b = []"
  using ala_clear_loop_spec [OF assms sa_iterator_spec(1) [OF assms, of False] sa_iterator_spec(2), of "ala_rounds a"]
  by (auto simp: ala_clear_def ala_rounds_def sa_iterator_def)

lemma ala_equals_loop_spec:
  assumes "sa_ok a" and "cr_ok a cr" and "sa_ok b" and "cr_ok b cr'" and "length (remaining a cr) < n"
  shows "ala_equals_loop n eq a cr b cr' =
    Inr (list_all2 (\<lambda>(i, x) (j, y). eq x y \<and> i = j) (remaining a cr) (remaining b cr'))"
  using assms(2,4,5)
proof (induction n arbitrary: cr cr')
  case (Suc n)
  from has_next_spec [OF assms(1) Suc.prems(1)] obtain c1 where
    c1: "cr_has_next a cr = (Inr (remaining a cr \<noteq> []), c1)" "cr_ok a c1" "remaining a c1 = remaining a cr" by auto
  from has_next_spec [OF assms(3) Suc.prems(2)] obtain d1 where
    d1: "cr_has_next b cr' = (Inr (remaining b cr' \<noteq> []), d1)" "cr_ok b d1" "remaining b d1 = remaining b cr'" by auto
  show ?case
  proof (cases "remaining a cr = [] \<or> remaining b cr' = []")
    case True
    with c1(1) d1(1) show ?thesis by (auto split: bool.splits)
  next
    case False
    then obtain i x es j y fs where e: "remaining a cr = (i, x) # es" "remaining b cr' = (j, y) # fs"
      by (metis list.exhaust prod.exhaust)
    from one_more [OF assms(1) Suc.prems(1) e(1)] c1 obtain c2 where
      c2: "cr_next a c1 = (Inr x, c2)" "cr_index c2 = (Inr i, c2)" "cr_ok a c2" "remaining a c2 = es"
      by (metis prod.inject)
    from one_more [OF assms(3) Suc.prems(2) e(2)] d1 obtain d2 where
      d2: "cr_next b d1 = (Inr y, d2)" "cr_index d2 = (Inr j, d2)" "cr_ok b d2" "remaining b d2 = fs"
      by (metis prod.inject)
    from Suc.IH [OF c2(3) d2(3)] c2 d2 c1(1) d1(1) e Suc.prems(3) show ?thesis
      by (auto simp: bindc_def mapc_def ret_def)
  qed
qed simp

lemma ala_equals_eq:
  assumes "sa_ok a" and "sa_ok b" and "length (sa_abs a) < size_max" and "length (sa_abs b) < size_max"
  shows "ala_equals eq a b = Inr (list_all2 (\<lambda>(i, x) (j, y). eq x y \<and> i = j) (sa_abs a) (sa_abs b))"
proof -
  from assms have n: "sa_size a = length (sa_abs a)" "sa_size b = length (sa_abs b)" by (simp_all add: sa_ok_def)
  moreover have "ala_equals_loop (ala_rounds a) eq a (sa_iterator True a) b (sa_iterator True b) =
    Inr (list_all2 (\<lambda>(i, x) (j, y). eq x y \<and> i = j) (sa_abs a) (sa_abs b))"
    using ala_equals_loop_spec [OF assms(1) sa_iterator_spec(1) [OF assms(1), of True] assms(2)
        sa_iterator_spec(1) [OF assms(2), of True], of "ala_rounds a" eq]
    by (simp add: sa_iterator_spec(2) ala_rounds_def del: ala_equals_loop.simps)
  ultimately show ?thesis
    by (auto simp: ala_equals_def simp del: ala_equals_loop.simps dest: list_all2_lengthD)
qed

end
