(* ===== verification/Array_Properties.thy ===== *)
theory Array_Properties
  imports Array_Crawler
begin

text \<open>
  The properties of sparse arrays: the tree refines the ascending list of entries, stays
  balanced whatever is done to it, and its iterators return the entries in order.
\<close>

section \<open>Reachable arrays\<close>

text \<open>
  The arrays a program can obtain: the empty one, and what the methods of the array and of
  an iterator that sits on an entry leave behind, exceptions included.
\<close>

inductive sa_reachable :: "'v sparse_array \<Rightarrow> bool" where
  sa_start: "sa_reachable sa_empty"
| sa_step_set: "sa_reachable a \<Longrightarrow> sa_set i x a = (r, b) \<Longrightarrow> sa_reachable b"
| sa_step_add: "sa_reachable a \<Longrightarrow> sa_add x a = (r, b) \<Longrightarrow> sa_reachable b"
| sa_step_remove: "sa_reachable a \<Longrightarrow> sa_remove i a = (r, b) \<Longrightarrow> sa_reachable b"
| sa_step_clear: "sa_reachable a \<Longrightarrow> sa_reachable (sa_clear a)"
| sa_step_crawler: "sa_reachable a \<Longrightarrow> cr_ok a cr \<Longrightarrow> cr_remove (a, cr) = (r, (b, cr')) \<Longrightarrow> sa_reachable b"

inductive_cases reachable_cases: "sa_reachable a"

lemma sa_add_spec:
  assumes "sa_ok a"
  shows "\<exists>b. sa_add x a = (Inr (sint (of_int (la_last_index (sa_abs a) + 1) :: int64_t)), b) \<and> sa_ok b \<and>
    sa_abs b = la_set (sint (of_int (la_last_index (sa_abs a) + 1) :: int64_t)) x (sa_abs a)"
proof -
  let ?i = "sint (of_int (la_last_index (sa_abs a) + 1) :: int64_t)"
  from sa_set_spec [OF assms, of ?i x] show ?thesis
    by (auto simp: sa_add_def Let_def sa_last_index_spec mapc_def bindc_def ret_def simp del: signed_of_int of_int_add)
qed

lemma cr_remove_ok:
  assumes "sa_ok a" and "cr_ok a cr" and "cr_remove (a, cr) = (r, (b, cr'))"
  shows "sa_ok b"
proof (cases "cr_read_only cr \<or> isl (cr_current_node cr)")
  case True
  with assms show ?thesis by (auto simp: cr_remove_def split: sum.splits if_splits)
next
  case False
  then obtain k where "cr_current cr = Some k" "cr_dir cr = SITTING"
    by (auto simp: cr_current_node_def split: option.splits if_splits)
  with cr_remove_spec [OF assms(1,2)] False assms(3) show ?thesis by auto
qed

lemma reachable_ok: "sa_reachable a \<Longrightarrow> sa_ok a"
proof (induction rule: sa_reachable.induct)
  case (sa_step_set a i x r b)
  with sa_set_spec [of a i x] show ?case by auto
next
  case (sa_step_add a x r b)
  with sa_add_spec [of a x] show ?case by auto
next
  case (sa_step_remove a i r b)
  with sa_remove_spec [of a i] show ?case by auto
qed (auto simp: sa_empty_ok sa_clear_ok intro: cr_remove_ok)

section \<open>The tree\<close>

text \<open>
  C32: every array that can be reached is a search tree whose nodes are in balance with
  their stored balance factors, and its size counts the entries; setting and removing an
  entry never runs into the exceptions of the rebalancing code.
\<close>

theorem sparse_array_invariant:
  assumes "sa_reachable a"
  shows "sa_avl (sa_head a) \<and> la_ok (sa_abs a) \<and> sa_size a = length (sa_abs a) mod size_max \<and>
    \<not> isl (fst (sa_set i x a)) \<and> \<not> isl (fst (sa_remove i a))"
proof -
  from reachable_ok [OF assms] have ok: "sa_ok a" .
  from sa_set_spec [OF ok, of i x] sa_remove_spec [OF ok, of i] have
    "\<not> isl (fst (sa_set i x a))" "\<not> isl (fst (sa_remove i a))" by auto
  with ok show ?thesis by (simp add: sa_ok_def)
qed

theorem sparse_array_invariant_witness:
  "\<exists>a :: nat sparse_array. sa_reachable a \<and> sa_abs a = [(1, Some 7), (5, None)] \<and> sa_avl (sa_head a)"
proof -
  let ?a = "snd (sa_set 1 (Some (7 :: nat)) (snd (sa_set 5 None sa_empty)))"
  have "sa_reachable (snd (sa_set 5 (None :: nat option) sa_empty))"
    by (rule sa_step_set [OF sa_start]) (rule prod.collapse [symmetric])
  then have r: "sa_reachable ?a"
    by (rule sa_step_set) (rule prod.collapse [symmetric])
  have "sa_abs ?a = [(1, Some 7), (5, None)]"
    by (simp add: sa_set_def sa_insertion_point_def sa_balanced_insertion_def sa_balance_insertion.simps sa_empty_def
        mapc_def bindc_def ret_def)
  with r sparse_array_invariant [OF r] show ?thesis by blast
qed

text \<open>
  C31: the methods of the tree implement the long array of its entries: lookups, the first
  and the last index return what the ascending list of the entries has, \<^verbatim>\<open>set\<close>,
  \<^verbatim>\<open>remove\<close> and \<^verbatim>\<open>clear\<close> change the list accordingly and return the value that was there.
\<close>

theorem sparse_array_refines:
  assumes "sa_ok a"
  shows "sa_get i a = held (la_get i (sa_abs a)) \<and> (sa_exists i a \<longleftrightarrow> la_get i (sa_abs a) \<noteq> None) \<and>
    sa_first_index a = la_first_index (sa_abs a) \<and> sa_last_index a = la_last_index (sa_abs a) \<and>
    (\<exists>b. sa_set i x a = (Inr (sa_get i a), b) \<and> sa_ok b \<and> sa_abs b = la_set i x (sa_abs a)) \<and>
    (\<exists>b. sa_remove i a = (Inr (sa_get i a), b) \<and> sa_ok b \<and> sa_abs b = la_remove i (sa_abs a)) \<and>
    sa_ok (sa_clear a) \<and> sa_abs (sa_clear a) = []"
  using sa_set_spec [OF assms, of i x] sa_remove_spec [OF assms, of i]
  by (simp add: sa_get_spec [OF assms] sa_exists_spec [OF assms] sa_first_index_spec sa_last_index_spec sa_clear_ok)

definition sample_array :: "int sparse_array" where
  "sample_array = \<lparr>sa_size = 3, sa_head = SaNode (SaNode SaNull (- 4) (Some 1) 0 SaNull) 2 None 0 (SaNode SaNull 9 (Some 3) 0 SaNull)\<rparr>"

lemma sample_array_ok: "sa_ok sample_array" "sa_abs sample_array = [(- 4, Some 1), (2, None), (9, Some 3)]"
  by (simp_all add: sample_array_def sa_ok_def la_ok_Cons size_max_def)

theorem sparse_array_refines_witness:
  "\<exists>b. sa_remove 2 sample_array = (Inr None, b) \<and> sa_ok b \<and> sa_abs b = [(- 4, Some 1), (9, Some 3)]"
  using sparse_array_refines [OF sample_array_ok(1), of 2 None] by (auto simp: sample_array_ok(2))

text \<open>
  C33: the map laws of \<^verbatim>\<open>LongArray\<close>: after an index was set exactly that index has the new
  value, after it was removed exactly that index is missing, and removing what was just
  added restores the entries.
\<close>

theorem sparse_array_laws:
  assumes "sa_ok a"
  shows "(\<exists>b. sa_set i x a = (Inr (sa_get i a), b) \<and> sa_ok b \<and>
      (\<forall>j. sa_get j b = (if i = j then x else sa_get j a)) \<and> (\<forall>j. sa_exists j b \<longleftrightarrow> i = j \<or> sa_exists j a)) \<and>
    (\<exists>b. sa_remove i a = (Inr (sa_get i a), b) \<and> sa_ok b \<and>
      (\<forall>j. sa_get j b = (if i = j then None else sa_get j a)) \<and> (\<forall>j. sa_exists j b \<longleftrightarrow> i \<noteq> j \<and> sa_exists j a)) \<and>
    (\<not> sa_exists i a \<longrightarrow> (\<exists>b c. sa_set i x a = (Inr None, b) \<and> sa_remove i b = (Inr x, c) \<and> sa_ok c \<and> sa_abs c = sa_abs a))"
  by (intro conjI impI sparse.set_law sparse.remove_law sparse.set_remove assms)

theorem sparse_array_laws_witness:
  "\<exists>b c. sa_set 5 (Some 8) sample_array = (Inr None, b) \<and> sa_remove 5 b = (Inr (Some 8), c) \<and>
     sa_abs c = [(- 4, Some 1), (2, None), (9, Some 3)]"
proof -
  have "\<not> sa_exists 5 sample_array" by (simp add: sa_exists_spec sample_array_ok)
  with sparse_array_laws [OF sample_array_ok(1), of 5 "Some 8"] show ?thesis unfolding sample_array_ok(2) by blast
qed

text \<open>
  an array is built by setting its entries in order, as the reader of the object format
  does, and the result does not depend on the shape of the tree.
\<close>

theorem sparse_array_built:
  assumes "la_ok es"
  shows "\<exists>b. for_each (\<lambda>(i, x). mapc (\<lambda>_. ()) (sa_set i x)) es sa_empty = (Inr (), b) \<and> sa_ok b \<and> sa_abs b = es"
  using sparse.set_all [OF sa_empty_ok(1), of es] fold_la_set [of "[]" es] assms by (simp add: sa_empty_ok)

theorem sparse_array_built_witness:
  "\<exists>b. for_each (\<lambda>(i, x). mapc (\<lambda>_. ()) (sa_set i x)) [(1, Some (10 :: nat)), (2, None), (300, Some 20)] sa_empty = (Inr (), b) \<and>
     sa_ok b \<and> sa_abs b = [(1, Some (10 :: nat)), (2, None), (300, Some 20)]"
  by (rule sparse_array_built) (simp add: la_ok_Cons)

lemma find_depth: "sa_find_at i t c = Some (u, c') \<Longrightarrow> length c' < length c + sa_height t"
  by (induction i t c rule: sa_find_at.induct) (fastforce split: if_splits)+

lemma insertion_depth: "sa_insertion_point_at i t c = Some (u, c') \<Longrightarrow> length c' < length c + sa_height t"
  by (induction i t c rule: sa_insertion_point_at.induct) (fastforce split: if_splits)+

text \<open>
  C34: the searches stay short whatever is done to the array: in every array that the operations of
  the array and of its iterators can produce, a search that finds its index, and the search for
  the place of a new entry, end after \<open>d\<close> nodes with $2^{d / 2} \le n+1$ (\<open>d / 2\<close> rounded down),
  where \<open>n\<close> is the number of entries, that is after at most $2 \log_2 (n+1) + 1$ nodes; the tree has at least as
  many nodes as the least balanced tree of its height.
\<close>

theorem sparse_array_height:
  assumes "sa_reachable a"
  shows "min_nodes (sa_height (sa_head a)) \<le> length (sa_abs a) \<and>
    (case sa_find i a of
       None \<Rightarrow> True
     | Some (t, c) \<Rightarrow> 2 ^ (Suc (length c) div 2) \<le> Suc (length (sa_abs a))) \<and>
    (case sa_insertion_point i a of
       None \<Rightarrow> sa_abs a = []
     | Some (t, c) \<Rightarrow> 2 ^ (Suc (length c) div 2) \<le> Suc (length (sa_abs a)))"
proof -
  let ?h = "sa_height (sa_head a)"
  have avl: "sa_avl (sa_head a)" using reachable_ok [OF assms] by (simp add: sa_ok_def)
  have short: "2 ^ (d div 2) \<le> Suc (length (sa_abs a))" if "d \<le> ?h" for d
    by (rule order_trans [OF power_increasing [OF div_le_mono [OF that]] avl_height [OF avl]]) simp
  have find: "Suc (length c) \<le> ?h" if "sa_find i a = Some (t, c)" for t c
    using find_depth [of i "sa_head a" "[]"] that by (simp add: sa_find_def)
  have ins: "Suc (length c) \<le> ?h" if "sa_insertion_point i a = Some (t, c)" for t c
    using insertion_depth [of i "sa_head a" "[]"] that by (simp add: sa_insertion_point_def)
  have none: "sa_abs a = []" if "sa_insertion_point i a = None"
    using that by (simp add: sa_insertion_point_def insertion_point_None)
  show ?thesis
  proof (intro conjI)
    show "min_nodes ?h \<le> length (sa_abs a)" by (rule avl_min_nodes [OF avl])
    show "case sa_find i a of None \<Rightarrow> True | Some (t, c) \<Rightarrow> 2 ^ (Suc (length c) div 2) \<le> Suc (length (sa_abs a))"
      using short [OF find] by (simp split: option.split)
    show "case sa_insertion_point i a of
        None \<Rightarrow> sa_abs a = []
      | Some (t, c) \<Rightarrow> 2 ^ (Suc (length c) div 2) \<le> Suc (length (sa_abs a))"
      using short [OF ins] none by (simp split: option.split)
  qed
qed

theorem sparse_array_height_witness:
  "\<exists>a :: nat sparse_array. sa_reachable a \<and> length (sa_abs a) = 2 \<and>
    (case sa_find 5 a of None \<Rightarrow> False | Some (t, c) \<Rightarrow> 2 ^ (Suc (length c) div 2) \<le> (3 :: nat))"
proof -
  let ?a = "snd (sa_set 1 (Some (7 :: nat)) (snd (sa_set 5 None sa_empty)))"
  have "sa_reachable (snd (sa_set 5 (None :: nat option) sa_empty))"
    by (rule sa_step_set [OF sa_start]) (rule prod.collapse [symmetric])
  then have r: "sa_reachable ?a"
    by (rule sa_step_set) (rule prod.collapse [symmetric])
  have len: "length (sa_abs ?a) = 2" and "sa_find 5 ?a \<noteq> None"
    by (simp_all add: sa_set_def sa_insertion_point_def sa_balanced_insertion_def sa_balance_insertion.simps sa_empty_def
        mapc_def bindc_def ret_def sa_find_def)
  then obtain t c where found: "sa_find 5 ?a = Some (t, c)" by auto
  from sparse_array_height [OF r, of 5] r len found show ?thesis by (intro exI [of _ ?a]) simp
qed

text \<open>
  \<^verbatim>\<open>add\<close> stores at the index after the last one; after the largest 64-bit index it
  wraps around to the smallest.
\<close>

theorem sparse_array_add:
  assumes "sa_ok a" and "la_last_index (sa_abs a) < 2 ^ 63" and "- (2 ^ 63) \<le> la_last_index (sa_abs a)"
  shows "\<exists>b. sa_add x a =
      (Inr (if la_last_index (sa_abs a) = 2 ^ 63 - 1 then - (2 ^ 63) else la_last_index (sa_abs a) + 1), b) \<and> sa_ok b \<and>
    (la_last_index (sa_abs a) < 2 ^ 63 - 1 \<longrightarrow> sa_abs a \<noteq> [] \<longrightarrow>
      sa_abs b = sa_abs a @ [(la_last_index (sa_abs a) + 1, x)])"
proof -
  let ?n = "la_last_index (sa_abs a)"
  have wrap: "sint (of_int (?n + 1) :: int64_t) = (if ?n = 2 ^ 63 - 1 then - (2 ^ 63) else ?n + 1)"
  proof (cases "?n = 2 ^ 63 - 1")
    case True
    then show ?thesis by simp
  next
    case False
    with assms(2,3) show ?thesis
      by (simp add: signed_of_int signed_take_bit_int_eq_self del: of_int_add)
  qed
  have "la_set (?n + 1) x (sa_abs a) = sa_abs a @ [(?n + 1, x)]" if "sa_abs a \<noteq> []"
  proof -
    have "\<forall>j\<in>fst ` set (sa_abs a). j < ?n + 1"
      using la_last_index_max [of "sa_abs a"] assms(1) by (force simp: sa_ok_def)
    from la_set_between [OF this, of "[]"] show ?thesis by simp
  qed
  with sa_add_spec [OF assms(1), of x] show ?thesis unfolding wrap by auto
qed

theorem sparse_array_add_witness:
  "\<exists>b. sa_add (Some 4) sample_array = (Inr 10, b) \<and> sa_abs b = [(- 4, Some 1), (2, None), (9, Some 3), (10, Some 4)]"
  using sparse_array_add [OF sample_array_ok(1), of "Some 4"] by (auto simp: sample_array_ok(2) la_last_index_def)

section \<open>Iterators\<close>

text \<open>
  C35: an iterator over an array returns the entries in ascending order, the one from an
  index those that are not below it, and after the last entry \<^verbatim>\<open>next\<close> throws a
  \<^verbatim>\<open>NoSuchElementException\<close>; asking \<^verbatim>\<open>hasNext\<close> does not change what is returned.
\<close>

theorem iterator_in_order:
  assumes "sa_ok a"
  shows "remaining a (sa_iterator f a) = sa_abs a \<and>
    remaining a (sa_iterator_at f i a) = filter (\<lambda>(j, _). i \<le> j) (sa_abs a) \<and>
    cr_ok a (sa_iterator f a) \<and> cr_ok a (sa_iterator_at f i a) \<and>
    (\<forall>cr. cr_ok a cr \<longrightarrow>
      (\<exists>cr'. cr_has_next a cr = (Inr (remaining a cr \<noteq> []), cr') \<and> cr_ok a cr' \<and> remaining a cr' = remaining a cr) \<and>
      (case remaining a cr of
         [] \<Rightarrow> fst (cr_next_node False a cr) = Inl NoSuchElementException
       | (k, v) # rest \<Rightarrow> \<exists>cr'. cr_next_node False a cr = (Inr (k, v), cr') \<and> cr_get_index cr' = Inr k \<and>
           cr_ok a cr' \<and> remaining a cr' = rest))"
proof (intro conjI allI impI)
  fix cr assume cr: "cr_ok a cr"
  from has_next_spec [OF assms cr] show "\<exists>cr'. cr_has_next a cr = (Inr (remaining a cr \<noteq> []), cr') \<and> cr_ok a cr' \<and>
    remaining a cr' = remaining a cr" by blast
  from next_node_spec [OF assms cr] show "case remaining a cr of
         [] \<Rightarrow> fst (cr_next_node False a cr) = Inl NoSuchElementException
       | (k, v) # rest \<Rightarrow> \<exists>cr'. cr_next_node False a cr = (Inr (k, v), cr') \<and> cr_get_index cr' = Inr k \<and>
           cr_ok a cr' \<and> remaining a cr' = rest"
    by (auto simp: cr_get_index_def cr_current_node_def split: list.splits)
qed (simp_all add: assms sa_iterator_spec sa_iterator_at_spec)

theorem iterator_in_order_witness:
  "\<exists>cr'. cr_next_node False sample_array (sa_iterator_at False 0 sample_array) = (Inr (2, None), cr') \<and>
     remaining sample_array cr' = [(9, Some 3)]"
  using iterator_in_order [OF sample_array_ok(1), of False 0] by (fastforce simp: sample_array_ok(2))

text \<open>
  C36: removing through an iterator removes exactly the entry returned last, keeps the array
  balanced and does not disturb the rest of the iteration; before the first \<^verbatim>\<open>next\<close>, twice
  in a row or through a read-only iterator it throws and changes nothing.
\<close>

theorem iterator_remove:
  assumes "sa_ok a" and "cr_ok a cr"
  shows "if cr_read_only cr then cr_remove (a, cr) = (Inl UnsupportedOperationException, (a, cr))
    else case cr_current cr of
      Some k \<Rightarrow>
        if cr_dir cr = SITTING
        then \<exists>b cr'. cr_remove (a, cr) = (Inr (), (b, cr')) \<and> sa_ok b \<and> sa_abs b = la_remove k (sa_abs a) \<and>
          cr_ok b cr' \<and> remaining b cr' = remaining a cr \<and> fst (cr_remove (b, cr')) = Inl IllegalStateException
        else cr_remove (a, cr) = (Inl IllegalStateException, (a, cr))
    | None \<Rightarrow> cr_remove (a, cr) = (Inl IllegalStateException, (a, cr))"
proof (cases "cr_read_only cr \<or> cr_current cr = None \<or> cr_dir cr \<noteq> SITTING")
  case True
  then show ?thesis by (auto simp: cr_remove_def cr_current_node_def split: option.split)
next
  case False
  then obtain k where k: "cr_current cr = Some k" "cr_dir cr = SITTING" "\<not> cr_read_only cr" by auto
  from cr_remove_spec [OF assms k] obtain b cr' where
    b: "cr_remove (a, cr) = (Inr (), (b, cr'))" "sa_ok b" "sa_abs b = la_remove k (sa_abs a)" "cr_ok b cr'"
    "remaining b cr' = remaining a cr" "\<not> cr_read_only cr'" by auto
  have "fst (cr_remove (b, cr')) = Inl IllegalStateException"
    using b(1,6) cr_remove_leaves [OF b(1)] by (auto simp: cr_remove_def cr_current_node_def split: option.split)
  with b k show ?thesis by auto
qed

theorem iterator_remove_witness:
  "\<exists>b cr'. cr_remove (sample_array, \<lparr>cr_current = Some (- 4), cr_dir = SITTING, cr_read_only = False\<rparr>) = (Inr (), (b, cr')) \<and>
     sa_abs b = [(2, None), (9, Some 3)] \<and> remaining b cr' = [(2, None), (9, Some 3)]"
proof -
  let ?cr = "\<lparr>cr_current = Some (- 4), cr_dir = SITTING, cr_read_only = False\<rparr>"
  have "cr_ok sample_array ?cr" by (simp add: cr_ok_def sa_exists_spec sample_array_ok)
  from iterator_remove [OF sample_array_ok(1) this] show ?thesis
    by (auto simp: sample_array_ok(2) remaining_def [of sample_array])
qed

section \<open>The methods of the base class\<close>

text \<open>
  C39: of the methods that \<^verbatim>\<open>AbstractLongArray\<close> implements with iterators alone, \<^verbatim>\<open>get\<close>,
  \<^verbatim>\<open>exists\<close>, \<^verbatim>\<open>getSize\<close>, \<^verbatim>\<open>getFirstIndex\<close>, \<^verbatim>\<open>remove\<close> and \<^verbatim>\<open>clear\<close> return and do what
  the methods that walk the tree do, and \<^verbatim>\<open>contains\<close> finds a value that is there.  \<^verbatim>\<open>getLastIndex\<close>
  does not: it asks the iterator for its index after \<^verbatim>\<open>hasNext\<close> has returned false, when there is no
  current node, and throws an \<^verbatim>\<open>IllegalStateException\<close> for every array that is not empty.
\<close>

theorem long_array_methods_agree:
  assumes "sa_ok a"
  shows "ala_get i a = Inr (sa_get i a) \<and> ala_exists i a = Inr (sa_exists i a) \<and>
    ala_get_size a = Inr (sa_size a) \<and> ala_first_index a = Inr (sa_first_index a) \<and>
    ala_contains eq a = Inr (\<exists>(k, v)\<in>set (sa_abs a). eq v) \<and>
    (\<exists>b c. ala_remove i a = (Inr (sa_get i a), b) \<and> sa_remove i a = (Inr (sa_get i a), c) \<and> sa_abs b = sa_abs c) \<and>
    (\<exists>b. ala_clear a = (Inr (), b) \<and> sa_abs b = sa_abs (sa_clear a)) \<and>
    ala_last_index a = (if sa_abs a = [] then Inr (sa_last_index a) else Inl IllegalStateException)"
  using ala_remove_eq [OF assms, of i] ala_clear_eq [OF assms] sa_remove_spec [OF assms, of i]
  by (auto simp: ala_get_eq assms ala_exists_eq ala_get_size_eq ala_first_index_eq ala_contains_eq sa_clear_ok sa_get_spec
      ala_last_index_fails sa_last_index_spec la_last_index_def)

theorem long_array_methods_agree_witness:
  "ala_get 9 sample_array = Inr (Some 3) \<and> ala_contains (\<lambda>oh. oh = None) sample_array = Inr True \<and>
   ala_last_index sample_array = Inl IllegalStateException"
  using long_array_methods_agree [OF sample_array_ok(1), of 9 "\<lambda>oh. oh = None"]
  by (simp add: sa_get_spec sample_array_ok)

text \<open>
  C40: two arrays are equal when they have the same indexes with equal values, however their
  trees came about.
\<close>

theorem long_array_equals:
  assumes "sa_ok a" and "sa_ok b" and "length (sa_abs a) < size_max" and "length (sa_abs b) < size_max"
  shows "ala_equals eq a b = Inr (list_all2 (\<lambda>(i, x) (j, y). eq x y \<and> i = j) (sa_abs a) (sa_abs b)) \<and>
    (ala_equals (=) a b = Inr True \<longleftrightarrow> sa_abs a = sa_abs b)"
proof -
  have "list_all2 (\<lambda>(i, x) (j, y). x = y \<and> i = j) xs ys \<longleftrightarrow> xs = ys" for xs ys :: "(int \<times> 'a holder) list"
    by (induction xs ys rule: list_induct2') auto
  then show ?thesis by (simp add: ala_equals_eq [OF assms])
qed

theorem long_array_equals_witness: "ala_equals (=) sample_array sample_array = Inr True"
  using long_array_equals [OF sample_array_ok(1) sample_array_ok(1), of "(=)"] by (simp add: sample_array_ok(2) size_max_def)

end
