(* ===== verification/String_Ops.thy ===== *)
theory String_Ops
  imports Coh_String
begin

text \<open>
  Searching, comparing and taking apart strings: the other operations of
  \<^verbatim>\<open>String\<close> of \<^verbatim>\<open>coherence/lang\<close> and those of \<^verbatim>\<open>StringHelper\<close> that the filters use.  A string
  is the list of its octets; the code works on pointers into the octets with the terminating
  NUL, which are the lists of the octets from there on.
\<close>

section \<open>Positions in strings\<close>

definition string_is_ascii :: "cstring \<Rightarrow> bool" where
  "string_is_ascii s \<longleftrightarrow> string_length s = length s"

definition raw_octets :: "cstring \<Rightarrow> octet_t list" where
  "raw_octets s = s @ [0]"

definition skip_chars :: "octet_t list \<Rightarrow> nat \<Rightarrow> bool \<Rightarrow> exn + octet_t list" where
  "skip_chars ab cch fASCII =
     (if fASCII then (if cch \<le> length ab then Inr (drop cch ab) else Inl UndefinedBehaviour)
      else string_skip ab cch)"

text \<open>Do the first octets agree?  The comparison ends at the first difference.\<close>

fun mem_equal :: "octet_t list \<Rightarrow> octet_t list \<Rightarrow> nat \<Rightarrow> exn + bool" where
  "mem_equal ab1 ab2 0 = Inr True"
| "mem_equal (b1 # ab1) (b2 # ab2) (Suc cb) = (if b1 = b2 then mem_equal ab1 ab2 cb else Inr False)"
| "mem_equal _ _ (Suc cb) = Inl UndefinedBehaviour"

section \<open>Searching\<close>

fun index_of_string_loop :: "nat \<Rightarrow> nat \<Rightarrow> octet_t list \<Rightarrow> octet_t list \<Rightarrow> nat \<Rightarrow> bool \<Rightarrow> exn + nat" where
  "index_of_string_loop 0 ich abSource abSearch cbSearch fASCII = Inr npos"
| "index_of_string_loop (Suc n) ich abSource abSearch cbSearch fASCII =
     case_exn (mem_equal abSource abSearch cbSearch) (\<lambda>f.
       if f then Inr ich
       else case_exn (skip_chars abSource 1 fASCII) (\<lambda>abSource.
         index_of_string_loop n (ich + 1) abSource abSearch cbSearch fASCII))"

definition string_index_of :: "cstring \<Rightarrow> cstring \<Rightarrow> nat \<Rightarrow> exn + nat" where
  "string_index_of s vsSearch iBegin =
     (let cchSource = string_length s;
          cchSearch = string_length vsSearch;
          fASCII = string_is_ascii s
      in if cchSource < size_add iBegin cchSearch then Inr npos
         else case_exn (skip_chars (raw_octets s) iBegin fASCII) (\<lambda>abSource.
           index_of_string_loop (cchSource - cchSearch + 1 - iBegin) iBegin abSource
             (raw_octets vsSearch) (length vsSearch) fASCII))"

fun index_of_char_loop :: "nat \<Rightarrow> nat \<Rightarrow> octet_t list \<Rightarrow> wchar16_t \<Rightarrow> exn + nat" where
  "index_of_char_loop 0 ich abSource chSearch = Inr npos"
| "index_of_char_loop (Suc n) ich abSource chSearch =
     case_exn (string_next abSource) (\<lambda>(ch, abSource).
       if ch = chSearch then Inr ich else index_of_char_loop n (ich + 1) abSource chSearch)"

definition string_index_of_char :: "cstring \<Rightarrow> wchar16_t \<Rightarrow> nat \<Rightarrow> exn + nat" where
  "string_index_of_char s chSearch iBegin =
     (let cchSource = string_length s in
      if cchSource \<le> iBegin then Inr npos
      else case_exn (skip_chars (raw_octets s) iBegin (string_is_ascii s)) (\<lambda>abSource.
        index_of_char_loop (cchSource - iBegin) iBegin abSource chSearch))"

definition string_starts_with :: "cstring \<Rightarrow> cstring \<Rightarrow> exn + bool" where
  "string_starts_with s vsSearch =
     (if length vsSearch \<le> length s then mem_equal (raw_octets s) (raw_octets vsSearch) (length vsSearch)
      else Inr False)"

definition string_ends_with :: "cstring \<Rightarrow> cstring \<Rightarrow> exn + bool" where
  "string_ends_with s vsSearch =
     (if length vsSearch \<le> length s
      then mem_equal (drop (length s - length vsSearch) (raw_octets s)) (raw_octets vsSearch) (length vsSearch)
      else Inr False)"

section \<open>Taking strings apart\<close>

definition string_substring :: "cstring \<Rightarrow> nat \<Rightarrow> nat \<Rightarrow> exn + cstring" where
  "string_substring s iBegin iEnd =
     (let cchSource = string_length s;
          fASCII = string_is_ascii s;
          iEnd = (if iEnd = npos then cchSource else iEnd);
          abSource = raw_octets s
      in if cchSource < iEnd \<or> iEnd < iBegin then Inl IndexOutOfBoundsException
         else case_exn (skip_chars abSource iBegin fASCII) (\<lambda>abStart.
              case_exn (skip_chars abStart (iEnd - iBegin) fASCII) (\<lambda>abEnd.
                string_create abSource (length abSource - length abStart) (length abStart - length abEnd))))"

text \<open>
  \<^verbatim>\<open>trim\<close> looks for the last octet to keep from the terminating NUL on, and counts the octet
  it stops at.
\<close>

fun trim_end :: "octet_t list \<Rightarrow> nat \<Rightarrow> nat \<Rightarrow> nat" where
  "trim_end ab abStart 0 = 0"
| "trim_end ab abStart (Suc n) = (if abStart < Suc n \<and> ab ! Suc n \<le> 0x20 then trim_end ab abStart n else Suc n)"

definition string_trim :: "cstring \<Rightarrow> exn + cstring" where
  "string_trim s =
     (let cbSource = length s in
      if cbSource = 0 then Inr s
      else
        let abStart = length (takeWhile (\<lambda>b. b \<le> 0x20) s);
            abEnd = trim_end (raw_octets s) abStart cbSource;
            cbTrim = abEnd - abStart + 1
        in if cbTrim = cbSource then Inr s else string_create (raw_octets s) abStart cbTrim)"

section \<open>Comparing\<close>

fun compare_octets :: "octet_t list \<Rightarrow> octet_t list \<Rightarrow> nat \<Rightarrow> exn + int" where
  "compare_octets abA abB 0 = Inl StackOverflow"
| "compare_octets abA abB (Suc n) =
     (if abA = [] \<or> abB = [] then Inr 0
      else case_exn (string_next abA) (\<lambda>(chA, abA). case_exn (string_next abB) (\<lambda>(chB, abB).
        if chA \<noteq> chB then Inr (int (unat chA) - int (unat chB)) else compare_octets abA abB n)))"

text \<open>The bound on the rounds is one more than the octets of the first string with its NUL.\<close>

definition string_compare_to :: "cstring \<Rightarrow> cstring \<Rightarrow> exn + int" where
  "string_compare_to sA sB =
     case_exn (compare_octets (raw_octets sA) (raw_octets sB) (length sA + 2)) (\<lambda>cDiff.
       if cDiff \<noteq> 0 then Inr cDiff
       else Inr (if length sA < length sB then - 1 else int (length sA - length sB)))"

definition string_region_matches :: "cstring \<Rightarrow> nat \<Rightarrow> cstring \<Rightarrow> nat \<Rightarrow> nat \<Rightarrow> exn + bool" where
  "string_region_matches s ofSource vsOther ofOther cch =
     (let cchSource = string_length s;
          cchOther = string_length vsOther;
          cch = (if cch = npos then size_sub cchOther ofOther else cch)
      in if size_sub cchSource cch < ofSource \<or> size_sub cchOther cch < ofOther then Inr False
         else case_exn (skip_chars (raw_octets s) ofSource (string_is_ascii s)) (\<lambda>abSource.
              case_exn (skip_chars (raw_octets vsOther) ofOther (string_is_ascii vsOther)) (\<lambda>abOther.
              case_exn (strncmp_utf8 abSource abOther cch) (\<lambda>n. Inr (n = 0)))))"

text \<open>
  The comparison of \<^verbatim>\<open>StringHelper\<close> works on C strings: it ends at the first NUL.
  \<^verbatim>\<open>toupper\<close> and \<^verbatim>\<open>tolower\<close> are those of the C locale.
\<close>

definition to_upper :: "octet_t \<Rightarrow> octet_t" where
  "to_upper b = (if 0x61 \<le> b \<and> b \<le> 0x7A then b - 0x20 else b)"

definition to_lower :: "octet_t \<Rightarrow> octet_t" where
  "to_lower b = (if 0x41 \<le> b \<and> b \<le> 0x5A then b + 0x20 else b)"

fun compare_cstrings :: "(octet_t \<Rightarrow> octet_t) \<Rightarrow> octet_t list \<Rightarrow> octet_t list \<Rightarrow> exn + int" where
  "compare_cstrings f (a # achA) (b # achB) =
     (if a \<noteq> 0 \<and> f a = f b then compare_cstrings f achA achB else Inr (sint (f a) - sint (f b)))"
| "compare_cstrings f _ _ = Inl UndefinedBehaviour"

definition helper_compare :: "cstring \<Rightarrow> cstring \<Rightarrow> bool \<Rightarrow> exn + int" where
  "helper_compare sA sB fCaseSensitive =
     (if \<not> string_is_ascii sA \<or> \<not> string_is_ascii sB then Inl UnsupportedOperationException
      else compare_cstrings (if fCaseSensitive then id else to_upper) (raw_octets sA) (raw_octets sB))"

definition helper_region_matches ::
  "cstring \<Rightarrow> nat \<Rightarrow> cstring \<Rightarrow> nat \<Rightarrow> nat \<Rightarrow> bool \<Rightarrow> exn + bool" where
  "helper_region_matches vsSource oSource vsOther oOther cLen fIgnoreCase =
     case_exn (string_substring vsSource oSource (size_add oSource cLen)) (\<lambda>sA.
     case_exn (string_substring vsOther oOther (size_add oOther cLen)) (\<lambda>sB.
     case_exn (helper_compare sA sB (\<not> fIgnoreCase)) (\<lambda>n. Inr (n = 0))))"

definition helper_starts_with :: "cstring \<Rightarrow> cstring \<Rightarrow> bool \<Rightarrow> exn + bool" where
  "helper_starts_with vsSource vsPrefix fIgnoreCase =
     (if string_length vsSource < string_length vsPrefix then Inr False
      else case_exn (string_substring vsSource 0 (string_length vsPrefix)) (\<lambda>s.
           case_exn (helper_compare s vsPrefix (\<not> fIgnoreCase)) (\<lambda>n. Inr (n = 0))))"

section \<open>ASCII strings\<close>

abbreviation ascii :: "cstring \<Rightarrow> bool" where
  "ascii s \<equiv> (\<forall>b\<in>set s. b < 0x80)"

lemma ucast_octet: "ucast (ucast (b :: octet_t) :: wchar16_t) = b"
  by (intro bit_eqI) (auto simp: utf_bits)

lemma ascii_encode: "b < 0x80 \<Longrightarrow> encode_char16 (ucast b) = [b]"
proof -
  assume "b < 0x80"
  then have "unat b < 128" by (simp add: word_less_nat_alt)
  then have "(ucast b :: wchar16_t) \<le> 0x7F" by (simp add: word_le_nat_alt unsigned_ucast_eq take_bit_nat_eq_self)
  then show ?thesis by (simp add: encode_char16_def ucast_octet)
qed

lemma ascii_concat: "ascii s \<Longrightarrow> concat (map encode_char16 (map ucast s)) = s"
  by (induction s) (simp_all add: ascii_encode)

lemma ascii_length: "ascii s \<Longrightarrow> string_length s = length s"
  using utf8_validate_encode [of "map ucast s"] ascii_concat [of s] by (simp add: string_length_def)

lemma ascii_is_ascii [simp]: "ascii s \<Longrightarrow> string_is_ascii s"
  by (simp add: string_is_ascii_def ascii_length)

lemma ascii_valid: "ascii s \<Longrightarrow> valid_string s"
  using utf8_validate_encode [of "map ucast s"] ascii_concat [of s] by (simp add: valid_string_def)

lemma ascii_create:
  assumes "ascii (take cb (drop off ab))" and "off < length ab" and "off + cb \<le> length ab" and "length ab < npos"
  shows "string_create ab off cb = Inr (take cb (drop off ab))"
  using assms by (intro string_create_valid ascii_valid)

lemma mem_equal_take:
  "n \<le> length a \<Longrightarrow> n \<le> length b \<Longrightarrow> mem_equal a b n = Inr (take n a = take n b)"
  by (induction a b n rule: mem_equal.induct) auto

lemma ascii_starts_with: "string_starts_with s p = Inr (take (length p) s = p)"
  by (auto simp: string_starts_with_def mem_equal_take raw_octets_def dest: arg_cong [where f = length])

lemma ascii_ends_with:
  "string_ends_with s p = Inr (length p \<le> length s \<and> drop (length s - length p) s = p)"
  by (auto simp: string_ends_with_def mem_equal_take raw_octets_def)

lemma ascii_substring:
  assumes "ascii s" and "i \<le> j" and "j \<le> length s" and "length s + 1 < npos"
  shows "string_substring s i j = Inr (take (j - i) (drop i s))"
proof -
  have "j \<noteq> npos" using assms by simp
  moreover have "string_create (raw_octets s) i (j - i) = Inr (take (j - i) (drop i (raw_octets s)))"
    using assms by (intro ascii_create) (auto simp: raw_octets_def dest: in_set_takeD in_set_dropD)
  ultimately show ?thesis using assms
    by (simp add: string_substring_def ascii_length skip_chars_def case_exn_def raw_octets_def)
qed

lemma string_next_ascii: "b < 0x80 \<Longrightarrow> string_next (b # r) = Inr (ucast b, r)"
  using string_next_encode [of "ucast b" r] by (simp add: ascii_encode)

lemma ucast_octet_eq: "(ucast (b :: octet_t) :: wchar16_t) = ucast c \<longleftrightarrow> b = c"
  by (metis ucast_octet)

lemma index_of_char_loop_spec:
  assumes "ascii s" and "n = length s"
  shows "\<exists>k. index_of_char_loop n ich (s @ r) (ucast c) = Inr (if c \<in> set s then ich + k else npos) \<and>
    (c \<in> set s \<longrightarrow> k < length s \<and> s ! k = c \<and> c \<notin> set (take k s))"
  using assms
proof (induction s arbitrary: n ich)
  case (Cons b s)
  then obtain k where k: "index_of_char_loop (length s) (ich + 1) (s @ r) (ucast c) = Inr (if c \<in> set s then ich + 1 + k else npos)"
    "c \<in> set s \<longrightarrow> k < length s \<and> s ! k = c \<and> c \<notin> set (take k s)" by force
  show ?case
  proof (cases "b = c")
    case True
    with Cons.prems show ?thesis by (intro exI [of _ 0]) (simp add: string_next_ascii case_exn_def)
  next
    case False
    with Cons.prems k show ?thesis
      by (intro exI [of _ "Suc k"]) (auto simp: string_next_ascii case_exn_def ucast_octet_eq)
  qed
qed simp

lemma ascii_index_of_char:
  assumes "ascii s" and "length s < npos"
  shows "\<exists>n. string_index_of_char s (ucast c) 0 = Inr n \<and> (n \<noteq> npos \<longleftrightarrow> c \<in> set s) \<and>
    (n \<noteq> npos \<longrightarrow> n < length s \<and> s ! n = c \<and> c \<notin> set (take n s))"
proof (cases "s = []")
  case True
  then show ?thesis by (simp add: string_index_of_char_def ascii_length)
next
  case False
  from index_of_char_loop_spec [OF assms(1) refl, of 0 "[0]" c] obtain k where
    "index_of_char_loop (length s) 0 (s @ [0]) (ucast c) = Inr (if c \<in> set s then k else npos)"
    "c \<in> set s \<longrightarrow> k < length s \<and> s ! k = c \<and> c \<notin> set (take k s)" by auto
  then show ?thesis using False assms
    by (auto simp: string_index_of_char_def ascii_length skip_chars_def case_exn_def raw_octets_def)
qed

definition occurs_at :: "octet_t list \<Rightarrow> octet_t list \<Rightarrow> nat \<Rightarrow> bool" where
  "occurs_at p s i \<longleftrightarrow> i + length p \<le> length s \<and> take (length p) (drop i s) = p"

lemma index_of_string_loop_spec:
  assumes "i + n = length s - length p + 1" and "length p \<le> length s" and "length s < npos"
  shows "\<exists>k. index_of_string_loop n i (drop i (s @ [0])) (p @ [0]) (length p) True = Inr k \<and>
    (if k = npos then \<forall>j. i \<le> j \<longrightarrow> \<not> occurs_at p s j
     else i \<le> k \<and> occurs_at p s k \<and> (\<forall>j. i \<le> j \<and> j < k \<longrightarrow> \<not> occurs_at p s j))"
  using assms(1)
proof (induction n arbitrary: i)
  case 0
  have "\<not> occurs_at p s j" if "i \<le> j" for j
  proof -
    have "\<not> j + length p \<le> length s" using that 0 assms(2) by linarith
    then show ?thesis by (simp add: occurs_at_def)
  qed
  then show ?case by simp
next
  case (Suc n)
  then have i: "i + length p \<le> length s" using assms(2) by simp
  then have eq: "mem_equal (drop i (s @ [0])) (p @ [0]) (length p) = Inr (occurs_at p s i)"
    by (simp add: mem_equal_take occurs_at_def)
  have skip: "skip_chars (drop i (s @ [0])) 1 True = Inr (drop (Suc i) (s @ [0]))"
    using i by (simp add: skip_chars_def)
  obtain k where k: "index_of_string_loop n (Suc i) (drop (Suc i) (s @ [0])) (p @ [0]) (length p) True = Inr k"
    "if k = npos then \<forall>j. Suc i \<le> j \<longrightarrow> \<not> occurs_at p s j
     else Suc i \<le> k \<and> occurs_at p s k \<and> (\<forall>j. Suc i \<le> j \<and> j < k \<longrightarrow> \<not> occurs_at p s j)"
    using Suc.IH [of "Suc i"] Suc.prems by auto
  show ?case
  proof (cases "occurs_at p s i")
    case True
    with eq i assms(3) show ?thesis by (intro exI [of _ i]) (auto simp: case_exn_def)
  next
    case False
    then have "i \<le> j \<longleftrightarrow> Suc i \<le> j" if "occurs_at p s j" for j using that by (metis Suc_leI Suc_leD le_neq_implies_less)
    with False k eq skip show ?thesis
      by (intro exI [of _ k]) (auto simp: case_exn_def split: if_splits)
  qed
qed

lemma ascii_index_of:
  assumes "ascii s" and "ascii p" and "length s < npos" and "length p < npos"
  shows "\<exists>k. string_index_of s p 0 = Inr k \<and> (k \<noteq> npos \<longleftrightarrow> (\<exists>i. occurs_at p s i))"
proof (cases "length p \<le> length s")
  case False
  moreover have "length p < size_max" using assms(4) by (simp add: npos_def)
  ultimately show ?thesis using assms
    by (auto simp: string_index_of_def ascii_length occurs_at_def)
next
  case True
  have "length p < size_max" using assms(4) by (simp add: npos_def)
  moreover from index_of_string_loop_spec [of 0 "length s - length p + 1" s p] True assms(3) obtain k where
    k: "index_of_string_loop (length s - length p + 1) 0 (s @ [0]) (p @ [0]) (length p) True = Inr k"
    "if k = npos then \<forall>j. \<not> occurs_at p s j else occurs_at p s k \<and> (\<forall>j<k. \<not> occurs_at p s j)" by auto
  ultimately show ?thesis using assms True
    by (auto simp: string_index_of_def ascii_length skip_chars_def case_exn_def raw_octets_def Let_def split: if_splits)
qed

lemma to_upper_zero: "to_upper b = 0 \<longleftrightarrow> b = 0"
  unfolding to_upper_def by (auto simp: word_le_nat_alt)

lemma sint_0_iff: "sint (x :: octet_t) = 0 \<longleftrightarrow> x = 0"
  by (metis sint_0 signed_word_eqI)

lemma compare_cstrings_equal:
  assumes "0 \<notin> set a" and "0 \<notin> set b" and "\<And>x. f x = 0 \<longleftrightarrow> x = 0"
  shows "\<exists>n. compare_cstrings f (a @ [0]) (b @ [0]) = Inr n \<and> (n = 0 \<longleftrightarrow> map f a = map f b)"
  using assms(1,2)
proof (induction a b rule: list_induct2')
  case 1
  then show ?case by simp
next
  case (2 x xs)
  then have "f x \<noteq> 0" "f 0 = 0" using assms(3) by auto
  then show ?case by (auto simp: sint_0_iff)
next
  case (3 y ys)
  then have "f y \<noteq> 0" "f 0 = 0" using assms(3) by auto
  then show ?case by (auto simp: sint_0_iff)
next
  case (4 x xs y ys)
  then show ?case by (auto simp: word_eq_iff_signed [symmetric])
qed

lemma helper_compare_equal:
  assumes "ascii a" and "ascii b" and "0 \<notin> set a" and "0 \<notin> set b"
  shows "\<exists>n. helper_compare a b False = Inr n \<and> (n = 0 \<longleftrightarrow> map to_upper a = map to_upper b)"
  using compare_cstrings_equal [OF assms(3,4) to_upper_zero] assms(1,2)
  by (simp add: helper_compare_def raw_octets_def)

end
