(* ===== verification/Like_Filter.thy ===== *)
theory Like_Filter
  imports String_Ops
begin

text \<open>
  \<^verbatim>\<open>LikeFilter\<close> of \<^verbatim>\<open>coherence/util/filter\<close>: a pattern with \<^verbatim>\<open>%\<close> and \<^verbatim>\<open>_\<close> is parsed into a list
  of steps, from which one of thirteen plans is chosen; \<^verbatim>\<open>isMatch\<close> executes the plan.
\<close>

section \<open>Match steps\<close>

record match_step =
  ms_string :: cstring
  ms_match :: "octet_t list"
  ms_lower :: "octet_t list option"
  ms_any :: "bool list option"
  ms_skip_front :: nat
  ms_skip_back :: nat
  ms_middle_wilds :: bool
  ms_ignore_case :: bool

text \<open>
  The loop of the constructor over the positions of the pattern: the flags of the wildcards,
  \<^verbatim>\<open>fFront\<close>, \<^verbatim>\<open>cchSkipFront\<close>, \<^verbatim>\<open>cWilds\<close> and \<^verbatim>\<open>cCont\<close>.
\<close>

fun count_wilds :: "(nat \<Rightarrow> bool) \<Rightarrow> nat \<Rightarrow> nat \<Rightarrow> bool \<Rightarrow> nat \<Rightarrow> nat \<Rightarrow> nat \<Rightarrow> bool list \<times> nat \<times> nat \<times> nat" where
  "count_wilds bitset 0 i fFront cchSkipFront cWilds cCont = ([], cchSkipFront, cWilds, cCont)"
| "count_wilds bitset (Suc n) i fFront cchSkipFront cWilds cCont =
     (if bitset i
      then map_prod (Cons True) id
        (count_wilds bitset n (i + 1) fFront (if fFront then cchSkipFront + 1 else cchSkipFront) (cWilds + 1) (cCont + 1))
      else map_prod (Cons False) id (count_wilds bitset n (i + 1) False cchSkipFront cWilds 0))"

definition is_any :: "bool list option \<Rightarrow> nat \<Rightarrow> bool" where
  "is_any vafAny i = (case vafAny of None \<Rightarrow> False | Some a \<Rightarrow> a ! i)"

definition match_step_create :: "cstring \<Rightarrow> (nat \<Rightarrow> bool) option \<Rightarrow> bool \<Rightarrow> match_step" where
  "match_step_create vsMatch hBitset fIsIgnoreCase =
     (let cch = length vsMatch;
          (hafAny, cchSkipFront, cchSkipBack, fMiddleWilds) =
            (case hBitset of
               None \<Rightarrow> (None, 0, 0, False)
             | Some bitset \<Rightarrow>
                 (case count_wilds bitset cch 0 True 0 0 0 of (hafAny, cchSkipFront, cWilds, cCont) \<Rightarrow>
                    let cchSkipBack = (if 0 < cCont \<and> cCont < cWilds then cCont else 0)
                    in (Some hafAny, cchSkipFront, cchSkipBack, cchSkipFront + cchSkipBack < cWilds)));
          upper = map (\<lambda>(i, ch). if is_any hafAny i then ch else to_upper ch) (enumerate 0 vsMatch);
          lower = map (\<lambda>(i, ch). if is_any hafAny i then ch else to_lower (to_upper ch)) (enumerate 0 vsMatch)
      in \<lparr>ms_string = vsMatch,
          ms_match = (if fIsIgnoreCase then upper else vsMatch),
          ms_lower = (if fIsIgnoreCase then Some lower else None),
          ms_any = hafAny, ms_skip_front = cchSkipFront, ms_skip_back = cchSkipBack,
          ms_middle_wilds = fMiddleWilds, ms_ignore_case = fIsIgnoreCase\<rparr>)"

definition ms_length :: "match_step \<Rightarrow> nat" where
  "ms_length step = length (ms_match step)"

definition ms_is_literal :: "match_step \<Rightarrow> bool" where
  "ms_is_literal step = (ms_any step = None)"

definition array_at :: "'a list \<Rightarrow> nat \<Rightarrow> exn + 'a" where
  "array_at a i = (if i < length a then Inr (a ! i) else Inl IndexOutOfBoundsException)"

text \<open>Does a character agree with the one at a position of the step?\<close>

definition ms_agrees :: "match_step \<Rightarrow> nat \<Rightarrow> octet_t \<Rightarrow> exn + bool" where
  "ms_agrees step ofMatch ch =
     case_exn (array_at (ms_match step) ofMatch) (\<lambda>m.
       if ms_ignore_case step then
         if ch = m then Inr True
         else case_exn (array_at (the (ms_lower step)) ofMatch) (\<lambda>l. Inr (ch = l))
       else Inr (ch = m))"

text \<open>The inner loop: the characters from \<^verbatim>\<open>ofMatch\<close> up to \<^verbatim>\<open>cchMatch\<close> against those from \<^verbatim>\<open>ofCur\<close>.\<close>

function ms_rest :: "match_step \<Rightarrow> octet_t list \<Rightarrow> nat \<Rightarrow> nat \<Rightarrow> nat \<Rightarrow> exn + bool" where
  "ms_rest step vach cchMatch ofMatch ofCur =
     (if cchMatch \<le> ofMatch then Inr True
      else if ms_middle_wilds step \<and> is_any (ms_any step) ofMatch
      then ms_rest step vach cchMatch (ofMatch + 1) (size_add ofCur 1)
      else case_exn (array_at vach ofCur) (\<lambda>ch. case_exn (ms_agrees step ofMatch ch) (\<lambda>f.
        if f then ms_rest step vach cchMatch (ofMatch + 1) (size_add ofCur 1) else Inr False)))"
  by pat_completeness auto
termination by (relation "measure (\<lambda>(step, vach, cchMatch, ofMatch, ofCur). cchMatch - ofMatch)") auto

declare ms_rest.simps [simp del]

text \<open>
  The scan for the first match.  The bound \<open>n\<close> on the rounds is one more than the characters,
  as a scan that goes past them ends with an exception.
\<close>

fun ms_scan :: "nat \<Rightarrow> match_step \<Rightarrow> octet_t list \<Rightarrow> nat \<Rightarrow> nat \<Rightarrow> nat \<Rightarrow> exn + nat" where
  "ms_scan 0 step vach cchMatch ofBegin ofEnd = Inl StackOverflow"
| "ms_scan (Suc n) step vach cchMatch ofBegin ofEnd =
     (if ofEnd < ofBegin then Inr npos
      else case_exn (array_at vach ofBegin) (\<lambda>ch. case_exn (ms_agrees step (ms_skip_front step) ch) (\<lambda>f.
        if f then
          case_exn (ms_rest step vach cchMatch (ms_skip_front step + 1) (size_add ofBegin 1)) (\<lambda>f.
            if f then Inr (size_sub ofBegin (ms_skip_front step))
            else ms_scan n step vach cchMatch (size_add ofBegin 1) ofEnd)
        else ms_scan n step vach cchMatch (size_add ofBegin 1) ofEnd)))"

definition ms_index_of :: "match_step \<Rightarrow> octet_t list \<Rightarrow> nat \<Rightarrow> nat \<Rightarrow> exn + nat" where
  "ms_index_of step vach ofBegin ofEnd =
     (let cchMatch = ms_length step;
          cch = size_sub ofEnd ofBegin;
          cchSkipFront = ms_skip_front step
      in if cch < cchMatch then Inr npos
         else if 0 < cchSkipFront \<and> cchSkipFront = cchMatch then Inr ofBegin
         else
           let ofBegin = size_add ofBegin cchSkipFront;
               ofEnd = size_sub (size_add ofEnd cchSkipFront) cchMatch
           in ms_scan (Suc (length vach)) step vach (cchMatch - ms_skip_back step) ofBegin ofEnd)"

section \<open>Building the plan\<close>

datatype like_step = ANY | Match match_step

datatype like_plan =
    NO_PLAN
  | ITERATIVE_EVAL "match_step option" "match_step option" "match_step list option" bool
  | STARTS_WITH_CHAR octet_t
  | STARTS_WITH_STRING cstring
  | STARTS_WITH_INSENS cstring
  | ENDS_WITH_CHAR octet_t
  | ENDS_WITH_STRING cstring
  | ENDS_WITH_INSENS cstring
  | CONTAINS_CHAR octet_t
  | CONTAINS_STRING cstring
  | ALWAYS_TRUE
  | ALWAYS_FALSE
  | EXACT_MATCH cstring
  | INSENS_MATCH cstring

text \<open>
  The state of the parser: the pending escape, the start and the length of what has been
  collected, the positions of the \<^verbatim>\<open>_\<close> in it, and the steps so far.
\<close>

record like_parser =
  lp_escape :: bool
  lp_start :: nat
  lp_collected :: nat
  lp_bitset :: "(nat \<Rightarrow> bool) option"
  lp_steps :: "like_step list"

definition lp_flush :: "octet_t list \<Rightarrow> bool \<Rightarrow> like_parser \<Rightarrow> exn + like_parser" where
  "lp_flush vachPattern fIgnoreCase st =
     (if 0 < lp_collected st then
        case_exn (string_create vachPattern (lp_start st) (lp_collected st)) (\<lambda>vs.
          Inr (st\<lparr>lp_steps := lp_steps st @ [Match (match_step_create vs (lp_bitset st) fIgnoreCase)],
                  lp_collected := 0, lp_bitset := None\<rparr>))
      else Inr st)"

definition lp_collect :: "nat \<Rightarrow> like_parser \<Rightarrow> like_parser" where
  "lp_collect off st =
     st\<lparr>lp_start := (if lp_collected st = 0 then off else lp_start st), lp_collected := lp_collected st + 1\<rparr>"

definition lp_char :: "octet_t list \<Rightarrow> octet_t \<Rightarrow> bool \<Rightarrow> nat \<Rightarrow> octet_t \<Rightarrow> like_parser \<Rightarrow> exn + like_parser" where
  "lp_char vachPattern chEscape fIgnoreCase off ch st =
     (if lp_escape st then Inr (lp_collect off (st\<lparr>lp_escape := False\<rparr>))
      else if ch = chEscape then Inr (st\<lparr>lp_escape := True\<rparr>)
      else if ch = 0x25 then
        case_exn (lp_flush vachPattern fIgnoreCase st) (\<lambda>st.
          Inr (if lp_steps st = [] \<or> last (lp_steps st) \<noteq> ANY then st\<lparr>lp_steps := lp_steps st @ [ANY]\<rparr> else st))
      else if ch = 0x5F then
        Inr (lp_collect off (st\<lparr>lp_bitset :=
          Some ((case lp_bitset st of None \<Rightarrow> (\<lambda>_. False) | Some b \<Rightarrow> b)(lp_collected st := True))\<rparr>))
      else Inr (lp_collect off st))"

fun lp_loop :: "octet_t list \<Rightarrow> octet_t \<Rightarrow> bool \<Rightarrow> nat \<Rightarrow> octet_t list \<Rightarrow> like_parser \<Rightarrow> exn + like_parser" where
  "lp_loop vachPattern chEscape fIgnoreCase off [] st = Inr st"
| "lp_loop vachPattern chEscape fIgnoreCase off (ch # chs) st =
     case_exn (lp_char vachPattern chEscape fIgnoreCase off ch st)
       (lp_loop vachPattern chEscape fIgnoreCase (off + 1) chs)"

definition like_steps :: "octet_t list \<Rightarrow> octet_t \<Rightarrow> bool \<Rightarrow> exn + like_step list" where
  "like_steps vachPattern chEscape fIgnoreCase =
     case_exn (lp_loop vachPattern chEscape fIgnoreCase 0 vachPattern
       \<lparr>lp_escape = False, lp_start = 0, lp_collected = 0, lp_bitset = None, lp_steps = []\<rparr>) (\<lambda>st.
     if lp_escape st then Inl IllegalArgumentException
     else case_exn (lp_flush vachPattern fIgnoreCase st) (\<lambda>st. Inr (lp_steps st)))"

text \<open>The plan for a step that is alone, follows or precedes a \<^verbatim>\<open>%\<close>, or stands between two.\<close>

definition plan_alone :: "bool \<Rightarrow> match_step \<Rightarrow> like_plan option" where
  "plan_alone fIgnoreCase step =
     (if ms_is_literal step then
        Some (if fIgnoreCase then INSENS_MATCH (ms_string step) else EXACT_MATCH (ms_string step))
      else None)"

definition plan_side :: "bool \<Rightarrow> bool \<Rightarrow> match_step \<Rightarrow> like_plan option" where
  "plan_side fIgnoreCase fStartsWith step =
     (if ms_is_literal step then
        Some
          (if fIgnoreCase then
             if fStartsWith then STARTS_WITH_INSENS (ms_string step) else ENDS_WITH_INSENS (ms_string step)
           else if ms_length step = 1 then
             if fStartsWith then STARTS_WITH_CHAR (ms_string step ! 0) else ENDS_WITH_CHAR (ms_string step ! 0)
           else
             if fStartsWith then STARTS_WITH_STRING (ms_string step) else ENDS_WITH_STRING (ms_string step))
      else None)"

definition plan_inside :: "bool \<Rightarrow> match_step \<Rightarrow> like_plan option" where
  "plan_inside fIgnoreCase step =
     (if \<not> fIgnoreCase \<and> ms_is_literal step then
        Some (if ms_length step = 1 then CONTAINS_CHAR (ms_string step ! 0) else CONTAINS_STRING (ms_string step))
      else None)"

definition plan_simple :: "bool \<Rightarrow> like_step list \<Rightarrow> like_plan option" where
  "plan_simple fIgnoreCase steps =
     (case steps of
        [] \<Rightarrow> Some (EXACT_MATCH [])
      | [ANY] \<Rightarrow> Some ALWAYS_TRUE
      | [Match step] \<Rightarrow> plan_alone fIgnoreCase step
      | [ANY, Match step] \<Rightarrow> plan_side fIgnoreCase False step
      | [Match step, _] \<Rightarrow> plan_side fIgnoreCase True step
      | [_, Match step, _] \<Rightarrow> plan_inside fIgnoreCase step
      | _ \<Rightarrow> None)"

text \<open>The steps at every second place.\<close>

fun every_second :: "like_step list \<Rightarrow> match_step list" where
  "every_second [] = []"
| "every_second (Match step # _ # steps) = step # every_second steps"
| "every_second [Match step] = [step]"
| "every_second (ANY # _) = []"

definition plan_iterative :: "like_step list \<Rightarrow> exn + like_plan" where
  "plan_iterative steps =
     (case steps of
        [] \<Rightarrow> Inl IllegalStateException
      | [s] \<Rightarrow>
          (case s of
             ANY \<Rightarrow> Inl ClassCastException
           | Match step \<Rightarrow> Inr (ITERATIVE_EVAL (Some step) None None False))
      | [s, t] \<Rightarrow>
          (case (s, t) of
             (ANY, Match step) \<Rightarrow> Inr (ITERATIVE_EVAL None (Some step) None False)
           | (Match step, ANY) \<Rightarrow> Inr (ITERATIVE_EVAL (Some step) None None True)
           | _ \<Rightarrow> Inl IllegalStateException)
      | _ \<Rightarrow>
          let front = (case hd steps of ANY \<Rightarrow> None | Match step \<Rightarrow> Some step);
              ofStartMiddle = (if front = None then 1 else 2);
              back = (case last steps of ANY \<Rightarrow> None | Match step \<Rightarrow> Some step);
              ofEndMiddle = length steps - 2 - (if back = None then 0 else 1)
          in Inr (ITERATIVE_EVAL front back
               (Some (every_second (take (ofEndMiddle + 1 - ofStartMiddle) (drop ofStartMiddle steps)))) (back = None)))"

record like_filter =
  lf_plan :: like_plan
  lf_ascii :: bool

definition build_plan :: "cstring option \<Rightarrow> octet_t \<Rightarrow> bool \<Rightarrow> exn + like_filter" where
  "build_plan vsPattern chEscape fIgnoreCase =
     (case vsPattern of
        None \<Rightarrow> Inr \<lparr>lf_plan = ALWAYS_FALSE, lf_ascii = True\<rparr>
      | Some pattern \<Rightarrow>
          if \<not> string_is_ascii pattern then Inr \<lparr>lf_plan = NO_PLAN, lf_ascii = False\<rparr>
          else case_exn (like_steps pattern chEscape fIgnoreCase) (\<lambda>steps.
            case plan_simple fIgnoreCase steps of
              Some plan \<Rightarrow> Inr \<lparr>lf_plan = plan, lf_ascii = True\<rparr>
            | None \<Rightarrow> case_exn (plan_iterative steps) (\<lambda>plan. Inr \<lparr>lf_plan = plan, lf_ascii = True\<rparr>)))"

section \<open>Matching\<close>

fun match_middle :: "match_step list \<Rightarrow> octet_t list \<Rightarrow> nat \<Rightarrow> nat \<Rightarrow> exn + nat option" where
  "match_middle [] vach ofBegin ofEnd = Inr (Some ofBegin)"
| "match_middle (step # steps) vach ofBegin ofEnd =
     case_exn (ms_index_of step vach ofBegin ofEnd) (\<lambda>off.
       if off = npos then Inr None else match_middle steps vach (size_add off (ms_length step)) ofEnd)"

text \<open>
  The check of the front step gives the offset after it, that of the back step the offset it
  starts at, which must not be before \<open>ofBegin\<close>.
\<close>

definition match_front :: "match_step option \<Rightarrow> octet_t list \<Rightarrow> exn + nat option" where
  "match_front front vach =
     (case front of
        None \<Rightarrow> Inr (Some 0)
      | Some step \<Rightarrow>
          if length vach < ms_length step then Inr None
          else case_exn (ms_index_of step vach 0 (ms_length step)) (\<lambda>off.
            Inr (if off = npos then None else Some (ms_length step))))"

definition match_back :: "match_step option \<Rightarrow> octet_t list \<Rightarrow> nat \<Rightarrow> exn + nat option" where
  "match_back back vach ofBegin =
     (case back of
        None \<Rightarrow> Inr (Some (length vach))
      | Some step \<Rightarrow>
          let ofStep = size_sub (length vach) (ms_length step) in
          if ofStep < ofBegin then Inr None
          else case_exn (ms_index_of step vach ofStep (length vach)) (\<lambda>off.
            Inr (if off = npos then None else Some ofStep)))"

definition match_iterative ::
  "match_step option \<Rightarrow> match_step option \<Rightarrow> match_step list option \<Rightarrow> bool \<Rightarrow> octet_t list \<Rightarrow> exn + bool" where
  "match_iterative front back middle fTrailingTextAllowed vach =
     case_exn (match_front front vach) (\<lambda>ofBegin.
     case ofBegin of None \<Rightarrow> Inr False | Some ofBegin \<Rightarrow>
     case_exn (match_back back vach ofBegin) (\<lambda>ofEnd.
     case ofEnd of None \<Rightarrow> Inr False | Some ofEnd \<Rightarrow>
     case_exn (match_middle (case middle of None \<Rightarrow> [] | Some steps \<Rightarrow> steps) vach ofBegin ofEnd) (\<lambda>ofBegin.
     case ofBegin of None \<Rightarrow> Inr False | Some ofBegin \<Rightarrow>
       Inr (\<not> (back = None \<and> \<not> fTrailingTextAllowed \<and> ofBegin \<noteq> length vach)))))"

definition is_match :: "like_filter \<Rightarrow> cstring option \<Rightarrow> exn + bool" where
  "is_match f vsValue =
     (case vsValue of
        None \<Rightarrow> Inr False
      | Some v \<Rightarrow>
          if \<not> lf_ascii f then Inl UnsupportedOperationException
          else if \<not> string_is_ascii v then Inl UnsupportedOperationException
          else let cchValue = string_length v in
            case lf_plan f of
              STARTS_WITH_CHAR ch \<Rightarrow> Inr (1 \<le> cchValue \<and> v ! 0 = ch)
            | STARTS_WITH_STRING vs \<Rightarrow> string_starts_with v vs
            | STARTS_WITH_INSENS vs \<Rightarrow>
                if cchValue < string_length vs then Inr False
                else helper_region_matches v 0 vs 0 (string_length vs) True
            | ENDS_WITH_CHAR ch \<Rightarrow> Inr (1 \<le> cchValue \<and> v ! (cchValue - 1) = ch)
            | ENDS_WITH_STRING vs \<Rightarrow> string_ends_with v vs
            | ENDS_WITH_INSENS vs \<Rightarrow>
                if cchValue < string_length vs then Inr False
                else helper_region_matches v (cchValue - string_length vs) vs 0 (string_length vs) True
            | CONTAINS_CHAR ch \<Rightarrow> case_exn (string_index_of_char v (ucast ch) 0) (\<lambda>n. Inr (n \<noteq> npos))
            | CONTAINS_STRING vs \<Rightarrow> case_exn (string_index_of v vs 0) (\<lambda>n. Inr (n \<noteq> npos))
            | ALWAYS_TRUE \<Rightarrow> Inr True
            | ALWAYS_FALSE \<Rightarrow> Inr False
            | EXACT_MATCH vs \<Rightarrow> Inr (vs = v)
            | INSENS_MATCH vs \<Rightarrow> case_exn (helper_compare vs v False) (\<lambda>n. Inr (n = 0))
            | ITERATIVE_EVAL front back middle fTrailing \<Rightarrow> match_iterative front back middle fTrailing v
            | NO_PLAN \<Rightarrow> Inl UndefinedBehaviour)"

end
