(* ===== verification/Like_Match.thy ===== *)
theory Like_Match
  imports Like_Filter
begin

text \<open>
  The reference semantics of patterns, and the lemmas that the steps of a \<^verbatim>\<open>LikeFilter\<close> and
  the plans built from them decide it.
\<close>

section \<open>Patterns and what they match\<close>

datatype like_token = TLit octet_t | TOne | TMany

fun like_tokens :: "octet_t \<Rightarrow> octet_t list \<Rightarrow> like_token list option" where
  "like_tokens chEscape [] = Some []"
| "like_tokens chEscape [c] =
     (if c = chEscape then None else Some [if c = 0x25 then TMany else if c = 0x5F then TOne else TLit c])"
| "like_tokens chEscape (c # d # p) =
     (if c = chEscape then map_option (Cons (TLit d)) (like_tokens chEscape p)
      else map_option (Cons (if c = 0x25 then TMany else if c = 0x5F then TOne else TLit c)) (like_tokens chEscape (d # p)))"

fun like :: "(octet_t \<Rightarrow> octet_t \<Rightarrow> bool) \<Rightarrow> like_token list \<Rightarrow> octet_t list \<Rightarrow> bool" where
  "like eq [] v \<longleftrightarrow> v = []"
| "like eq (TLit c # ts) v \<longleftrightarrow> (case v of [] \<Rightarrow> False | x # v \<Rightarrow> eq x c \<and> like eq ts v)"
| "like eq (TOne # ts) v \<longleftrightarrow> (case v of [] \<Rightarrow> False | x # v \<Rightarrow> like eq ts v)"
| "like eq (TMany # ts) v \<longleftrightarrow> (\<exists>i\<in>{0..length v}. like eq ts (drop i v))"

definition same_char :: "bool \<Rightarrow> octet_t \<Rightarrow> octet_t \<Rightarrow> bool" where
  "same_char fIgnoreCase x c \<longleftrightarrow> (if fIgnoreCase then to_upper x = to_upper c else x = c)"

lemma like_Many: "like eq (TMany # ts) v \<longleftrightarrow> (\<exists>w x. v = w @ x \<and> like eq ts x)"
proof
  assume "like eq (TMany # ts) v"
  then obtain i where "like eq ts (drop i v)" by auto
  then show "\<exists>w x. v = w @ x \<and> like eq ts x" by (intro exI [of _ "take i v"] exI [of _ "drop i v"]) simp
next
  assume "\<exists>w x. v = w @ x \<and> like eq ts x"
  then obtain w x where "v = w @ x" "like eq ts x" by blast
  then show "like eq (TMany # ts) v" by (auto intro!: bexI [of _ "length w"])
qed

lemma split_first:
  "(\<exists>w x. v = w @ x \<and> (case w of [] \<Rightarrow> False | y # w \<Rightarrow> P y \<and> Q w) \<and> R x) \<longleftrightarrow>
   (case v of [] \<Rightarrow> False | y # v \<Rightarrow> P y \<and> (\<exists>w x. v = w @ x \<and> Q w \<and> R x))"
  (is "?l \<longleftrightarrow> ?r")
proof
  assume ?l
  then obtain w x where "v = w @ x" "case w of [] \<Rightarrow> False | y # w \<Rightarrow> P y \<and> Q w" "R x" by blast
  then show ?r by (cases w) auto
next
  assume ?r
  then obtain y v' w x where "v = y # v'" "P y" "v' = w @ x" "Q w" "R x" by (auto split: list.splits)
  then show ?l by (intro exI [of _ "y # w"] exI [of _ x]) simp
qed

lemma like_append: "like eq (xs @ ys) v \<longleftrightarrow> (\<exists>w x. v = w @ x \<and> like eq xs w \<and> like eq ys x)"
proof (induction xs arbitrary: v)
  case (Cons t xs)
  show ?case
  proof (cases t)
    case (TLit c)
    show ?thesis unfolding TLit append_Cons like.simps Cons.IH by (rule split_first [symmetric])
  next
    case TOne
    show ?thesis unfolding TOne append_Cons like.simps Cons.IH
      using split_first [of v "\<lambda>_. True" "like eq xs" "like eq ys"] unfolding simp_thms by (rule sym)
  next
    case TMany
    have "like eq (TMany # (xs @ ys)) v \<longleftrightarrow> (\<exists>u w x. v = u @ w @ x \<and> like eq xs w \<and> like eq ys x)"
      unfolding like_Many Cons.IH by blast
    also have "\<dots> \<longleftrightarrow> (\<exists>w x. v = w @ x \<and> like eq (TMany # xs) w \<and> like eq ys x)"
      unfolding like_Many by (metis append.assoc)
    finally show ?thesis using TMany by simp
  qed
qed simp

lemma like_cong:
  assumes "\<And>v. like eq ys v \<longleftrightarrow> like eq ys' v"
  shows "like eq (xs @ ys @ zs) v \<longleftrightarrow> like eq (xs @ ys' @ zs) v"
  using assms by (simp add: like_append)

lemma like_Many_Many: "like eq [TMany, TMany] v \<longleftrightarrow> like eq [TMany] v"
  by (auto simp: like_Many simp del: like.simps(4))

section \<open>Where a step matches\<close>

definition step_tokens :: "match_step \<Rightarrow> like_token list" where
  "step_tokens step =
     map (\<lambda>i. if is_any (ms_any step) i then TOne else TLit (ms_string step ! i)) [0..<length (ms_string step)]"

definition matches_at :: "match_step \<Rightarrow> octet_t list \<Rightarrow> nat \<Rightarrow> bool" where
  "matches_at step v p \<longleftrightarrow>
     (\<forall>i<length (ms_string step). is_any (ms_any step) i \<or>
        same_char (ms_ignore_case step) (v ! (p + i)) (ms_string step ! i))"

lemma like_tokens_map:
  "like eq (map (\<lambda>i. if w i then TOne else TLit (f i)) [a..<a + n] @ ts) v \<longleftrightarrow>
     n \<le> length v \<and> (\<forall>i<n. w (a + i) \<or> eq (v ! i) (f (a + i))) \<and> like eq ts (drop n v)"
proof (induction n arbitrary: a v)
  case (Suc n)
  have upt: "[a..<a + Suc n] = a # [Suc a..<Suc a + n]" by (simp add: upt_conv_Cons)
  show ?case
  proof (cases v)
    case Nil
    then show ?thesis unfolding upt by simp
  next
    case (Cons x v')
    have "(\<forall>i<Suc n. w (a + i) \<or> eq ((x # v') ! i) (f (a + i))) \<longleftrightarrow>
      (w a \<or> eq x (f a)) \<and> (\<forall>i<n. w (Suc a + i) \<or> eq (v' ! i) (f (Suc a + i)))"
      by (auto simp: less_Suc_eq_0_disj)
    with Cons show ?thesis unfolding upt using Suc.IH [of "Suc a" v'] by auto
  qed
qed simp

lemma like_step:
  "like (same_char (ms_ignore_case step)) (step_tokens step @ ts) v \<longleftrightarrow>
     length (ms_string step) \<le> length v \<and> matches_at step v 0 \<and>
     like (same_char (ms_ignore_case step)) ts (drop (length (ms_string step)) v)"
  using like_tokens_map [of _ "is_any (ms_any step)" "\<lambda>i. ms_string step ! i" 0 "length (ms_string step)"]
  by (simp add: step_tokens_def matches_at_def)

lemma matches_at_drop: "p + length (ms_string step) \<le> length v \<Longrightarrow> matches_at step (drop p v) 0 \<longleftrightarrow> matches_at step v p"
  by (simp add: matches_at_def)

section \<open>The fields of a step\<close>

lemma count_wilds_spec:
  "count_wilds b n i fFront f w c =
     (map b [i..<i + n], (if fFront then f + length (takeWhile b [i..<i + n]) else f),
      w + length (filter b [i..<i + n]),
      (if list_all b [i..<i + n] then c + n else length (takeWhile b (rev [i..<i + n]))))"
proof (induction n arbitrary: i fFront f w c)
  case (Suc n)
  have upt: "[i..<i + Suc n] = i # [Suc i..<Suc i + n]" by (simp add: upt_conv_Cons)
  have rev: "takeWhile b (rev (i # xs)) = (if list_all b xs then rev xs @ (if b i then [i] else []) else takeWhile b (rev xs))" for xs
    by (auto simp: takeWhile_append list_all_iff takeWhile_eq_all_conv)
  have len: "length [Suc i..<Suc i + n] = n" by simp
  show ?case unfolding upt count_wilds.simps Suc.IH rev
    using len by (cases "b i") (auto simp del: upt_Suc length_upt)
qed simp

text \<open>Steps as the parser creates them.\<close>

definition step_ok :: "bool \<Rightarrow> match_step \<Rightarrow> bool" where
  "step_ok fIgnoreCase step \<longleftrightarrow>
     (\<exists>vs b. step = match_step_create vs b fIgnoreCase \<and> vs \<noteq> [] \<and> ascii vs \<and> length vs < npos)"

lemma filter_runs:
  assumes "\<not> list_all b xs"
  shows "length (takeWhile b xs) + length (takeWhile b (rev xs)) \<le> length (filter b xs) \<and>
    length (takeWhile b xs) + length (takeWhile b (rev xs)) < length xs \<and>
    (length (filter b xs) = length (takeWhile b xs) + length (takeWhile b (rev xs)) \<longrightarrow>
      (\<forall>i. length (takeWhile b xs) \<le> i \<and> i < length xs - length (takeWhile b (rev xs)) \<longrightarrow> \<not> b (xs ! i)))"
proof -
  have "\<exists>x\<in>set xs. \<not> b x" using assms by (auto simp: list_all_iff)
  from split_list_first_prop [OF this] obtain us x vs where xs: "xs = us @ x # vs" "\<not> b x" "list_all b us"
    by (auto simp: list_all_iff)
  then obtain m where m: "us = takeWhile b xs" by (simp add: list_all_iff takeWhile_append)
  have "\<exists>ms y zs. x # vs = ms @ y # zs \<and> \<not> b y \<and> list_all b zs"
    using xs(2) split_list_last_prop [of "x # vs" "\<lambda>y. \<not> b y"] by (auto simp: list_all_iff)
  then obtain ms y zs where z: "x # vs = ms @ y # zs" "\<not> b y" "list_all b zs" by blast
  have tail: "takeWhile b (rev xs) = rev zs"
    using z xs(1) by (simp add: list_all_iff takeWhile_append)
  have eq: "xs = us @ ms @ y # zs" using xs(1) z(1) by simp
  have count: "length (filter b xs) = length us + length (filter b ms) + length zs"
    using xs(3) z(2,3) by (simp add: eq list_all_iff filter_id_conv [THEN iffD2])
  have mid: "\<not> b (xs ! i)" if "filter b ms = []" "length us \<le> i" "i < length us + Suc (length ms)" for i
  proof -
    have "xs ! i = (ms @ [y]) ! (i - length us)" using that(2,3) by (simp add: eq nth_append)
    moreover have "(ms @ [y]) ! (i - length us) \<in> set (ms @ [y])" using that(2,3) by (intro nth_mem) auto
    ultimately show ?thesis using that(1) z(2) by (auto simp: filter_empty_conv)
  qed
  have len: "length xs = length us + Suc (length ms) + length zs" by (simp add: eq)
  show ?thesis using count mid len unfolding m [symmetric] tail by auto
qed

lemma step_fields:
  assumes "step_ok ign step"
  shows "ms_ignore_case step = ign" "length (ms_match step) = length (ms_string step)" "0 < length (ms_string step)"
    "length (ms_string step) < npos" "ascii (ms_string step)"
    "\<And>i. i < ms_skip_front step \<Longrightarrow> is_any (ms_any step) i" "ms_skip_front step \<le> length (ms_string step)"
    "ms_skip_front step < length (ms_string step) \<Longrightarrow> \<not> is_any (ms_any step) (ms_skip_front step)"
    "\<And>i. length (ms_string step) - ms_skip_back step \<le> i \<Longrightarrow> i < length (ms_string step) \<Longrightarrow> is_any (ms_any step) i"
    "ms_skip_front step < length (ms_string step) \<Longrightarrow> ms_skip_front step < length (ms_string step) - ms_skip_back step"
    "\<And>i. \<not> ms_middle_wilds step \<Longrightarrow> ms_skip_front step \<le> i \<Longrightarrow> i < length (ms_string step) - ms_skip_back step \<Longrightarrow>
       \<not> is_any (ms_any step) i"
proof -
  from assms obtain vs b where c: "step = match_step_create vs b ign" "vs \<noteq> []" "ascii vs" "length vs < npos"
    by (auto simp: step_ok_def)
  have str: "ms_string step = vs" "ms_ignore_case step = ign"
    by (simp_all add: c(1) match_step_create_def Let_def split: option.split prod.split)
  show "ms_ignore_case step = ign" "0 < length (ms_string step)" "length (ms_string step) < npos" "ascii (ms_string step)"
    using str c by simp_all
  show "length (ms_match step) = length (ms_string step)"
    by (auto simp: c(1) match_step_create_def Let_def split: option.split prod.split)
  let ?n = "length vs"
  consider (literal) "b = None" | (all) w where "b = Some w" "list_all w [0..<?n]" | (some) w where "b = Some w" "\<not> list_all w [0..<?n]"
    by (cases b) auto
  then have "(\<forall>i < ms_skip_front step. is_any (ms_any step) i) \<and> ms_skip_front step \<le> ?n \<and>
    (ms_skip_front step < ?n \<longrightarrow> \<not> is_any (ms_any step) (ms_skip_front step)) \<and>
    (\<forall>i. ?n - ms_skip_back step \<le> i \<and> i < ?n \<longrightarrow> is_any (ms_any step) i) \<and>
    (ms_skip_front step < ?n \<longrightarrow> ms_skip_front step < ?n - ms_skip_back step) \<and>
    (\<not> ms_middle_wilds step \<longrightarrow> (\<forall>i. ms_skip_front step \<le> i \<and> i < ?n - ms_skip_back step \<longrightarrow> \<not> is_any (ms_any step) i))"
  proof cases
    case literal
    then have "ms_any step = None" "ms_skip_front step = 0" "ms_skip_back step = 0"
      by (simp_all add: c(1) match_step_create_def)
    then show ?thesis by (simp add: is_any_def)
  next
    case all
    then have tw: "takeWhile w [0..<?n] = [0..<?n]" and fw: "filter w [0..<?n] = [0..<?n]"
      by (auto simp: list_all_iff takeWhile_eq_all_conv filter_id_conv)
    from all have f: "ms_any step = Some (map w [0..<?n])" "ms_skip_front step = ?n" "ms_skip_back step = 0"
      by (simp_all add: c(1) match_step_create_def count_wilds_spec [of _ _ 0, simplified] Let_def tw fw)
    with all show ?thesis by (auto simp: is_any_def list_all_iff)
  next
    case some
    let ?xs = "[0..<?n]" and ?T = "length (takeWhile w (rev [0..<?n]))"
    from some have f: "ms_any step = Some (map w ?xs)" "ms_skip_front step = length (takeWhile w ?xs)"
      "ms_skip_back step = (if 0 < ?T \<and> ?T < length (filter w ?xs) then ?T else 0)"
      "ms_middle_wilds step \<longleftrightarrow> ms_skip_front step + ms_skip_back step < length (filter w ?xs)"
      by (simp_all add: c(1) match_step_create_def count_wilds_spec [of _ _ 0, simplified] Let_def)
    note runs = filter_runs [OF some(2)]
    have lead: "w i" if "i < length (takeWhile w ?xs)" for i
      using that nth_mem [OF that] takeWhile_nth [OF that] length_takeWhile_le [of w ?xs] set_takeWhileD [of _ w ?xs] by fastforce
    have trail: "w i" if "?n - ?T \<le> i" "i < ?n" for i
    proof -
      have j: "?n - 1 - i < ?T" using that by linarith
      have "takeWhile w (rev ?xs) ! (?n - 1 - i) = rev ?xs ! (?n - 1 - i)" by (rule takeWhile_nth [OF j])
      also have "\<dots> = i" using that by (simp add: rev_nth)
      finally show ?thesis using nth_mem [OF j] set_takeWhileD [of _ w "rev ?xs"] by metis
    qed
    have front: "\<not> w (length (takeWhile w ?xs))" if "length (takeWhile w ?xs) < ?n"
      using that nth_length_takeWhile [of w ?xs] by simp
    have any: "is_any (ms_any step) i \<longleftrightarrow> w i" if "i < ?n" for i
      using that f(1) by (simp add: is_any_def)
    show ?thesis
    proof (intro conjI impI allI)
      fix i assume "i < ms_skip_front step"
      with lead runs f(2) any show "is_any (ms_any step) i" by simp
    next
      show "ms_skip_front step \<le> ?n" using runs f(2) by simp
    next
      assume "ms_skip_front step < ?n"
      with front f(2) any show "\<not> is_any (ms_any step) (ms_skip_front step)" by simp
    next
      fix i assume "?n - ms_skip_back step \<le> i \<and> i < ?n"
      with trail f(3) any show "is_any (ms_any step) i" by (auto split: if_splits)
    next
      assume "ms_skip_front step < ?n"
      with runs f(2,3) show "ms_skip_front step < ?n - ms_skip_back step" by auto
    next
      fix i assume m: "\<not> ms_middle_wilds step" and i: "ms_skip_front step \<le> i \<and> i < ?n - ms_skip_back step"
      have "length (filter w ?xs) = length (takeWhile w ?xs) + ?T \<and> ms_skip_back step = ?T"
      proof -
        have "length (filter w ?xs) \<le> length (takeWhile w ?xs) + ms_skip_back step" using m f(2,4) by linarith
        moreover have "length (takeWhile w ?xs) + ?T \<le> length (filter w ?xs)" using runs by blast
        moreover have "ms_skip_back step = ?T \<or> ms_skip_back step = 0" using f(3) by presburger
        moreover have "ms_skip_back step \<le> ?T" using f(3) by simp
        ultimately show ?thesis by linarith
      qed
      with runs i f(2) any show "\<not> is_any (ms_any step) i" by auto
    qed
  qed
  then show "\<And>i. i < ms_skip_front step \<Longrightarrow> is_any (ms_any step) i" "ms_skip_front step \<le> length (ms_string step)"
    "ms_skip_front step < length (ms_string step) \<Longrightarrow> \<not> is_any (ms_any step) (ms_skip_front step)"
    "\<And>i. length (ms_string step) - ms_skip_back step \<le> i \<Longrightarrow> i < length (ms_string step) \<Longrightarrow> is_any (ms_any step) i"
    "ms_skip_front step < length (ms_string step) \<Longrightarrow> ms_skip_front step < length (ms_string step) - ms_skip_back step"
    "\<And>i. \<not> ms_middle_wilds step \<Longrightarrow> ms_skip_front step \<le> i \<Longrightarrow> i < length (ms_string step) - ms_skip_back step \<Longrightarrow>
       \<not> is_any (ms_any step) i"
    using str by auto
qed

section \<open>Scanning\<close>

lemma case_ranges:
  fixes y :: octet_t
  shows "0x61 \<le> y \<Longrightarrow> y \<le> 0x7A \<Longrightarrow> 0x41 \<le> y - 0x20 \<and> y - 0x20 \<le> 0x5A"
    and "0x41 \<le> y \<Longrightarrow> y \<le> 0x5A \<Longrightarrow> 0x61 \<le> y + 0x20 \<and> y + 0x20 \<le> 0x7A"
    and "y \<le> 0x5A \<Longrightarrow> \<not> 0x61 \<le> y"
proof -
  assume "0x61 \<le> y" "y \<le> 0x7A"
  then have n: "0x61 \<le> unat y" "unat y \<le> 0x7A" by (simp_all add: word_le_nat_alt)
  then have "unat (y - 0x20) = unat y - 0x20" by (simp add: unat_sub word_le_nat_alt)
  with n show "0x41 \<le> y - 0x20 \<and> y - 0x20 \<le> 0x5A" by (simp add: word_le_nat_alt) linarith
next
  assume "0x41 \<le> y" "y \<le> 0x5A"
  then have n: "0x41 \<le> unat y" "unat y \<le> 0x5A" by (simp_all add: word_le_nat_alt)
  then have "unat (y + 0x20) = unat y + 0x20" using unat_add_lem [of y "0x20"] by simp
  with n show "0x61 \<le> y + 0x20 \<and> y + 0x20 \<le> 0x7A" by (simp add: word_le_nat_alt)
next
  assume "y \<le> 0x5A"
  then show "\<not> 0x61 \<le> y" by (simp add: word_le_nat_alt)
qed

lemma upper_lower: "x = to_upper c \<or> x = to_lower (to_upper c) \<longleftrightarrow> to_upper x = to_upper c"
proof (cases "0x61 \<le> c \<and> c \<le> 0x7A")
  case True
  with case_ranges(1) [of c] case_ranges(3) [of "c - 0x20"] show ?thesis
    unfolding to_upper_def to_lower_def by auto
next
  case False
  then have u: "to_upper c = c" by (auto simp: to_upper_def)
  show ?thesis
  proof (cases "0x41 \<le> c \<and> c \<le> 0x5A")
    case True
    with case_ranges(2) [of c] False show ?thesis unfolding u unfolding to_upper_def to_lower_def
      by (auto simp: algebra_simps)
  next
    case up: False
    with case_ranges(1) [of x] False show ?thesis unfolding u unfolding to_upper_def to_lower_def
      by (auto simp: algebra_simps)
  qed
qed
end
