(* ===== verification/Like_Scan.thy ===== *)
theory Like_Scan imports Like_Match begin

text \<open>
  The search of a step in a value finds the least place where the step matches, and the plans
  without one are the searches and comparisons of strings.
\<close>

section \<open>Scanning\<close>

lemma step_chars:
  assumes "step_ok ign step" and "i < length (ms_string step)" and "\<not> is_any (ms_any step) i"
  shows "ms_match step ! i = (if ign then to_upper (ms_string step ! i) else ms_string step ! i)"
    and "ign \<Longrightarrow> length (the (ms_lower step)) = length (ms_string step)"
    and "ign \<Longrightarrow> the (ms_lower step) ! i = to_lower (to_upper (ms_string step ! i))"
proof -
  from assms obtain vs b where c: "step = match_step_create vs b ign" by (auto simp: step_ok_def)
  have str: "ms_string step = vs"
    by (simp add: c match_step_create_def Let_def split: option.split prod.split)
  show "ms_match step ! i = (if ign then to_upper (ms_string step ! i) else ms_string step ! i)"
    "ign \<Longrightarrow> length (the (ms_lower step)) = length (ms_string step)"
    "ign \<Longrightarrow> the (ms_lower step) ! i = to_lower (to_upper (ms_string step ! i))"
    using assms(2,3) unfolding str
    by (auto simp: c match_step_create_def Let_def nth_enumerate_eq split: option.splits prod.splits)
qed

lemma ms_agrees_spec:
  assumes "step_ok ign step" and "i < length (ms_string step)" and "\<not> is_any (ms_any step) i"
  shows "ms_agrees step i ch = Inr (same_char ign ch (ms_string step ! i))"
  using step_chars [OF assms] step_fields(1,2) [OF assms(1)] assms(2) upper_lower [of ch "ms_string step ! i"]
  by (auto simp: ms_agrees_def array_at_def case_exn_def same_char_def)

definition agrees_on :: "match_step \<Rightarrow> octet_t list \<Rightarrow> nat \<Rightarrow> nat \<Rightarrow> nat \<Rightarrow> bool" where
  "agrees_on step v p a z \<longleftrightarrow> (\<forall>i. a \<le> i \<and> i < z \<longrightarrow> is_any (ms_any step) i \<or>
     same_char (ms_ignore_case step) (v ! (p + i)) (ms_string step ! i))"

lemma agrees_on_first:
  "a < z \<Longrightarrow> agrees_on step v p a z \<longleftrightarrow> (is_any (ms_any step) a \<or>
     same_char (ms_ignore_case step) (v ! (p + a)) (ms_string step ! a)) \<and> agrees_on step v p (Suc a) z"
  unfolding agrees_on_def by (metis Suc_leD Suc_leI le_neq_implies_less order_refl)

lemma matches_at_agrees:
  assumes "step_ok ign step"
  shows "matches_at step v p \<longleftrightarrow> agrees_on step v p (ms_skip_front step) (length (ms_string step) - ms_skip_back step)"
proof
  assume "matches_at step v p"
  moreover have "i < length (ms_string step)" if "i < length (ms_string step) - ms_skip_back step" for i
    using that by linarith
  ultimately show "agrees_on step v p (ms_skip_front step) (length (ms_string step) - ms_skip_back step)"
    unfolding matches_at_def agrees_on_def by blast
next
  assume a: "agrees_on step v p (ms_skip_front step) (length (ms_string step) - ms_skip_back step)"
  have "is_any (ms_any step) i \<or> same_char (ms_ignore_case step) (v ! (p + i)) (ms_string step ! i)"
    if "i < length (ms_string step)" for i
  proof (cases "i < ms_skip_front step \<or> length (ms_string step) - ms_skip_back step \<le> i")
    case True
    with step_fields(6,9) [OF assms] that show ?thesis by blast
  next
    case False
    with a show ?thesis by (simp add: agrees_on_def)
  qed
  then show "matches_at step v p" by (simp add: matches_at_def)
qed

lemma ms_rest_spec:
  assumes ok: "step_ok ign step" and z: "z = length (ms_string step) - ms_skip_back step"
    and v: "p + length (ms_string step) \<le> length v" "length v < npos" and a: "ms_skip_front step \<le> a"
  shows "ms_rest step v z a (p + a) = Inr (agrees_on step v p a z)"
  using a
proof (induction "z - a" arbitrary: a)
  case 0
  then have "z \<le> a" by simp
  then have "agrees_on step v p a z" unfolding agrees_on_def by linarith
  with \<open>z \<le> a\<close> show ?case by (simp add: ms_rest.simps)
next
  case (Suc n)
  then have a: "a < z" by simp
  then have L: "a < length (ms_string step)" "p + a < length v" using z v by auto
  have add: "size_add (p + a) 1 = p + Suc a" using L v(2) by (simp add: npos_def)
  have IH: "ms_rest step v z (Suc a) (p + Suc a) = Inr (agrees_on step v p (Suc a) z)"
    by (rule Suc.hyps(1)) (use Suc.hyps(2) Suc.prems in auto)
  show ?case
  proof (cases "is_any (ms_any step) a")
    case True
    then have "ms_middle_wilds step" using step_fields(11) [OF ok _ Suc.prems] a z by blast
    with True a IH add show ?thesis
      by (subst ms_rest.simps) (simp add: agrees_on_first)
  next
    case False
    from a False ms_agrees_spec [OF ok L(1) False] step_fields(1) [OF ok] IH add L show ?thesis
      by (subst ms_rest.simps) (simp add: agrees_on_first array_at_def case_exn_def)
  qed
qed

definition found :: "match_step \<Rightarrow> octet_t list \<Rightarrow> nat \<Rightarrow> nat \<Rightarrow> nat \<Rightarrow> bool" where
  "found step v b e r \<longleftrightarrow>
     (if r = npos then \<forall>p. b \<le> p \<and> p + length (ms_string step) \<le> e \<longrightarrow> \<not> matches_at step v p
      else b \<le> r \<and> r + length (ms_string step) \<le> e \<and> matches_at step v r \<and>
        (\<forall>p. b \<le> p \<and> p < r \<longrightarrow> \<not> matches_at step v p))"

lemma ms_scan_spec:
  assumes ok: "step_ok ign step" and f: "ms_skip_front step < length (ms_string step)"
    and e: "length (ms_string step) \<le> e" "e \<le> length v" "length v < npos"
    and n: "0 < n" "e + 2 \<le> n + q + length (ms_string step)"
  shows "\<exists>r. ms_scan n step v (length (ms_string step) - ms_skip_back step) (q + ms_skip_front step)
    (e + ms_skip_front step - length (ms_string step)) = Inr r \<and> found step v q e r"
  using n
proof (induction n arbitrary: q)
  case 0
  then show ?case by simp
next
  case (Suc n)
  let ?L = "length (ms_string step)" and ?f = "ms_skip_front step"
  show ?case
  proof (cases "q + ?L \<le> e")
    case False
    then have "e + ?f - ?L < q + ?f" using e(1) f by linarith
    moreover have "found step v q e npos" using False by (auto simp: found_def)
    ultimately show ?thesis by simp
  next
    case True
    have go: "\<not> e + ?f - ?L < q + ?f" using True by linarith
    have at: "q + ?f < length v" "q + ?L \<le> length v" using True f e(2) by simp_all
    have add: "size_add (q + ?f) 1 = q + (?f + 1)" "size_add (q + ?f) 1 = q + 1 + ?f"
      "size_sub (q + ?f) ?f = q" using at e(3) by (simp_all add: npos_def)
    have wild: "\<not> is_any (ms_any step) ?f" using step_fields(8) [OF ok f] .
    have first: "ms_agrees step ?f (v ! (q + ?f)) = Inr (same_char ign (v ! (q + ?f)) (ms_string step ! ?f))"
      by (rule ms_agrees_spec [OF ok f wild])
    have rest: "ms_rest step v (?L - ms_skip_back step) (?f + 1) (q + (?f + 1)) =
      Inr (agrees_on step v q (?f + 1) (?L - ms_skip_back step))"
      by (rule ms_rest_spec [OF ok refl at(2) e(3)]) simp
    have split: "matches_at step v q \<longleftrightarrow> same_char ign (v ! (q + ?f)) (ms_string step ! ?f) \<and>
      agrees_on step v q (?f + 1) (?L - ms_skip_back step)"
      unfolding matches_at_agrees [OF ok] using agrees_on_first [OF step_fields(10) [OF ok f]] wild step_fields(1) [OF ok]
      by simp
    show ?thesis
    proof (cases "matches_at step v q")
      case m: True
      then have "found step v q e q" using True e(3,2) f by (auto simp: found_def)
      moreover have "ms_scan (Suc n) step v (?L - ms_skip_back step) (q + ?f) (e + ?f - ?L) = Inr q"
        using m go at add first rest unfolding split by (simp add: array_at_def case_exn_def)
      ultimately show ?thesis by blast
    next
      case m: False
      have "0 < n" "e + 2 \<le> n + (q + 1) + ?L" using Suc.prems True by simp_all
      from Suc.IH [OF this] obtain r where r: "found step v (q + 1) e r"
        "ms_scan n step v (?L - ms_skip_back step) (q + 1 + ?f) (e + ?f - ?L) = Inr r" by blast
      have "found step v q e r" using r(1) m unfolding found_def by (metis Suc_eq_plus1 Suc_leI Suc_leD le_neq_implies_less)
      moreover have "ms_scan (Suc n) step v (?L - ms_skip_back step) (q + ?f) (e + ?f - ?L) = Inr r"
        using m go at add first rest r(2) unfolding split by (auto simp: array_at_def case_exn_def)
      ultimately show ?thesis by blast
    qed
  qed
qed

lemma ms_index_of_spec:
  assumes ok: "step_ok ign step" and e: "b \<le> e" "e \<le> length v" "length v < npos"
  shows "\<exists>r. ms_index_of step v b e = Inr r \<and> found step v b e r"
proof -
  let ?L = "length (ms_string step)" and ?f = "ms_skip_front step"
  have len: "ms_length step = ?L" using step_fields(2) [OF ok] by (simp add: ms_length_def)
  have sub: "size_sub e b = e - b" using e by (simp add: npos_def)
  consider "e - b < ?L" | "?L \<le> e - b" "?f = ?L" | "?L \<le> e - b" "?f < ?L"
    using step_fields(7) [OF ok] by linarith
  then show ?thesis
  proof cases
    case 1
    then have "found step v b e npos" by (auto simp: found_def)
    with 1 show ?thesis by (simp add: ms_index_of_def len sub)
  next
    case 2
    have "matches_at step v b" using step_fields(6) [OF ok] 2(2) by (simp add: matches_at_def)
    moreover have "b + ?L \<le> e" "b \<noteq> npos" using 2 e by linarith+
    ultimately have "found step v b e b" by (auto simp: found_def)
    with 2 step_fields(3) [OF ok] show ?thesis by (simp add: ms_index_of_def len sub)
  next
    case 3
    have le: "?L \<le> e" using 3 by linarith
    have ar: "size_add b ?f = b + ?f" "size_sub (size_add e ?f) ?L = e + ?f - ?L"
    proof -
      have "b + ?f < size_max" using 3 e by (simp add: npos_def) 
      then show "size_add b ?f = b + ?f" by simp
      show "size_sub (size_add e ?f) ?L = e + ?f - ?L"
      proof (cases "e + ?f < size_max")
        case True
        then show ?thesis using le by simp
      next
        case False
        moreover have lt: "e < size_max" using e by (simp add: npos_def)
        ultimately have "size_add e ?f = e + ?f - size_max"
          using 3 le by (simp add: size_add_def le_mod_geq)
        moreover have "e + ?f - size_max + size_max - ?L = e + ?f - ?L" "e + ?f - ?L < size_max" using False lt 3 by linarith+
        ultimately show ?thesis by (simp add: size_sub_def)
      qed
    qed
    have "e + 2 \<le> Suc (length v) + b + ?L" using e step_fields(3) [OF ok] by linarith
    from ms_scan_spec [OF ok 3(2) le e(2,3) _ this] show ?thesis using 3 ar by (simp add: ms_index_of_def len sub Let_def)
  qed
qed

section \<open>The middle steps\<close>

text \<open>The steps match one after the other in the characters from \<open>b\<close> to \<open>e\<close>.\<close>

fun fits :: "match_step list \<Rightarrow> octet_t list \<Rightarrow> nat \<Rightarrow> nat \<Rightarrow> bool" where
  "fits [] v b e \<longleftrightarrow> b \<le> e"
| "fits (s # ms) v b e \<longleftrightarrow>
     (\<exists>p. b \<le> p \<and> p + length (ms_string s) \<le> e \<and> matches_at s v p \<and> fits ms v (p + length (ms_string s)) e)"

lemma fits_earlier: "fits ms v b e \<Longrightarrow> b' \<le> b \<Longrightarrow> fits ms v b' e"
  by (cases ms) (auto intro: order_trans)

lemma match_middle_spec:
  assumes "\<And>s. s \<in> set ms \<Longrightarrow> step_ok ign s" and "b \<le> e" "e \<le> length v" "length v < npos"
  shows "\<exists>r. match_middle ms v b e = Inr r \<and> (r \<noteq> None \<longleftrightarrow> fits ms v b e)"
  using assms(1,2)
proof (induction ms arbitrary: b)
  case (Cons s ms)
  let ?L = "length (ms_string s)"
  have ok: "step_ok ign s" using Cons.prems by simp
  have len: "ms_length s = ?L" using step_fields(2) [OF ok] by (simp add: ms_length_def)
  from ms_index_of_spec [OF ok Cons.prems(2) assms(3,4)] obtain p where
    p: "ms_index_of s v b e = Inr p" "found s v b e p" by blast
  show ?case
  proof (cases "p = npos")
    case True
    with p show ?thesis by (auto simp: found_def case_exn_def)
  next
    case False
    with p(2) have f: "b \<le> p" "p + ?L \<le> e" "matches_at s v p" "\<And>q. b \<le> q \<Longrightarrow> q < p \<Longrightarrow> \<not> matches_at s v q"
      by (simp_all add: found_def)
    then have add: "size_add p ?L = p + ?L" using assms(3,4) by (simp add: npos_def)
    from Cons.IH [OF Cons.prems(1) f(2)] obtain r where
      r: "match_middle ms v (p + ?L) e = Inr r" "r \<noteq> None \<longleftrightarrow> fits ms v (p + ?L) e" by auto
    have "fits (s # ms) v b e \<longleftrightarrow> fits ms v (p + ?L) e"
    proof
      assume "fits (s # ms) v b e"
      then obtain q where q: "b \<le> q" "matches_at s v q" "fits ms v (q + ?L) e" by auto
      then have "p \<le> q" using f(4) by (meson linorder_not_less)
      then show "fits ms v (p + ?L) e" using q(3) fits_earlier by simp
    qed (use f in auto)
    then show ?thesis using p False r add len by (simp add: case_exn_def)
  qed
qed simp

text \<open>The steps with a \<^verbatim>\<open>%\<close> before each.\<close>

definition middle_tokens :: "match_step list \<Rightarrow> like_token list" where
  "middle_tokens ms = concat (map (\<lambda>s. TMany # step_tokens s) ms)"

lemma matches_at_part:
  "p + length (ms_string s) \<le> e - b \<Longrightarrow> b \<le> e \<Longrightarrow> e \<le> length v \<Longrightarrow>
   matches_at s (take (e - b) (drop b v)) p \<longleftrightarrow> matches_at s v (b + p)"
  by (auto simp: matches_at_def add.assoc)

lemma like_middle:
  assumes "\<And>s. s \<in> set ms \<Longrightarrow> ms_ignore_case s = ign" and "b \<le> e" "e \<le> length v"
  shows "like (same_char ign) (middle_tokens ms @ [TMany]) (take (e - b) (drop b v)) \<longleftrightarrow> fits ms v b e"
  using assms(1,2)
proof (induction ms arbitrary: b)
  case Nil
  with assms(3) have "e - b \<le> length v - b" by linarith
  with Nil show ?case by (auto simp: middle_tokens_def intro!: bexI [of _ "e - b"])
next
  case (Cons s ms)
  let ?L = "length (ms_string s)" and ?w = "take (e - b) (drop b v)"
  have tok: "middle_tokens (s # ms) @ [TMany] = TMany # (step_tokens s @ (middle_tokens ms @ [TMany]))"
    by (simp add: middle_tokens_def)
  have lw: "length ?w = e - b" using assms(3) Cons.prems by simp
  have step: "like (same_char ign) (step_tokens s @ (middle_tokens ms @ [TMany])) (drop i ?w) \<longleftrightarrow>
    i + ?L \<le> e - b \<and> matches_at s v (b + i) \<and> fits ms v (b + i + ?L) e" if "i \<le> e - b" for i
  proof (cases "i + ?L \<le> e - b")
    case True
    have d: "drop ?L (drop i ?w) = take (e - (b + i + ?L)) (drop (b + i + ?L) v)"
      by (simp add: drop_take add.commute add.left_commute)
    have "b + i + ?L \<le> e" using True Cons.prems(2) by linarith
    note IH = Cons.IH [OF Cons.prems(1) this]
    have m: "matches_at s (drop i ?w) 0 \<longleftrightarrow> matches_at s v (b + i)"
      using matches_at_drop [of i s ?w] matches_at_part [of i s e b v] True assms(3) Cons.prems(2) lw by simp
    have g: "ms_ignore_case s = ign" using Cons.prems(1) by simp
    have "?L \<le> e - (b + i)" using True Cons.prems(2) by linarith
    then show ?thesis using like_step [of s "middle_tokens ms @ [TMany]" "drop i ?w", unfolded g] m IH True lw
      unfolding d by simp
  next
    case False
    then have "length (drop i ?w) < ?L" using that lw by simp
    then show ?thesis using like_step [of s "middle_tokens ms @ [TMany]" "drop i ?w"] Cons.prems(1) False by simp
  qed
  have "like (same_char ign) (middle_tokens (s # ms) @ [TMany]) ?w \<longleftrightarrow>
    (\<exists>i\<le>e - b. i + ?L \<le> e - b \<and> matches_at s v (b + i) \<and> fits ms v (b + i + ?L) e)"
    unfolding tok like.simps lw using step by (meson atLeastAtMost_iff le0)
  also have "\<dots> \<longleftrightarrow> fits (s # ms) v b e"
  proof
    assume "\<exists>i\<le>e - b. i + ?L \<le> e - b \<and> matches_at s v (b + i) \<and> fits ms v (b + i + ?L) e"
    then obtain i where "i + ?L \<le> e - b" "matches_at s v (b + i)" "fits ms v (b + i + ?L) e" by blast
    then show "fits (s # ms) v b e" using Cons.prems(2) unfolding fits.simps by (intro exI [of _ "b + i"]) auto
  next
    assume "fits (s # ms) v b e"
    then obtain p where p: "b \<le> p" "p + ?L \<le> e" "matches_at s v p" "fits ms v (p + ?L) e" by auto
    then have "p - b \<le> e - b" "p - b + ?L \<le> e - b" "b + (p - b) = p" by linarith+
    with p show "\<exists>i\<le>e - b. i + ?L \<le> e - b \<and> matches_at s v (b + i) \<and> fits ms v (b + i + ?L) e"
      by (intro exI [of _ "p - b"]) simp
  qed
  finally show ?case .
qed

section \<open>Front, middle and back\<close>

definition front_tokens :: "match_step option \<Rightarrow> like_token list" where
  "front_tokens front = (case front of None \<Rightarrow> [] | Some s \<Rightarrow> step_tokens s)"

definition end_length :: "match_step option \<Rightarrow> nat" where
  "end_length front = (case front of None \<Rightarrow> 0 | Some s \<Rightarrow> length (ms_string s))"

lemma match_front_spec:
  assumes "\<And>s. front = Some s \<Longrightarrow> step_ok ign s" and "length v < npos"
  shows "match_front front v =
      Inr (if end_length front \<le> length v \<and> (case front of None \<Rightarrow> True | Some s \<Rightarrow> matches_at s v 0)
           then Some (end_length front) else None)"
proof (cases front)
  case (Some s)
  note ok = assms(1) [OF Some]
  have len: "ms_length s = length (ms_string s)" using step_fields(2) [OF ok] by (simp add: ms_length_def)
  show ?thesis
  proof (cases "length (ms_string s) \<le> length v")
    case True
    from ms_index_of_spec [OF ok _ True assms(2), of 0] obtain r where
      r: "ms_index_of s v 0 (length (ms_string s)) = Inr r" "found s v 0 (length (ms_string s)) r" by auto
    have "r = npos \<longleftrightarrow> \<not> matches_at s v 0" using r(2) True assms(2) by (auto simp: found_def split: if_splits)
    with r True Some len show ?thesis by (simp add: match_front_def end_length_def case_exn_def)
  qed (simp add: match_front_def Some len end_length_def)
qed (simp add: match_front_def end_length_def)

lemma match_back_spec:
  assumes "\<And>s. rear = Some s \<Longrightarrow> step_ok ign s" and "length v < npos" and "end_length rear \<le> length v"
  shows "match_back rear v b =
      Inr (case rear of None \<Rightarrow> Some (length v) | Some s \<Rightarrow>
             if b \<le> length v - end_length rear \<and> matches_at s v (length v - end_length rear)
             then Some (length v - end_length rear) else None)"
proof (cases rear)
  case (Some s)
  note ok = assms(1) [OF Some]
  have len: "ms_length s = length (ms_string s)" using step_fields(2) [OF ok] by (simp add: ms_length_def)
  let ?o = "length v - length (ms_string s)"
  have sub: "size_sub (length v) (length (ms_string s)) = ?o" and le: "length (ms_string s) \<le> length v"
    using assms(2,3) Some by (simp_all add: end_length_def npos_def)
  from ms_index_of_spec [OF ok _ _ assms(2), of ?o "length v"] obtain r where
    r: "ms_index_of s v ?o (length v) = Inr r" "found s v ?o (length v) r" by auto
  have "r = npos \<longleftrightarrow> \<not> matches_at s v ?o"
  proof
    assume "r = npos"
    then show "\<not> matches_at s v ?o" using r(2) le by (simp add: found_def)
  next
    assume m: "\<not> matches_at s v ?o"
    show "r = npos"
    proof (rule ccontr)
      assume "r \<noteq> npos"
      then have "?o \<le> r" "r + length (ms_string s) \<le> length v" "matches_at s v r" using r(2) by (simp_all add: found_def)
      moreover have "r = ?o" using calculation(1,2) by linarith
      ultimately show False using m by simp
    qed
  qed
  with r Some len sub show ?thesis by (simp add: match_back_def Let_def end_length_def case_exn_def)
qed (simp add: match_back_def)

lemma like_front:
  assumes "\<And>s. front = Some s \<Longrightarrow> ms_ignore_case s = ign"
  shows "like (same_char ign) (front_tokens front @ ts) v \<longleftrightarrow> end_length front \<le> length v \<and>
    (case front of None \<Rightarrow> True | Some s \<Rightarrow> matches_at s v 0) \<and> like (same_char ign) ts (drop (end_length front) v)"
  using like_step [of "the front" ts v] assms by (cases front) (auto simp: front_tokens_def end_length_def)

lemma like_back:
  assumes "\<And>s. rear = Some s \<Longrightarrow> ms_ignore_case s = ign"
  shows "like (same_char ign) (ts @ front_tokens rear) v \<longleftrightarrow> end_length rear \<le> length v \<and>
    (case rear of None \<Rightarrow> True | Some s \<Rightarrow> matches_at s v (length v - end_length rear)) \<and>
    like (same_char ign) ts (take (length v - end_length rear) v)"
    (is "_ \<longleftrightarrow> ?r")
proof -
  have "like (same_char ign) (ts @ front_tokens rear) v \<longleftrightarrow>
    (\<exists>w x. v = w @ x \<and> like (same_char ign) ts w \<and> length x = end_length rear \<and>
      (case rear of None \<Rightarrow> True | Some s \<Rightarrow> matches_at s x 0))"
  proof -
    have "like (same_char ign) (front_tokens rear) x \<longleftrightarrow> length x = end_length rear \<and>
      (case rear of None \<Rightarrow> True | Some s \<Rightarrow> matches_at s x 0)" for x
      using like_front [of rear ign "[]" x, OF assms] by (cases rear) auto
    then show ?thesis unfolding like_append by (simp only: conj_assoc)
  qed
  also have "\<dots> \<longleftrightarrow> ?r"
  proof
    assume "\<exists>w x. v = w @ x \<and> like (same_char ign) ts w \<and> length x = end_length rear \<and>
      (case rear of None \<Rightarrow> True | Some s \<Rightarrow> matches_at s x 0)"
    then obtain w x where v: "v = w @ x" "like (same_char ign) ts w" "length x = end_length rear"
      "case rear of None \<Rightarrow> True | Some s \<Rightarrow> matches_at s x 0" by blast
    have "matches_at s v (length w)" if "rear = Some s" for s
      using v that matches_at_drop [of "length w" s v] by (simp add: end_length_def)
    with v show ?r by (auto split: option.split)
  next
    assume r: ?r
    let ?w = "take (length v - end_length rear) v" and ?x = "drop (length v - end_length rear) v"
    have "matches_at s ?x 0" if "rear = Some s" for s
      using r that matches_at_drop [of "length v - end_length rear" s v] by (simp add: end_length_def)
    with r show "\<exists>w x. v = w @ x \<and> like (same_char ign) ts w \<and> length x = end_length rear \<and>
      (case rear of None \<Rightarrow> True | Some s \<Rightarrow> matches_at s x 0)"
      by (intro exI [of _ ?w] exI [of _ ?x]) (auto split: option.split)
  qed
  finally show ?thesis .
qed

lemma like_pattern:
  assumes "\<And>s. front = Some s \<Longrightarrow> ms_ignore_case s = ign" "\<And>s. rear = Some s \<Longrightarrow> ms_ignore_case s = ign"
    "\<And>s. s \<in> set ms \<Longrightarrow> ms_ignore_case s = ign"
  shows "like (same_char ign) (front_tokens front @ middle_tokens ms @ TMany # front_tokens rear) v \<longleftrightarrow>
    end_length front + end_length rear \<le> length v \<and>
    (case front of None \<Rightarrow> True | Some s \<Rightarrow> matches_at s v 0) \<and>
    (case rear of None \<Rightarrow> True | Some s \<Rightarrow> matches_at s v (length v - end_length rear)) \<and>
    fits ms v (end_length front) (length v - end_length rear)"
proof (cases "end_length front + end_length rear \<le> length v")
  case True
  let ?f = "end_length front" and ?e = "length v - end_length rear"
  have "matches_at s (drop ?f v) (length v - ?f - end_length rear) \<longleftrightarrow> matches_at s v ?e" if "rear = Some s" for s
    using that True by (simp add: matches_at_def end_length_def)
  moreover have "take (length v - ?f - end_length rear) (drop ?f v) = take (?e - ?f) (drop ?f v)"
    by (simp add: add.commute)
  ultimately show ?thesis
    using like_front [of front ign "middle_tokens ms @ TMany # front_tokens rear" v, OF assms(1)]
      like_back [of rear ign "middle_tokens ms @ [TMany]" "drop ?f v", OF assms(2)]
      like_middle [OF assms(3), of ms ?f ?e v] True
    by (auto split: option.split)
next
  case False
  with like_front [of front ign "middle_tokens ms @ TMany # front_tokens rear" v, OF assms(1)]
    like_back [of rear ign "middle_tokens ms @ [TMany]" "drop (end_length front) v", OF assms(2)]
  show ?thesis by auto
qed

lemma match_iterative_spec:
  assumes ok: "\<And>s. front = Some s \<Longrightarrow> step_ok ign s" "\<And>s. rear = Some s \<Longrightarrow> step_ok ign s"
    "\<And>s. s \<in> set (case middle of None \<Rightarrow> [] | Some ms \<Rightarrow> ms) \<Longrightarrow> step_ok ign s"
    and v: "length v < npos" and b: "end_length rear \<le> length v" and t: "rear = None \<longrightarrow> trailing"
  shows "match_iterative front rear middle trailing v = Inr (like (same_char ign)
    (front_tokens front @ middle_tokens (case middle of None \<Rightarrow> [] | Some ms \<Rightarrow> ms) @ TMany # front_tokens rear) v)"
proof -
  define ms where "ms = (case middle of None \<Rightarrow> [] | Some ms \<Rightarrow> ms)"
  let ?f = "end_length front" and ?e = "length v - end_length rear"
  have oks: "s \<in> set ms \<Longrightarrow> step_ok ign s" for s using ok(3) by (simp add: ms_def)
  have g: "\<And>s. front = Some s \<Longrightarrow> ms_ignore_case s = ign" "\<And>s. rear = Some s \<Longrightarrow> ms_ignore_case s = ign"
    "\<And>s. s \<in> set ms \<Longrightarrow> ms_ignore_case s = ign"
    using ok(1,2) oks step_fields(1) by blast+
  have front: "match_front front v = Inr (if ?f \<le> length v \<and>
      (case front of None \<Rightarrow> True | Some s \<Rightarrow> matches_at s v 0) then Some ?f else None)"
    by (rule match_front_spec [OF ok(1) v])
  have rear: "match_back rear v k = Inr (case rear of None \<Rightarrow> Some (length v) | Some s \<Rightarrow>
      if k \<le> ?e \<and> matches_at s v ?e then Some ?e else None)" for k
    by (rule match_back_spec [OF ok(2) v b])
  have back0: "end_length None = 0" by (simp add: end_length_def)
  have "match_iterative front rear middle trailing v = Inr
    (?f \<le> ?e \<and> (case front of None \<Rightarrow> True | Some s \<Rightarrow> matches_at s v 0) \<and>
    (case rear of None \<Rightarrow> True | Some s \<Rightarrow> matches_at s v ?e) \<and> fits ms v ?f ?e)"
  proof (cases "?f \<le> length v \<and> (case front of None \<Rightarrow> True | Some s \<Rightarrow> matches_at s v 0)")
    case False
    then show ?thesis unfolding match_iterative_def front by (auto simp: case_exn_def)
  next
    case f: True
    show ?thesis
    proof (cases "?f \<le> ?e \<and> (case rear of None \<Rightarrow> True | Some s \<Rightarrow> matches_at s v ?e)")
      case False
      with f show ?thesis unfolding match_iterative_def front rear
        by (cases rear) (auto simp: case_exn_def back0)
    next
      case True
      from match_middle_spec [of ms ign ?f ?e v, OF oks _ _ v] True obtain r where
        r: "match_middle ms v ?f ?e = Inr r" "r \<noteq> None \<longleftrightarrow> fits ms v ?f ?e" by auto
      with f True t show ?thesis
        unfolding match_iterative_def front rear
        unfolding ms_def [symmetric]
        by (cases rear; cases r) (auto simp: case_exn_def back0)
    qed
  qed
  moreover have "?f + end_length rear \<le> length v \<longleftrightarrow> ?f \<le> ?e" using b by linarith
  ultimately show ?thesis using like_pattern [of front ign rear ms v, OF g] by (simp add: ms_def)
qed

end
