(* ===== verification/Like_Parse.thy ===== *)
theory Like_Parse
  imports Like_Scan
begin

text \<open>
  The parser of \<^verbatim>\<open>LikeFilter::buildPlan\<close> against the tokens of the pattern, and the choice
  of the plan: a filter decides the reference semantics.
\<close>

section \<open>Parsing\<close>

text \<open>
  The parser cuts the steps out of the pattern as slices, so an escape character inside a
  slice stays in it.  It does what it means to do when every escape is at the start of a slice.
\<close>

fun escapes_lead :: "octet_t \<Rightarrow> bool \<Rightarrow> octet_t list \<Rightarrow> bool" where
  "escapes_lead chEscape fresh (c # d # p) =
     (if c = chEscape then fresh \<and> escapes_lead chEscape False p else escapes_lead chEscape (c = 0x25) (d # p))"
| "escapes_lead chEscape fresh _ = True"

definition steps_tokens :: "like_step list \<Rightarrow> like_token list" where
  "steps_tokens steps = concat (map (\<lambda>s. case s of ANY \<Rightarrow> [TMany] | Match s \<Rightarrow> step_tokens s) steps)"

definition wild :: "(nat \<Rightarrow> bool) option \<Rightarrow> nat \<Rightarrow> bool" where
  "wild b i = (case b of None \<Rightarrow> False | Some b \<Rightarrow> b i)"

definition pending_tokens :: "octet_t list \<Rightarrow> like_parser \<Rightarrow> like_token list" where
  "pending_tokens pat st =
     map (\<lambda>i. if wild (lp_bitset st) i then TOne else TLit (pat ! (lp_start st + i))) [0..<lp_collected st]"

definition parsed_tokens :: "octet_t list \<Rightarrow> like_parser \<Rightarrow> like_token list" where
  "parsed_tokens pat st = steps_tokens (lp_steps st) @ pending_tokens pat st"

definition alternating :: "like_step list \<Rightarrow> bool" where
  "alternating = successively (\<lambda>s t. (s = ANY) \<noteq> (t = ANY))"

definition steps_ok :: "octet_t list \<Rightarrow> bool \<Rightarrow> like_step list \<Rightarrow> bool" where
  "steps_ok pat ign steps \<longleftrightarrow> alternating steps \<and>
     (\<forall>s. Match s \<in> set steps \<longrightarrow> step_ok ign s \<and> set (ms_string s) \<subseteq> set pat \<and>
       length (ms_string s) \<le> length pat)"

definition parse_inv :: "octet_t list \<Rightarrow> bool \<Rightarrow> nat \<Rightarrow> like_parser \<Rightarrow> bool" where
  "parse_inv pat ign off st \<longleftrightarrow>
     off \<le> length pat \<and> (0 < lp_collected st \<longrightarrow> lp_start st + lp_collected st = off) \<and>
     (lp_collected st = 0 \<longrightarrow> lp_bitset st = None) \<and> (\<forall>i\<ge>lp_collected st. \<not> wild (lp_bitset st) i) \<and>
     steps_ok pat ign (lp_steps st) \<and> (lp_steps st = [] \<or> last (lp_steps st) = ANY)"

lemma steps_tokens_append [simp]: "steps_tokens (xs @ ys) = steps_tokens xs @ steps_tokens ys"
  by (simp add: steps_tokens_def)

lemma steps_tokens_simps [simp]: "steps_tokens [] = []" "steps_tokens [ANY] = [TMany]"
  "steps_tokens [Match s] = step_tokens s"
  by (simp_all add: steps_tokens_def)

lemma steps_ok_append:
  "steps_ok pat ign (steps @ [s]) \<longleftrightarrow> steps_ok pat ign steps \<and> (steps = [] \<or> (last steps = ANY) \<noteq> (s = ANY)) \<and>
     (\<forall>m. s = Match m \<longrightarrow> step_ok ign m \<and> set (ms_string m) \<subseteq> set pat \<and> length (ms_string m) \<le> length pat)"
  by (auto simp: steps_ok_def alternating_def successively_append_iff)

lemma step_tokens_create:
  "step_tokens (match_step_create vs b ign) = map (\<lambda>i. if wild b i then TOne else TLit (vs ! i)) [0..<length vs]"
proof -
  have "ms_string (match_step_create vs b ign) = vs"
    by (simp add: match_step_create_def Let_def split: option.split prod.split)
  moreover have "is_any (ms_any (match_step_create vs b ign)) i = wild b i" if "i < length vs" for i
    using that by (cases b) (simp_all add: match_step_create_def Let_def is_any_def wild_def count_wilds_spec [of _ _ 0, simplified])
  ultimately show ?thesis by (simp add: step_tokens_def)
qed

lemma lp_flush_spec:
  assumes inv: "parse_inv pat ign off st" and pat: "ascii pat" "length pat < npos"
  shows "\<exists>st'. lp_flush pat ign st = Inr st' \<and> lp_collected st' = 0 \<and> lp_bitset st' = None \<and>
    lp_escape st' = lp_escape st \<and> steps_tokens (lp_steps st') = parsed_tokens pat st \<and>
    steps_ok pat ign (lp_steps st') \<and>
    (if lp_collected st = 0 then lp_steps st' = lp_steps st else \<exists>s. lp_steps st' = lp_steps st @ [Match s])"
proof (cases "lp_collected st = 0")
  case True
  then show ?thesis using inv by (simp add: lp_flush_def parsed_tokens_def pending_tokens_def parse_inv_def)
next
  case False
  let ?vs = "take (lp_collected st) (drop (lp_start st) pat)"
  let ?s = "match_step_create ?vs (lp_bitset st) ign"
  have le: "lp_start st + lp_collected st \<le> length pat" using inv False by (simp add: parse_inv_def)
  have sub: "set ?vs \<subseteq> set pat" by (meson in_set_dropD in_set_takeD subsetI)
  have create: "string_create pat (lp_start st) (lp_collected st) = Inr ?vs"
    using le False pat sub by (intro ascii_create) auto
  have "step_ok ign ?s"
    unfolding step_ok_def using le False pat sub by (intro exI [of _ ?vs] exI [of _ "lp_bitset st"]) auto
  moreover have "ms_string ?s = ?vs"
    by (simp add: match_step_create_def Let_def split: option.split prod.split)
  moreover have "step_tokens ?s = pending_tokens pat st"
    using le by (simp add: step_tokens_create pending_tokens_def)
  ultimately show ?thesis using inv False create sub
    by (auto simp: lp_flush_def parse_inv_def steps_ok_append parsed_tokens_def case_exn_def)
qed

lemma lp_collect_spec:
  assumes inv: "parse_inv pat ign off st" and off: "off < length pat"
  shows "parse_inv pat ign (off + 1) (lp_collect off st)"
    and "parsed_tokens pat (lp_collect off st) = parsed_tokens pat st @ [TLit (pat ! off)]"
    and "parse_inv pat ign (off + 1) (lp_collect off (st\<lparr>lp_bitset :=
          Some ((case lp_bitset st of None \<Rightarrow> (\<lambda>_. False) | Some b \<Rightarrow> b)(lp_collected st := True))\<rparr>))"
    and "parsed_tokens pat (lp_collect off (st\<lparr>lp_bitset :=
          Some ((case lp_bitset st of None \<Rightarrow> (\<lambda>_. False) | Some b \<Rightarrow> b)(lp_collected st := True))\<rparr>)) =
         parsed_tokens pat st @ [TOne]"
  using inv off
  by (auto simp: lp_collect_def parse_inv_def parsed_tokens_def pending_tokens_def wild_def split: option.splits)

lemma parse_inv_escape [simp]:
  "parse_inv pat ign off (st\<lparr>lp_escape := e\<rparr>) = parse_inv pat ign off st"
  "parsed_tokens pat (st\<lparr>lp_escape := e\<rparr>) = parsed_tokens pat st"
  by (simp_all add: parse_inv_def parsed_tokens_def pending_tokens_def)

definition char_token :: "octet_t \<Rightarrow> like_token" where
  "char_token c = (if c = 0x25 then TMany else if c = 0x5F then TOne else TLit c)"

lemma lp_char_token:
  assumes inv: "parse_inv pat ign off st" and pat: "ascii pat" "length pat < npos"
    and off: "off < length pat" and e: "\<not> lp_escape st" "pat ! off \<noteq> esc"
  shows "\<exists>st'. lp_char pat esc ign off (pat ! off) st = Inr st' \<and> parse_inv pat ign (off + 1) st' \<and> \<not> lp_escape st' \<and>
    (lp_collected st' = 0 \<longleftrightarrow> pat ! off = 0x25) \<and>
    (\<forall>ts v. like eq (parsed_tokens pat st' @ ts) v = like eq (parsed_tokens pat st @ char_token (pat ! off) # ts) v)"
proof (cases "pat ! off = 0x25")
  case True
  from lp_flush_spec [OF inv pat] obtain st' where st': "lp_flush pat ign st = Inr st'" "lp_collected st' = 0"
    "lp_bitset st' = None" "\<not> lp_escape st'" "steps_tokens (lp_steps st') = parsed_tokens pat st"
    "steps_ok pat ign (lp_steps st')"
    "if lp_collected st = 0 then lp_steps st' = lp_steps st else \<exists>s. lp_steps st' = lp_steps st @ [Match s]"
    using e(1) by auto
  have c: "char_token (pat ! off) = TMany" by (simp add: char_token_def True)
  show ?thesis
  proof (cases "lp_steps st' = [] \<or> last (lp_steps st') \<noteq> ANY")
    case new: True
    let ?st = "st'\<lparr>lp_steps := lp_steps st' @ [ANY]\<rparr>"
    have "parse_inv pat ign (off + 1) ?st"
      using st' off new by (auto simp: parse_inv_def wild_def steps_ok_append)
    moreover have "parsed_tokens pat ?st = parsed_tokens pat st @ [TMany]"
      using st'(2,5) by (simp add: parsed_tokens_def pending_tokens_def)
    ultimately show ?thesis using True e st' new c by (auto simp: lp_char_def case_exn_def)
  next
    case old: False
    have "parse_inv pat ign (off + 1) st'"
      using st' off old by (auto simp: parse_inv_def wild_def)
    moreover have "parsed_tokens pat st' = parsed_tokens pat st"
      using st'(2,5) by (simp add: parsed_tokens_def pending_tokens_def)
    moreover have "\<exists>us. parsed_tokens pat st = us @ [TMany]"
    proof -
      obtain ss where "lp_steps st' = ss @ [ANY]" using old by (metis append_butlast_last_id)
      with st'(5) show ?thesis by (metis steps_tokens_append steps_tokens_simps(2))
    qed
    then have "like eq (parsed_tokens pat st @ ts) v = like eq (parsed_tokens pat st @ TMany # ts) v" for ts v
      using like_cong [of eq "[TMany]" "[TMany, TMany]" _ ts v] like_Many_Many by fastforce
    ultimately show ?thesis using True e st' old c by (auto simp: lp_char_def case_exn_def)
  qed
next
  case False
  show ?thesis
  proof (cases "pat ! off = 0x5F")
    case True
    then show ?thesis using e False lp_collect_spec(3,4) [OF inv off]
      by (auto simp: lp_char_def char_token_def lp_collect_def)
  next
    case lit: False
    with False show ?thesis using e lp_collect_spec(1,2) [OF inv off]
      by (auto simp: lp_char_def char_token_def lp_collect_def)
  qed
qed

lemma like_tokens_char:
  "c \<noteq> esc \<Longrightarrow> like_tokens esc (c # p) = map_option (Cons (char_token c)) (like_tokens esc p)"
  by (cases p) (auto simp: char_token_def)

lemma escapes_lead_char: "c \<noteq> esc \<Longrightarrow> escapes_lead esc fresh (c # p) \<Longrightarrow> escapes_lead esc (c = 0x25) p"
  by (cases p) auto

lemma drop_ConsD: "drop off pat = c # p \<Longrightarrow> off < length pat \<and> pat ! off = c \<and> drop (off + 1) pat = p"
  by (metis Cons_nth_drop_Suc Suc_eq_plus1 drop_eq_Nil linorder_not_less list.distinct(1) list.inject)

lemma lp_loop_spec:
  assumes pat: "ascii pat" "length pat < npos"
  shows "parse_inv pat ign off st \<Longrightarrow> \<not> lp_escape st \<Longrightarrow> drop off pat = rest \<Longrightarrow>
    escapes_lead esc (lp_collected st = 0) rest \<Longrightarrow>
    \<exists>st'. lp_loop pat esc ign off rest st = Inr st' \<and>
      (case like_tokens esc rest of
         None \<Rightarrow> lp_escape st'
       | Some ts \<Rightarrow> \<not> lp_escape st' \<and> parse_inv pat ign (length pat) st' \<and>
           (\<forall>v. like eq (parsed_tokens pat st') v = like eq (parsed_tokens pat st @ ts) v))"
proof (induction esc rest arbitrary: off st rule: like_tokens.induct)
  case (1 esc)
  then have "off = length pat" by (simp add: parse_inv_def)
  with 1 show ?case by simp
next
  case (2 esc c)
  then have off: "off < length pat" "pat ! off = c" "off + 1 = length pat"
    using drop_ConsD [of off pat c "[]"] by auto
  show ?case
  proof (cases "c = esc")
    case True
    then show ?thesis using 2 by (simp add: lp_char_def case_exn_def)
  next
    case False
    from lp_char_token [OF 2(1) pat off(1) 2(2), of esc eq] False off obtain st' where
      "lp_char pat esc ign off c st = Inr st'" "parse_inv pat ign (length pat) st'" "\<not> lp_escape st'"
      "\<And>ts v. like eq (parsed_tokens pat st' @ ts) v = like eq (parsed_tokens pat st @ char_token c # ts) v" by auto
    moreover from this(4) [of "[]"] have "like eq (parsed_tokens pat st') v = like eq (parsed_tokens pat st @ [char_token c]) v" for v
      by simp
    ultimately show ?thesis using False like_tokens_char [of c esc "[]"]
      by (simp add: case_exn_def)
  qed
next
  case (3 esc c d p)
  then have off: "off < length pat" "pat ! off = c" and next_off: "drop (off + 1) pat = d # p"
    using drop_ConsD [of off pat c "d # p"] by auto
  show ?case
  proof (cases "c = esc")
    case False
    from lp_char_token [OF 3(3) pat off(1) 3(4), of esc eq] False off obtain st' where
      st': "lp_char pat esc ign off c st = Inr st'" "parse_inv pat ign (off + 1) st'" "\<not> lp_escape st'"
      "lp_collected st' = 0 \<longleftrightarrow> c = 0x25"
      "\<And>ts v. like eq (parsed_tokens pat st' @ ts) v = like eq (parsed_tokens pat st @ char_token c # ts) v" by auto
    have "escapes_lead esc (lp_collected st' = 0) (d # p)" using 3(6) False st'(4) by simp
    from 3(2) [OF False st'(2,3) next_off this] st'(1,5) show ?thesis
      unfolding like_tokens_char [OF False] by (auto simp: case_exn_def split: option.splits)
  next
    case True
    then have c0: "lp_collected st = 0" and lead: "escapes_lead esc False p" using 3(6) by simp_all
    let ?st = "st\<lparr>lp_escape := False\<rparr>"
    let ?st' = "lp_collect (off + 1) ?st"
    have "off + 1 < length pat" using drop_ConsD [OF next_off] by simp
    moreover have "parse_inv pat ign (off + 1) ?st"
      using 3(3) c0 off by (simp add: parse_inv_def wild_def)
    moreover have d: "pat ! (off + 1) = d" using drop_ConsD [OF next_off] by simp
    ultimately have st': "parse_inv pat ign (off + 2) ?st'" "parsed_tokens pat ?st' = parsed_tokens pat st @ [TLit d]"
      using lp_collect_spec(1,2) [of pat ign "off + 1" ?st] by simp_all
    have "drop (off + 2) pat = p" using drop_ConsD [OF next_off] by simp
    moreover have "\<not> lp_escape ?st'" "lp_collected ?st' \<noteq> 0" by (simp_all add: lp_collect_def)
    ultimately obtain st2 where "lp_loop pat esc ign (off + 2) p ?st' = Inr st2"
      "case like_tokens esc p of
         None \<Rightarrow> lp_escape st2
       | Some ts \<Rightarrow> \<not> lp_escape st2 \<and> parse_inv pat ign (length pat) st2 \<and>
           (\<forall>v. like eq (parsed_tokens pat st2) v = like eq (parsed_tokens pat ?st' @ ts) v)"
      using 3(1) [OF True st'(1)] lead by auto
    moreover have "lp_loop pat esc ign off (c # d # p) st = lp_loop pat esc ign (off + 2) p ?st'"
      using True 3(4) by (simp add: lp_char_def case_exn_def)
    ultimately show ?thesis using True st'(2) by (auto split: option.splits)
  qed
qed

lemma like_steps_spec:
  assumes "ascii pat" "length pat < npos" "escapes_lead esc True pat"
  shows "case like_tokens esc pat of
      None \<Rightarrow> like_steps pat esc ign = Inl IllegalArgumentException
    | Some ts \<Rightarrow> \<exists>steps. like_steps pat esc ign = Inr steps \<and> steps_ok pat ign steps \<and>
        (\<forall>v. like eq (steps_tokens steps) v = like eq ts v)"
proof -
  let ?st = "\<lparr>lp_escape = False, lp_start = 0, lp_collected = 0, lp_bitset = None, lp_steps = []\<rparr>"
  have "parse_inv pat ign 0 ?st" by (simp add: parse_inv_def wild_def steps_ok_def alternating_def)
  from lp_loop_spec [OF assms(1,2) this, of pat esc eq] assms(3) obtain st where
    st: "lp_loop pat esc ign 0 pat ?st = Inr st"
      "case like_tokens esc pat of
         None \<Rightarrow> lp_escape st
       | Some ts \<Rightarrow> \<not> lp_escape st \<and> parse_inv pat ign (length pat) st \<and>
           (\<forall>v. like eq (parsed_tokens pat st) v = like eq (parsed_tokens pat ?st @ ts) v)" by auto
  show ?thesis
  proof (cases "like_tokens esc pat")
    case None
    with st show ?thesis by (simp add: like_steps_def case_exn_def)
  next
    case (Some ts)
    with st have inv: "parse_inv pat ign (length pat) st" and "\<not> lp_escape st" by simp_all
    from lp_flush_spec [OF inv assms(1,2)] st Some this(2) show ?thesis
      by (auto simp: like_steps_def case_exn_def parsed_tokens_def pending_tokens_def)
  qed
qed

section \<open>Plans\<close>

definition optional :: "match_step option \<Rightarrow> like_step list" where
  "optional front = (case front of None \<Rightarrow> [] | Some s \<Rightarrow> [Match s])"

definition middle_steps :: "match_step list \<Rightarrow> like_step list" where
  "middle_steps ms = concat (map (\<lambda>s. [ANY, Match s]) ms)"

lemma optional_simps [simp]: "optional None = []" "optional (Some s) = [Match s]"
  by (simp_all add: optional_def)

lemma steps_tokens_parts:
  "steps_tokens (optional front @ middle_steps ms @ ANY # optional rear) =
     front_tokens front @ middle_tokens ms @ TMany # front_tokens rear"
proof -
  have "steps_tokens (middle_steps ms) = middle_tokens ms"
    by (induction ms) (simp_all add: middle_steps_def middle_tokens_def steps_tokens_def)
  then show ?thesis
    by (cases front; cases rear) (simp_all add: front_tokens_def steps_tokens_def)
qed

lemma alternating_parts:
  assumes "alternating (ANY # steps)"
  shows "\<exists>ms rear. ANY # steps = middle_steps ms @ ANY # optional rear"
  using assms
proof (induction "length steps" arbitrary: steps rule: less_induct)
  case less
  show ?case
  proof (cases steps)
    case Nil
    then show ?thesis by (intro exI [of _ "[]"] exI [of _ None]) (simp add: middle_steps_def)
  next
    case (Cons s steps')
    with less.prems obtain m where s: "s = Match m" by (cases s) (auto simp: alternating_def)
    show ?thesis
    proof (cases steps')
      case Nil
      with Cons s show ?thesis by (intro exI [of _ "[]"] exI [of _ "Some m"]) (simp add: middle_steps_def)
    next
      case (Cons t steps2)
      with less.prems s \<open>steps = s # steps'\<close> have t: "t = ANY" "alternating (ANY # steps2)"
        by (auto simp: alternating_def)
      with less.hyps [of steps2] Cons \<open>steps = s # steps'\<close> obtain ms rear where
        "ANY # steps2 = middle_steps ms @ ANY # optional rear" by auto
      with Cons \<open>steps = s # steps'\<close> s t(1) show ?thesis
        by (intro exI [of _ "m # ms"] exI [of _ rear]) (simp add: middle_steps_def)
    qed
  qed
qed

lemma steps_cases:
  assumes "alternating steps"
  obtains "steps = []" | s where "steps = [Match s]"
    | front ms rear where "steps = optional front @ middle_steps ms @ ANY # optional rear"
proof (cases steps)
  case Nil
  then show ?thesis by (rule that(1))
next
  case (Cons s steps')
  show ?thesis
  proof (cases s)
    case ANY
    with alternating_parts Cons assms obtain ms rear where "steps = middle_steps ms @ ANY # optional rear" by metis
    then show ?thesis using that(3) [of None ms rear] by simp
  next
    case (Match m)
    show ?thesis
    proof (cases steps')
      case Nil
      with Cons Match show ?thesis by (intro that(2)) simp
    next
      case (Cons t steps2)
      with assms \<open>steps = s # steps'\<close> Match have "t = ANY" "alternating (ANY # steps2)" by (auto simp: alternating_def)
      with alternating_parts obtain ms rear where "ANY # steps2 = middle_steps ms @ ANY # optional rear" by metis
      with \<open>t = ANY\<close> Cons \<open>steps = s # steps'\<close> Match show ?thesis using that(3) [of "Some m" ms rear] by simp
    qed
  qed
qed

lemma middle_steps_member [simp]: "Match s \<in> set (middle_steps ms) \<longleftrightarrow> s \<in> set ms"
  by (induction ms) (auto simp: middle_steps_def)

lemma middle_steps_length [simp]: "length (middle_steps ms) = 2 * length ms"
  by (induction ms) (simp_all add: middle_steps_def)

lemma every_second_middle:
  "every_second (take (2 * length ms - 1) (drop 1 (middle_steps ms @ ANY # r))) = ms"
proof (induction ms)
  case (Cons s ms)
  show ?case
  proof (cases ms)
    case (Cons s' ms')
    have "drop 1 (middle_steps (s # ms) @ ANY # r) = Match s # ANY # drop 1 (middle_steps ms @ ANY # r)"
      using Cons by (simp add: middle_steps_def)
    moreover have "2 * length (s # ms) - 1 = Suc (Suc (2 * length ms - 1))" using Cons by simp
    ultimately show ?thesis by (simp only: take_Suc_Cons every_second.simps Cons.IH)
  qed (simp add: middle_steps_def)
qed (simp add: middle_steps_def)

lemma plan_iterative_parts:
  assumes steps: "steps = optional front @ middle_steps ms @ ANY # optional rear"
    and "\<not> (front = None \<and> ms = [] \<and> rear = None)"
  shows "\<exists>middle. plan_iterative steps = Inr (ITERATIVE_EVAL front rear middle (rear = None)) \<and>
    (case middle of None \<Rightarrow> [] | Some ms \<Rightarrow> ms) = ms"
proof (cases "2 < length steps")
  case False
  then have "2 * length ms + 1 + length (optional front) + length (optional rear) \<le> 2" using steps by simp
  then have "ms = []" "front = None \<or> rear = None" by (cases ms; cases front; cases rear; simp)+
  with assms show ?thesis by (cases front; cases rear) (simp_all add: plan_iterative_def middle_steps_def)
next
  case True
  then have "Suc (Suc (Suc 0)) \<le> length steps" by simp
  then obtain a b c r where r: "steps = a # b # c # r" unfolding Suc_le_length_iff by blast
  have hd: "(case hd steps of ANY \<Rightarrow> None | Match step \<Rightarrow> Some step) = front"
    unfolding steps by (cases front; cases ms) (simp_all add: middle_steps_def)
  have last: "(case last steps of ANY \<Rightarrow> None | Match step \<Rightarrow> Some step) = rear"
    unfolding steps by (cases rear) simp_all
  have general: "plan_iterative steps = Inr (ITERATIVE_EVAL front rear
    (Some (every_second (take (length steps - 2 - (if rear = None then 0 else 1) + 1 - (if front = None then 1 else 2))
      (drop (if front = None then 1 else 2) steps)))) (rear = None))"
    using hd last unfolding plan_iterative_def by (simp add: r Let_def)
  have "length steps - 2 - (if rear = None then 0 else 1) + 1 - (if front = None then 1 else 2) = 2 * length ms - 1"
    using True unfolding steps by (auto simp: optional_def split: option.split)
  moreover have "drop (if front = None then 1 else 2) steps = drop 1 (middle_steps ms @ ANY # optional rear)"
    unfolding steps by (cases front) simp_all
  ultimately show ?thesis using general every_second_middle [of ms "optional rear"] by simp
qed

section \<open>Literal steps\<close>

lemma like_Many_end [simp]: "like eq [TMany] v"
  by (auto intro: bexI [of _ "length v"])

definition fold_case :: "bool \<Rightarrow> octet_t \<Rightarrow> octet_t" where
  "fold_case ign = (if ign then to_upper else id)"

lemma same_char_fold: "same_char ign x c \<longleftrightarrow> fold_case ign x = fold_case ign c"
  by (simp add: same_char_def fold_case_def)

lemma literal_matches:
  assumes "step_ok ign s" "ms_is_literal s" "p + length (ms_string s) \<le> length v"
  shows "matches_at s v p \<longleftrightarrow> map (fold_case ign) (take (length (ms_string s)) (drop p v)) = map (fold_case ign) (ms_string s)"
proof -
  have "is_any (ms_any s) i = False" for i using assms(2) by (simp add: ms_is_literal_def is_any_def)
  then show ?thesis using assms(3) step_fields(1) [OF assms(1)]
    by (auto simp: matches_at_def list_eq_iff_nth_eq same_char_fold)
qed

lemma literal_exact:
  assumes "step_ok ign s" "ms_is_literal s"
  shows "like (same_char ign) (step_tokens s) v \<longleftrightarrow> map (fold_case ign) v = map (fold_case ign) (ms_string s)"
proof (cases "length v = length (ms_string s)")
  case True
  then show ?thesis using like_step [of s "[]" v] literal_matches [OF assms, of 0 v] step_fields(1) [OF assms(1)] by simp
next
  case False
  then show ?thesis using like_step [of s "[]" v] step_fields(1) [OF assms(1)] by (auto dest: map_eq_imp_length_eq)
qed

lemma match_alone:
  assumes "step_ok ign s" "length v < npos"
  shows "match_iterative (Some s) None None False v = Inr (like (same_char ign) (step_tokens s) v)"
proof -
  have "match_front (Some s) v = Inr (if length (ms_string s) \<le> length v \<and> matches_at s v 0
      then Some (length (ms_string s)) else None)"
    using match_front_spec [of "Some s" ign v] assms by (simp add: end_length_def)
  then show ?thesis using like_step [of s "[]" v] step_fields(1) [OF assms(1)]
    by (auto simp: match_iterative_def match_back_def case_exn_def)
qed

text \<open>The back step is compared at an offset that underflows when it is longer than the value.\<close>

definition back_fits :: "like_plan \<Rightarrow> octet_t list \<Rightarrow> bool" where
  "back_fits plan v = (case plan of ITERATIVE_EVAL _ (Some s) _ _ \<Rightarrow> ms_length s \<le> length v | _ \<Rightarrow> True)"

lemma single_octet: "length xs = 1 \<Longrightarrow> xs = [xs ! 0]"
  by (cases xs) auto

lemma occurs_at_literal:
  assumes "step_ok False s" "ms_is_literal s"
  shows "(\<exists>i. occurs_at (ms_string s) v i) \<longleftrightarrow> like (same_char False) (TMany # step_tokens s @ [TMany]) v"
proof -
  have "matches_at s v p \<longleftrightarrow> occurs_at (ms_string s) v p" if "p + length (ms_string s) \<le> length v" for p
    using literal_matches [OF assms that] that by (simp add: occurs_at_def fold_case_def)
  then show ?thesis
    using like_pattern [of None False None "[s]" v] step_fields(1) [OF assms(1)]
    by (auto simp: front_tokens_def middle_tokens_def end_length_def occurs_at_def)
qed

section \<open>A filter decides its pattern\<close>

text \<open>A value or a literal that the comparisons without case may see holds no NUL.\<close>

definition plain :: "bool \<Rightarrow> octet_t list \<Rightarrow> bool" where
  "plain ign s \<longleftrightarrow> ascii s \<and> length s + 1 < npos \<and> (ign \<longrightarrow> 0 \<notin> set s)"

definition plan_decides :: "like_plan \<Rightarrow> bool \<Rightarrow> like_token list \<Rightarrow> bool" where
  "plan_decides plan ign ts \<longleftrightarrow> (\<forall>v. plain ign v \<longrightarrow> back_fits plan v \<longrightarrow>
     is_match \<lparr>lf_plan = plan, lf_ascii = True\<rparr> (Some v) = Inr (like (same_char ign) ts v))"

lemma regions_match:
  assumes "plain True v" "plain True w" "i + length w \<le> length v"
  shows "helper_region_matches v i w 0 (length w) True =
    Inr (map to_upper (take (length w) (drop i v)) = map to_upper w)"
proof -
  let ?t = "take (length w) (drop i v)"
  have t: "string_substring v i (size_add i (length w)) = Inr ?t"
    "string_substring w 0 (size_add 0 (length w)) = Inr w"
    using assms ascii_substring [of v i "i + length w"] ascii_substring [of w 0 "length w"]
    by (auto simp: plain_def npos_def)
  have "set ?t \<subseteq> set v" by (meson in_set_dropD in_set_takeD subsetI)
  then obtain n where "helper_compare ?t w False = Inr n" "n = 0 \<longleftrightarrow> map to_upper ?t = map to_upper w"
    using helper_compare_equal [of ?t w] assms(1,2) by (auto simp: plain_def)
  with t show ?thesis by (simp add: helper_region_matches_def case_exn_def)
qed

lemma plan_decidesI:
  assumes "\<And>v. plain ign v \<Longrightarrow> back_fits plan v \<Longrightarrow> string_length v = length v \<Longrightarrow> string_is_ascii v \<Longrightarrow>
    is_match \<lparr>lf_plan = plan, lf_ascii = True\<rparr> (Some v) = Inr (like (same_char ign) ts v)"
  shows "plan_decides plan ign ts"
  using assms by (simp add: plan_decides_def plain_def ascii_length)

lemma start_decides:
  assumes ok: "step_ok ign s" and p: "plain ign (ms_string s)" and plan: "plan_side ign True s = Some plan"
  shows "plan_decides plan ign (step_tokens s @ [TMany])"
proof (rule plan_decidesI)
  fix v assume v: "plain ign v" "string_length v = length v" "string_is_ascii v"
  have lit: "ms_is_literal s" using plan by (simp add: plan_side_def split: if_splits)
  have len: "ms_length s = length (ms_string s)" using step_fields(2) [OF ok] by (simp add: ms_length_def)
  have sl: "string_length (ms_string s) = length (ms_string s)" using p by (simp add: plain_def ascii_length)
  have like: "like (same_char ign) (step_tokens s @ [TMany]) v \<longleftrightarrow> length (ms_string s) \<le> length v \<and>
    map (fold_case ign) (take (length (ms_string s)) v) = map (fold_case ign) (ms_string s)"
    using like_step [of s "[TMany]" v] literal_matches [OF ok lit, of 0 v] step_fields(1) [OF ok]
    by (auto simp del: like.simps(4))
  show "is_match \<lparr>lf_plan = plan, lf_ascii = True\<rparr> (Some v) = Inr (like (same_char ign) (step_tokens s @ [TMany]) v)"
  proof (cases ign)
    case True
    then have "plan = STARTS_WITH_INSENS (ms_string s)" using plan lit by (simp add: plan_side_def)
    then show ?thesis using regions_match [of v "ms_string s" 0] v p like sl True
      by (cases "length (ms_string s) \<le> length v") (simp_all add: is_match_def fold_case_def)
  next
    case False
    then have plan': "plan = (if length (ms_string s) = 1 then STARTS_WITH_CHAR (ms_string s ! 0) else STARTS_WITH_STRING (ms_string s))"
      using plan lit len by (simp add: plan_side_def split: if_splits)
    show ?thesis
    proof (cases "length (ms_string s) = 1")
      case True
      then obtain c where c: "ms_string s = [c]" using single_octet by blast
      with plan' have "plan = STARTS_WITH_CHAR c" by simp
      then show ?thesis using False v like c by (cases v) (auto simp: is_match_def fold_case_def)
    next
      case n: False
      have "take (length (ms_string s)) v = ms_string s \<Longrightarrow> length (ms_string s) \<le> length v"
        by (metis length_take min.cobounded1)
      with n plan' show ?thesis using False v like ascii_starts_with [of v "ms_string s"]
        by (auto simp: is_match_def fold_case_def)
    qed
  qed
qed

lemma end_decides:
  assumes ok: "step_ok ign s" and p: "plain ign (ms_string s)" and plan: "plan_side ign False s = Some plan"
  shows "plan_decides plan ign (TMany # step_tokens s)"
proof (rule plan_decidesI)
  fix v assume v: "plain ign v" "string_length v = length v" "string_is_ascii v"
  have lit: "ms_is_literal s" using plan by (simp add: plan_side_def split: if_splits)
  have len: "ms_length s = length (ms_string s)" using step_fields(2) [OF ok] by (simp add: ms_length_def)
  have sl: "string_length (ms_string s) = length (ms_string s)" using p by (simp add: plain_def ascii_length)
  let ?o = "length v - length (ms_string s)"
  have like: "like (same_char ign) (TMany # step_tokens s) v \<longleftrightarrow> length (ms_string s) \<le> length v \<and>
    map (fold_case ign) (drop ?o v) = map (fold_case ign) (ms_string s)"
    using like_back [of "Some s" ign "[TMany]" v] literal_matches [OF ok lit, of ?o v] step_fields(1) [OF ok]
    by (auto simp: front_tokens_def end_length_def simp del: like.simps(4))
  show "is_match \<lparr>lf_plan = plan, lf_ascii = True\<rparr> (Some v) = Inr (like (same_char ign) (TMany # step_tokens s) v)"
  proof (cases ign)
    case True
    then have "plan = ENDS_WITH_INSENS (ms_string s)" using plan lit by (simp add: plan_side_def)
    then show ?thesis using regions_match [of v "ms_string s" ?o] v p like sl True
      by (cases "length (ms_string s) \<le> length v") (simp_all add: is_match_def fold_case_def)
  next
    case False
    then have plan': "plan = (if length (ms_string s) = 1 then ENDS_WITH_CHAR (ms_string s ! 0) else ENDS_WITH_STRING (ms_string s))"
      using plan lit len by (simp add: plan_side_def split: if_splits)
    show ?thesis
    proof (cases "length (ms_string s) = 1")
      case True
      then obtain c where c: "ms_string s = [c]" using single_octet by blast
      with plan' have "plan = ENDS_WITH_CHAR c" by simp
      then show ?thesis using False v like c by (cases v rule: rev_cases) (auto simp: is_match_def fold_case_def)
    next
      case n: False
      with plan' show ?thesis using False v like ascii_ends_with [of v "ms_string s"]
        by (simp add: is_match_def fold_case_def)
    qed
  qed
qed

lemma inside_decides:
  assumes ok: "step_ok ign s" and p: "plain ign (ms_string s)" and plan: "plan_inside ign s = Some plan"
  shows "plan_decides plan ign (TMany # step_tokens s @ [TMany])"
proof (rule plan_decidesI)
  fix v assume v: "plain ign v" "string_length v = length v" "string_is_ascii v"
  have lit: "ms_is_literal s" and ign: "ign = False" using plan by (simp_all add: plan_inside_def split: if_splits)
  have len: "ms_length s = length (ms_string s)" using step_fields(2) [OF ok] by (simp add: ms_length_def)
  note like = occurs_at_literal [OF ok [unfolded ign] lit, of v]
  have plan': "plan = (if length (ms_string s) = 1 then CONTAINS_CHAR (ms_string s ! 0) else CONTAINS_STRING (ms_string s))"
    using plan len by (simp add: plan_inside_def split: if_splits)
  show "is_match \<lparr>lf_plan = plan, lf_ascii = True\<rparr> (Some v) = Inr (like (same_char ign) (TMany # step_tokens s @ [TMany]) v)"
  proof (cases "length (ms_string s) = 1")
    case True
    then obtain c where c: "ms_string s = [c]" using single_octet by blast
    have "occurs_at [c] v i \<longleftrightarrow> i < length v \<and> v ! i = c" for i
      by (auto simp: occurs_at_def take_Suc_conv_app_nth Cons_nth_drop_Suc [symmetric])
    then have "c \<in> set v \<longleftrightarrow> (\<exists>i. occurs_at (ms_string s) v i)" by (auto simp: c in_set_conv_nth)
    moreover obtain n where "string_index_of_char v (ucast c) 0 = Inr n" "n \<noteq> npos \<longleftrightarrow> c \<in> set v"
      using ascii_index_of_char [of v c] v by (auto simp: plain_def)
    ultimately show ?thesis using v(2,3) like plan' True c unfolding ign
      by (simp add: is_match_def case_exn_def del: like.simps(4))
  next
    case False
    obtain k where "string_index_of v (ms_string s) 0 = Inr k" "k \<noteq> npos \<longleftrightarrow> (\<exists>i. occurs_at (ms_string s) v i)"
      using ascii_index_of [of v "ms_string s"] v p by (auto simp: plain_def)
    then show ?thesis using v(2,3) like plan' False unfolding ign
      by (simp add: is_match_def case_exn_def del: like.simps(4))
  qed
qed

lemma alone_decides:
  assumes ok: "step_ok ign s" and p: "plain ign (ms_string s)"
  shows "plan_decides (case plan_alone ign s of Some plan \<Rightarrow> plan | None \<Rightarrow> ITERATIVE_EVAL (Some s) None None False)
    ign (step_tokens s)" (is "plan_decides ?plan _ _")
proof (rule plan_decidesI)
  fix v assume v: "plain ign v" "string_length v = length v" "string_is_ascii v"
  show "is_match \<lparr>lf_plan = ?plan, lf_ascii = True\<rparr> (Some v) = Inr (like (same_char ign) (step_tokens s) v)"
  proof (cases "ms_is_literal s")
    case False
    then show ?thesis using match_alone [OF ok, of v] v by (simp add: plan_alone_def is_match_def plain_def)
  next
    case lit: True
    show ?thesis
    proof (cases ign)
      case True
      then obtain n where "helper_compare (ms_string s) v False = Inr n"
        "n = 0 \<longleftrightarrow> map to_upper (ms_string s) = map to_upper v"
        using helper_compare_equal [of "ms_string s" v] v p by (auto simp: plain_def)
      then show ?thesis using lit True v literal_exact [OF ok lit, of v]
        by (auto simp: plan_alone_def is_match_def case_exn_def fold_case_def)
    next
      case False
      then show ?thesis using lit v literal_exact [OF ok lit, of v]
        by (auto simp: plan_alone_def is_match_def fold_case_def)
    qed
  qed
qed

lemma iterative_decides:
  assumes ok: "\<And>s. front = Some s \<Longrightarrow> step_ok ign s" "\<And>s. rear = Some s \<Longrightarrow> step_ok ign s"
    "\<And>s. s \<in> set (case middle of None \<Rightarrow> [] | Some ms \<Rightarrow> ms) \<Longrightarrow> step_ok ign s"
  shows "plan_decides (ITERATIVE_EVAL front rear middle (rear = None)) ign
    (front_tokens front @ middle_tokens (case middle of None \<Rightarrow> [] | Some ms \<Rightarrow> ms) @ TMany # front_tokens rear)"
proof (rule plan_decidesI)
  fix v assume v: "plain ign v" "string_is_ascii v" "back_fits (ITERATIVE_EVAL front rear middle (rear = None)) v"
  have "end_length rear \<le> length v"
    using v(3) step_fields(2) [OF ok(2)] by (cases rear) (auto simp: back_fits_def end_length_def ms_length_def)
  from match_iterative_spec [of front ign rear middle v "rear = None", OF ok _ this] v(1,2)
  show "is_match \<lparr>lf_plan = ITERATIVE_EVAL front rear middle (rear = None), lf_ascii = True\<rparr> (Some v) =
    Inr (like (same_char ign) (front_tokens front @ middle_tokens (case middle of None \<Rightarrow> [] | Some ms \<Rightarrow> ms) @
      TMany # front_tokens rear) v)"
    by (simp add: is_match_def plain_def)
qed

lemma steps_decide:
  assumes ok: "steps_ok pat ign steps" and pat: "plain ign pat"
  shows "\<exists>plan. (case plan_simple ign steps of Some plan \<Rightarrow> Inr plan | None \<Rightarrow> plan_iterative steps) = Inr plan \<and>
    plan_decides plan ign (steps_tokens steps)"
proof -
  have alt: "alternating steps" and oks: "\<And>s. Match s \<in> set steps \<Longrightarrow> step_ok ign s"
    using ok by (auto simp: steps_ok_def)
  have p: "plain ign (ms_string s)" if "Match s \<in> set steps" for s
  proof -
    have "set (ms_string s) \<subseteq> set pat" "length (ms_string s) \<le> length pat" using ok that by (simp_all add: steps_ok_def)
    then show ?thesis using pat unfolding plain_def by auto
  qed
  from alt show ?thesis
  proof (cases rule: steps_cases)
    case 1
    have "plan_decides (EXACT_MATCH []) ign []" by (rule plan_decidesI) (auto simp: is_match_def)
    with 1 show ?thesis by (simp add: plan_simple_def)
  next
    case (2 s)
    with alone_decides [of ign s] oks p show ?thesis
      by (cases "plan_alone ign s") (auto simp: plan_simple_def plan_iterative_def)
  next
    case (3 front ms rear)
    show ?thesis
    proof (cases "front = None \<and> ms = [] \<and> rear = None")
      case True
      have "plan_decides ALWAYS_TRUE ign [TMany]" by (rule plan_decidesI) (simp add: is_match_def del: like.simps)
      with True 3 show ?thesis by (simp add: plan_simple_def middle_steps_def)
    next
      case False
      from plan_iterative_parts [OF 3 False] obtain middle where
        it: "plan_iterative steps = Inr (ITERATIVE_EVAL front rear middle (rear = None))"
        and mid: "(case middle of None \<Rightarrow> [] | Some ms \<Rightarrow> ms) = ms" by blast
      have "\<And>s. front = Some s \<Longrightarrow> step_ok ign s" "\<And>s. rear = Some s \<Longrightarrow> step_ok ign s" "\<And>s. s \<in> set ms \<Longrightarrow> step_ok ign s"
        using oks unfolding 3 by simp_all
      then have dec: "plan_decides (ITERATIVE_EVAL front rear middle (rear = None)) ign (steps_tokens steps)"
        using iterative_decides [of front ign rear middle] unfolding mid 3 steps_tokens_parts by blast
      show ?thesis
      proof (cases "plan_simple ign steps")
        case None
        with it dec show ?thesis by simp
      next
        case (Some plan)
        then consider s where "front = Some s" "ms = []" "rear = None" "plan_side ign True s = Some plan"
          | s where "front = None" "ms = []" "rear = Some s" "plan_side ign False s = Some plan"
          | s where "front = None" "ms = [s]" "rear = None" "plan_inside ign s = Some plan"
          using False unfolding 3 plan_simple_def
          by (cases ms; cases "tl ms") (auto simp: optional_def middle_steps_def split: option.splits list.splits like_step.splits)
        then have "plan_decides plan ign (steps_tokens steps)"
        proof cases
          case (1 s)
          with start_decides [of ign s plan] oks p 3 show ?thesis by (simp add: steps_tokens_def middle_steps_def)
        next
          case (2 s)
          with end_decides [of ign s plan] oks p 3 show ?thesis by (simp add: steps_tokens_def middle_steps_def)
        next
          case (3 s)
          with inside_decides [of ign s plan] oks p \<open>steps = _\<close> show ?thesis by (simp add: steps_tokens_def middle_steps_def)
        qed
        with Some show ?thesis by simp
      qed
    qed
  qed
qed

lemma plan_decides_cong:
  "(\<And>v. like (same_char ign) ts v = like (same_char ign) ts' v) \<Longrightarrow> plan_decides plan ign ts = plan_decides plan ign ts'"
  by (simp add: plan_decides_def)

lemma filter_decides:
  assumes p: "plain ign p" and lead: "escapes_lead esc True p"
  shows "case like_tokens esc p of
      None \<Rightarrow> build_plan (Some p) esc ign = Inl IllegalArgumentException
    | Some ts \<Rightarrow> \<exists>plan. build_plan (Some p) esc ign = Inr \<lparr>lf_plan = plan, lf_ascii = True\<rparr> \<and> plan_decides plan ign ts"
proof -
  have a: "ascii p" "length p < npos" and "string_is_ascii p" using p by (simp_all add: plain_def)
  note parse = like_steps_spec [OF a lead, of ign "same_char ign"]
  show ?thesis
  proof (cases "like_tokens esc p")
    case None
    with parse \<open>string_is_ascii p\<close> show ?thesis by (simp add: build_plan_def case_exn_def)
  next
    case (Some ts)
    with parse obtain steps where s: "like_steps p esc ign = Inr steps" "steps_ok p ign steps"
      "\<And>v. like (same_char ign) (steps_tokens steps) v = like (same_char ign) ts v" by auto
    from steps_decide [OF s(2) p] obtain plan where
      plan: "(case plan_simple ign steps of Some plan \<Rightarrow> Inr plan | None \<Rightarrow> plan_iterative steps) = Inr plan"
      "plan_decides plan ign ts"
      using plan_decides_cong [OF s(3)] by blast
    then have "build_plan (Some p) esc ign = Inr \<lparr>lf_plan = plan, lf_ascii = True\<rparr>"
      using s(1) \<open>string_is_ascii p\<close> by (simp add: build_plan_def case_exn_def split: option.splits)
    with plan(2) Some show ?thesis by simp
  qed
qed

end
