(* ===== verification/Like_Properties.thy ===== *)
theory Like_Properties
  imports Like_Parse
begin

text \<open>
  The properties of strings and of the \<^verbatim>\<open>LIKE\<close> filter.
\<close>

text \<open>
  C12: a \<^verbatim>\<open>LikeFilter\<close> decides its pattern.  Take a pattern and a value of ASCII characters, which
  have no NUL if the case is ignored (the plans that ignore it compare C strings) and which are
  not as long as the largest 32-bit number; the escapes of the pattern stand at the start of a
  piece of literal text.  Building the filter fails exactly when the pattern ends in an unclosed
  escape.  Otherwise, whichever of the plans is chosen (comparison of whole strings, of a
  prefix, a suffix or a part, with and without case, or the iterative evaluation of front, back
  and middle steps), evaluating it gives what the pattern means character by character, unless
  the plan has a back step that is longer than the value.
\<close>

theorem like_filter_decides:
  assumes "plain ign p" and "escapes_lead esc True p" and "plain ign v"
  shows "case like_tokens esc p of
      None \<Rightarrow> build_plan (Some p) esc ign = Inl IllegalArgumentException
    | Some ts \<Rightarrow> \<exists>f. build_plan (Some p) esc ign = Inr f \<and>
        (back_fits (lf_plan f) v \<longrightarrow> is_match f (Some v) = Inr (like (same_char ign) ts v))"
  using filter_decides [OF assms(1,2)] assms(3)
  by (fastforce simp: plan_decides_def split: option.splits)

theorem like_filter_decides_witness:
  "\<exists>f. build_plan (Some [0x61, 0x25, 0x62, 0x5F, 0x25, 0x63]) 0x5C True = Inr f \<and>
     (back_fits (lf_plan f) [0x41, 0x42, 0x42, 0x78, 0x63] \<longrightarrow>
       is_match f (Some [0x41, 0x42, 0x42, 0x78, 0x63]) = Inr True)"
proof -
  have p: "plain True [0x61, 0x25, 0x62, 0x5F, 0x25, 0x63]" "plain True [0x41, 0x42, 0x42, 0x78, 0x63]"
    by (simp_all add: plain_def npos_def size_max_def)
  have "escapes_lead 0x5C True [0x61, 0x25, 0x62, 0x5F, 0x25, 0x63]" by simp
  from like_filter_decides [OF p(1) this p(2)]
  have "\<exists>f. build_plan (Some [0x61, 0x25, 0x62, 0x5F, 0x25, 0x63]) 0x5C True = Inr f \<and>
     (back_fits (lf_plan f) [0x41, 0x42, 0x42, 0x78, 0x63] \<longrightarrow>
       is_match f (Some [0x41, 0x42, 0x42, 0x78, 0x63]) =
         Inr (like (same_char True) [TLit 0x61, TMany, TLit 0x62, TOne, TMany, TLit 0x63] [0x41, 0x42, 0x42, 0x78, 0x63]))"
    by simp
  moreover have "like (same_char True) [TLit 0x61, TMany, TLit 0x62, TOne, TMany, TLit 0x63] [0x41, 0x42, 0x42, 0x78, 0x63]"
    by code_simp
  ultimately show ?thesis by simp
qed

text \<open>
  C27: the back step of the iterative evaluation is not checked against the length of the
  value, unlike the front step: when it is longer, and does not begin with wildcards, its offset wraps
  around and the evaluation reads outside the value and throws, instead of the value not
  matching.
\<close>

theorem like_back_step_overrun:
  assumes "step_ok ign s" and "ms_skip_front s = 0" and "length v < ms_length s" and "length v < npos"
  shows "is_match \<lparr>lf_plan = ITERATIVE_EVAL None (Some s) middle trailing, lf_ascii = True\<rparr> (Some v) =
    (if string_is_ascii v then Inl IndexOutOfBoundsException else Inl UnsupportedOperationException)"
proof -
  let ?L = "length (ms_string s)"
  have L: "ms_length s = ?L" "0 < ?L" "?L < npos" using step_fields(2-4) [OF assms(1)] by (simp_all add: ms_length_def)
  let ?o = "size_sub (length v) ?L"
  have o: "?o = length v + size_max - ?L" using L(3) assms(3) L(1) by (simp add: size_sub_def npos_def)
  have fit: "size_sub (length v) ?o = ?L"
    using L(3) assms(3,4) L(1) unfolding o by (simp add: size_sub_def npos_def)
  have big: "length v \<le> ?o" using L(3) unfolding o by (simp add: npos_def)
  have eq: "size_sub (size_add (length v) 0) ?L = ?o" using assms(4) by (simp add: npos_def)
  have add: "size_add ?o 0 = ?o" using o assms(3) L(1) by (simp add: size_max_def)
  have "ms_index_of s v ?o (length v) = Inl IndexOutOfBoundsException"
    using L fit big by (simp add: ms_index_of_def assms(2) add eq Let_def array_at_def case_exn_def)
  then show ?thesis
    by (simp add: is_match_def match_iterative_def match_front_def match_back_def L case_exn_def Let_def)
qed

theorem like_back_step_overrun_witness:
  "is_match \<lparr>lf_plan = ITERATIVE_EVAL None (Some (match_step_create [0x61, 0x5F] (Some (\<lambda>i. i = 1)) False)) None False,
     lf_ascii = True\<rparr> (Some [0x78]) = Inl IndexOutOfBoundsException"
proof -
  let ?s = "match_step_create [0x61, 0x5F] (Some (\<lambda>i. i = 1)) False"
  have "step_ok False ?s"
    unfolding step_ok_def by (intro exI [of _ "[0x61, 0x5F]"] exI [of _ "Some (\<lambda>i. i = 1)"]) (simp add: npos_def size_max_def)
  moreover have "ms_skip_front ?s = 0" by (simp add: match_step_create_def numeral_2_eq_2)
  moreover have "length [0x78::octet_t] < ms_length ?s" by (simp add: match_step_create_def numeral_2_eq_2 ms_length_def)
  moreover have "length [0x78::octet_t] < npos" by (simp add: npos_def size_max_def)
  ultimately show ?thesis using like_back_step_overrun [of False ?s "[0x78]" None False] ascii_is_ascii [of "[0x78]"] by simp
qed

text \<open>
  \<^verbatim>\<open>indexOf\<close> of an ASCII string returns the first position from \<^verbatim>\<open>iBegin\<close> on
  at which the searched string occurs, and \<^verbatim>\<open>npos\<close> exactly when there is none.
\<close>

theorem string_index_of_first:
  assumes "ascii s" and "ascii p" and "length s < npos" and "i + length p < size_max"
  shows "\<exists>k. string_index_of s p i = Inr k \<and>
    (if k = npos then \<forall>j\<ge>i. \<not> occurs_at p s j
     else i \<le> k \<and> occurs_at p s k \<and> (\<forall>j. i \<le> j \<and> j < k \<longrightarrow> \<not> occurs_at p s j))"
proof (cases "i + length p \<le> length s")
  case False
  then have "\<not> occurs_at p s j" if "i \<le> j" for j using that by (simp add: occurs_at_def)
  then show ?thesis using False assms by (simp add: string_index_of_def ascii_length)
next
  case True
  then have "i + (length s - length p + 1 - i) = length s - length p + 1" by simp
  from index_of_string_loop_spec [OF this _ assms(3)] True obtain k where
    "index_of_string_loop (length s - length p + 1 - i) i (drop i (s @ [0])) (p @ [0]) (length p) True = Inr k"
    "if k = npos then \<forall>j. i \<le> j \<longrightarrow> \<not> occurs_at p s j
     else i \<le> k \<and> occurs_at p s k \<and> (\<forall>j. i \<le> j \<and> j < k \<longrightarrow> \<not> occurs_at p s j)" by auto
  then show ?thesis using assms True
    by (auto simp: string_index_of_def ascii_length skip_chars_def case_exn_def raw_octets_def Let_def)
qed

theorem string_index_of_first_witness:
  "\<exists>k. string_index_of [0x61, 0x62, 0x61, 0x62] [0x61, 0x62] 1 = Inr k \<and>
    (if k = npos then \<forall>j\<ge>1. \<not> occurs_at [0x61, 0x62] [0x61, 0x62, 0x61, 0x62] j
     else 1 \<le> k \<and> occurs_at [0x61, 0x62] [0x61, 0x62, 0x61, 0x62] k \<and>
       (\<forall>j. 1 \<le> j \<and> j < k \<longrightarrow> \<not> occurs_at [0x61, 0x62] [0x61, 0x62, 0x61, 0x62] j))"
  by (rule string_index_of_first) (simp_all add: npos_def size_max_def)

end
