(* ===== verification/Map_Index.thy ===== *)
theory Map_Index
  imports Coh_Prelude "HOL-Library.Option_ord"
begin

text \<open>
  \<^verbatim>\<open>SimpleMapIndex\<close> of \<^verbatim>\<open>coherence/util\<close>: for each entry of a map the value an extractor
  takes from it (the forward index), and for each such value the keys of the entries that have
  it (the inverse index), kept up to date by the events of the map.
\<close>

section \<open>Values, extractors and entries\<close>

text \<open>
  What an extractor returns: one object, \<^verbatim>\<open>NULL\<close> included, or a collection or an array of
  objects, which the index takes apart.  The objects are of one \<^verbatim>\<open>Comparable\<close> class; the
  order on \<open>'a option\<close> puts \<^verbatim>\<open>NULL\<close> first, as \<^verbatim>\<open>SafeComparator\<close> does.
\<close>

datatype 'a ixvalue = Single "'a option" | Several "'a option list"

fun elements :: "'a ixvalue \<Rightarrow> 'a option list" where
  "elements (Single c) = [c]"
| "elements (Several cs) = cs"

datatype 'g extractor = KeyExtractor 'g | ValueExtractor 'g

text \<open>The extractors of the application, for keys and for values; they may throw.\<close>

record ('g, 'k, 'x, 'a) app =
  app_extract_key :: "'g \<Rightarrow> 'k \<Rightarrow> exn + 'a ixvalue"
  app_extract_value :: "'g \<Rightarrow> 'x \<Rightarrow> exn + 'a ixvalue"

text \<open>
  An entry with its key, its value, its original value (where it has one), and whether it is
  a \<^verbatim>\<open>MapTrigger::Entry\<close>, which knows of an original value at all.
\<close>

record ('k, 'x) ix_entry =
  en_key :: 'k
  en_value :: 'x
  en_original :: "'x option"
  en_trigger :: bool

definition extract_from_entry ::
  "('g, 'k, 'x, 'a) app \<Rightarrow> 'g extractor \<Rightarrow> 'k \<Rightarrow> 'x \<Rightarrow> exn + 'a ixvalue" where
  "extract_from_entry app e k x =
     (case e of KeyExtractor g \<Rightarrow> app_extract_key app g k | ValueExtractor g \<Rightarrow> app_extract_value app g x)"

definition extract_original_from_entry ::
  "('g, 'k, 'x, 'a) app \<Rightarrow> 'g extractor \<Rightarrow> ('k, 'x) ix_entry \<Rightarrow> exn + 'a ixvalue" where
  "extract_original_from_entry app e en =
     (case e of
        KeyExtractor g \<Rightarrow> app_extract_key app g (en_key en)
      | ValueExtractor g \<Rightarrow>
          (case en_original en of Some x \<Rightarrow> app_extract_value app g x | None \<Rightarrow> Inr (Single None)))"

section \<open>The contents of an index\<close>

text \<open>
  The inverse index is a \<^verbatim>\<open>SafeHashMap\<close> or, when it is ordered, a \<^verbatim>\<open>TreeMap\<close>: the list of
  its entries in the order of iteration, which is the order of insertion for the hash map.
\<close>

type_synonym ('a, 'k) contents = "('a option \<times> 'k set) list"

fun im_insert :: "'a::linorder option \<Rightarrow> 'k set \<Rightarrow> ('a, 'k) contents \<Rightarrow> ('a, 'k) contents" where
  "im_insert c s [] = [(c, s)]"
| "im_insert c s ((d, t) # m) = (if c < d then (c, s) # (d, t) # m else (d, t) # im_insert c s m)"

fun im_replace :: "'a option \<Rightarrow> 'k set \<Rightarrow> ('a, 'k) contents \<Rightarrow> ('a, 'k) contents" where
  "im_replace c s [] = []"
| "im_replace c s ((d, t) # m) = (if c = d then (d, s) # m else (d, t) # im_replace c s m)"

definition im_put :: "bool \<Rightarrow> 'a::linorder option \<Rightarrow> 'k set \<Rightarrow> ('a, 'k) contents \<Rightarrow> ('a, 'k) contents" where
  "im_put fOrdered c s m =
     (if map_of m c \<noteq> None then im_replace c s m else if fOrdered then im_insert c s m else m @ [(c, s)])"

definition im_remove :: "'a option \<Rightarrow> ('a, 'k) contents \<Rightarrow> ('a, 'k) contents" where
  "im_remove c m = filter (\<lambda>(d, t). d \<noteq> c) m"

record ('g, 'k, 'a) map_index =
  ix_extractor :: "'g extractor"
  ix_ordered :: bool
  ix_forward :: "'k \<Rightarrow> 'a ixvalue option"
  ix_inverse :: "('a, 'k) contents"
  ix_excluded :: "'k set"

definition ix_immutable :: "('g, 'k, 'a) map_index \<Rightarrow> bool" where
  "ix_immutable ix = (case ix_extractor ix of KeyExtractor g \<Rightarrow> True | ValueExtractor g \<Rightarrow> False)"

definition map_index_create :: "'g extractor \<Rightarrow> bool \<Rightarrow> ('g, 'k, 'a) map_index" where
  "map_index_create e fOrdered =
     \<lparr>ix_extractor = e, ix_ordered = fOrdered, ix_forward = (\<lambda>_. None), ix_inverse = [], ix_excluded = {}\<rparr>"

definition ix_is_partial :: "('g, 'k, 'a) map_index \<Rightarrow> bool" where
  "ix_is_partial ix \<longleftrightarrow> ix_excluded ix \<noteq> {}"

definition ix_is_key_excluded :: "'k \<Rightarrow> ('g, 'k, 'a) map_index \<Rightarrow> bool" where
  "ix_is_key_excluded k ix \<longleftrightarrow> k \<in> ix_excluded ix"

definition ix_update_excluded :: "'k \<Rightarrow> bool \<Rightarrow> ('g, 'k, 'a) map_index \<Rightarrow> ('g, 'k, 'a) map_index" where
  "ix_update_excluded k fExclude ix =
     (if fExclude then ix\<lparr>ix_excluded := insert k (ix_excluded ix)\<rparr>
      else if ix_is_partial ix then ix\<lparr>ix_excluded := ix_excluded ix - {k}\<rparr>
      else ix)"

section \<open>Extracting\<close>

text \<open>\<^const>\<open>None\<close> stands for the value \<^verbatim>\<open>no_value\<close>: the extraction has thrown.\<close>

definition ix_extract_new ::
  "('g, 'k, 'x, 'a) app \<Rightarrow> ('g, 'k, 'a) map_index \<Rightarrow> ('k, 'x) ix_entry \<Rightarrow> 'a ixvalue option" where
  "ix_extract_new app ix en =
     (case extract_from_entry app (ix_extractor ix) (en_key en) (en_value en) of Inl e \<Rightarrow> None | Inr v \<Rightarrow> Some v)"

definition ix_extract_old ::
  "('g, 'k, 'x, 'a) app \<Rightarrow> ('g, 'k, 'a) map_index \<Rightarrow> ('k, 'x) ix_entry \<Rightarrow> 'a ixvalue option" where
  "ix_extract_old app ix en =
     (case extract_original_from_entry app (ix_extractor ix) en of Inl e \<Rightarrow> None | Inr v \<Rightarrow> Some v)"

definition ensure_collection :: "'a ixvalue option \<Rightarrow> 'a option list" where
  "ensure_collection v = (case v of None \<Rightarrow> [] | Some (Single c) \<Rightarrow> [c] | Some (Several cs) \<Rightarrow> cs)"

definition collect_removed :: "'a option list \<Rightarrow> 'a ixvalue option \<Rightarrow> 'a option list" where
  "collect_removed old new = filter (\<lambda>c. c \<notin> set (ensure_collection new)) old"

section \<open>The inverse index\<close>

definition add_inverse_element ::
  "'k \<Rightarrow> 'a::linorder option \<Rightarrow> ('g, 'k, 'a) map_index \<Rightarrow> ('g, 'k, 'a) map_index" where
  "add_inverse_element k c ix =
     ix\<lparr>ix_inverse := im_put (ix_ordered ix) c
       (insert k (case map_of (ix_inverse ix) c of None \<Rightarrow> {} | Some s \<Rightarrow> s)) (ix_inverse ix)\<rparr>"

text \<open>
  The value that is returned for the forward index is equal to the one added: looking for an
  equal object that is there already only saves memory.
\<close>

definition add_inverse_mapping ::
  "'a::linorder ixvalue \<Rightarrow> 'k \<Rightarrow> ('g, 'k, 'a) map_index \<Rightarrow> ('g, 'k, 'a) map_index" where
  "add_inverse_mapping v k ix =
     (case v of
        Several cs \<Rightarrow> fold (add_inverse_element k) cs ix
      | Single c \<Rightarrow> add_inverse_element k c ix)"

definition remove_inverse_element ::
  "'k \<Rightarrow> 'a::linorder option \<Rightarrow> ('g, 'k, 'a) map_index \<Rightarrow> ('g, 'k, 'a) map_index" where
  "remove_inverse_element k c ix =
     (case map_of (ix_inverse ix) c of
        None \<Rightarrow> ix
      | Some s \<Rightarrow>
          ix\<lparr>ix_inverse := (if s - {k} = {} then im_remove c (ix_inverse ix)
                            else im_put (ix_ordered ix) c (s - {k}) (ix_inverse ix))\<rparr>)"

text \<open>
  \<^verbatim>\<open>no_value\<close> itself is looked up for a key that is excluded.  A hash map does not have it;
  the \<^verbatim>\<open>TreeMap\<close> of an ordered index compares it with its keys, and it is no
  \<^verbatim>\<open>Comparable\<close>, unless there is no key but \<^verbatim>\<open>NULL\<close>.
\<close>

definition get_no_value_throws :: "('g, 'k, 'a) map_index \<Rightarrow> bool" where
  "get_no_value_throws ix \<longleftrightarrow> ix_ordered ix \<and> list_ex (\<lambda>(c, s). c \<noteq> None) (ix_inverse ix)"

definition remove_inverse_mapping ::
  "'a::linorder ixvalue option \<Rightarrow> 'k \<Rightarrow> 'a option list \<Rightarrow> (('g, 'k, 'a) map_index, unit) comp" where
  "remove_inverse_mapping v k vColIgnore ix =
     (case v of
        None \<Rightarrow>
          if \<not> ix_is_key_excluded k ix
          then (Inr (), fold (remove_inverse_element k) (map fst (ix_inverse ix)) ix)
          else if get_no_value_throws ix then (Inl ClassCastException, ix)
          else (Inr (), ix)
      | Some (Several cs) \<Rightarrow> (Inr (), fold (remove_inverse_element k) (filter (\<lambda>c. c \<notin> set vColIgnore) cs) ix)
      | Some (Single c) \<Rightarrow> (Inr (), remove_inverse_element k c ix))"

section \<open>Events of the map\<close>

definition ix_insert_internal ::
  "('g, 'k, 'x, 'a::linorder) app \<Rightarrow> ('k, 'x) ix_entry \<Rightarrow> ('g, 'k, 'a) map_index \<Rightarrow> ('g, 'k, 'a) map_index" where
  "ix_insert_internal app en ix =
     (let k = en_key en in
      case ix_extract_new app ix en of
        None \<Rightarrow> ix_update_excluded k True ix
      | Some v \<Rightarrow> (add_inverse_mapping v k ix)\<lparr>ix_forward := (ix_forward ix)(k \<mapsto> v)\<rparr>)"

text \<open>Nothing in an insertion throws, once the exception of the extractor is caught.\<close>

definition ix_insert ::
  "('g, 'k, 'x, 'a::linorder) app \<Rightarrow> ('k, 'x) ix_entry \<Rightarrow> (('g, 'k, 'a) map_index, unit) comp" where
  "ix_insert app en ix = (Inr (), ix_insert_internal app en ix)"

definition ix_update_internal ::
  "('g, 'k, 'x, 'a::linorder) app \<Rightarrow> ('k, 'x) ix_entry \<Rightarrow> (('g, 'k, 'a) map_index, unit) comp" where
  "ix_update_internal app en ix =
     (let k = en_key en;
          new = ix_extract_new app ix en;
          fwd = ix_forward ix k
      in if fwd = None \<and> \<not> en_trigger en then (Inl IllegalStateException, ix)
         else
           let old = (case fwd of None \<Rightarrow> ix_extract_old app ix en | Some v \<Rightarrow> Some v) in
           if old = new then (Inr (), ix)
           else
             case (case old of
                     None \<Rightarrow> remove_inverse_mapping None k (ensure_collection new) ix
                   | Some (Several cs) \<Rightarrow>
                       remove_inverse_mapping (Some (Several (collect_removed cs new))) k [] ix
                   | Some (Single c) \<Rightarrow> remove_inverse_mapping (Some (Single c)) k [] ix) of
               (Inl e, ix) \<Rightarrow> (Inl e, ix)
             | (Inr _, ix) \<Rightarrow>
                 case new of
                   None \<Rightarrow>
                     (Inr (), ix_update_excluded k True
                        (if fwd \<noteq> None then ix\<lparr>ix_forward := (ix_forward ix)(k := None)\<rparr> else ix))
                 | Some v \<Rightarrow>
                     (Inr (), ix_update_excluded k False
                        ((add_inverse_mapping v k ix)\<lparr>ix_forward := (ix_forward ix)(k \<mapsto> v)\<rparr>)))"

definition ix_update ::
  "('g, 'k, 'x, 'a::linorder) app \<Rightarrow> ('k, 'x) ix_entry \<Rightarrow> (('g, 'k, 'a) map_index, unit) comp" where
  "ix_update app en ix =
     (if ix_immutable ix then (Inr (), ix)
      else case ix_update_internal app en ix of
        (Inr _, ix) \<Rightarrow> (Inr (), ix_update_excluded (en_key en) False ix)
      | (Inl e, ix) \<Rightarrow> (Inl e, ix_update_excluded (en_key en) True ix))"

definition ix_remove ::
  "('k, 'x) ix_entry \<Rightarrow> ('g, 'k, 'a::linorder) map_index \<Rightarrow> ('g, 'k, 'a) map_index" where
  "ix_remove en ix =
     (let k = en_key en;
          old = (case ix_forward ix k of None \<Rightarrow> Single None | Some v \<Rightarrow> v);
          ix = ix\<lparr>ix_forward := (ix_forward ix)(k := None)\<rparr>
      in ix_update_excluded k False (snd (remove_inverse_mapping (Some old) k [] ix)))"

text \<open>The entries that the events of a map hand to its indexes, and building an index.\<close>

definition entry_inserted ::
  "('g, 'k, 'x, 'a::linorder) app \<Rightarrow> 'k \<Rightarrow> 'x \<Rightarrow> (('g, 'k, 'a) map_index, unit) comp" where
  "entry_inserted app k new = ix_insert app \<lparr>en_key = k, en_value = new, en_original = None, en_trigger = True\<rparr>"

definition entry_updated ::
  "('g, 'k, 'x, 'a::linorder) app \<Rightarrow> 'k \<Rightarrow> 'x option \<Rightarrow> 'x \<Rightarrow> (('g, 'k, 'a) map_index, unit) comp" where
  "entry_updated app k old new =
     ix_update app \<lparr>en_key = k, en_value = new, en_original = old, en_trigger = True\<rparr>"

definition entry_deleted :: "'k \<Rightarrow> 'x \<Rightarrow> ('g, 'k, 'a::linorder) map_index \<Rightarrow> ('g, 'k, 'a) map_index" where
  "entry_deleted k old = ix_remove \<lparr>en_key = k, en_value = old, en_original = Some old, en_trigger = True\<rparr>"

fun index_entries ::
  "('g, 'k, 'x, 'a::linorder) app \<Rightarrow> ('k \<times> 'x) list \<Rightarrow> ('g, 'k, 'a) map_index \<Rightarrow> ('g, 'k, 'a) map_index" where
  "index_entries app [] ix = ix"
| "index_entries app ((k, x) # es) ix =
     index_entries app es (snd (ix_insert app \<lparr>en_key = k, en_value = x, en_original = None, en_trigger = False\<rparr> ix))"

section \<open>Keys by value\<close>

text \<open>
  What the index relies on in the two kinds of maps: the law of \<^verbatim>\<open>put\<close> and of
  \<^verbatim>\<open>remove\<close>, and that they keep the order of iteration.
\<close>

locale inverse_contents =
  fixes contents_ok :: "('a option \<times> 'k set) list \<Rightarrow> bool"
    and put :: "'a option \<Rightarrow> 'k set \<Rightarrow> ('a option \<times> 'k set) list \<Rightarrow> ('a option \<times> 'k set) list"
    and remove :: "'a option \<Rightarrow> ('a option \<times> 'k set) list \<Rightarrow> ('a option \<times> 'k set) list"
  assumes empty_ok: "contents_ok []"
    and put_ok: "contents_ok m \<Longrightarrow> contents_ok (put c s m)"
    and put_get: "contents_ok m \<Longrightarrow> map_of (put c s m) = (map_of m)(c \<mapsto> s)"
    and remove_ok: "contents_ok m \<Longrightarrow> contents_ok (remove c m)"
    and remove_get: "contents_ok m \<Longrightarrow> map_of (remove c m) = (map_of m)(c := None)"
begin

definition keys :: "('a option \<times> 'k set) list \<Rightarrow> 'a option \<Rightarrow> 'k set" where
  "keys m c = (case map_of m c of None \<Rightarrow> {} | Some s \<Rightarrow> s)"

definition good :: "('a option \<times> 'k set) list \<Rightarrow> bool" where
  "good m \<longleftrightarrow> contents_ok m \<and> (\<forall>c. map_of m c \<noteq> Some {})"

definition add :: "'k \<Rightarrow> 'a option \<Rightarrow> ('a option \<times> 'k set) list \<Rightarrow> ('a option \<times> 'k set) list" where
  "add k c m = put c (insert k (case map_of m c of None \<Rightarrow> {} | Some s \<Rightarrow> s)) m"

definition del :: "'k \<Rightarrow> 'a option \<Rightarrow> ('a option \<times> 'k set) list \<Rightarrow> ('a option \<times> 'k set) list" where
  "del k c m = (case map_of m c of None \<Rightarrow> m | Some s \<Rightarrow> if s - {k} = {} then remove c m else put c (s - {k}) m)"

lemma add_law:
  assumes "good m"
  shows "good (add k c m)" and "keys (add k c m) d = keys m d \<union> (if d = c then {k} else {})"
  using assms put_ok [of m c] put_get [of m c]
  by (auto simp: good_def add_def keys_def split: option.splits)

lemma del_law:
  assumes "good m"
  shows "good (del k c m)" and "keys (del k c m) d = keys m d - (if d = c then {k} else {})"
  using assms put_ok [of m c] put_get [of m c] remove_ok [of m c] remove_get [of m c]
  by (auto simp: good_def del_def keys_def split: option.splits)

lemma fold_add_law:
  "good m \<Longrightarrow> good (fold (add k) cs m) \<and> keys (fold (add k) cs m) d = keys m d \<union> (if d \<in> set cs then {k} else {})"
  by (induction cs arbitrary: m) (auto simp: add_law)

lemma fold_del_law:
  "good m \<Longrightarrow> good (fold (del k) cs m) \<and> keys (fold (del k) cs m) d = keys m d - (if d \<in> set cs then {k} else {})"
  by (induction cs arbitrary: m) (auto simp: del_law)

end

definition contents_ok :: "bool \<Rightarrow> ('a::linorder, 'k) contents \<Rightarrow> bool" where
  "contents_ok fOrdered m \<longleftrightarrow> distinct (map fst m) \<and> (fOrdered \<longrightarrow> sorted (map fst m))"

lemma im_insert_keys: "set (map fst (im_insert c s m)) = insert c (set (map fst m))"
  by (induction c s m rule: im_insert.induct) auto

lemma im_insert_ok:
  "c \<notin> set (map fst m) \<Longrightarrow> distinct (map fst m) \<Longrightarrow> sorted (map fst m) \<Longrightarrow>
   distinct (map fst (im_insert c s m)) \<and> sorted (map fst (im_insert c s m)) \<and>
   map_of (im_insert c s m) = (map_of m)(c \<mapsto> s)"
proof (induction c s m rule: im_insert.induct)
  case (2 c s d t m)
  show ?case
  proof (cases "c < d")
    case True
    with 2 show ?thesis by (auto simp: fun_eq_iff)
  next
    case False
    with 2 im_insert_keys [of c s m] show ?thesis by (auto simp: fun_eq_iff)
  qed
qed auto

lemma im_replace_keys: "map fst (im_replace c s m) = map fst m"
  by (induction c s m rule: im_replace.induct) auto

lemma im_replace_get: "map_of m c \<noteq> None \<Longrightarrow> map_of (im_replace c s m) = (map_of m)(c \<mapsto> s)"
  by (induction c s m rule: im_replace.induct) (auto simp: fun_eq_iff)

interpretation inverse: inverse_contents "contents_ok fOrdered" "im_put fOrdered" im_remove for fOrdered
proof
  fix m :: "('a, 'k) contents" and c :: "'a option" and s :: "'k set"
  assume ok: "contents_ok fOrdered m"
  have keys: "map_of m c \<noteq> None \<longleftrightarrow> c \<in> set (map fst m)" by (simp add: map_of_eq_None_iff)
  show "contents_ok fOrdered (im_put fOrdered c s m)"
    using ok keys im_insert_ok [of c m s] by (auto simp: contents_ok_def im_put_def im_replace_keys)
  show "map_of (im_put fOrdered c s m) = (map_of m)(c \<mapsto> s)"
  proof (cases "map_of m c = None")
    case True
    have "map_of (m @ [(c, s)]) = (map_of m)(c \<mapsto> s)" using True by (auto simp: fun_eq_iff map_add_def split: option.splits)
    with True ok keys im_insert_ok [of c m s] show ?thesis by (auto simp: contents_ok_def im_put_def)
  next
    case False
    then show ?thesis using im_replace_get by (auto simp: im_put_def)
  qed
  have "map fst (im_remove c m) = filter (\<lambda>d. d \<noteq> c) (map fst m)"
    by (induction m) (auto simp: im_remove_def)
  then show "contents_ok fOrdered (im_remove c m)"
    using ok by (auto simp: contents_ok_def sorted_filter [of id, simplified])
  show "map_of (im_remove c m) = (map_of m)(c := None)"
    by (induction m) (auto simp: im_remove_def fun_eq_iff)
qed (simp add: contents_ok_def)

section \<open>The invariant of an index\<close>

text \<open>
  The index describes the map \<open>m\<close>: the forward index has the extracted values, the keys
  whose entries cannot be extracted are excluded, and the inverse index has for each object
  the keys of the entries that have it.
\<close>

definition ix_value :: "('g, 'k, 'x, 'a) app \<Rightarrow> 'g extractor \<Rightarrow> ('k \<Rightarrow> 'x option) \<Rightarrow> 'k \<Rightarrow> 'a ixvalue option" where
  "ix_value app e m k =
     (case m k of
        None \<Rightarrow> None
      | Some x \<Rightarrow> (case extract_from_entry app e k x of Inl _ \<Rightarrow> None | Inr v \<Rightarrow> Some v))"

definition keys_with :: "('k \<Rightarrow> 'a ixvalue option) \<Rightarrow> 'a option \<Rightarrow> 'k set" where
  "keys_with fwd c = {k. \<exists>v. fwd k = Some v \<and> c \<in> set (elements v)}"

definition ix_ok :: "('g, 'k, 'x, 'a::linorder) app \<Rightarrow> ('k \<Rightarrow> 'x option) \<Rightarrow> ('g, 'k, 'a) map_index \<Rightarrow> bool" where
  "ix_ok app m ix \<longleftrightarrow>
     ix_forward ix = ix_value app (ix_extractor ix) m \<and>
     ix_excluded ix = {k \<in> dom m. ix_value app (ix_extractor ix) m k = None} \<and>
     inverse.good (ix_ordered ix) (ix_inverse ix) \<and>
     (\<forall>c. inverse.keys (ix_inverse ix) c = keys_with (ix_forward ix) c)"

lemma ix_update_excluded_set:
  "ix_excluded (ix_update_excluded k f ix) = (if f then insert k (ix_excluded ix) else ix_excluded ix - {k})"
  by (auto simp: ix_update_excluded_def ix_is_partial_def)

lemma ix_update_excluded_twice [simp]:
  "ix_update_excluded k False (ix_update_excluded k False ix) = ix_update_excluded k False ix"
  by (simp add: ix_update_excluded_def ix_is_partial_def)

lemma ix_update_excluded_fields [simp]:
  "ix_extractor (ix_update_excluded k f ix) = ix_extractor ix"
  "ix_ordered (ix_update_excluded k f ix) = ix_ordered ix"
  "ix_forward (ix_update_excluded k f ix) = ix_forward ix"
  "ix_inverse (ix_update_excluded k f ix) = ix_inverse ix"
  by (simp_all add: ix_update_excluded_def)

text \<open>The operations on the inverse index change nothing else.\<close>

definition with_inverse :: "('g, 'k, 'a) map_index \<Rightarrow> ('a, 'k) contents \<Rightarrow> ('g, 'k, 'a) map_index" where
  "with_inverse ix c = ix\<lparr>ix_inverse := c\<rparr>"

lemma with_inverse_fields [simp]:
  "ix_extractor (with_inverse ix c) = ix_extractor ix" "ix_ordered (with_inverse ix c) = ix_ordered ix"
  "ix_forward (with_inverse ix c) = ix_forward ix" "ix_inverse (with_inverse ix c) = c"
  "ix_excluded (with_inverse ix c) = ix_excluded ix" "with_inverse (with_inverse ix c) d = with_inverse ix d"
  by (simp_all add: with_inverse_def)

lemma with_inverse_same: "with_inverse ix (ix_inverse ix) = ix"
  by (simp add: with_inverse_def)

lemma add_inverse_element_eq:
  "add_inverse_element k c ix = with_inverse ix (inverse.add (ix_ordered ix) k c (ix_inverse ix))"
  by (simp add: add_inverse_element_def with_inverse_def inverse.add_def)

lemma fold_add_inverse:
  "fold (add_inverse_element k) cs ix = with_inverse ix (fold (inverse.add (ix_ordered ix) k) cs (ix_inverse ix))"
  by (induction cs arbitrary: ix) (simp_all add: with_inverse_same add_inverse_element_eq)

lemma remove_inverse_element_eq:
  "remove_inverse_element k c ix = with_inverse ix (inverse.del (ix_ordered ix) k c (ix_inverse ix))"
  by (auto simp: remove_inverse_element_def with_inverse_def inverse.del_def split: option.split)

lemma fold_remove_inverse:
  "fold (remove_inverse_element k) cs ix = with_inverse ix (fold (inverse.del (ix_ordered ix) k) cs (ix_inverse ix))"
  by (induction cs arbitrary: ix) (simp_all add: with_inverse_same remove_inverse_element_eq)

lemma add_inverse_mapping_eq:
  "add_inverse_mapping v k ix = with_inverse ix (fold (inverse.add (ix_ordered ix) k) (elements v) (ix_inverse ix))"
  by (cases v) (simp_all add: add_inverse_mapping_def fold_add_inverse add_inverse_element_eq)

lemma remove_inverse_mapping_eq:
  "remove_inverse_mapping (Some v) k [] ix =
     (Inr (), with_inverse ix (fold (inverse.del (ix_ordered ix) k) (elements v) (ix_inverse ix)))"
  by (cases v) (simp_all add: remove_inverse_mapping_def fold_remove_inverse remove_inverse_element_eq)

lemma remove_inverse_fields [simp]:
  "ix_excluded (snd (remove_inverse_mapping v k ds ix)) = ix_excluded ix"
  "ix_forward (snd (remove_inverse_mapping v k ds ix)) = ix_forward ix"
  by (simp_all add: remove_inverse_mapping_def fold_remove_inverse remove_inverse_element_eq split: option.split ixvalue.split)

lemma ix_create_ok: "ix_ok app Map.empty (map_index_create e fOrdered)"
  by (auto simp: ix_ok_def map_index_create_def ix_value_def inverse.good_def inverse.keys_def keys_with_def
      inverse.empty_ok fun_eq_iff)

lemma keys_with_upd:
  "keys_with (fwd(k \<mapsto> v)) c = keys_with fwd c - {k} \<union> (if c \<in> set (elements v) then {k} else {})"
  "keys_with (fwd(k := None)) c = keys_with fwd c - {k}"
  by (auto simp: keys_with_def split: if_splits)

lemma keys_with_fresh: "fwd k = None \<Longrightarrow> k \<notin> keys_with fwd c"
  by (simp add: keys_with_def)

lemma ix_extract_new_value: "m (en_key en) = Some (en_value en) \<Longrightarrow>
    ix_extract_new app ix en = ix_value app (ix_extractor ix) m (en_key en)"
  by (simp add: ix_extract_new_def ix_value_def)

lemma ix_value_upd: "k' \<noteq> k \<Longrightarrow> ix_value app e (m(k \<mapsto> x)) k' = ix_value app e m k'"
  "k' \<noteq> k \<Longrightarrow> ix_value app e (m(k := None)) k' = ix_value app e m k'"
  by (simp_all add: ix_value_def)

lemma excluded_upd:
  assumes "\<And>k. k \<noteq> a \<Longrightarrow> g k = f k" and "g a \<noteq> None"
  shows "{k \<in> dom m. f k = None} - {a} = {k \<in> dom (m(a \<mapsto> x)). g k = None}"
proof (rule set_eqI)
  fix k show "k \<in> {k \<in> dom m. f k = None} - {a} \<longleftrightarrow> k \<in> {k \<in> dom (m(a \<mapsto> x)). g k = None}"
    using assms by (cases "k = a") auto
qed

lemma ix_insert_ok:
  assumes ok: "ix_ok app m ix" and new: "m (en_key en) = None"
  shows "ix_ok app (m(en_key en \<mapsto> en_value en)) (snd (ix_insert app en ix))"
proof -
  let ?k = "en_key en" and ?m = "m(en_key en \<mapsto> en_value en)" and ?e = "ix_extractor ix"
  have fresh: "ix_forward ix ?k = None" using ok new by (simp add: ix_ok_def ix_value_def)
  have v: "ix_extract_new app ix en = ix_value app ?e ?m ?k" by (rule ix_extract_new_value) simp
  have same: "ix_value app ?e ?m k = ix_value app ?e m k" if "k \<noteq> ?k" for k using that by (rule ix_value_upd)
  show ?thesis
  proof (cases "ix_value app ?e ?m ?k")
    case None
    have "ix_value app ?e ?m k = ix_value app ?e m k" for k
      using same [of k] fresh None ok by (cases "k = ?k") (simp_all add: ix_ok_def)
    then have "ix_value app ?e ?m = ix_value app ?e m" by (rule ext)
    with ok v None show ?thesis
      by (auto simp: ix_insert_def ix_insert_internal_def ix_ok_def ix_update_excluded_set Let_def)
  next
    case (Some v')
    have fwd: "(ix_forward ix)(?k \<mapsto> v') = ix_value app ?e ?m"
      using same Some ok by (auto simp: fun_eq_iff ix_ok_def)
    have "inverse.good (ix_ordered ix) (ix_inverse ix)" using ok by (simp add: ix_ok_def)
    note law = inverse.fold_add_law [OF this, of ?k "elements v'"]
    have "ix_excluded ix - {?k} = {k \<in> dom ?m. ix_value app ?e ?m k = None}"
      using excluded_upd [of ?k "ix_value app ?e ?m" "ix_value app ?e m" m, OF same] Some ok by (simp add: ix_ok_def)
    moreover have "?k \<notin> ix_excluded ix" using ok new by (auto simp: ix_ok_def)
    ultimately have ex: "ix_excluded ix = {k \<in> dom ?m. ix_value app ?e ?m k = None}" by simp
    have "keys_with (ix_value app ?e ?m) c = keys_with (ix_forward ix) c \<union> (if c \<in> set (elements v') then {?k} else {})" for c
      unfolding fwd [symmetric] keys_with_upd using keys_with_fresh [of "ix_forward ix" ?k, OF fresh] by auto
    with law fwd ex ok show ?thesis unfolding ix_insert_def ix_insert_internal_def Let_def v Some
      by (simp add: ix_ok_def add_inverse_mapping_eq)
  qed
qed

lemma ix_remove_ok:
  assumes ok: "ix_ok app m ix"
  shows "ix_ok app (m(en_key en := None)) (ix_remove en ix)"
proof -
  let ?k = "en_key en" and ?m = "m(en_key en := None)" and ?e = "ix_extractor ix"
  let ?old = "case ix_forward ix (en_key en) of None \<Rightarrow> Single None | Some v \<Rightarrow> v"
  have same: "ix_value app ?e ?m k = ix_value app ?e m k" if "k \<noteq> ?k" for k using that by (rule ix_value_upd)
  have fwd: "(ix_forward ix)(?k := None) = ix_value app ?e ?m"
    using same ok by (auto simp: fun_eq_iff ix_ok_def ix_value_def)
  have ex: "ix_excluded ix - {?k} = {k \<in> dom ?m. ix_value app ?e ?m k = None}"
    using ok same by (auto simp: ix_ok_def)
  have "inverse.good (ix_ordered ix) (ix_inverse ix)" using ok by (simp add: ix_ok_def)
  note law = inverse.fold_del_law [OF this, of ?k "elements ?old"]
  have "keys_with (ix_forward ix) c - (if c \<in> set (elements ?old) then {?k} else {}) = keys_with (ix_forward ix) c - {?k}" for c
    by (auto simp: keys_with_def)
  moreover have "keys_with (ix_value app ?e ?m) c = keys_with (ix_forward ix) c - {?k}" for c
    unfolding fwd [symmetric] by (rule keys_with_upd)
  ultimately show ?thesis using law ok fwd ex
    unfolding ix_remove_def Let_def remove_inverse_mapping_eq snd_conv
    by (simp add: ix_ok_def ix_update_excluded_set keys_with_upd)
qed

lemma ix_update_ok:
  assumes ok: "ix_ok app m ix" and old: "m (en_key en) = Some x0"
    and orig: "en_trigger en" "en_original en = Some x0 \<or> ix_forward ix (en_key en) \<noteq> None"
    and new: "ix_value app (ix_extractor ix) (m(en_key en \<mapsto> en_value en)) (en_key en) \<noteq> None"
    and known: "ix_value app (ix_extractor ix) m (en_key en) \<noteq> None \<or> \<not> get_no_value_throws ix"
  shows "fst (ix_update app en ix) = Inr ()"
    and "ix_ok app (m(en_key en \<mapsto> en_value en)) (snd (ix_update app en ix))"
proof -
  let ?k = "en_key en" and ?m = "m(en_key en \<mapsto> en_value en)" and ?e = "ix_extractor ix"
  have same: "ix_value app ?e ?m k = ix_value app ?e m k" if "k \<noteq> ?k" for k using that by (rule ix_value_upd)
  have "fst (ix_update app en ix) = Inr () \<and> ix_ok app ?m (snd (ix_update app en ix))"
  proof (cases "ix_immutable ix")
    case True
    then obtain g where e: "?e = KeyExtractor g" by (auto simp: ix_immutable_def split: extractor.splits)
    have "ix_value app ?e ?m ?k = ix_value app ?e m ?k"
      using old by (simp add: e ix_value_def extract_from_entry_def)
    with same have "ix_value app ?e ?m k = ix_value app ?e m k" for k by (cases "k = ?k") simp_all
    then have "ix_value app ?e ?m = ix_value app ?e m" by (rule ext)
    then show ?thesis using ok old True by (auto simp: ix_update_def ix_ok_def)
  next
    case mutable: False
    obtain v where v: "ix_value app ?e ?m ?k = Some v" using new by blast
    have nw: "ix_extract_new app ix en = Some v" using ix_extract_new_value [of ?m en app ix] v by simp
    let ?old = "case ix_forward ix ?k of None \<Rightarrow> ix_extract_old app ix en | Some v \<Rightarrow> Some v"
    have fk: "ix_forward ix ?k = ix_value app ?e m ?k" using ok by (simp add: ix_ok_def)
    have oldv: "?old = ix_value app ?e m ?k"
      using orig old fk mutable
      by (auto simp: ix_value_def ix_extract_old_def extract_original_from_entry_def extract_from_entry_def
          ix_immutable_def split: option.splits sum.splits extractor.splits)
    have fwd: "(ix_forward ix)(?k \<mapsto> v) = ix_value app ?e ?m"
    proof (rule ext)
      fix k show "((ix_forward ix)(?k \<mapsto> v)) k = ix_value app ?e ?m k"
        using v same [of k] ok by (cases "k = ?k") (simp_all add: ix_ok_def)
    qed
    have ex: "ix_excluded ix - {?k} = {k \<in> dom ?m. ix_value app ?e ?m k = None}"
      using excluded_upd [of ?k "ix_value app ?e ?m" "ix_value app ?e m" m, OF same] v ok by (simp add: ix_ok_def)
    have good: "inverse.good (ix_ordered ix) (ix_inverse ix)" using ok by (simp add: ix_ok_def)
    show ?thesis
    proof (cases "ix_value app ?e m ?k = Some v")
      case True
      have "(ix_forward ix)(?k \<mapsto> v) = ix_forward ix" using fk True by (simp add: fun_upd_idem)
      with True ok fwd ex nw oldv mutable orig(1) show ?thesis
        by (simp add: ix_update_def ix_update_internal_def Let_def ix_ok_def ix_update_excluded_set)
    next
      case False
      define removed where "removed = (case ix_value app ?e m ?k of
          None \<Rightarrow> remove_inverse_mapping None ?k (ensure_collection (Some v)) ix
        | Some (Several cs) \<Rightarrow> remove_inverse_mapping (Some (Several (collect_removed cs (Some v)))) ?k [] ix
        | Some (Single c) \<Rightarrow> remove_inverse_mapping (Some (Single c)) ?k [] ix)"
      have ret: "fst removed = Inr ()"
        using known ok old
        by (auto simp: removed_def remove_inverse_mapping_def split: option.split ixvalue.split)
      have upd: "ix_update app en ix = (Inr (), ix_update_excluded ?k False (ix_update_excluded ?k False
        ((add_inverse_mapping v ?k (snd removed))\<lparr>ix_forward := (ix_forward (snd removed))(?k \<mapsto> v)\<rparr>)))"
        using False nw oldv mutable orig(1) ret
        by (cases removed) (simp add: ix_update_def ix_update_internal_def Let_def removed_def [symmetric])
      obtain cs where cs: "snd removed = with_inverse ix (fold (inverse.del (ix_ordered ix) ?k) cs (ix_inverse ix))"
        "\<And>c. ?k \<in> keys_with (ix_forward ix) c \<Longrightarrow> c \<in> set cs \<union> set (elements v)"
      proof (cases "ix_value app ?e m ?k")
        case None
        have "?k \<in> ix_excluded ix" using ok old None by (auto simp: ix_ok_def)
        then have "snd removed = ix" by (simp add: removed_def None remove_inverse_mapping_def ix_is_key_excluded_def)
        moreover have "?k \<notin> keys_with (ix_forward ix) c" for c using fk None by (simp add: keys_with_fresh)
        ultimately show ?thesis using that [of "[]"] by (simp add: with_inverse_same)
      next
        case (Some old)
        show ?thesis
        proof (cases old)
          case (Single c)
          with Some fk show ?thesis
            by (intro that [of "[c]"]) (auto simp: removed_def remove_inverse_mapping_eq keys_with_def)
        next
          case (Several ds)
          with Some fk show ?thesis
            by (intro that [of "collect_removed ds (Some v)"])
              (cases v; auto simp: removed_def remove_inverse_mapping_eq keys_with_def collect_removed_def ensure_collection_def)+
        qed
      qed
      note del = inverse.fold_del_law [OF good, of ?k cs]
      have "inverse.good (ix_ordered ix) (fold (inverse.del (ix_ordered ix) ?k) cs (ix_inverse ix))" using del by blast
      note add = inverse.fold_add_law [OF this, of ?k "elements v"]
      have "keys_with (ix_forward ix) c - (if c \<in> set cs then {?k} else {}) \<union> (if c \<in> set (elements v) then {?k} else {}) =
        keys_with (ix_value app ?e ?m) c" for c
        unfolding fwd [symmetric] keys_with_upd using cs(2) [of c] by auto
      with add del ok fwd ex show ?thesis unfolding upd cs(1)
        by (simp add: ix_ok_def ix_update_excluded_set add_inverse_mapping_eq)
    qed
  qed
  then show "fst (ix_update app en ix) = Inr ()" "ix_ok app ?m (snd (ix_update app en ix))" by simp_all
qed

lemma index_entries_ok:
  "ix_ok app m ix \<Longrightarrow> distinct (map fst es) \<Longrightarrow> (\<And>k. k \<in> fst ` set es \<Longrightarrow> m k = None) \<Longrightarrow>
   ix_ok app (map_of es ++ m) (index_entries app es ix)"
proof (induction app es ix arbitrary: m rule: index_entries.induct)
  case (2 app k x es ix)
  let ?en = "\<lparr>en_key = k, en_value = x, en_original = None, en_trigger = False\<rparr>"
  have step: "ix_ok app (m(k \<mapsto> x)) (snd (ix_insert app ?en ix))"
    using ix_insert_ok [of app m ix ?en] 2(2,4) by simp
  have fresh: "(m(k \<mapsto> x)) k' = None" if "k' \<in> fst ` set es" for k'
    using that 2(3) 2(4) [of k'] by auto
  have "distinct (map fst es)" using 2(3) by simp
  from 2(1) [OF step this fresh] have "ix_ok app (map_of es ++ m(k \<mapsto> x)) (index_entries app ((k, x) # es) ix)"
    by (simp only: index_entries.simps)
  moreover have eq: "map_of es ++ m(k \<mapsto> x) = map_of ((k, x) # es) ++ m"
    using 2(3) 2(4) [of k] by (auto simp: fun_eq_iff map_add_def map_of_eq_None_iff split: option.splits)
  ultimately show ?case unfolding eq by blast
qed simp

end
