(* ===== verification/Filters.thy ===== *)
theory Filters
  imports Map_Index Utf8
begin

text \<open>
  The filters of \<^verbatim>\<open>coherence/util/filter\<close>: evaluating them on an entry, what they expect
  to cost, applying indexes to them, and the queries of \<^verbatim>\<open>InvocableMapHelper\<close>.
\<close>

section \<open>Filters\<close>

text \<open>
  One constructor per class; \<open>AllFilter\<close> is also \<^verbatim>\<open>AndFilter\<close>, \<open>AnyFilter\<close> is also
  \<^verbatim>\<open>OrFilter\<close>, \<open>EqualsFilter\<close> and \<open>NotEquals\<close> with \<^verbatim>\<open>NULL\<close> are \<^verbatim>\<open>IsNullFilter\<close>
  and \<^verbatim>\<open>IsNotNullFilter\<close>.  The flag of the array filters is \<^verbatim>\<open>m_fPreserveOrder\<close>.
  \<open>UserFilter\<close> is a filter of the application, which knows nothing of indexes.
\<close>

datatype ('g, 'k, 'a, 'u) filter =
    AlwaysFilter
  | NeverFilter
  | PresentFilter
  | EqualsFilter "'g extractor" "'a ixvalue"
  | NotEqualsFilter "'g extractor" "'a ixvalue"
  | GreaterFilter "'g extractor" "'a option"
  | GreaterEqualsFilter "'g extractor" "'a option"
  | LessFilter "'g extractor" "'a option"
  | LessEqualsFilter "'g extractor" "'a option"
  | BetweenFilter "'g extractor" "'a option" "'a option" bool bool
  | InFilter "'g extractor" "'a ixvalue list"
  | ContainsFilter "'g extractor" "'a option"
  | ContainsAllFilter "'g extractor" "'a option list"
  | ContainsAnyFilter "'g extractor" "'a option list"
  | KeyFilter "'k set"
  | InKeySetFilter "('g, 'k, 'a, 'u) filter" "'k set"
  | NotFilter "('g, 'k, 'a, 'u) filter"
  | AllFilter bool "('g, 'k, 'a, 'u) filter list"
  | AnyFilter bool "('g, 'k, 'a, 'u) filter list"
  | XorFilter "('g, 'k, 'a, 'u) filter" "('g, 'k, 'a, 'u) filter"
  | UserFilter 'u

text \<open>The filters of the application see the key and the value of the entry.\<close>

type_synonym ('k, 'x, 'u) user_filters = "'u \<Rightarrow> 'k \<Rightarrow> 'x \<Rightarrow> exn + bool"

section \<open>Evaluating\<close>

text \<open>\<^verbatim>\<open>evaluateExtracted\<close> of the comparisons: a collection is no \<^verbatim>\<open>Comparable\<close>.\<close>

definition eval_compare :: "('a \<Rightarrow> 'a \<Rightarrow> bool) \<Rightarrow> 'a option \<Rightarrow> 'a ixvalue \<Rightarrow> bool" where
  "eval_compare cmp value v =
     (case v of
        Several _ \<Rightarrow> False
      | Single None \<Rightarrow> False
      | Single (Some a) \<Rightarrow> (case value of None \<Rightarrow> False | Some b \<Rightarrow> cmp a b))"

definition eval_between ::
  "'a::linorder option \<Rightarrow> 'a option \<Rightarrow> bool \<Rightarrow> bool \<Rightarrow> 'a ixvalue \<Rightarrow> bool" where
  "eval_between lower upper fLower fUpper v =
     (case (v, lower, upper) of
        (Single (Some a), Some l, Some u) \<Rightarrow>
          if a < l \<or> (\<not> fLower \<and> l = a) then False
          else if u < a \<or> (\<not> fUpper \<and> u = a) then False
          else True
      | _ \<Rightarrow> False)"

definition eval_contains :: "'a option \<Rightarrow> 'a ixvalue \<Rightarrow> bool" where
  "eval_contains c v = (case v of Several cs \<Rightarrow> c \<in> set cs | Single _ \<Rightarrow> False)"

definition eval_contains_all :: "'a option list \<Rightarrow> 'a ixvalue \<Rightarrow> bool" where
  "eval_contains_all values v = (case v of Several cs \<Rightarrow> set values \<subseteq> set cs | Single _ \<Rightarrow> True)"

definition eval_contains_any :: "'a option list \<Rightarrow> 'a ixvalue \<Rightarrow> bool" where
  "eval_contains_any values v = (case v of Several cs \<Rightarrow> list_ex (\<lambda>c. c \<in> set cs) values | Single _ \<Rightarrow> False)"

definition eval_extracted ::
  "('g, 'k, 'x, 'a) app \<Rightarrow> 'g extractor \<Rightarrow> ('a ixvalue \<Rightarrow> bool) \<Rightarrow> 'k \<Rightarrow> 'x \<Rightarrow> exn + bool" where
  "eval_extracted app e p k x = case_exn (extract_from_entry app e k x) (\<lambda>v. Inr (p v))"

text \<open>The loops of \<^verbatim>\<open>AllFilter\<close> and \<^verbatim>\<open>AnyFilter\<close> end at the first filter that decides.\<close>

fun eval_all :: "('f \<Rightarrow> exn + bool) \<Rightarrow> 'f list \<Rightarrow> exn + bool" where
  "eval_all ev [] = Inr True"
| "eval_all ev (f # fs) = case_exn (ev f) (\<lambda>b. if b then eval_all ev fs else Inr False)"

fun eval_any :: "('f \<Rightarrow> exn + bool) \<Rightarrow> 'f list \<Rightarrow> exn + bool" where
  "eval_any ev [] = Inr False"
| "eval_any ev (f # fs) = case_exn (ev f) (\<lambda>b. if b then Inr True else eval_any ev fs)"

lemma eval_all_cong [fundef_cong]:
  "fs = gs \<Longrightarrow> (\<And>f. f \<in> set gs \<Longrightarrow> ev f = ev' f) \<Longrightarrow> eval_all ev fs = eval_all ev' gs"
  by (induction gs arbitrary: fs) (simp_all cong: if_cong)

lemma eval_any_cong [fundef_cong]:
  "fs = gs \<Longrightarrow> (\<And>f. f \<in> set gs \<Longrightarrow> ev f = ev' f) \<Longrightarrow> eval_any ev fs = eval_any ev' gs"
  by (induction gs arbitrary: fs) (simp_all cong: if_cong)

fun evaluate_entry ::
  "('g, 'k, 'x, 'a::linorder) app \<Rightarrow> ('k, 'x, 'u) user_filters \<Rightarrow> 'k \<Rightarrow> 'x \<Rightarrow> ('g, 'k, 'a, 'u) filter \<Rightarrow> exn + bool" where
  "evaluate_entry app user k x AlwaysFilter = Inr True"
| "evaluate_entry app user k x NeverFilter = Inr False"
| "evaluate_entry app user k x PresentFilter = Inr True"
| "evaluate_entry app user k x (EqualsFilter e w) = eval_extracted app e (\<lambda>v. v = w) k x"
| "evaluate_entry app user k x (NotEqualsFilter e w) = eval_extracted app e (\<lambda>v. v \<noteq> w) k x"
| "evaluate_entry app user k x (GreaterFilter e w) = eval_extracted app e (eval_compare (\<lambda>a b. b < a) w) k x"
| "evaluate_entry app user k x (GreaterEqualsFilter e w) = eval_extracted app e (eval_compare (\<lambda>a b. b \<le> a) w) k x"
| "evaluate_entry app user k x (LessFilter e w) = eval_extracted app e (eval_compare (\<lambda>a b. a < b) w) k x"
| "evaluate_entry app user k x (LessEqualsFilter e w) = eval_extracted app e (eval_compare (\<lambda>a b. a \<le> b) w) k x"
| "evaluate_entry app user k x (BetweenFilter e lower upper fLower fUpper) =
     eval_extracted app e (eval_between lower upper fLower fUpper) k x"
| "evaluate_entry app user k x (InFilter e ws) = eval_extracted app e (\<lambda>v. v \<in> set ws) k x"
| "evaluate_entry app user k x (ContainsFilter e c) = eval_extracted app e (eval_contains c) k x"
| "evaluate_entry app user k x (ContainsAllFilter e cs) = eval_extracted app e (eval_contains_all cs) k x"
| "evaluate_entry app user k x (ContainsAnyFilter e cs) = eval_extracted app e (eval_contains_any cs) k x"
| "evaluate_entry app user k x (KeyFilter ks) = Inr (k \<in> ks)"
| "evaluate_entry app user k x (InKeySetFilter f ks) = (if k \<notin> ks then Inr False else evaluate_entry app user k x f)"
| "evaluate_entry app user k x (NotFilter f) = case_exn (evaluate_entry app user k x f) (\<lambda>b. Inr (\<not> b))"
| "evaluate_entry app user k x (AllFilter _ fs) = eval_all (\<lambda>f. evaluate_entry app user k x f) fs"
| "evaluate_entry app user k x (AnyFilter _ fs) = eval_any (\<lambda>f. evaluate_entry app user k x f) fs"
| "evaluate_entry app user k x (XorFilter f g) =
     case_exn (evaluate_entry app user k x f) (\<lambda>a. case_exn (evaluate_entry app user k x g) (\<lambda>b. Inr (a \<noteq> b)))"
| "evaluate_entry app user k x (UserFilter u) = user u k x"

section \<open>Effectiveness\<close>

definition index_aware :: "('g, 'k, 'a, 'u) filter \<Rightarrow> bool" where
  "index_aware f = (case f of UserFilter _ \<Rightarrow> False | _ \<Rightarrow> True)"

type_synonym ('g, 'k, 'a) indexes = "'g extractor \<Rightarrow> ('g, 'k, 'a) map_index option"

text \<open>Sizes and effectiveness are 32-bit integers; \<^verbatim>\<open>eval_cost\<close> is 1000.\<close>

definition eval_cost :: "32 word" where
  "eval_cost = 1000"

definition iterator_effectiveness :: "nat \<Rightarrow> 32 word" where
  "iterator_effectiveness cKeys =
     (let lCost = 1000 * sint (of_nat cKeys :: 32 word)
      in if lCost \<le> 2147483647 then of_int lCost else 2147483647)"

definition match_effectiveness :: "('g, 'k, 'a) indexes \<Rightarrow> 'k set \<Rightarrow> 'g extractor \<Rightarrow> 32 word" where
  "match_effectiveness ixs ks e = (case ixs e of None \<Rightarrow> iterator_effectiveness (card ks) | Some ix \<Rightarrow> 1)"

definition range_effectiveness :: "('g, 'k, 'a) indexes \<Rightarrow> 'k set \<Rightarrow> 'g extractor \<Rightarrow> 32 word" where
  "range_effectiveness ixs ks e =
     (case ixs e of
        None \<Rightarrow> iterator_effectiveness (card ks)
      | Some ix \<Rightarrow>
          let n = length (ix_inverse ix) in
          if ix_ordered ix then (if 1 < n div 4 then of_nat (n div 4) else 1) else of_nat n)"

definition size_effectiveness :: "('g, 'k, 'a) indexes \<Rightarrow> 'k set \<Rightarrow> 'g extractor \<Rightarrow> nat \<Rightarrow> 32 word" where
  "size_effectiveness ixs ks e n = (case ixs e of None \<Rightarrow> iterator_effectiveness (card ks) | Some ix \<Rightarrow> of_nat n)"

definition head_map :: "'a::linorder option \<Rightarrow> ('a, 'k) contents \<Rightarrow> ('a, 'k) contents" where
  "head_map c m = (if c = None then m else filter (\<lambda>(d, s). d < c) m)"

definition tail_map :: "'a::linorder option \<Rightarrow> ('a, 'k) contents \<Rightarrow> ('a, 'k) contents" where
  "tail_map c m = (if c = None then m else filter (\<lambda>(d, s). c \<le> d) m)"

definition between_effectiveness ::
  "('g, 'k, 'a::linorder) indexes \<Rightarrow> 'k set \<Rightarrow> 'g extractor \<Rightarrow> 'a option \<Rightarrow> 'a option \<Rightarrow> 32 word" where
  "between_effectiveness ixs ks e lower upper =
     (case ixs e of
        None \<Rightarrow> eval_cost * of_nat (card ks)
      | Some ix \<Rightarrow>
          if ix_ordered ix
          then of_nat (length (ix_inverse ix)) - of_nat (length (head_map lower (ix_inverse ix)))
            - of_nat (length (tail_map upper (ix_inverse ix)))
          else of_nat (length (ix_inverse ix)))"

text \<open>The order of an array filter: a stable sort by the effectiveness as a signed integer.\<close>

definition weighted_order :: "bool \<Rightarrow> (32 word \<times> 'f) list \<Rightarrow> (32 word \<times> 'f) list" where
  "weighted_order fPreserveOrder ws = (if fPreserveOrder then ws else sort_key (\<lambda>(w, f). sint w) ws)"

fun effectiveness ::
  "('g, 'k, 'a::linorder) indexes \<Rightarrow> 'k set \<Rightarrow> ('g, 'k, 'a, 'u) filter \<Rightarrow> 32 word" where
  "effectiveness ixs ks AlwaysFilter = 1"
| "effectiveness ixs ks NeverFilter = 1"
| "effectiveness ixs ks PresentFilter = 1"
| "effectiveness ixs ks (EqualsFilter e w) = match_effectiveness ixs ks e"
| "effectiveness ixs ks (NotEqualsFilter e w) = match_effectiveness ixs ks e"
| "effectiveness ixs ks (GreaterFilter e w) = range_effectiveness ixs ks e"
| "effectiveness ixs ks (GreaterEqualsFilter e w) = range_effectiveness ixs ks e"
| "effectiveness ixs ks (LessFilter e w) = range_effectiveness ixs ks e"
| "effectiveness ixs ks (LessEqualsFilter e w) = range_effectiveness ixs ks e"
| "effectiveness ixs ks (BetweenFilter e lower upper fLower fUpper) = between_effectiveness ixs ks e lower upper"
| "effectiveness ixs ks (InFilter e ws) = size_effectiveness ixs ks e (length ws)"
| "effectiveness ixs ks (ContainsFilter e c) = match_effectiveness ixs ks e"
| "effectiveness ixs ks (ContainsAllFilter e cs) = size_effectiveness ixs ks e (length cs)"
| "effectiveness ixs ks (ContainsAnyFilter e cs) = size_effectiveness ixs ks e (length cs)"
| "effectiveness ixs ks (KeyFilter js) = 1"
| "effectiveness ixs ks (InKeySetFilter f js) = effectiveness ixs (if card js < card ks then js else ks) f"
| "effectiveness ixs ks (NotFilter f) = effectiveness ixs ks f"
| "effectiveness ixs ks (AllFilter b fs) =
     (case weighted_order b (map (\<lambda>f. (effectiveness ixs ks f, ())) fs) of [] \<Rightarrow> 1 | (w, _) # _ \<Rightarrow> w)"
| "effectiveness ixs ks (AnyFilter b fs) =
     (if fs = [] then 1 else fst (last (weighted_order b (map (\<lambda>f. (effectiveness ixs ks f, ())) fs))))"
| "effectiveness ixs ks (XorFilter f g) = 2147483647"
| "effectiveness ixs ks (UserFilter u) = of_nat (card ks) * eval_cost"

definition optimize_order ::
  "('g, 'k, 'a::linorder) indexes \<Rightarrow> 'k set \<Rightarrow> bool \<Rightarrow> ('g, 'k, 'a, 'u) filter list \<Rightarrow> ('g, 'k, 'a, 'u) filter list" where
  "optimize_order ixs ks b fs = map snd (weighted_order b (map (\<lambda>f. (effectiveness ixs ks f, f)) fs))"

section \<open>Applying an index\<close>

text \<open>
  Applying an index to a set of keys removes keys that do not match and returns the filter
  that is left to evaluate (\<^const>\<open>None\<close> when there is none).
\<close>

definition keys_where :: "('a option \<Rightarrow> bool) \<Rightarrow> ('a, 'k) contents \<Rightarrow> 'k set" where
  "keys_where p m = \<Union> (set (map snd (filter (\<lambda>(c, s). p c) m)))"

definition keys_at :: "'a option \<Rightarrow> ('a, 'k) contents \<Rightarrow> 'k set" where
  "keys_at c m = (case map_of m c of None \<Rightarrow> {} | Some s \<Rightarrow> s)"

text \<open>
  \<^verbatim>\<open>get\<close> of the contents with the value of a filter, which may be a collection.  A hash
  map has no such key.  The \<^verbatim>\<open>TreeMap\<close> of an ordered index compares the value with its keys,
  and a collection is no \<^verbatim>\<open>Comparable\<close>, unless there is no key but \<^verbatim>\<open>NULL\<close>.
\<close>

definition contents_get :: "bool \<Rightarrow> 'a ixvalue \<Rightarrow> ('a, 'k) contents \<Rightarrow> exn + 'k set" where
  "contents_get fOrdered v m =
     (case v of
        Single c \<Rightarrow> Inr (keys_at c m)
      | Several _ \<Rightarrow> if fOrdered \<and> list_ex (\<lambda>(c, s). c \<noteq> None) m then Inl ClassCastException else Inr {})"

definition apply_equals :: "'a ixvalue \<Rightarrow> ('g, 'k, 'a) map_index \<Rightarrow> 'k set \<Rightarrow> exn + 'k set" where
  "apply_equals w ix ks =
     case_exn (contents_get (ix_ordered ix) w (ix_inverse ix)) (\<lambda>eq. Inr (if eq = {} then {} else ks \<inter> eq))"

text \<open>A partial index is searched for the keys that differ, which a \<^verbatim>\<open>NULL\<close> key ends.\<close>

definition apply_not_equals :: "'a ixvalue \<Rightarrow> ('g, 'k, 'a) map_index \<Rightarrow> 'k set \<Rightarrow> exn + 'k set" where
  "apply_not_equals w ix ks =
     (if ix_is_partial ix
      then (if list_ex (\<lambda>(c, s). c = None) (ix_inverse ix) then Inl NullPointerException
            else Inr (ks \<inter> keys_where (\<lambda>c. Single c \<noteq> w) (ix_inverse ix)))
      else case_exn (contents_get (ix_ordered ix) w (ix_inverse ix)) (\<lambda>eq. Inr (ks - eq)))"

definition head_heavy :: "'a::linorder option \<Rightarrow> ('g, 'k, 'a) map_index \<Rightarrow> bool" where
  "head_heavy w ix \<longleftrightarrow> length (ix_inverse ix) div 2 < length (head_map w (ix_inverse ix))"

definition apply_greater :: "'a::linorder option \<Rightarrow> ('g, 'k, 'a) map_index \<Rightarrow> 'k set \<Rightarrow> 'k set" where
  "apply_greater w ix ks =
     (let m = ix_inverse ix in
      if ix_ordered ix then
        if head_heavy w ix \<or> ix_is_partial ix then ks \<inter> keys_where (\<lambda>c. c \<noteq> w) (tail_map w m)
        else ks - keys_where (\<lambda>_. True) (head_map w m) - keys_at w m
      else if ix_is_partial ix then ks \<inter> keys_where (\<lambda>c. c \<noteq> None \<and> w < c) m
      else ks - keys_where (\<lambda>c. c = None \<or> c \<le> w) m)"

definition apply_greater_equals :: "'a::linorder option \<Rightarrow> ('g, 'k, 'a) map_index \<Rightarrow> 'k set \<Rightarrow> 'k set" where
  "apply_greater_equals w ix ks =
     (let m = ix_inverse ix in
      if ix_ordered ix then
        if head_heavy w ix \<or> ix_is_partial ix then ks \<inter> keys_where (\<lambda>_. True) (tail_map w m)
        else ks - keys_where (\<lambda>_. True) (head_map w m)
      else if ix_is_partial ix then ks \<inter> keys_where (\<lambda>c. c \<noteq> None \<and> w \<le> c) m
      else ks - keys_where (\<lambda>c. c = None \<or> c < w) m)"

definition apply_less :: "'a::linorder option \<Rightarrow> ('g, 'k, 'a) map_index \<Rightarrow> 'k set \<Rightarrow> 'k set" where
  "apply_less w ix ks =
     (let m = ix_inverse ix in
      if ix_ordered ix then
        if head_heavy w ix \<and> \<not> ix_is_partial ix
        then ks - keys_where (\<lambda>_. True) (tail_map w m) - keys_at None m
        else ks \<inter> keys_where (\<lambda>c. c \<noteq> None) (head_map w m)
      else if ix_is_partial ix then ks \<inter> keys_where (\<lambda>c. c \<noteq> None \<and> c < w) m
      else ks - keys_where (\<lambda>c. c = None \<or> w \<le> c) m)"

definition apply_less_equals :: "'a::linorder option \<Rightarrow> ('g, 'k, 'a) map_index \<Rightarrow> 'k set \<Rightarrow> 'k set" where
  "apply_less_equals w ix ks =
     (let m = ix_inverse ix in
      if ix_ordered ix then
        if head_heavy w ix \<and> \<not> ix_is_partial ix
        then ks - keys_where (\<lambda>c. c \<noteq> w) (tail_map w m) - keys_at None m
        else ks \<inter> (keys_where (\<lambda>c. c \<noteq> None) (head_map w m) \<union> keys_at w m)
      else if ix_is_partial ix then ks \<inter> keys_where (\<lambda>c. c \<noteq> None \<and> c \<le> w) m
      else ks - keys_where (\<lambda>c. c = None \<or> w < c) m)"

fun between_keys :: "('a option \<Rightarrow> bool) \<Rightarrow> bool \<Rightarrow> ('a, 'k) contents \<Rightarrow> 'k set" where
  "between_keys p fInside [] = {}"
| "between_keys p fInside ((c, s) # m) =
     (if fInside \<or> p c then s \<union> between_keys p True m else between_keys p fInside m)"

definition apply_between ::
  "'a::linorder option \<Rightarrow> 'a option \<Rightarrow> bool \<Rightarrow> bool \<Rightarrow> ('g, 'k, 'a) map_index \<Rightarrow> 'k set \<Rightarrow> 'k set" where
  "apply_between lower upper fLower fUpper ix ks =
     (let m = ix_inverse ix in
      if ix_ordered ix then
        let retain = between_keys (\<lambda>c. eval_between lower upper fLower fUpper (Single c)) fLower
                       (filter (\<lambda>(c, s). lower \<le> c \<and> c < upper) m)
                     \<union> (if fUpper then keys_at upper m else {})
        in if retain = {} then {} else ks \<inter> retain
      else ks \<inter> keys_where (\<lambda>c. eval_between lower upper fLower fUpper (Single c)) m)"

fun contents_get_all :: "bool \<Rightarrow> 'a ixvalue list \<Rightarrow> ('a, 'k) contents \<Rightarrow> exn + 'k set" where
  "contents_get_all fOrdered [] m = Inr {}"
| "contents_get_all fOrdered (w # ws) m =
     case_exn (contents_get fOrdered w m) (\<lambda>s. case_exn (contents_get_all fOrdered ws m) (\<lambda>t. Inr (s \<union> t)))"

definition apply_in :: "'a ixvalue list \<Rightarrow> ('g, 'k, 'a) map_index \<Rightarrow> 'k set \<Rightarrow> exn + 'k set" where
  "apply_in ws ix ks =
     case_exn (contents_get_all (ix_ordered ix) ws (ix_inverse ix)) (\<lambda>s. Inr (if s = {} then {} else ks \<inter> s))"

fun apply_contains_all :: "'a option list \<Rightarrow> ('g, 'k, 'a) map_index \<Rightarrow> 'k set \<Rightarrow> 'k set" where
  "apply_contains_all [] ix ks = ks"
| "apply_contains_all (c # cs) ix ks =
     (case map_of (ix_inverse ix) c of
        None \<Rightarrow> {}
      | Some s \<Rightarrow> if ks \<inter> s = {} then {} else apply_contains_all cs ix (ks \<inter> s))"

text \<open>A filter on extracted values has nothing to do without an index for its extractor.\<close>

definition with_index ::
  "('g, 'k, 'a) indexes \<Rightarrow> 'g extractor \<Rightarrow> 'f \<Rightarrow> (('g, 'k, 'a) map_index \<Rightarrow> 'k set \<Rightarrow> exn + 'k set) \<Rightarrow> 'k set \<Rightarrow>
    exn + 'f option \<times> 'k set" where
  "with_index ixs e f ap ks =
     (case ixs e of
        None \<Rightarrow> Inr (Some f, ks)
      | Some ix \<Rightarrow> case_exn (ap ix ks) (\<lambda>ks. Inr (None, ks)))"

text \<open>The loop of \<^verbatim>\<open>AllFilter\<close>; \<^const>\<open>None\<close> is the early return when no key is left.\<close>

fun apply_each ::
  "('f \<Rightarrow> bool) \<Rightarrow> ('f \<Rightarrow> 'k set \<Rightarrow> exn + 'f option \<times> 'k set) \<Rightarrow> 'f list \<Rightarrow> 'k set \<Rightarrow>
    exn + 'f list option \<times> 'k set" where
  "apply_each aware ap [] ks = Inr (Some [], ks)"
| "apply_each aware ap (f # fs) ks =
     (if aware f then
        case_exn (ap f ks) (\<lambda>(g, ks).
           if ks = {} then Inr (None, ks)
           else case_exn (apply_each aware ap fs ks) (\<lambda>(gs, ks).
             Inr (map_option (\<lambda>gs. case g of None \<Rightarrow> gs | Some g \<Rightarrow> g # gs) gs, ks)))
      else case_exn (apply_each aware ap fs ks) (\<lambda>(gs, ks). Inr (map_option (Cons f) gs, ks)))"

text \<open>The loop of \<^verbatim>\<open>AnyFilter\<close>: the filters to apply later, and the keys that match.\<close>

fun apply_some ::
  "('f \<Rightarrow> bool) \<Rightarrow> ('f \<Rightarrow> 'k set \<Rightarrow> exn + 'f option \<times> 'k set) \<Rightarrow> ('f \<Rightarrow> 'k set \<Rightarrow> 'f) \<Rightarrow> 'k set \<Rightarrow> 'f list \<Rightarrow>
    'k set \<Rightarrow> exn + 'f list \<times> 'k set" where
  "apply_some aware ap restrict ks [] match = Inr ([], match)"
| "apply_some aware ap restrict ks (f # fs) match =
     (if aware f then
        case_exn (ap f (ks - match)) (\<lambda>(g, remain).
          case g of
            None \<Rightarrow> apply_some aware ap restrict ks fs (match \<union> remain)
          | Some defer \<Rightarrow>
             if card remain < card ks then
               (if 0 < card remain
                then case_exn (apply_some aware ap restrict ks fs match)
                       (\<lambda>(gs, match). Inr (restrict defer remain # gs, match))
                else apply_some aware ap restrict ks fs match)
             else case_exn (apply_some aware ap restrict ks fs match) (\<lambda>(gs, match). Inr (defer # gs, match)))
      else case_exn (apply_some aware ap restrict ks fs match) (\<lambda>(gs, match). Inr (f # gs, match)))"

lemma apply_each_cong [fundef_cong]:
  "fs = gs \<Longrightarrow> ks = js \<Longrightarrow> (\<And>f ks. f \<in> set gs \<Longrightarrow> ap f ks = ap' f ks) \<Longrightarrow>
   apply_each aware ap fs ks = apply_each aware ap' gs js"
  by (induction gs arbitrary: fs ks js) (auto simp: case_exn_def split: prod.split sum.split)

lemma apply_some_cong [fundef_cong]:
  "fs = gs \<Longrightarrow> ks = js \<Longrightarrow> match = match' \<Longrightarrow> (\<And>f ks. f \<in> set gs \<Longrightarrow> ap f ks = ap' f ks) \<Longrightarrow>
   apply_some aware ap restrict ks fs match = apply_some aware ap' restrict js gs match'"
  by (induction gs arbitrary: fs match match') (auto simp: case_exn_def split: prod.split option.split sum.split)

definition non_partial :: "('g, 'k, 'a) indexes \<Rightarrow> ('g, 'k, 'a) indexes" where
  "non_partial ixs e = (case ixs e of None \<Rightarrow> None | Some ix \<Rightarrow> if ix_is_partial ix then None else Some ix)"

lemma weighted_order_members: "set (weighted_order b ws) = set ws"
  by (simp add: weighted_order_def)

lemma optimize_order_members [simp]: "set (optimize_order ixs ks b fs) = set fs"
  by (force simp: optimize_order_def weighted_order_members)

function apply_index ::
  "('g, 'k, 'a::linorder) indexes \<Rightarrow> ('g, 'k, 'a, 'u) filter \<Rightarrow> 'k set \<Rightarrow>
    exn + ('g, 'k, 'a, 'u) filter option \<times> 'k set" where
  "apply_index ixs AlwaysFilter ks = Inr (None, ks)"
| "apply_index ixs NeverFilter ks = Inr (None, {})"
| "apply_index ixs PresentFilter ks = Inr (None, ks)"
| "apply_index ixs (EqualsFilter e w) ks = with_index ixs e (EqualsFilter e w) (apply_equals w) ks"
| "apply_index ixs (NotEqualsFilter e w) ks = with_index ixs e (NotEqualsFilter e w) (apply_not_equals w) ks"
| "apply_index ixs (GreaterFilter e w) ks =
     (if w = None then Inr (None, {})
      else with_index ixs e (GreaterFilter e w) (\<lambda>ix ks. Inr (apply_greater w ix ks)) ks)"
| "apply_index ixs (GreaterEqualsFilter e w) ks =
     (if w = None then Inr (None, {})
      else with_index ixs e (GreaterEqualsFilter e w) (\<lambda>ix ks. Inr (apply_greater_equals w ix ks)) ks)"
| "apply_index ixs (LessFilter e w) ks =
     (if w = None then Inr (None, {})
      else with_index ixs e (LessFilter e w) (\<lambda>ix ks. Inr (apply_less w ix ks)) ks)"
| "apply_index ixs (LessEqualsFilter e w) ks =
     (if w = None then Inr (None, {})
      else with_index ixs e (LessEqualsFilter e w) (\<lambda>ix ks. Inr (apply_less_equals w ix ks)) ks)"
| "apply_index ixs (BetweenFilter e lower upper fLower fUpper) ks =
     (if lower = None \<or> upper = None then Inr (None, {})
      else with_index ixs e (BetweenFilter e lower upper fLower fUpper)
             (\<lambda>ix ks. Inr (apply_between lower upper fLower fUpper ix ks)) ks)"
| "apply_index ixs (InFilter e ws) ks = with_index ixs e (InFilter e ws) (apply_in ws) ks"
| "apply_index ixs (ContainsFilter e c) ks =
     with_index ixs e (ContainsFilter e c) (apply_equals (Single c)) ks"
| "apply_index ixs (ContainsAllFilter e cs) ks =
     with_index ixs e (ContainsAllFilter e cs) (\<lambda>ix ks. Inr (apply_contains_all cs ix ks)) ks"
| "apply_index ixs (ContainsAnyFilter e cs) ks =
     with_index ixs e (ContainsAnyFilter e cs) (apply_in (map Single cs)) ks"
| "apply_index ixs (KeyFilter js) ks = Inr (None, ks \<inter> js)"
| "apply_index ixs (InKeySetFilter f js) ks =
     (if index_aware f then apply_index ixs f (ks \<inter> js) else Inr (None, ks \<inter> js))"
| "apply_index ixs (NotFilter f) ks =
     (if index_aware f then
        case_exn (apply_index (non_partial ixs) f ks) (\<lambda>(g, delta).
           let removed = ks - delta in
           Inr (if g = None \<or> delta = {} then (None, if removed = {} then {} else if delta = {} then ks else ks \<inter> removed)
                else if removed = {} then (Some (NotFilter (the g)), ks)
                else (Some (AllFilter False [KeyFilter removed, NotFilter (the g)]), ks)))
      else Inr (Some (NotFilter f), ks))"
| "apply_index ixs (AllFilter b fs) ks =
     case_exn (apply_each index_aware (\<lambda>f. apply_index ixs f) (optimize_order ixs ks b fs) ks) (\<lambda>(gs, ks).
       Inr (case gs of
              None \<Rightarrow> (None, ks)
            | Some [] \<Rightarrow> (None, ks)
            | Some [f] \<Rightarrow> (Some f, ks)
            | Some gs \<Rightarrow> (Some (AllFilter False gs), ks)))"
| "apply_index ixs (AnyFilter b fs) ks =
     case_exn (apply_some index_aware (\<lambda>f. apply_index ixs f) (\<lambda>f js. AllFilter False [f, KeyFilter js]) ks
        (optimize_order ixs ks b fs) {}) (\<lambda>(gs, match).
        Inr (if gs = [] then (None, if match = {} then {} else ks \<inter> match)
             else if length gs = 1 \<and> match = {} then (Some (hd gs), ks)
             else (Some (AnyFilter False (if match = {} then gs else KeyFilter match # gs)), ks)))"
| "apply_index ixs (XorFilter f g) ks = Inr (Some (XorFilter f g), ks)"
| "apply_index ixs (UserFilter u) ks = Inr (Some (UserFilter u), ks)"
  by pat_completeness auto
termination
proof (relation "measure (\<lambda>(ixs, f, ks). size f)", goal_cases)
  case (4 ixs b fs ks f js)
  then have "f \<in> set fs" by simp
  then show ?case using size_list_estimation' [of f fs "size f" size] by simp
next
  case (5 ixs b fs ks f js)
  then have "f \<in> set fs" by simp
  then show ?case using size_list_estimation' [of f fs "size f" size] by simp
qed auto

section \<open>Queries\<close>

fun query_loop ::
  "('k \<Rightarrow> 'x option) \<Rightarrow> ('k \<Rightarrow> 'x \<Rightarrow> exn + bool) \<Rightarrow> 'k list \<Rightarrow> exn + ('k \<times> 'x) list" where
  "query_loop m ev [] = Inr []"
| "query_loop m ev (k # ks) =
     (case m k of
        None \<Rightarrow> query_loop m ev ks
      | Some x \<Rightarrow>
          case_exn (ev k x) (\<lambda>b. case_exn (query_loop m ev ks) (\<lambda>es. Inr (if b then (k, x) # es else es))))"

text \<open>
  \<^verbatim>\<open>query\<close> on a map with the entries \<open>es\<close>: the entries that match.  The query for keys is
  the keys of these entries; sorting and pages come after.  Without an index the keys come in
  the order of the map; what is left of them after an index has been applied is the array of a
  \<^verbatim>\<open>SubSet\<close>, whose order is that of the hash set it has built: \<open>to_array\<close>, a parameter.
\<close>

definition query ::
  "('g, 'k, 'x, 'a::linorder) app \<Rightarrow> ('k, 'x, 'u) user_filters \<Rightarrow> ('k set \<Rightarrow> 'k list) \<Rightarrow> ('k \<times> 'x) list \<Rightarrow>
    ('g, 'k, 'a) indexes option \<Rightarrow> ('g, 'k, 'a, 'u) filter option \<Rightarrow> exn + ('k \<times> 'x) list" where
  "query app user to_array es ixs f =
     (let f = (if f = Some AlwaysFilter then None else f) in
      case_exn
        (case (ixs, f) of
           (Some ixs, Some g) \<Rightarrow>
             if index_aware g
             then case_exn (apply_index ixs g (fst ` set es)) (\<lambda>(g, ks). Inr (g, to_array ks))
             else Inr (f, map fst es)
         | _ \<Rightarrow> Inr (f, map fst es))
        (\<lambda>(f, keys).
           query_loop (map_of es)
             (\<lambda>k x. case f of None \<Rightarrow> Inr True | Some f \<Rightarrow> evaluate_entry app user k x f) keys))"

end
