(* ===== verification/Filter_Index.thy ===== *)
theory Filter_Index
  imports Filters
begin

text \<open>
  Applying indexes to a filter decides the same entries as evaluating it on each of them.
\<close>

section \<open>Keys without exceptions\<close>

text \<open>
  What \<^const>\<open>apply_index\<close> does where no lookup throws, as functions on sets of keys.
  \<open>apply_index_keys\<close> below shows that it does this for the filters that are safe.
\<close>

definition keys_of_value :: "'a ixvalue \<Rightarrow> ('a, 'k) contents \<Rightarrow> 'k set" where
  "keys_of_value v m = (case v of Single c \<Rightarrow> keys_at c m | Several _ \<Rightarrow> {})"

definition equal_keys :: "'a ixvalue \<Rightarrow> ('g, 'k, 'a) map_index \<Rightarrow> 'k set \<Rightarrow> 'k set" where
  "equal_keys w ix ks =
     (let eq = keys_of_value w (ix_inverse ix) in if eq = {} then {} else ks \<inter> eq)"

definition not_equal_keys :: "'a ixvalue \<Rightarrow> ('g, 'k, 'a) map_index \<Rightarrow> 'k set \<Rightarrow> 'k set" where
  "not_equal_keys w ix ks =
     (if ix_is_partial ix then ks \<inter> keys_where (\<lambda>c. Single c \<noteq> w) (ix_inverse ix)
      else ks - keys_of_value w (ix_inverse ix))"

definition in_keys :: "'a ixvalue list \<Rightarrow> ('g, 'k, 'a) map_index \<Rightarrow> 'k set \<Rightarrow> 'k set" where
  "in_keys ws ix ks =
     (let s = (\<Union>w\<in>set ws. keys_of_value w (ix_inverse ix)) in if s = {} then {} else ks \<inter> s)"

definition with_index_keys ::
  "('g, 'k, 'a) indexes \<Rightarrow> 'g extractor \<Rightarrow> 'f \<Rightarrow> (('g, 'k, 'a) map_index \<Rightarrow> 'k set \<Rightarrow> 'k set) \<Rightarrow> 'k set \<Rightarrow>
    'f option \<times> 'k set" where
  "with_index_keys ixs e f ap ks = (case ixs e of None \<Rightarrow> (Some f, ks) | Some ix \<Rightarrow> (None, ap ix ks))"

fun each_keys ::
  "('f \<Rightarrow> bool) \<Rightarrow> ('f \<Rightarrow> 'k set \<Rightarrow> 'f option \<times> 'k set) \<Rightarrow> 'f list \<Rightarrow> 'k set \<Rightarrow> 'f list option \<times> 'k set" where
  "each_keys aware ap [] ks = (Some [], ks)"
| "each_keys aware ap (f # fs) ks =
     (if aware f then
        (case ap f ks of (g, ks) \<Rightarrow>
           if ks = {} then (None, ks)
           else map_prod (map_option (\<lambda>gs. case g of None \<Rightarrow> gs | Some g \<Rightarrow> g # gs)) id (each_keys aware ap fs ks))
      else map_prod (map_option (Cons f)) id (each_keys aware ap fs ks))"

fun some_keys ::
  "('f \<Rightarrow> bool) \<Rightarrow> ('f \<Rightarrow> 'k set \<Rightarrow> 'f option \<times> 'k set) \<Rightarrow> ('f \<Rightarrow> 'k set \<Rightarrow> 'f) \<Rightarrow> 'k set \<Rightarrow> 'f list \<Rightarrow> 'k set \<Rightarrow>
    'f list \<times> 'k set" where
  "some_keys aware ap restrict ks [] match = ([], match)"
| "some_keys aware ap restrict ks (f # fs) match =
     (if aware f then
        (case ap f (ks - match) of
           (None, remain) \<Rightarrow> some_keys aware ap restrict ks fs (match \<union> remain)
         | (Some defer, remain) \<Rightarrow>
             if card remain < card ks then
               (if 0 < card remain
                then map_prod (Cons (restrict defer remain)) id (some_keys aware ap restrict ks fs match)
                else some_keys aware ap restrict ks fs match)
             else map_prod (Cons defer) id (some_keys aware ap restrict ks fs match))
      else map_prod (Cons f) id (some_keys aware ap restrict ks fs match))"

lemma each_keys_cong [fundef_cong]:
  "fs = gs \<Longrightarrow> ks = js \<Longrightarrow> (\<And>f ks. f \<in> set gs \<Longrightarrow> ap f ks = ap' f ks) \<Longrightarrow>
   each_keys aware ap fs ks = each_keys aware ap' gs js"
  by (induction gs arbitrary: fs ks js) (auto split: prod.split)

lemma some_keys_cong [fundef_cong]:
  "fs = gs \<Longrightarrow> ks = js \<Longrightarrow> match = match' \<Longrightarrow> (\<And>f ks. f \<in> set gs \<Longrightarrow> ap f ks = ap' f ks) \<Longrightarrow>
   some_keys aware ap restrict ks fs match = some_keys aware ap' restrict js gs match'"
  by (induction gs arbitrary: fs match match') (auto split: prod.split option.split)

function index_keys ::
  "('g, 'k, 'a::linorder) indexes \<Rightarrow> ('g, 'k, 'a, 'u) filter \<Rightarrow> 'k set \<Rightarrow> ('g, 'k, 'a, 'u) filter option \<times> 'k set" where
  "index_keys ixs AlwaysFilter ks = (None, ks)"
| "index_keys ixs NeverFilter ks = (None, {})"
| "index_keys ixs PresentFilter ks = (None, ks)"
| "index_keys ixs (EqualsFilter e w) ks = with_index_keys ixs e (EqualsFilter e w) (equal_keys w) ks"
| "index_keys ixs (NotEqualsFilter e w) ks = with_index_keys ixs e (NotEqualsFilter e w) (not_equal_keys w) ks"
| "index_keys ixs (GreaterFilter e w) ks =
     (if w = None then (None, {}) else with_index_keys ixs e (GreaterFilter e w) (apply_greater w) ks)"
| "index_keys ixs (GreaterEqualsFilter e w) ks =
     (if w = None then (None, {}) else with_index_keys ixs e (GreaterEqualsFilter e w) (apply_greater_equals w) ks)"
| "index_keys ixs (LessFilter e w) ks =
     (if w = None then (None, {}) else with_index_keys ixs e (LessFilter e w) (apply_less w) ks)"
| "index_keys ixs (LessEqualsFilter e w) ks =
     (if w = None then (None, {}) else with_index_keys ixs e (LessEqualsFilter e w) (apply_less_equals w) ks)"
| "index_keys ixs (BetweenFilter e lower upper fLower fUpper) ks =
     (if lower = None \<or> upper = None then (None, {})
      else with_index_keys ixs e (BetweenFilter e lower upper fLower fUpper) (apply_between lower upper fLower fUpper) ks)"
| "index_keys ixs (InFilter e ws) ks = with_index_keys ixs e (InFilter e ws) (in_keys ws) ks"
| "index_keys ixs (ContainsFilter e c) ks =
     with_index_keys ixs e (ContainsFilter e c) (equal_keys (Single c)) ks"
| "index_keys ixs (ContainsAllFilter e cs) ks =
     with_index_keys ixs e (ContainsAllFilter e cs) (apply_contains_all cs) ks"
| "index_keys ixs (ContainsAnyFilter e cs) ks =
     with_index_keys ixs e (ContainsAnyFilter e cs) (in_keys (map Single cs)) ks"
| "index_keys ixs (KeyFilter js) ks = (None, ks \<inter> js)"
| "index_keys ixs (InKeySetFilter f js) ks =
     (if index_aware f then index_keys ixs f (ks \<inter> js) else (None, ks \<inter> js))"
| "index_keys ixs (NotFilter f) ks =
     (if index_aware f then
        (case index_keys (non_partial ixs) f ks of (g, delta) \<Rightarrow>
           let removed = ks - delta in
           if g = None \<or> delta = {} then (None, if removed = {} then {} else if delta = {} then ks else ks \<inter> removed)
           else if removed = {} then (Some (NotFilter (the g)), ks)
           else (Some (AllFilter False [KeyFilter removed, NotFilter (the g)]), ks))
      else (Some (NotFilter f), ks))"
| "index_keys ixs (AllFilter b fs) ks =
     (case each_keys index_aware (\<lambda>f. index_keys ixs f) (optimize_order ixs ks b fs) ks of
        (None, ks) \<Rightarrow> (None, ks)
      | (Some [], ks) \<Rightarrow> (None, ks)
      | (Some [f], ks) \<Rightarrow> (Some f, ks)
      | (Some gs, ks) \<Rightarrow> (Some (AllFilter False gs), ks))"
| "index_keys ixs (AnyFilter b fs) ks =
     (case some_keys index_aware (\<lambda>f. index_keys ixs f) (\<lambda>f js. AllFilter False [f, KeyFilter js]) ks
        (optimize_order ixs ks b fs) {} of (gs, match) \<Rightarrow>
        if gs = [] then (None, if match = {} then {} else ks \<inter> match)
        else if length gs = 1 \<and> match = {} then (Some (hd gs), ks)
        else (Some (AnyFilter False (if match = {} then gs else KeyFilter match # gs)), ks))"
| "index_keys ixs (XorFilter f g) ks = (Some (XorFilter f g), ks)"
| "index_keys ixs (UserFilter u) ks = (Some (UserFilter u), ks)"
  by pat_completeness auto
termination
proof (relation "measure (\<lambda>(ixs, f, ks). size f)", goal_cases)
  case (4 ixs b fs ks f js)
  then have "f \<in> set fs" by simp
  then show ?case using size_list_estimation' [of f fs "size f" size] by simp
next
  case (5 ixs b fs ks f js)
  then have "f \<in> set fs" by simp
  then show ?case using size_list_estimation' [of f fs "size f" size] by simp
qed auto

section \<open>Filters that return\<close>

definition extracts :: "('g, 'k, 'x, 'a) app \<Rightarrow> 'g extractor \<Rightarrow> 'k \<Rightarrow> 'x \<Rightarrow> bool" where
  "extracts app e k x \<longleftrightarrow> isl (extract_from_entry app e k x) = False"

text \<open>Every part of the filter returns on the entry, so that the order of evaluation does not matter.\<close>

fun returns :: "('g, 'k, 'x, 'a) app \<Rightarrow> ('k, 'x, 'u) user_filters \<Rightarrow> 'k \<Rightarrow> 'x \<Rightarrow> ('g, 'k, 'a, 'u) filter \<Rightarrow> bool" where
  "returns app user k x (EqualsFilter e w) = extracts app e k x"
| "returns app user k x (NotEqualsFilter e w) = extracts app e k x"
| "returns app user k x (GreaterFilter e w) = extracts app e k x"
| "returns app user k x (GreaterEqualsFilter e w) = extracts app e k x"
| "returns app user k x (LessFilter e w) = extracts app e k x"
| "returns app user k x (LessEqualsFilter e w) = extracts app e k x"
| "returns app user k x (BetweenFilter e lower upper fLower fUpper) = extracts app e k x"
| "returns app user k x (InFilter e ws) = extracts app e k x"
| "returns app user k x (ContainsFilter e c) = extracts app e k x"
| "returns app user k x (ContainsAllFilter e cs) = extracts app e k x"
| "returns app user k x (ContainsAnyFilter e cs) = extracts app e k x"
| "returns app user k x (InKeySetFilter f js) = returns app user k x f"
| "returns app user k x (NotFilter f) = returns app user k x f"
| "returns app user k x (AllFilter b fs) = list_all (\<lambda>f. returns app user k x f) fs"
| "returns app user k x (AnyFilter b fs) = list_all (\<lambda>f. returns app user k x f) fs"
| "returns app user k x (XorFilter f g) = (returns app user k x f \<and> returns app user k x g)"
| "returns app user k x (UserFilter u) = (\<not> isl (user u k x))"
| "returns app user k x _ = True"

definition holds :: "('g, 'k, 'x, 'a::linorder) app \<Rightarrow> ('k, 'x, 'u) user_filters \<Rightarrow> 'k \<Rightarrow> 'x \<Rightarrow> ('g, 'k, 'a, 'u) filter \<Rightarrow> bool" where
  "holds app user k x f \<longleftrightarrow> evaluate_entry app user k x f = Inr True"

lemma eval_all_returns:
  "list_all (\<lambda>f. ev f \<in> range Inr) fs \<Longrightarrow> eval_all ev fs = Inr (\<forall>f\<in>set fs. ev f = Inr True)"
  by (induction fs) (auto simp: case_exn_def)

lemma eval_any_returns:
  "list_all (\<lambda>f. ev f \<in> range Inr) fs \<Longrightarrow> eval_any ev fs = Inr (\<exists>f\<in>set fs. ev f = Inr True)"
  by (induction fs) (auto simp: case_exn_def)

lemma eval_extracted_returns:
  "extracts app e k x \<Longrightarrow> \<exists>v. extract_from_entry app e k x = Inr v \<and> eval_extracted app e p k x = Inr (p v)"
  by (cases "extract_from_entry app e k x") (auto simp: extracts_def eval_extracted_def case_exn_def)

lemma evaluate_returns: "returns app user k x f \<Longrightarrow> evaluate_entry app user k x f \<in> range Inr"
proof (induction f)
  case (AllFilter b fs)
  then show ?case using eval_all_returns [of "\<lambda>f. evaluate_entry app user k x f" fs] by (auto simp: list_all_iff)
next
  case (AnyFilter b fs)
  then show ?case using eval_any_returns [of "\<lambda>f. evaluate_entry app user k x f" fs] by (auto simp: list_all_iff)
next
  case (UserFilter u)
  then show ?case by (cases "user u k x") auto
qed (auto simp: case_exn_def dest: eval_extracted_returns)

lemma holds_evaluate: "returns app user k x f \<Longrightarrow> evaluate_entry app user k x f = Inr (holds app user k x f)"
  using evaluate_returns [of app user k x f] by (auto simp: holds_def)

lemma holds_all: "returns app user k x (AllFilter b fs) \<Longrightarrow>
    holds app user k x (AllFilter b fs) \<longleftrightarrow> (\<forall>f\<in>set fs. holds app user k x f)"
  using eval_all_returns [of "\<lambda>f. evaluate_entry app user k x f" fs] evaluate_returns
  by (fastforce simp: holds_def list_all_iff)

lemma holds_any: "returns app user k x (AnyFilter b fs) \<Longrightarrow>
    holds app user k x (AnyFilter b fs) \<longleftrightarrow> (\<exists>f\<in>set fs. holds app user k x f)"
  using eval_any_returns [of "\<lambda>f. evaluate_entry app user k x f" fs] evaluate_returns
  by (fastforce simp: holds_def list_all_iff)

lemma holds_simps [simp]:
  "holds app user k x AlwaysFilter" "\<not> holds app user k x NeverFilter" "holds app user k x PresentFilter"
  "holds app user k x (KeyFilter js) \<longleftrightarrow> k \<in> js"
  "holds app user k x (InKeySetFilter f js) \<longleftrightarrow> k \<in> js \<and> holds app user k x f"
  by (auto simp: holds_def)

lemma holds_not: "returns app user k x f \<Longrightarrow> holds app user k x (NotFilter f) \<longleftrightarrow> \<not> holds app user k x f"
  using holds_evaluate [of app user k x f] by (auto simp: holds_def case_exn_def)

section \<open>Keys found in the contents\<close>

text \<open>
  The extracted value of a key decides which sets of the inverse index it is in: what a filter
  knows of a key from the index alone.
\<close>

definition indexed_at :: "('g, 'k, 'a::linorder) map_index \<Rightarrow> 'k \<Rightarrow> 'a ixvalue \<Rightarrow> bool" where
  "indexed_at ix k v \<longleftrightarrow>
     contents_ok (ix_ordered ix) (ix_inverse ix) \<and>
     (\<forall>c. k \<in> keys_at c (ix_inverse ix) \<longleftrightarrow> c \<in> set (elements v))"

lemma indexed_at_value:
  assumes "ix_ok app m ix" and "ix_value app (ix_extractor ix) m k = Some v"
  shows "indexed_at ix k v"
  using assms
  by (auto simp: indexed_at_def ix_ok_def keys_at_def inverse.good_def inverse.keys_def keys_with_def split: option.splits)

lemma indexed_at_ok: "indexed_at ix k v \<Longrightarrow> contents_ok (ix_ordered ix) (ix_inverse ix)"
  unfolding indexed_at_def by blast

lemma in_keys_where: "k \<in> keys_where p m \<longleftrightarrow> (\<exists>c s. (c, s) \<in> set m \<and> p c \<and> k \<in> s)"
  by (force simp: keys_where_def)

lemma in_unless_empty: "k \<in> (if s = {} then {} else ks \<inter> s) \<longleftrightarrow> k \<in> ks \<and> k \<in> s"
  by auto

lemma keys_where_at: "distinct (map fst m) \<Longrightarrow> k \<in> keys_where p m \<longleftrightarrow> (\<exists>c. p c \<and> k \<in> keys_at c m)"
  unfolding in_keys_where keys_at_def by (fastforce split: option.splits dest: map_of_SomeD)

lemma in_where_values: "indexed_at ix k v \<Longrightarrow> k \<in> keys_where p (ix_inverse ix) \<longleftrightarrow> (\<exists>c\<in>set (elements v). p c)"
  using keys_where_at [of "ix_inverse ix" k p] by (auto simp: indexed_at_def contents_ok_def)

lemma in_at_values: "indexed_at ix k v \<Longrightarrow> k \<in> keys_at c (ix_inverse ix) \<longleftrightarrow> c \<in> set (elements v)"
  by (simp add: indexed_at_def)

lemma in_where [simp]: "indexed_at ix k (Single c) \<Longrightarrow> k \<in> keys_where p (ix_inverse ix) \<longleftrightarrow> p c"
  using in_where_values [of ix k "Single c" p] by simp

lemma in_at [simp]: "indexed_at ix k (Single c) \<Longrightarrow> k \<in> keys_at d (ix_inverse ix) \<longleftrightarrow> d = c"
  using in_at_values [of ix k "Single c" d] by simp

lemma in_of_value [simp]:
  "indexed_at ix k (Single c) \<Longrightarrow> k \<in> keys_of_value w (ix_inverse ix) \<longleftrightarrow> w = Single c"
  by (auto simp: keys_of_value_def split: ixvalue.split)

lemma keys_where_filter: "keys_where p (filter (\<lambda>(c, s). q c) m) = keys_where (\<lambda>c. q c \<and> p c) m"
  by (auto simp: in_keys_where)

lemma keys_where_head: "w \<noteq> None \<Longrightarrow> keys_where p (head_map w m) = keys_where (\<lambda>c. c < w \<and> p c) m"
  by (cases w) (simp_all add: head_map_def keys_where_filter)

lemma keys_where_tail: "w \<noteq> None \<Longrightarrow> keys_where p (tail_map w m) = keys_where (\<lambda>c. w \<le> c \<and> p c) m"
  by (cases w) (simp_all add: tail_map_def keys_where_filter)

lemma eval_compare_option:
  "eval_compare (\<lambda>a b. b < a) w (Single c) \<longleftrightarrow> w \<noteq> None \<and> w < c"
  "eval_compare (\<lambda>a b. b \<le> a) w (Single c) \<longleftrightarrow> w \<noteq> None \<and> w \<le> c"
  "eval_compare (\<lambda>a b. a < b) w (Single c) \<longleftrightarrow> c \<noteq> None \<and> w \<noteq> None \<and> c < w"
  "eval_compare (\<lambda>a b. a \<le> b) w (Single c) \<longleftrightarrow> c \<noteq> None \<and> w \<noteq> None \<and> c \<le> w"
  by (auto simp: eval_compare_def less_option_def less_eq_option_def split: option.splits)

lemma between_keys_where:
  "sorted_wrt (\<lambda>(c, s) (d, t). p c \<longrightarrow> p d) m \<Longrightarrow> between_keys p f m = keys_where (\<lambda>c. f \<or> p c) m"
proof (induction p f m rule: between_keys.induct)
  case (2 p f c s m)
  have "keys_where (\<lambda>c. True) m = keys_where p m" if "p c"
  proof (rule set_eqI)
    fix k
    have "\<forall>(d, t)\<in>set m. p d" using 2(3) that by simp
    then show "k \<in> keys_where (\<lambda>c. True) m \<longleftrightarrow> k \<in> keys_where p m" unfolding in_keys_where by fastforce
  qed
  moreover have "keys_where q ((c, s) # m) = (if q c then s else {}) \<union> keys_where q m" for q
    by (auto simp: keys_where_def)
  ultimately show ?case using 2 by (cases "f"; cases "p c") auto
qed (simp add: keys_where_def)

text \<open>One object per entry: the comparisons on the index are those on the extracted values.\<close>

lemma in_equals: "indexed_at ix k (Single c) \<Longrightarrow> k \<in> equal_keys w ix ks \<longleftrightarrow> k \<in> ks \<and> Single c = w"
  unfolding equal_keys_def Let_def in_unless_empty by auto

lemma in_not_equals: "indexed_at ix k (Single c) \<Longrightarrow> k \<in> not_equal_keys w ix ks \<longleftrightarrow> k \<in> ks \<and> Single c \<noteq> w"
  by (auto simp: not_equal_keys_def)

lemma in_greater: "indexed_at ix k (Single c) \<Longrightarrow> w \<noteq> None \<Longrightarrow>
    k \<in> apply_greater w ix ks \<longleftrightarrow> k \<in> ks \<and> eval_compare (\<lambda>a b. b < a) w (Single c)"
  by (cases w; cases c) (auto simp: apply_greater_def Let_def keys_where_head keys_where_tail eval_compare_option)

lemma in_greater_equals: "indexed_at ix k (Single c) \<Longrightarrow> w \<noteq> None \<Longrightarrow>
    k \<in> apply_greater_equals w ix ks \<longleftrightarrow> k \<in> ks \<and> eval_compare (\<lambda>a b. b \<le> a) w (Single c)"
  by (cases w; cases c) (auto simp: apply_greater_equals_def Let_def keys_where_head keys_where_tail eval_compare_option)

lemma in_less: "indexed_at ix k (Single c) \<Longrightarrow> w \<noteq> None \<Longrightarrow>
    k \<in> apply_less w ix ks \<longleftrightarrow> k \<in> ks \<and> eval_compare (\<lambda>a b. a < b) w (Single c)"
  by (cases w; cases c) (auto simp: apply_less_def Let_def keys_where_head keys_where_tail eval_compare_option)

lemma in_less_equals: "indexed_at ix k (Single c) \<Longrightarrow> w \<noteq> None \<Longrightarrow>
    k \<in> apply_less_equals w ix ks \<longleftrightarrow> k \<in> ks \<and> eval_compare (\<lambda>a b. a \<le> b) w (Single c)"
  by (cases w; cases c) (auto simp: apply_less_equals_def Let_def keys_where_head keys_where_tail eval_compare_option)

lemma in_in: "indexed_at ix k (Single c) \<Longrightarrow> k \<in> in_keys ws ix ks \<longleftrightarrow> k \<in> ks \<and> Single c \<in> set ws"
  unfolding in_keys_def Let_def in_unless_empty by auto

lemma in_between:
  assumes at: "indexed_at ix k (Single c)" and b: "lower \<noteq> None" "upper \<noteq> None"
    and safe: "ix_ordered ix \<Longrightarrow> fUpper \<Longrightarrow> lower < upper \<or> lower = upper \<and> fLower"
  shows "k \<in> apply_between lower upper fLower fUpper ix ks \<longleftrightarrow> k \<in> ks \<and> eval_between lower upper fLower fUpper (Single c)"
proof (cases "ix_ordered ix")
  case False
  then show ?thesis using at by (simp add: apply_between_def Let_def)
next
  case True
  let ?p = "\<lambda>c. eval_between lower upper fLower fUpper (Single c)" and ?m = "filter (\<lambda>(c, s). lower \<le> c \<and> c < upper) (ix_inverse ix)"
  have "sorted_wrt (\<le>) (map fst (ix_inverse ix))"
    using indexed_at_ok [OF at] True unfolding contents_ok_def by blast
  then have "sorted_wrt (\<lambda>(c, s) (d, t). c \<le> d) (ix_inverse ix)" by (simp add: sorted_wrt_map case_prod_unfold)
  then have "sorted_wrt (\<lambda>(c, s) (d, t). c \<le> d) ?m" by (rule sorted_wrt_filter)
  then have "sorted_wrt (\<lambda>(c, s) (d, t). ?p c \<longrightarrow> ?p d) ?m"
    by (rule sorted_wrt_mono_rel [rotated])
      (use b in \<open>auto simp: eval_between_def less_eq_option_def less_option_def split: option.splits if_splits\<close>)
  from between_keys_where [OF this, of fLower]
  have keys: "k \<in> between_keys ?p fLower ?m \<longleftrightarrow> lower \<le> c \<and> c < upper \<and> (fLower \<or> ?p c)"
    using at by (simp add: keys_where_filter)
  have "(lower \<le> c \<and> c < upper \<and> (fLower \<or> ?p c)) \<or> (fUpper \<and> upper = c) \<longleftrightarrow> ?p c"
    using b safe [OF True]
    by (cases lower; cases upper; cases c) (auto simp: eval_between_def less_eq_option_def less_option_def split: if_splits)
  then show ?thesis using True keys at unfolding apply_between_def Let_def if_P [OF True] in_unless_empty by auto
qed

text \<open>A collection per entry: the filters on its elements.\<close>

lemma in_contains: "indexed_at ix k (Several cs) \<Longrightarrow>
    k \<in> equal_keys (Single c) ix ks \<longleftrightarrow> k \<in> ks \<and> eval_contains c (Several cs)"
  unfolding equal_keys_def Let_def in_unless_empty
  using in_at_values [of ix k "Several cs" c] by (simp add: keys_of_value_def eval_contains_def)

lemma in_contains_any: "indexed_at ix k (Several cs) \<Longrightarrow>
    k \<in> in_keys (map Single ds) ix ks \<longleftrightarrow> k \<in> ks \<and> eval_contains_any ds (Several cs)"
  unfolding in_keys_def Let_def in_unless_empty using in_at_values [of ix k "Several cs"]
  by (auto simp: keys_of_value_def eval_contains_any_def list_ex_iff)

lemma in_contains_all: "indexed_at ix k (Several cs) \<Longrightarrow>
    k \<in> apply_contains_all ds ix ks \<longleftrightarrow> k \<in> ks \<and> eval_contains_all ds (Several cs)"
proof (induction ds ix ks rule: apply_contains_all.induct)
  case (2 d ds ix ks)
  have "d \<in> set cs \<longleftrightarrow> k \<in> (case map_of (ix_inverse ix) d of None \<Rightarrow> {} | Some s \<Rightarrow> s)"
    using in_at_values [OF 2(2), of d] by (simp add: keys_at_def)
  then show ?case using 2 by (auto simp: eval_contains_all_def split: option.splits)
qed (simp add: eval_contains_all_def)

end
