(* ===== verification/Filter_Apply.thy ===== *)
theory Filter_Apply
  imports Filter_Index
begin

text \<open>
  Applying the indexes to a whole filter: what is left of the filter, evaluated on the keys
  that are left, decides the entries as the filter does; and what a query returns with
  indexes is what it returns without.
\<close>

section \<open>Safe filters\<close>

definition indexes_ok ::
  "('g, 'k, 'x, 'a::linorder) app \<Rightarrow> ('k \<Rightarrow> 'x option) \<Rightarrow> ('g, 'k, 'a) indexes \<Rightarrow> bool" where
  "indexes_ok app m ixs \<longleftrightarrow> (\<forall>e ix. ixs e = Some ix \<longrightarrow> ix_ok app m ix \<and> ix_extractor ix = e)"

definition single_valued :: "('g, 'k, 'a) map_index option \<Rightarrow> bool" where
  "single_valued ix \<longleftrightarrow> (\<forall>i k v. ix = Some i \<longrightarrow> ix_forward i k = Some v \<longrightarrow> (\<exists>c. v = Single c))"

definition collection_valued :: "('g, 'k, 'a) map_index option \<Rightarrow> bool" where
  "collection_valued ix \<longleftrightarrow> (\<forall>i k v. ix = Some i \<longrightarrow> ix_forward i k = Some v \<longrightarrow> (\<exists>cs. v = Several cs))"

definition range_ok :: "('g, 'k, 'a) map_index option \<Rightarrow> 'a::linorder option \<Rightarrow> 'a option \<Rightarrow> bool \<Rightarrow> bool \<Rightarrow> bool" where
  "range_ok ix lower upper fLower fUpper \<longleftrightarrow>
     (\<forall>i. ix = Some i \<longrightarrow> ix_ordered i \<longrightarrow> fUpper \<longrightarrow> lower < upper \<or> lower = upper \<and> fLower)"

text \<open>The filters whose index either decides them or leaves all the keys.\<close>

fun resolves :: "('g, 'k, 'a, 'u) filter \<Rightarrow> bool" where
  "resolves (InKeySetFilter f js) = False"
| "resolves (AllFilter b fs) = False"
| "resolves _ = True"

text \<open>
  Looking a value up does not throw, unless it is a collection and the index is ordered; and
  a partial index that has to be searched for other values has no \<^verbatim>\<open>NULL\<close> among its own.
\<close>

definition can_get :: "('g, 'k, 'a) map_index option \<Rightarrow> 'a ixvalue \<Rightarrow> bool" where
  "can_get ix w \<longleftrightarrow> (\<forall>i cs. ix = Some i \<longrightarrow> w = Several cs \<longrightarrow> \<not> ix_ordered i)"

definition no_null_key :: "('g, 'k, 'a) map_index option \<Rightarrow> bool" where
  "no_null_key ix \<longleftrightarrow> (\<forall>i. ix = Some i \<longrightarrow> ix_is_partial i \<longrightarrow> \<not> list_ex (\<lambda>(c, s). c = None) (ix_inverse i))"

text \<open>
  The filters that an index decides as their evaluation does: a comparison on an index of
  single objects, a containment on an index of collections, no lookup that throws, no range
  that is empty but has its upper bound included, and a negation only of what an index does not
  decide by halves.
\<close>

fun index_safe :: "('g, 'k, 'a::linorder) indexes \<Rightarrow> ('g, 'k, 'a, 'u) filter \<Rightarrow> bool" where
  "index_safe ixs (EqualsFilter e w) = (single_valued (ixs e) \<and> can_get (ixs e) w)"
| "index_safe ixs (NotEqualsFilter e w) =
     (single_valued (ixs e) \<and> can_get (ixs e) w \<and> no_null_key (ixs e))"
| "index_safe ixs (GreaterFilter e w) = single_valued (ixs e)"
| "index_safe ixs (GreaterEqualsFilter e w) = single_valued (ixs e)"
| "index_safe ixs (LessFilter e w) = single_valued (ixs e)"
| "index_safe ixs (LessEqualsFilter e w) = single_valued (ixs e)"
| "index_safe ixs (BetweenFilter e lower upper fLower fUpper) =
     (single_valued (ixs e) \<and> range_ok (ixs e) lower upper fLower fUpper)"
| "index_safe ixs (InFilter e ws) = (single_valued (ixs e) \<and> list_all (can_get (ixs e)) ws)"
| "index_safe ixs (ContainsFilter e c) = collection_valued (ixs e)"
| "index_safe ixs (ContainsAllFilter e cs) = collection_valued (ixs e)"
| "index_safe ixs (ContainsAnyFilter e cs) = collection_valued (ixs e)"
| "index_safe ixs (InKeySetFilter f js) = (index_aware f \<and> index_safe ixs f)"
| "index_safe ixs (NotFilter f) = (resolves f \<and> index_safe ixs f)"
| "index_safe ixs (AllFilter b fs) = list_all (index_safe ixs) fs"
| "index_safe ixs (AnyFilter b fs) = list_all (index_safe ixs) fs"
| "index_safe ixs _ = True"

lemma non_partial_ok:
  "indexes_ok app m ixs \<Longrightarrow> indexes_ok app m (non_partial ixs)"
  by (auto simp: indexes_ok_def non_partial_def split: option.splits if_splits)

lemma non_partial_safe: "index_safe ixs f \<Longrightarrow> index_safe (non_partial ixs) f"
proof (induction f)
  case (AllFilter b fs)
  then show ?case by (simp add: list_all_iff)
next
  case (AnyFilter b fs)
  then show ?case by (simp add: list_all_iff)
qed (auto simp: single_valued_def collection_valued_def range_ok_def non_partial_def can_get_def no_null_key_def
    list_all_iff split: option.split)

section \<open>Where no lookup throws\<close>

lemma contents_get_ok:
  "can_get (Some ix) w \<Longrightarrow> contents_get (ix_ordered ix) w (ix_inverse ix) = Inr (keys_of_value w (ix_inverse ix))"
  by (auto simp: contents_get_def keys_of_value_def can_get_def split: ixvalue.split)

lemma contents_get_all_ok:
  "list_all (can_get (Some ix)) ws \<Longrightarrow>
   contents_get_all (ix_ordered ix) ws (ix_inverse ix) = Inr (\<Union>w\<in>set ws. keys_of_value w (ix_inverse ix))"
  by (induction ws) (simp_all add: contents_get_ok case_exn_def)

lemma apply_equals_ok: "can_get (Some ix) w \<Longrightarrow> apply_equals w ix ks = Inr (equal_keys w ix ks)"
  by (simp add: apply_equals_def equal_keys_def contents_get_ok case_exn_def Let_def)

lemma apply_not_equals_ok:
  "can_get (Some ix) w \<Longrightarrow> no_null_key (Some ix) \<Longrightarrow> apply_not_equals w ix ks = Inr (not_equal_keys w ix ks)"
  by (simp add: apply_not_equals_def not_equal_keys_def no_null_key_def contents_get_ok case_exn_def)

lemma apply_in_ok: "list_all (can_get (Some ix)) ws \<Longrightarrow> apply_in ws ix ks = Inr (in_keys ws ix ks)"
  by (simp add: apply_in_def in_keys_def contents_get_all_ok case_exn_def Let_def)

lemma can_get_single [simp]: "can_get ix (Single c)" "list_all (can_get ix) (map Single cs)"
  by (simp_all add: can_get_def list_all_iff)

lemma with_index_ok:
  "(\<And>ix. ixs e = Some ix \<Longrightarrow> ap ix ks = Inr (ap' ix ks)) \<Longrightarrow>
   with_index ixs e f ap ks = Inr (with_index_keys ixs e f ap' ks)"
  by (auto simp: with_index_def with_index_keys_def case_exn_def split: option.split)

lemma apply_each_ok:
  "(\<And>f ks. f \<in> set fs \<Longrightarrow> ap f ks = Inr (ap' f ks)) \<Longrightarrow>
   apply_each aware ap fs ks = Inr (each_keys aware ap' fs ks)"
  by (induction fs arbitrary: ks) (auto simp: case_exn_def map_prod_def split: prod.split)

lemma apply_some_ok:
  "(\<And>f ks. f \<in> set fs \<Longrightarrow> ap f ks = Inr (ap' f ks)) \<Longrightarrow>
   apply_some aware ap restrict ks fs match = Inr (some_keys aware ap' restrict ks fs match)"
  by (induction fs arbitrary: match) (auto simp: case_exn_def map_prod_def split: prod.split option.split)

lemma apply_index_keys: "index_safe ixs f \<Longrightarrow> apply_index ixs f ks = Inr (index_keys ixs f ks)"
proof (induction f arbitrary: ixs ks)
  case (NotFilter f)
  from NotFilter.IH [of "non_partial ixs" ks] NotFilter.prems non_partial_safe [of ixs f] show ?case
    by (simp add: case_exn_def Let_def split: prod.split)
next
  case (AllFilter b fs)
  then have "apply_each index_aware (\<lambda>f. apply_index ixs f) (optimize_order ixs ks b fs) ks =
      Inr (each_keys index_aware (\<lambda>f. index_keys ixs f) (optimize_order ixs ks b fs) ks)"
    by (intro apply_each_ok) (simp add: list_all_iff)
  then show ?case by (simp add: case_exn_def split: prod.split option.split list.split)
next
  case (AnyFilter b fs)
  then have "apply_some index_aware (\<lambda>f. apply_index ixs f) (\<lambda>f js. AllFilter False [f, KeyFilter js]) ks
        (optimize_order ixs ks b fs) {} =
      Inr (some_keys index_aware (\<lambda>f. index_keys ixs f) (\<lambda>f js. AllFilter False [f, KeyFilter js]) ks
        (optimize_order ixs ks b fs) {})"
    by (intro apply_some_ok) (simp add: list_all_iff)
  then show ?case by (simp add: case_exn_def split: prod.split)
qed (auto intro!: with_index_ok simp: apply_equals_ok apply_not_equals_ok apply_in_ok)

section \<open>What is left of the filter\<close>

text \<open>The meaning of what applying an index returns: it decides the keys as the filter does.\<close>

definition left_holds ::
  "('g, 'k, 'x, 'a::linorder) app \<Rightarrow> ('k, 'x, 'u) user_filters \<Rightarrow> 'k \<Rightarrow> 'x \<Rightarrow> ('g, 'k, 'a, 'u) filter option \<Rightarrow> bool" where
  "left_holds app user k x g = (case g of None \<Rightarrow> True | Some g \<Rightarrow> holds app user k x g)"

lemma left_holds_simps [simp]: "left_holds app user k x None" "left_holds app user k x (Some g) = holds app user k x g"
  by (simp_all add: left_holds_def)

definition decides ::
  "('g, 'k, 'x, 'a::linorder) app \<Rightarrow> ('k, 'x, 'u) user_filters \<Rightarrow> ('k \<Rightarrow> 'x option) \<Rightarrow> ('g, 'k, 'a, 'u) filter \<Rightarrow> 'k set \<Rightarrow>
    ('g, 'k, 'a, 'u) filter option \<times> 'k set \<Rightarrow> bool" where
  "decides app user m f ks r \<longleftrightarrow>
     snd r \<subseteq> ks \<and>
     (\<forall>k\<in>ks. \<forall>x. m k = Some x \<longrightarrow> returns app user k x f \<longrightarrow>
        (holds app user k x f \<longleftrightarrow> k \<in> snd r \<and> left_holds app user k x (fst r)))"

lemma decidesI:
  assumes "ks' \<subseteq> ks"
    and "\<And>k x. k \<in> ks \<Longrightarrow> m k = Some x \<Longrightarrow> returns app user k x f \<Longrightarrow>
      holds app user k x f \<longleftrightarrow> k \<in> ks' \<and> left_holds app user k x g"
  shows "decides app user m f ks (g, ks')"
  using assms by (simp add: decides_def)

lemma decidesD:
  assumes "decides app user m f ks (g, ks')"
  shows "ks' \<subseteq> ks"
    and "k \<in> ks \<Longrightarrow> m k = Some x \<Longrightarrow> returns app user k x f \<Longrightarrow>
      holds app user k x f \<longleftrightarrow> k \<in> ks' \<and> left_holds app user k x g"
  using assms by (simp_all add: decides_def)

lemma resolves_all_or_none:
  "resolves f \<Longrightarrow> fst (index_keys ixs f ks) = None \<or> snd (index_keys ixs f ks) = ks"
  by (cases f) (auto simp: with_index_keys_def Let_def split: option.split prod.split)

text \<open>A filter that returns leaves a filter that returns.\<close>

lemma each_keys_returns:
  "(\<And>f g ks ks'. f \<in> set fs \<Longrightarrow> ap f ks = (Some g, ks') \<Longrightarrow> P f \<Longrightarrow> P g) \<Longrightarrow> list_all P fs \<Longrightarrow>
   each_keys aware ap fs ks = (Some gs, ks') \<Longrightarrow> list_all P gs"
proof (induction fs arbitrary: ks gs)
  case (Cons f fs)
  show ?case
  proof (cases "aware f")
    case True
    obtain g js where ap: "ap f ks = (g, js)" by fastforce
    with Cons.prems(3) True have ne: "js \<noteq> {}" by auto
    obtain hs ls where rest: "each_keys aware ap fs js = (hs, ls)" by fastforce
    with Cons.prems(3) True ap ne obtain gs' where hs: "hs = Some gs'" and gs: "gs = (case g of None \<Rightarrow> gs' | Some g \<Rightarrow> g # gs')"
      and "ls = ks'" by (auto simp: split: option.splits)
    have "list_all P gs'" using Cons.IH [of js gs'] Cons.prems(1,2) rest hs \<open>ls = ks'\<close> by auto
    moreover have "P g'" if "g = Some g'" for g' using Cons.prems(1) [of f ks g' js] Cons.prems(2) ap that by simp
    ultimately show ?thesis using gs by (auto split: option.split)
  next
    case False
    obtain hs ls where rest: "each_keys aware ap fs ks = (hs, ls)" by fastforce
    with Cons.prems(3) False obtain gs' where "hs = Some gs'" "gs = f # gs'" "ls = ks'" by auto
    with Cons.IH [of ks gs'] Cons.prems(1,2) rest show ?thesis by auto
  qed
qed simp

lemma some_keys_returns:
  assumes "\<And>f g js js'. f \<in> set fs \<Longrightarrow> ap f js = (Some g, js') \<Longrightarrow> P f \<Longrightarrow> P g" and "\<And>f js. P f \<Longrightarrow> P (restrict f js)"
    and "list_all P fs"
  shows "list_all P (fst (some_keys aware ap restrict ks fs match))"
  using assms(1,3)
proof (induction fs arbitrary: match)
  case (Cons f fs)
  have IH: "list_all P (fst (some_keys aware ap restrict ks fs match'))" for match'
  proof (rule Cons.IH)
    show "P g" if "f' \<in> set fs" "ap f' js = (Some g, js')" "P f'" for f' g js js'
      using Cons.prems(1) [of f' js g js'] that by simp
  qed (use Cons.prems(2) in simp)
  have P: "P f" using Cons.prems(2) by simp
  show ?case
  proof (cases "aware f")
    case True
    obtain g js where ap: "ap f (ks - match) = (g, js)" by fastforce
    have "P g'" if "g = Some g'" for g' using Cons.prems(1) [of f _ g' js] ap that P by simp
    then show ?thesis using IH True ap assms(2) by (cases g) auto
  qed (use IH P in auto)
qed simp

lemma index_keys_returns:
  "index_keys ixs f ks = (Some g, ks') \<Longrightarrow> returns app user k x f \<Longrightarrow> returns app user k x g"
proof (induction f arbitrary: ixs ks g ks')
  case (NotFilter f)
  obtain h delta where ap: "index_keys (non_partial ixs) f ks = (h, delta)" by fastforce
  have "returns app user k x h'" if "h = Some h'" for h' using NotFilter.IH [of "non_partial ixs" ks h' delta] ap that NotFilter.prems(2) by simp
  then show ?case using NotFilter.prems ap by (auto simp: Let_def split: if_splits)
next
  case (AllFilter b fs)
  let ?fs = "optimize_order ixs ks b fs"
  obtain r js where ap: "each_keys index_aware (\<lambda>f. index_keys ixs f) ?fs ks = (r, js)" by fastforce
  with AllFilter.prems(1) obtain gs where r: "r = Some gs" by (cases r) auto
  have "list_all (\<lambda>f. returns app user k x f) gs"
    by (rule each_keys_returns [OF _ _ ap [unfolded r]]) (use AllFilter in \<open>auto simp: list_all_iff\<close>)
  with AllFilter.prems(1) ap r show ?case by (auto split: list.splits)
next
  case (AnyFilter b fs)
  let ?fs = "optimize_order ixs ks b fs"
  obtain gs match where ap: "some_keys index_aware (\<lambda>f. index_keys ixs f) (\<lambda>f js. AllFilter False [f, KeyFilter js]) ks ?fs {} = (gs, match)"
    by fastforce
  have "list_all (\<lambda>f. returns app user k x f)
      (fst (some_keys index_aware (\<lambda>f. index_keys ixs f) (\<lambda>f js. AllFilter False [f, KeyFilter js]) ks ?fs {}))"
    by (rule some_keys_returns) (use AnyFilter in \<open>auto simp: list_all_iff\<close>)
  with ap AnyFilter.prems(1) show ?case by (cases gs) (auto split: if_splits)
qed (auto simp: with_index_keys_def split: option.splits if_splits)

section \<open>The index decides\<close>

text \<open>Leaves: by the value that the index has for the key.\<close>

lemma with_index_decides:
  assumes ok: "indexes_ok app m ixs"
    and ev: "\<And>k x. evaluate_entry app user k x f = eval_extracted app e p k x"
    and ret: "\<And>k x. returns app user k x f = extracts app e k x"
    and sub: "\<And>ix. ap ix ks \<subseteq> ks"
    and mem: "\<And>ix k v. ixs e = Some ix \<Longrightarrow> ix_forward ix k = Some v \<Longrightarrow> indexed_at ix k v \<Longrightarrow> k \<in> ap ix ks \<longleftrightarrow> k \<in> ks \<and> p v"
  shows "decides app user m f ks (with_index_keys ixs e f ap ks)"
proof (cases "ixs e")
  case None
  then show ?thesis by (simp add: with_index_keys_def decides_def)
next
  case (Some ix)
  then have ix: "ix_ok app m ix" "ix_extractor ix = e" using ok by (simp_all add: indexes_ok_def)
  have "holds app user k x f \<longleftrightarrow> k \<in> ap ix ks" if k: "k \<in> ks" "m k = Some x" "returns app user k x f" for k x
  proof -
    have "extracts app e k x" using k(3) ret by simp
    from eval_extracted_returns [OF this, of p] obtain v where
      v: "extract_from_entry app e k x = Inr v" "eval_extracted app e p k x = Inr (p v)" by blast
    have val: "ix_value app e m k = Some v" using k(2) v(1) by (simp add: ix_value_def)
    then have "indexed_at ix k v" using indexed_at_value [OF ix(1), of k v] ix(2) by simp
    moreover have "ix_forward ix k = Some v" using ix val by (simp add: ix_ok_def)
    ultimately show ?thesis using mem [OF Some] k(1) v(2) ev by (simp add: holds_def)
  qed
  then show ?thesis using Some sub by (simp add: with_index_keys_def decides_def)
qed

lemma apply_subset:
  "equal_keys w ix ks \<subseteq> ks" "not_equal_keys w ix ks \<subseteq> ks"
  "apply_greater c ix ks \<subseteq> ks" "apply_greater_equals c ix ks \<subseteq> ks" "apply_less c ix ks \<subseteq> ks" "apply_less_equals c ix ks \<subseteq> ks"
  "apply_between c d fLower fUpper ix ks \<subseteq> ks" "in_keys ws ix ks \<subseteq> ks"
  by (auto simp: equal_keys_def not_equal_keys_def apply_greater_def apply_greater_equals_def apply_less_def
      apply_less_equals_def apply_between_def in_keys_def Let_def split: if_splits)

lemma apply_contains_all_subset: "apply_contains_all cs ix ks \<subseteq> ks"
  by (induction cs ix ks rule: apply_contains_all.induct) (auto split: option.split)

lemma each_keys_none: "fst (each_keys aware ap fs ks) = None \<Longrightarrow> snd (each_keys aware ap fs ks) = {}"
  by (induction fs arbitrary: ks) (auto split: prod.splits if_splits)

lemma some_keys_mono: "match \<subseteq> snd (some_keys aware ap restrict ks fs match)"
proof (induction fs arbitrary: match)
  case (Cons f fs)
  obtain g remain where ap: "ap f (ks - match) = (g, remain)" by fastforce
  have "match \<subseteq> snd (some_keys aware ap restrict ks fs (match \<union> remain))" using Cons [of "match \<union> remain"] by blast
  with Cons [of match] ap show ?case by (cases g) auto
qed simp

text \<open>The loop of \<^verbatim>\<open>AllFilter\<close>: no filter that has been applied is lost.\<close>

lemma each_keys_decides:
  assumes dec: "\<And>f ks. f \<in> F \<Longrightarrow> finite ks \<Longrightarrow> decides app user m f ks (ap f ks)"
  shows "set fs \<subseteq> F \<Longrightarrow> finite ks \<Longrightarrow> each_keys aware ap fs ks = (r, ks') \<Longrightarrow>
    ks' \<subseteq> ks \<and> (\<forall>k\<in>ks. \<forall>x. m k = Some x \<longrightarrow> list_all (\<lambda>f. returns app user k x f) fs \<longrightarrow>
      ((\<forall>f\<in>set fs. holds app user k x f) \<longleftrightarrow>
        k \<in> ks' \<and> (case r of None \<Rightarrow> True | Some gs \<Rightarrow> \<forall>g\<in>set gs. holds app user k x g)))"
proof (induction fs arbitrary: ks r ks')
  case (Cons f fs)
  have F: "f \<in> F" "set fs \<subseteq> F" using Cons.prems(1) by auto
  show ?case
  proof (cases "aware f")
    case True
    obtain g js where ap: "ap f ks = (g, js)" by fastforce
    have first: "decides app user m f ks (g, js)" using dec [OF F(1) Cons.prems(2)] ap by simp
    note sub = decidesD(1) [OF first] and iff = decidesD(2) [OF first]
    show ?thesis
    proof (cases "js = {}")
      case True
      with Cons.prems(3) \<open>aware f\<close> ap have "r = None" "ks' = {}" by auto
      with iff True show ?thesis by auto
    next
      case False
      obtain hs where rest: "each_keys aware ap fs js = (hs, ks')"
        and r: "r = map_option (\<lambda>gs. case g of None \<Rightarrow> gs | Some g \<Rightarrow> g # gs) hs"
        using Cons.prems(3) \<open>aware f\<close> ap False by (cases "each_keys aware ap fs js") auto
      have "finite js" using sub Cons.prems(2) finite_subset by blast
      note law = Cons.IH [OF F(2) this rest]
      have rs: "(case r of None \<Rightarrow> True | Some gs \<Rightarrow> \<forall>g\<in>set gs. holds app user k x g) \<longleftrightarrow>
          (case hs of None \<Rightarrow> True | Some gs \<Rightarrow> left_holds app user k x g \<and> (\<forall>g\<in>set gs. holds app user k x g))" for k x
        unfolding r by (cases hs; cases g) auto
      show ?thesis
      proof (intro conjI ballI allI impI)
        show "ks' \<subseteq> ks" using law sub by blast
        fix k x assume k: "k \<in> ks" "m k = Some x" "list_all (\<lambda>f. returns app user k x f) (f # fs)"
        have None_empty: "hs = None \<Longrightarrow> ks' = {}" using rest each_keys_none [of aware ap fs js] by simp
        have rest_iff: "k \<in> js \<Longrightarrow> (\<forall>f\<in>set fs. holds app user k x f) \<longleftrightarrow>
            k \<in> ks' \<and> (case hs of None \<Rightarrow> True | Some gs \<Rightarrow> \<forall>g\<in>set gs. holds app user k x g)"
          using law k(2,3) by simp
        have "ks' \<subseteq> js" using law by blast
        with iff [OF k(1,2)] k(3) rest_iff None_empty
        show "(\<forall>f\<in>set (f # fs). holds app user k x f) \<longleftrightarrow>
            k \<in> ks' \<and> (case r of None \<Rightarrow> True | Some gs \<Rightarrow> \<forall>g\<in>set gs. holds app user k x g)"
          unfolding rs by (cases hs; cases "k \<in> js") auto
      qed
    qed
  next
    case False
    obtain hs where rest: "each_keys aware ap fs ks = (hs, ks')" and r: "r = map_option (Cons f) hs"
      using Cons.prems(3) False by (cases "each_keys aware ap fs ks") auto
    have "hs = None \<Longrightarrow> ks' = {}" using rest each_keys_none [of aware ap fs ks] by simp
    with Cons.IH [OF F(2) Cons.prems(2) rest] r show ?thesis by (cases hs) auto
  qed
qed auto

text \<open>
  The loop of \<^verbatim>\<open>AnyFilter\<close>: a key that matches no filter that has been resolved is decided
  by the filters that are left.
\<close>

lemma some_keys_decides:
  assumes dec: "\<And>f js. f \<in> F \<Longrightarrow> finite js \<Longrightarrow> decides app user m f js (ap f js)" and fin: "finite ks"
    and restrict: "\<And>f js k x. returns app user k x f \<Longrightarrow> holds app user k x (restrict f js) \<longleftrightarrow> k \<in> js \<and> holds app user k x f"
    and rets: "\<And>f g js js' k x. f \<in> F \<Longrightarrow> ap f js = (Some g, js') \<Longrightarrow> returns app user k x f \<Longrightarrow> returns app user k x g"
  shows "set fs \<subseteq> F \<Longrightarrow> match \<subseteq> ks \<Longrightarrow> some_keys aware ap restrict ks fs match = (gs, match') \<Longrightarrow>
    match' \<subseteq> ks \<and> (\<forall>k\<in>ks. \<forall>x. m k = Some x \<longrightarrow> list_all (\<lambda>f. returns app user k x f) fs \<longrightarrow>
      (k \<in> match \<or> (\<exists>f\<in>set fs. holds app user k x f) \<longleftrightarrow> k \<in> match' \<or> (\<exists>g\<in>set gs. holds app user k x g)))"
proof (induction fs arbitrary: match gs match')
  case (Cons f fs)
  have F: "f \<in> F" "set fs \<subseteq> F" using Cons.prems(1) by auto
  show ?case
  proof (cases "aware f")
    case False
    obtain hs where rest: "some_keys aware ap restrict ks fs match = (hs, match')" and gs: "gs = f # hs"
      using Cons.prems(3) False by (cases "some_keys aware ap restrict ks fs match") auto
    from Cons.IH [OF F(2) Cons.prems(2) rest] gs show ?thesis by auto
  next
    case True
    obtain g remain where ap: "ap f (ks - match) = (g, remain)" by fastforce
    have first: "decides app user m f (ks - match) (g, remain)" using dec [OF F(1), of "ks - match"] fin ap by simp
    note sub = decidesD(1) [OF first] and iff = decidesD(2) [OF first]
    show ?thesis
    proof (cases g)
      case None
      have rest: "some_keys aware ap restrict ks fs (match \<union> remain) = (gs, match')"
        using Cons.prems(3) True ap None by simp
      have "match \<union> remain \<subseteq> ks" using sub Cons.prems(2) by blast
      note law = Cons.IH [OF F(2) this rest]
      show ?thesis
      proof (intro conjI ballI allI impI)
        show "match' \<subseteq> ks" using law by blast
        fix k x assume k: "k \<in> ks" "m k = Some x" "list_all (\<lambda>f. returns app user k x f) (f # fs)"
        from k law have "k \<in> match \<or> k \<in> remain \<or> (\<exists>f\<in>set fs. holds app user k x f) \<longleftrightarrow>
            k \<in> match' \<or> (\<exists>g\<in>set gs. holds app user k x g)" by auto
        moreover have "k \<notin> match \<Longrightarrow> holds app user k x f \<longleftrightarrow> k \<in> remain" using iff [of k x] k None by simp
        ultimately show "k \<in> match \<or> (\<exists>f\<in>set (f # fs). holds app user k x f) \<longleftrightarrow>
            k \<in> match' \<or> (\<exists>g\<in>set gs. holds app user k x g)" by auto
      qed
    next
      case (Some left)
      have retd: "returns app user k x left" if "returns app user k x f" for k x
        using rets [OF F(1) ap [unfolded Some] that] .
      define front where "front = (if card remain < card ks
        then (if 0 < card remain then [restrict left remain] else []) else [left])"
      have fin_remain: "finite remain" using sub fin finite_subset by blast
      have front: "(\<exists>g\<in>set front. holds app user k x g) \<longleftrightarrow> holds app user k x f"
        if "k \<in> ks" "k \<notin> match" "m k = Some x" "returns app user k x f" for k x
      proof (cases "card remain < card ks")
        case True
        show ?thesis using iff [of k x] that restrict [OF retd [OF that(4)], of remain] Some fin_remain True
          by (auto simp: front_def card_gt_0_iff)
      next
        case False
        have "remain = ks" by (rule card_seteq [OF fin]) (use sub False in auto)
        then show ?thesis using iff [of k x] that Some False by (simp add: front_def)
      qed
      obtain hs where rest: "some_keys aware ap restrict ks fs match = (hs, match')" and gs: "gs = front @ hs"
        using Cons.prems(3) True ap Some
        by (cases "some_keys aware ap restrict ks fs match") (auto simp: front_def split: if_splits)
      note law = Cons.IH [OF F(2) Cons.prems(2) rest]
      show ?thesis
      proof (intro conjI ballI allI impI)
        show "match' \<subseteq> ks" using law by blast
        fix k x assume k: "k \<in> ks" "m k = Some x" "list_all (\<lambda>f. returns app user k x f) (f # fs)"
        from k law have "k \<in> match \<or> (\<exists>f\<in>set fs. holds app user k x f) \<longleftrightarrow>
            k \<in> match' \<or> (\<exists>g\<in>set hs. holds app user k x g)" by auto
        moreover have "match \<subseteq> match'" using some_keys_mono [of match aware ap restrict ks fs] rest by simp
        ultimately show "k \<in> match \<or> (\<exists>f\<in>set (f # fs). holds app user k x f) \<longleftrightarrow>
            k \<in> match' \<or> (\<exists>g\<in>set gs. holds app user k x g)"
          using front [of k x] k unfolding gs by auto
      qed
    qed
  qed
qed simp

text \<open>What the inner filter decides, the negation decides the other way round.\<close>

lemma not_filter_decides:
  assumes inner: "decides app user m f ks (index_keys (non_partial ixs) f ks)" and "resolves f"
  shows "decides app user m (NotFilter f) ks (index_keys ixs (NotFilter f) ks)"
proof (cases "index_aware f")
  case True
  obtain g delta where ap: "index_keys (non_partial ixs) f ks = (g, delta)" by fastforce
  note sub = decidesD(1) [OF inner [unfolded ap]] and iff = decidesD(2) [OF inner [unfolded ap]]
  have retd: "returns app user k x h" if "g = Some h" "returns app user k x f" for h k x
    by (rule index_keys_returns [OF ap [unfolded that(1)] that(2)])
  have neg: "holds app user k x (NotFilter f) \<longleftrightarrow> \<not> (k \<in> delta \<and> left_holds app user k x g)"
    if "k \<in> ks" "m k = Some x" "returns app user k x (NotFilter f)" for k x
    using iff [OF that(1,2)] holds_not [of app user k x f] that(3) by simp
  show ?thesis
  proof (cases g)
    case None
    have res: "index_keys ixs (NotFilter f) ks = (None, ks - delta)"
      using True ap None sub by (auto simp: Let_def)
    show ?thesis unfolding res by (rule decidesI) (use neg None in auto)
  next
    case (Some h)
    have "delta = ks" using resolves_all_or_none [OF assms(2), of "non_partial ixs" ks] ap Some by simp
    then have res: "index_keys ixs (NotFilter f) ks = (if ks = {} then (None, {}) else (Some (NotFilter h), ks))"
      using True ap Some by (auto simp: Let_def)
    have "holds app user k x (NotFilter h) \<longleftrightarrow> \<not> holds app user k x h" if "returns app user k x f" for k x
      by (rule holds_not) (rule retd [OF Some that])
    then show ?thesis unfolding res
      using neg Some \<open>delta = ks\<close> by (auto intro!: decidesI)
  qed
next
  case False
  then show ?thesis by (auto intro: decidesI)
qed

text \<open>The leaves, on an index of objects and on an index of collections.\<close>

lemma single_decides:
  assumes "indexes_ok app m ixs" and "single_valued (ixs e)"
    and "\<And>k x. evaluate_entry app user k x f = eval_extracted app e p k x"
    and "\<And>k x. returns app user k x f = extracts app e k x"
    and "\<And>ix. ap ix ks \<subseteq> ks"
    and "\<And>ix k c. ixs e = Some ix \<Longrightarrow> indexed_at ix k (Single c) \<Longrightarrow> k \<in> ap ix ks \<longleftrightarrow> k \<in> ks \<and> p (Single c)"
  shows "decides app user m f ks (with_index_keys ixs e f ap ks)"
proof (rule with_index_decides [where ap = ap and p = p and e = e, OF assms(1,3,4,5)])
  fix ix k v assume "ixs e = Some ix" "ix_forward ix k = Some v" "indexed_at ix k v"
  moreover from this assms(2) obtain c where "v = Single c" by (auto simp: single_valued_def)
  ultimately show "k \<in> ap ix ks \<longleftrightarrow> k \<in> ks \<and> p v" using assms(6) by simp
qed

lemma collection_decides:
  assumes "indexes_ok app m ixs" and "collection_valued (ixs e)"
    and "\<And>k x. evaluate_entry app user k x f = eval_extracted app e p k x"
    and "\<And>k x. returns app user k x f = extracts app e k x"
    and "\<And>ix. ap ix ks \<subseteq> ks"
    and "\<And>ix k cs. ixs e = Some ix \<Longrightarrow> indexed_at ix k (Several cs) \<Longrightarrow> k \<in> ap ix ks \<longleftrightarrow> k \<in> ks \<and> p (Several cs)"
  shows "decides app user m f ks (with_index_keys ixs e f ap ks)"
proof (rule with_index_decides [where ap = ap and p = p and e = e, OF assms(1,3,4,5)])
  fix ix k v assume "ixs e = Some ix" "ix_forward ix k = Some v" "indexed_at ix k v"
  moreover from this assms(2) obtain cs where "v = Several cs" by (auto simp: collection_valued_def)
  ultimately show "k \<in> ap ix ks \<longleftrightarrow> k \<in> ks \<and> p v" using assms(6) by simp
qed

text \<open>A comparison with \<^verbatim>\<open>NULL\<close> holds for no entry, index or not.\<close>

lemma null_decides:
  assumes "\<And>k x. evaluate_entry app user k x f = eval_extracted app e (\<lambda>_. False) k x"
    and "\<And>k x. returns app user k x f = extracts app e k x"
  shows "decides app user m f ks (None, {})"
  by (rule decidesI) (use assms eval_extracted_returns [of app e _ _ "\<lambda>_. False"] in \<open>auto simp: holds_def\<close>)

lemma eval_null: "eval_compare cmp None = (\<lambda>_. False)" "eval_between None u fl fu = (\<lambda>_. False)" "eval_between l None fl fu = (\<lambda>_. False)"
  by (auto simp: fun_eq_iff eval_compare_def eval_between_def split: ixvalue.split option.split)

lemma all_filter_decides:
  assumes "\<And>f js. f \<in> set fs \<Longrightarrow> finite js \<Longrightarrow> decides app user m f js (index_keys ixs f js)" and "finite ks"
  shows "decides app user m (AllFilter b fs) ks (index_keys ixs (AllFilter b fs) ks)"
proof -
  let ?fs = "optimize_order ixs ks b fs"
  obtain r js where ap: "each_keys index_aware (\<lambda>f. index_keys ixs f) ?fs ks = (r, js)" by fastforce
  have "set ?fs \<subseteq> set fs" by simp
  note law = each_keys_decides [OF assms(1) this assms(2) ap]
  have all: "holds app user k x (AllFilter b fs) \<longleftrightarrow>
      k \<in> js \<and> (case r of None \<Rightarrow> True | Some gs \<Rightarrow> \<forall>g\<in>set gs. holds app user k x g)"
    if "k \<in> ks" "m k = Some x" "returns app user k x (AllFilter b fs)" for k x
    using law that holds_all [OF that(3)] by (simp add: list_all_iff)
  have ret: "list_all (\<lambda>f. returns app user k x f) gs"
    if "r = Some gs" "returns app user k x (AllFilter b fs)" for gs k x
    by (rule each_keys_returns [OF _ _ ap [unfolded that(1)]])
      (use that(2) in \<open>auto simp: list_all_iff intro: index_keys_returns\<close>)
  define g where "g = (case r of None \<Rightarrow> None | Some [] \<Rightarrow> None | Some [f] \<Rightarrow> Some f | Some gs \<Rightarrow> Some (AllFilter False gs))"
  have res: "index_keys ixs (AllFilter b fs) ks = (g, js)"
    using ap by (auto simp: g_def split: option.split list.split)
  have g: "left_holds app user k x g \<longleftrightarrow> (case r of None \<Rightarrow> True | Some gs \<Rightarrow> \<forall>g\<in>set gs. holds app user k x g)"
    if "returns app user k x (AllFilter b fs)" for k x
    using ret [OF _ that] holds_all [of app user k x False] unfolding g_def
    by (auto split: option.split list.split)
  show ?thesis unfolding res by (rule decidesI) (use law all g in auto)
qed

lemma any_filter_decides:
  assumes "\<And>f js. f \<in> set fs \<Longrightarrow> finite js \<Longrightarrow> decides app user m f js (index_keys ixs f js)" and "finite ks"
  shows "decides app user m (AnyFilter b fs) ks (index_keys ixs (AnyFilter b fs) ks)"
proof -
  let ?fs = "optimize_order ixs ks b fs" and ?restrict = "\<lambda>f js. AllFilter False [f, KeyFilter js]"
  obtain gs match where ap: "some_keys index_aware (\<lambda>f. index_keys ixs f) ?restrict ks ?fs {} = (gs, match)"
    by fastforce
  have restrict: "holds app user k x (?restrict f js) \<longleftrightarrow> k \<in> js \<and> holds app user k x f"
    if "returns app user k x f" for f js k x
    using holds_all [of app user k x False "[f, KeyFilter js]"] that by auto
  have sub: "set ?fs \<subseteq> set fs" by simp
  note law = some_keys_decides [OF assms(1,2) restrict index_keys_returns sub empty_subsetI ap]
  have any: "holds app user k x (AnyFilter b fs) \<longleftrightarrow> k \<in> match \<or> (\<exists>g\<in>set gs. holds app user k x g)"
    if "k \<in> ks" "m k = Some x" "returns app user k x (AnyFilter b fs)" for k x
    using law that holds_any [OF that(3)] by (simp add: list_all_iff)
  have ret: "list_all (\<lambda>f. returns app user k x f) gs" if "returns app user k x (AnyFilter b fs)" for k x
  proof -
    have "list_all (\<lambda>f. returns app user k x f) (fst (some_keys index_aware (\<lambda>f. index_keys ixs f) ?restrict ks ?fs {}))"
      by (rule some_keys_returns) (use that in \<open>auto simp: list_all_iff intro: index_keys_returns\<close>)
    then show ?thesis using ap by simp
  qed
  have holds_gs: "holds app user k x (AnyFilter False (if match = {} then gs else KeyFilter match # gs)) \<longleftrightarrow>
      k \<in> match \<or> (\<exists>g\<in>set gs. holds app user k x g)" if "returns app user k x (AnyFilter b fs)" for k x
    using holds_any [of app user k x False "if match = {} then gs else KeyFilter match # gs"] ret [OF that] by auto
  have res: "index_keys ixs (AnyFilter b fs) ks =
      (if gs = [] then (None, if match = {} then {} else ks \<inter> match)
       else if length gs = 1 \<and> match = {} then (Some (hd gs), ks)
       else (Some (AnyFilter False (if match = {} then gs else KeyFilter match # gs)), ks))"
    using ap by simp
  consider "gs = []" | f where "gs = [f]" "match = {}" | "gs \<noteq> []" "\<not> (length gs = 1 \<and> match = {})"
    by (cases gs) auto
  then show ?thesis
  proof cases
    case 1
    then have "index_keys ixs (AnyFilter b fs) ks = (None, ks \<inter> match)" unfolding res by simp
    then show ?thesis using any 1 by (auto intro!: decidesI)
  next
    case 2
    then have "index_keys ixs (AnyFilter b fs) ks = (Some f, ks)" unfolding res by simp
    then show ?thesis using any 2 by (auto intro!: decidesI)
  next
    case 3
    have r3: "index_keys ixs (AnyFilter b fs) ks =
        (Some (AnyFilter False (if match = {} then gs else KeyFilter match # gs)), ks)"
      unfolding res if_not_P [OF 3(1)] if_not_P [OF 3(2)] by (rule refl)
    show ?thesis unfolding r3
    proof (rule decidesI [OF subset_refl])
      fix k x assume k: "k \<in> ks" "m k = Some x" "returns app user k x (AnyFilter b fs)"
      show "holds app user k x (AnyFilter b fs) \<longleftrightarrow> k \<in> ks \<and>
          left_holds app user k x (Some (AnyFilter False (if match = {} then gs else KeyFilter match # gs)))"
        unfolding left_holds_simps any [OF k] holds_gs [OF k(3)] using k(1) by simp
    qed
  qed
qed

text \<open>Every filter, by the parts it has.\<close>

lemma index_keys_decides:
  "indexes_ok app m ixs \<Longrightarrow> index_safe ixs f \<Longrightarrow> finite ks \<Longrightarrow> decides app user m f ks (index_keys ixs f ks)"
proof (induction f arbitrary: ixs ks)
  case (EqualsFilter e w)
  then show ?case unfolding index_keys.simps
    by (intro single_decides) (auto dest: apply_subset [THEN subsetD] simp: in_equals)
next
  case (NotEqualsFilter e w)
  then show ?case unfolding index_keys.simps
    by (intro single_decides) (auto dest: apply_subset [THEN subsetD] simp: in_not_equals)
next
  case (GreaterFilter e w)
  then show ?case
    by (cases "w = None") (auto intro!: single_decides null_decides dest: apply_subset [THEN subsetD] simp: in_greater eval_null)
next
  case (GreaterEqualsFilter e w)
  then show ?case
    by (cases "w = None") (auto intro!: single_decides null_decides dest: apply_subset [THEN subsetD] simp: in_greater_equals eval_null)
next
  case (LessFilter e w)
  then show ?case
    by (cases "w = None") (auto intro!: single_decides null_decides dest: apply_subset [THEN subsetD] simp: in_less eval_null)
next
  case (LessEqualsFilter e w)
  then show ?case
    by (cases "w = None") (auto intro!: single_decides null_decides dest: apply_subset [THEN subsetD] simp: in_less_equals eval_null)
next
  case (BetweenFilter e lower upper fLower fUpper)
  then show ?case
    by (cases "lower = None \<or> upper = None")
      (auto intro!: single_decides null_decides dest: apply_subset [THEN subsetD] simp: in_between range_ok_def eval_null)
next
  case (InFilter e ws)
  then show ?case unfolding index_keys.simps
    by (intro single_decides) (auto dest: apply_subset [THEN subsetD] simp: in_in)
next
  case (ContainsFilter e c)
  then show ?case unfolding index_keys.simps
    by (intro collection_decides) (auto dest: apply_subset [THEN subsetD] simp: in_contains)
next
  case (ContainsAllFilter e cs)
  then show ?case unfolding index_keys.simps
    by (intro collection_decides) (auto dest: apply_contains_all_subset [THEN subsetD] simp: in_contains_all)
next
  case (ContainsAnyFilter e cs)
  then show ?case unfolding index_keys.simps
    by (intro collection_decides) (auto dest: apply_subset [THEN subsetD] simp: in_contains_any)
next
  case (InKeySetFilter f js)
  then have aware: "index_aware f" and inner: "decides app user m f (ks \<inter> js) (index_keys ixs f (ks \<inter> js))" by simp_all
  show ?case using aware inner unfolding decides_def by auto
next
  case (NotFilter f)
  then show ?case by (intro not_filter_decides NotFilter.IH non_partial_ok non_partial_safe) auto
next
  case (AllFilter b fs)
  then show ?case by (intro all_filter_decides) (auto simp: list_all_iff)
next
  case (AnyFilter b fs)
  then show ?case by (intro any_filter_decides) (auto simp: list_all_iff)
qed (auto intro: decidesI)

end
