(* ===== verification/Filter_Properties.thy ===== *)
theory Filter_Properties
  imports Filter_Apply
begin

text \<open>
  The properties of indexes, filters and queries.
\<close>

section \<open>Indexes follow their map\<close>

text \<open>
  The events of a map that keep an index true: an entry is inserted, a value that can be
  extracted replaces another, an entry is deleted.  The value that is replaced can be extracted
  too, unless the index is not ordered or has no object but \<^verbatim>\<open>NULL\<close>: an ordered index throws
  when it looks for the object of an excluded key.
\<close>

inductive index_step ::
  "('g, 'k, 'x, 'a::linorder) app \<Rightarrow> ('k \<Rightarrow> 'x option) \<times> ('g, 'k, 'a) map_index \<Rightarrow>
    ('k \<Rightarrow> 'x option) \<times> ('g, 'k, 'a) map_index \<Rightarrow> bool" for app where
  inserted: "m k = None \<Longrightarrow> index_step app (m, ix) (m(k \<mapsto> x), snd (entry_inserted app k x ix))"
| updated: "m k = Some x0 \<Longrightarrow> ix_value app (ix_extractor ix) (m(k \<mapsto> x)) k = Some v \<Longrightarrow>
    ix_value app (ix_extractor ix) m k \<noteq> None \<or> \<not> get_no_value_throws ix \<Longrightarrow>
    index_step app (m, ix) (m(k \<mapsto> x), snd (entry_updated app k (Some x0) x ix))"
| deleted: "m k = Some x0 \<Longrightarrow> index_step app (m, ix) (m(k := None), entry_deleted k x0 ix)"

inductive_cases index_stepE: "index_step app (m, ix) (m', ix')"

lemma index_step_ok:
  assumes "index_step app (m, ix) (m', ix')" and ok: "ix_ok app m ix"
  shows "ix_ok app m' ix'"
  using assms(1)
proof (rule index_stepE)
  fix k x assume "m' = m(k \<mapsto> x)" "ix' = snd (entry_inserted app k x ix)" "m k = None"
  then show ?thesis
    using ix_insert_ok [OF ok, of "\<lparr>en_key = k, en_value = x, en_original = None, en_trigger = True\<rparr>"]
    by (simp add: entry_inserted_def)
next
  fix k x0 x v assume "m' = m(k \<mapsto> x)" "ix' = snd (entry_updated app k (Some x0) x ix)"
    "m k = Some x0" "ix_value app (ix_extractor ix) (m(k \<mapsto> x)) k = Some v"
    "(\<exists>v. ix_value app (ix_extractor ix) m k = Some v) \<or> \<not> get_no_value_throws ix"
  then show ?thesis
    using ix_update_ok(2) [OF ok, of "\<lparr>en_key = k, en_value = x, en_original = Some x0, en_trigger = True\<rparr>" x0]
    by (simp add: entry_updated_def)
next
  fix k x0 assume "m' = m(k := None)" "ix' = entry_deleted k x0 ix"
  then show ?thesis
    using ix_remove_ok [OF ok, of "\<lparr>en_key = k, en_value = x0, en_original = Some x0, en_trigger = True\<rparr>"]
    by (simp add: entry_deleted_def)
qed

lemma index_steps_ok:
  "(index_step app)\<^sup>*\<^sup>* s s' \<Longrightarrow> ix_ok app (fst s) (snd s) \<Longrightarrow> ix_ok app (fst s') (snd s')"
  by (induction rule: rtranclp_induct) (use index_step_ok in \<open>fastforce simp: split_paired_all\<close>)+

text \<open>
  C15: an index that is built on the entries of a map and then follows any sequence of
  insertions, deletions and updates stays true to it: its forward index has the value of each
  entry that can be extracted, the keys of the others are excluded, and the inverse index has for each
  object exactly the keys of the entries that have it, with no empty set, in order if the index
  is ordered.  Two kinds of update are left out, because they do not keep it: an update to a
  value that cannot be extracted, after which the key is in neither part of the index, and, in
  an ordered index with an object that is not \<^verbatim>\<open>NULL\<close>, an update of a value that could not be
  extracted, which throws a \<^verbatim>\<open>ClassCastException\<close> and leaves the key excluded.
\<close>
theorem index_invariant:
  assumes "distinct (map fst es)"
    and "(index_step app)\<^sup>*\<^sup>* (map_of es, index_entries app es (map_index_create e fOrdered)) (m, ix)"
  shows "ix_forward ix k = ix_value app (ix_extractor ix) m k \<and>
    (ix_is_key_excluded k ix \<longleftrightarrow> k \<in> dom m \<and> ix_value app (ix_extractor ix) m k = None) \<and>
    (k \<in> keys_at c (ix_inverse ix) \<longleftrightarrow> (\<exists>v. ix_value app (ix_extractor ix) m k = Some v \<and> c \<in> set (elements v))) \<and>
    map_of (ix_inverse ix) c \<noteq> Some {} \<and>
    contents_ok (ix_ordered ix) (ix_inverse ix)"
proof -
  have "ix_ok app (map_of es ++ Map.empty) (index_entries app es (map_index_create e fOrdered))"
    by (rule index_entries_ok [OF ix_create_ok assms(1)]) simp
  with index_steps_ok [OF assms(2)] have ok: "ix_ok app m ix" by simp
  then have "keys_at c (ix_inverse ix) = keys_with (ix_forward ix) c"
    by (simp add: ix_ok_def keys_at_def inverse.keys_def)
  with ok show ?thesis
    by (auto simp: ix_ok_def ix_is_key_excluded_def inverse.good_def keys_with_def)
qed

text \<open>
  An application whose values are a number, which cannot be extracted when it is negative, and
  a list of numbers, under the extractors 0 and 1.
\<close>

definition people :: "(int, int, int \<times> int list, int) app" where
  "people = \<lparr>app_extract_key = (\<lambda>_ k. Inr (Single (Some k))),
     app_extract_value = (\<lambda>g (a, bs). if a < 0 then Inl IllegalArgumentException
       else if g = 0 then Inr (Single (Some a)) else Inr (Several (map Some bs)))\<rparr>"

definition crowd :: "(int \<times> (int \<times> int list)) list" where
  "crowd = [(1, (20, [7])), (2, (30, [])), (3, (40, [7, 8]))]"

definition ages :: "(int, int, int) map_index" where
  "ages = index_entries people crowd (map_index_create (ValueExtractor 0) True)"

definition by_age :: "(int, int, int) indexes" where
  "by_age e = (if e = ValueExtractor 0 then Some ages else None)"

lemmas evaluate_index = people_def crowd_def ages_def index_entries.simps map_index_create_def ix_insert_def
  ix_insert_internal_def ix_extract_new_def extract_from_entry_def add_inverse_mapping_def add_inverse_element_def
  im_put_def Let_def

lemma ages_contents:
  "ages = \<lparr>ix_extractor = ValueExtractor 0, ix_ordered = True,
     ix_forward = [1 \<mapsto> Single (Some 20), 2 \<mapsto> Single (Some 30), 3 \<mapsto> Single (Some 40)],
     ix_inverse = [(Some 20, {1}), (Some 30, {2}), (Some 40, {3})], ix_excluded = {}\<rparr>"
  by (simp add: evaluate_index)

lemma ages_ok: "ix_ok people (map_of crowd) ages"
  using index_entries_ok [OF ix_create_ok, of crowd people "ValueExtractor 0" True]
  by (simp add: ages_def) (simp add: crowd_def)

lemma by_age_ok: "indexes_ok people (map_of crowd) by_age"
  using ages_ok by (auto simp: indexes_ok_def by_age_def ages_contents)

theorem index_invariant_witness:
  "let ix = snd (entry_updated people 1 (Some (20, [7])) (25, []) ages);
       m = (map_of crowd)(1 \<mapsto> (25, []))
   in (1 \<in> keys_at (Some 25) (ix_inverse ix) \<longleftrightarrow>
        (\<exists>v. ix_value people (ix_extractor ix) m 1 = Some v \<and> Some 25 \<in> set (elements v))) \<and>
      map_of (ix_inverse ix) (Some 25) \<noteq> Some {}"
proof -
  have start: "index_entries people crowd (map_index_create (ValueExtractor 0) True) = ages"
    by (simp add: ages_def)
  have "index_step people (map_of crowd, ages)
      ((map_of crowd)(1 \<mapsto> (25, [])), snd (entry_updated people 1 (Some (20, [7])) (25, []) ages))"
    by (rule index_step.updated [where v = "Single (Some 25)"])
      (simp_all add: crowd_def ages_contents ix_value_def extract_from_entry_def people_def)
  then have "(index_step people)\<^sup>*\<^sup>* (map_of crowd, index_entries people crowd (map_index_create (ValueExtractor 0) True))
      ((map_of crowd)(1 \<mapsto> (25, [])), snd (entry_updated people 1 (Some (20, [7])) (25, []) ages))"
    unfolding start by (rule r_into_rtranclp)
  from index_invariant [OF _ this, of 1 "Some 25"] show ?thesis by (simp add: crowd_def Let_def)
qed

text \<open>
  C38: an update to a value that cannot be extracted leaves the key in neither part of the index:
  it is not in the forward index and it is not excluded, so that an index that has no other
  such key claims to be complete.
\<close>
theorem index_update_unextractable:
  assumes "m k = Some x0" and "ix_ok app m ix" and "ix_extractor ix = ValueExtractor g"
    and "app_extract_value app g x = Inl err" and "ix_excluded ix \<subseteq> {k}"
  shows "let ix' = snd (entry_updated app k (Some x0) x ix)
         in ix_forward ix' k = None \<and> \<not> ix_is_key_excluded k ix' \<and> \<not> ix_is_partial ix'"
proof -
  let ?en = "\<lparr>en_key = k, en_value = x, en_original = Some x0, en_trigger = True\<rparr>"
  have new: "ix_extract_new app ix ?en = None"
    using assms(3,4) by (simp add: ix_extract_new_def extract_from_entry_def)
  have mut: "\<not> ix_immutable ix" using assms(3) by (simp add: ix_immutable_def)
  obtain r where upd: "ix_update_internal app ?en ix = (Inr (), r)" and fwd: "ix_forward r k = None"
    and ex: "ix_excluded r \<subseteq> {k}"
  proof -
    define old where "old = (case ix_forward ix k of None \<Rightarrow> ix_extract_old app ix ?en | Some v \<Rightarrow> Some v)"
    have same: "ix_forward ix k = None" if "old = None" using that by (simp add: old_def split: option.splits)
    define removed where "removed = (case old of
        None \<Rightarrow> remove_inverse_mapping None k (ensure_collection None) ix
      | Some (Several cs) \<Rightarrow> remove_inverse_mapping (Some (Several (collect_removed cs None))) k [] ix
      | Some (Single c) \<Rightarrow> remove_inverse_mapping (Some (Single c)) k [] ix)"
    have fields: "ix_forward (snd removed) = ix_forward ix" "ix_excluded (snd removed) = ix_excluded ix"
      by (simp_all add: removed_def split: option.split ixvalue.split)
    have "ix_update_internal app ?en ix =
        (if old = None then (Inr (), ix)
         else (Inr (), ix_update_excluded k True
           (if ix_forward ix k \<noteq> None then (snd removed)\<lparr>ix_forward := (ix_forward (snd removed))(k := None)\<rparr>
            else snd removed)))"
    proof (cases "old = None")
      case True
      then show ?thesis using new by (simp add: ix_update_internal_def Let_def old_def [symmetric])
    next
      case False
      then obtain w where "old = Some w" by blast
      then show ?thesis using new
        by (cases w) (simp_all add: ix_update_internal_def Let_def old_def [symmetric] removed_def remove_inverse_mapping_def)
    qed
    with same fields assms(5) that show ?thesis
      by (cases "old = None") (simp_all add: ix_update_excluded_set)
  qed
  have res: "snd (entry_updated app k (Some x0) x ix) = ix_update_excluded k False r"
    using mut upd by (simp add: entry_updated_def ix_update_def)
  show ?thesis
    using fwd ex unfolding res Let_def ix_is_key_excluded_def ix_is_partial_def ix_update_excluded_set by auto
qed

theorem index_update_unextractable_witness:
  "let ix' = snd (entry_updated people 1 (Some (20, [7])) (-1, []) ages)
   in ix_forward ix' 1 = None \<and> \<not> ix_is_key_excluded 1 ix' \<and> \<not> ix_is_partial ix'"
  by (rule index_update_unextractable [OF _ ages_ok, of _ _ 0 _ IllegalArgumentException])
    (simp_all add: crowd_def ages_contents people_def)

section \<open>What an index decides\<close>

text \<open>
  C14: applying indexes that are true to the map to a filter that is safe for them returns, and
  only removes keys that do not match: an entry of the set of keys, for which no extractor and no
  filter of the application throws, matches the filter if and only if its key is left in the set
  and it matches what is left of the filter.  A filter is safe (\<open>index_safe\<close>) if it compares
  objects by an index whose values are objects and contains by an index whose values are
  collections, looks no collection up in an ordered index, has no \<open>NotEqualsFilter\<close> on a partial
  index with the object \<^verbatim>\<open>NULL\<close>, no empty range with the upper bound included, no negation of a
  filter that an index may decide by halves, and no \<open>InKeySetFilter\<close> around a filter that knows
  nothing of indexes.
\<close>
theorem apply_index_sound:
  assumes "indexes_ok app m ixs" and "index_safe ixs f" and "finite ks"
  shows "\<exists>g ks'. apply_index ixs f ks = Inr (g, ks') \<and> ks' \<subseteq> ks \<and>
    (\<forall>k\<in>ks. \<forall>x. m k = Some x \<longrightarrow> returns app user k x f \<longrightarrow>
      (evaluate_entry app user k x f = Inr True \<longleftrightarrow>
        k \<in> ks' \<and> (case g of None \<Rightarrow> True | Some g \<Rightarrow> evaluate_entry app user k x g = Inr True)))"
proof -
  obtain g ks' where r: "index_keys ixs f ks = (g, ks')" by fastforce
  have dec: "decides app user m f ks (g, ks')"
    using index_keys_decides [OF assms, of user] r by simp
  have "apply_index ixs f ks = Inr (g, ks')" using apply_index_keys [OF assms(2)] r by simp
  with decidesD [OF dec] show ?thesis
    by (intro exI [of _ g] exI [of _ ks']) (auto simp: left_holds_def holds_def split: option.splits)
qed

text \<open>The people of 25 to 35 whose list has a 7, or who are not older than 20.\<close>

definition some_people :: "(int, int, int, unit) filter" where
  "some_people = AnyFilter False
     [AllFilter False [BetweenFilter (ValueExtractor 0) (Some 25) (Some 45) True False, ContainsFilter (ValueExtractor 1) (Some 7)],
      NotFilter (GreaterFilter (ValueExtractor 0) (Some 20))]"

lemma some_people_safe: "index_safe by_age some_people"
  by (simp add: some_people_def by_age_def ages_contents single_valued_def collection_valued_def range_ok_def)

lemma some_people_return: "(k, x) \<in> set crowd \<Longrightarrow> returns people user k x some_people"
  by (auto simp: some_people_def crowd_def extracts_def extract_from_entry_def people_def)

theorem apply_index_sound_witness:
  "\<exists>g ks'. apply_index by_age some_people {1, 2, 3} = Inr (g, ks') \<and>
    (evaluate_entry people (\<lambda>_ _ _. Inr False) 3 (40, [7, 8]) some_people = Inr True \<longleftrightarrow>
      3 \<in> ks' \<and>
      (case g of None \<Rightarrow> True | Some g \<Rightarrow> evaluate_entry people (\<lambda>_ _ _. Inr False) 3 (40, [7, 8]) g = Inr True))"
proof -
  let ?user = "\<lambda>_ _ _. Inr False" and ?x = "(40, [7, 8])"
  from apply_index_sound [OF by_age_ok some_people_safe, of "{1, 2, 3}" ?user] obtain g ks'
    where r: "apply_index by_age some_people {1, 2, 3} = Inr (g, ks')"
      and all: "\<forall>k\<in>{1, 2, 3}. \<forall>x. map_of crowd k = Some x \<longrightarrow> returns people ?user k x some_people \<longrightarrow>
        (evaluate_entry people ?user k x some_people = Inr True \<longleftrightarrow>
          k \<in> ks' \<and> (case g of None \<Rightarrow> True | Some g \<Rightarrow> evaluate_entry people ?user k x g = Inr True))"
    by auto
  have "map_of crowd 3 = Some ?x" and "returns people ?user 3 ?x some_people"
    by (simp add: crowd_def, rule some_people_return) (simp add: crowd_def)
  with all have "evaluate_entry people ?user 3 ?x some_people = Inr True \<longleftrightarrow>
      3 \<in> ks' \<and> (case g of None \<Rightarrow> True | Some g \<Rightarrow> evaluate_entry people ?user 3 ?x g = Inr True)" by blast
  with r show ?thesis by blast
qed

text \<open>
  C37: a negation loses entries when the index decides the negated filter by halves: the entries
  it has found not to match the inner filter are the only ones that may match, so an entry
  that only the rest of the inner filter rules out is lost.
\<close>
theorem not_filter_loses_entry:
  assumes "indexes_ok app m ixs" and "index_safe ixs f" and "finite ks"
    and "k \<in> ks" and "m k = Some x" and "returns app user k x f"
    and "index_aware f" and "apply_index (non_partial ixs) f ks = Inr (Some g, delta)"
    and "delta \<noteq> ks" and "k \<in> delta" and "evaluate_entry app user k x g = Inr False"
  shows "evaluate_entry app user k x (NotFilter f) = Inr True \<and>
    (\<exists>h. apply_index ixs (NotFilter f) ks = Inr (Some h, ks) \<and> evaluate_entry app user k x h = Inr False)"
proof -
  have dec: "decides app user m f ks (Some g, delta)"
    using index_keys_decides [OF non_partial_ok [OF assms(1)] non_partial_safe [OF assms(2)] assms(3), of user] assms(8)
      apply_index_keys [OF non_partial_safe [OF assms(2)], of ks] by simp
  have "\<not> holds app user k x f" using decidesD(2) [OF dec assms(4,5,6)] assms(11) by (simp add: holds_def)
  then have "evaluate_entry app user k x f = Inr False" using holds_evaluate [OF assms(6)] by simp
  moreover have "ks - delta \<noteq> {}" using decidesD(1) [OF dec] assms(9) by blast
  ultimately show ?thesis using assms(7,8,10) by (auto simp: Let_def case_exn_def)
qed

theorem not_filter_loses_entry_witness:
  "let f = AllFilter True [GreaterFilter (ValueExtractor 0) (Some 25), ContainsFilter (ValueExtractor 1) (Some 7)]
   in evaluate_entry people (\<lambda>(_ :: unit) _ _. Inr False) 2 (30, []) (NotFilter f) = Inr True \<and>
     (\<exists>h. apply_index by_age (NotFilter f) {1, 2, 3} = Inr (Some h, {1, 2, 3}) \<and>
       evaluate_entry people (\<lambda>_ _ _. Inr False) 2 (30, []) h = Inr False)"
proof -
  let ?f = "AllFilter True [GreaterFilter (ValueExtractor 0) (Some 25), ContainsFilter (ValueExtractor 1) (Some 7)]
    :: (int, int, int, unit) filter"
  let ?user = "\<lambda>(_ :: unit) _ _. Inr False"
  let ?g = "ContainsFilter (ValueExtractor 1) (Some 7) :: (int, int, int, unit) filter"
  have aware: "index_aware ?f" by (simp add: index_aware_def)
  have older: "apply_greater (Some 25) ages {1, 2, 3} = {2, 3}"
    by (simp add: ages_contents apply_greater_def head_heavy_def head_map_def keys_where_def keys_at_def
        ix_is_partial_def insert_Diff_if del: set_filter)
  have np: "non_partial by_age (ValueExtractor 0) = Some ages" "non_partial by_age (ValueExtractor 1) = None"
    by (simp_all add: non_partial_def by_age_def ages_contents ix_is_partial_def)
  have first: "apply_index (non_partial by_age) (GreaterFilter (ValueExtractor 0) (Some 25)) {1, 2, 3} = Inr (None, {2, 3})"
    using older by (simp add: with_index_def np case_exn_def)
  have second: "apply_index (non_partial by_age) ?g {2, 3} = Inr (Some ?g, {2, 3})"
    by (simp add: with_index_def np)
  have order: "optimize_order (non_partial by_age) {1, 2, 3} True fs = fs" for fs :: "(int, int, int, unit) filter list"
    by (simp add: optimize_order_def weighted_order_def o_def)
  have ap: "apply_index (non_partial by_age) ?f {1, 2, 3} = Inr (Some ?g, {2, 3})"
    by (subst apply_index.simps, subst order) (simp add: first [simplified] with_index_def np index_aware_def older case_exn_def)
  have ev: "evaluate_entry people ?user 2 (30, []) ?g = Inr False"
    by (simp add: eval_extracted_def extract_from_entry_def people_def case_exn_def eval_contains_def)
  have safe: "index_safe by_age ?f"
    by (simp add: by_age_def ages_contents single_valued_def collection_valued_def)
  have ret: "returns people ?user 2 (30, []) ?f"
    by (simp add: extracts_def extract_from_entry_def people_def)
  have entry: "map_of crowd 2 = Some (30, [])" by (simp add: crowd_def)
  show ?thesis unfolding Let_def
    by (rule not_filter_loses_entry [OF by_age_ok safe _ _ entry ret aware ap _ _ ev]) (auto simp: set_eq_subset)
qed

section \<open>Queries\<close>

lemma query_loop_filter:
  "(\<And>k x. k \<in> set ks \<Longrightarrow> m k = Some x \<Longrightarrow> ev k x = Inr (p k x)) \<Longrightarrow> set ks \<subseteq> dom m \<Longrightarrow>
   query_loop m ev ks = Inr (filter (\<lambda>(k, x). p k x) (map (\<lambda>k. (k, the (m k))) ks))"
  by (induction ks) (auto simp: case_exn_def)

text \<open>
  C13: on indexes that are true to the map, and with a filter that is safe for them (as for
  \<open>apply_index_sound\<close>) and throws for no entry, a query returns the entries that match the
  filter and no others, each once; their order is that of the array of the remaining keys, which
  is left open (it lists each of them once).  The same query without indexes returns these entries
  in the order of the map.
\<close>
theorem query_with_indexes:
  assumes "distinct (map fst es)" and "indexes_ok app (map_of es) ixs" and "index_safe ixs f"
    and "\<forall>(k, x)\<in>set es. returns app user k x f"
    and "\<forall>ks. finite ks \<longrightarrow> distinct (to_array ks) \<and> set (to_array ks) = ks"
  shows "query app user to_array es None (Some f) =
      Inr (filter (\<lambda>(k, x). evaluate_entry app user k x f = Inr True) es) \<and>
    (\<exists>res. query app user to_array es (Some ixs) (Some f) = Inr res \<and> distinct (map fst res) \<and>
      set res = {(k, x) \<in> set es. evaluate_entry app user k x f = Inr True})"
proof -
  let ?p = "\<lambda>k x. evaluate_entry app user k x f = Inr True"
  have ret: "returns app user k x f" if "map_of es k = Some x" for k x
    using assms(4) map_of_SomeD [OF that] by auto
  have ev: "evaluate_entry app user k x f = Inr (?p k x)" if "map_of es k = Some x" for k x
    using holds_evaluate [OF ret [OF that]] by (simp add: holds_def)
  have dom: "set (map fst es) \<subseteq> dom (map_of es)" by (simp add: dom_map_of_conv_image_fst)
  have entries: "map (\<lambda>k. (k, the (map_of es k))) (map fst es) = es"
    unfolding map_map by (rule map_idI) (use assms(1) in auto)
  have "query app user to_array es None (Some f) =
      query_loop (map_of es) (\<lambda>k x. if f = AlwaysFilter then Inr True else evaluate_entry app user k x f) (map fst es)"
    by (simp add: query_def case_exn_def)
  also have "\<dots> = Inr (filter (\<lambda>(k, x). ?p k x) (map (\<lambda>k. (k, the (map_of es k))) (map fst es)))"
    by (rule query_loop_filter [OF _ dom]) (use ev in auto)
  finally have plain: "query app user to_array es None (Some f) = Inr (filter (\<lambda>(k, x). ?p k x) es)"
    using entries by simp
  have "\<exists>res. query app user to_array es (Some ixs) (Some f) = Inr res \<and> distinct (map fst res) \<and>
      set res = {(k, x) \<in> set es. ?p k x}"
  proof (cases "f \<noteq> AlwaysFilter \<and> index_aware f")
    case False
    then have "query app user to_array es (Some ixs) (Some f) = query app user to_array es None (Some f)"
      by (auto simp: query_def)
    then show ?thesis using plain distinct_map_filter [OF assms(1)] by (auto intro: exI)
  next
    case True
    obtain g ks where ap: "index_keys ixs f (fst ` set es) = (g, ks)" by fastforce
    have dec: "decides app user (map_of es) f (fst ` set es) (g, ks)"
      using index_keys_decides [OF assms(2,3), of "fst ` set es" user] ap by simp
    have sub: "ks \<subseteq> fst ` set es" by (rule decidesD(1) [OF dec])
    then have arr: "distinct (to_array ks)" "set (to_array ks) = ks"
      using assms(5) finite_subset [of ks "fst ` set es"] by simp_all
    let ?ev = "\<lambda>k x. case g of None \<Rightarrow> Inr True | Some f \<Rightarrow> evaluate_entry app user k x f"
    let ?res = "filter (\<lambda>(k, x). left_holds app user k x g) (map (\<lambda>k. (k, the (map_of es k))) (to_array ks))"
    have "query app user to_array es (Some ixs) (Some f) = query_loop (map_of es) ?ev (to_array ks)"
      using True ap apply_index_keys [OF assms(3), of "fst ` set es"] by (simp add: query_def case_exn_def)
    also have "\<dots> = Inr ?res"
    proof (rule query_loop_filter)
      fix k x assume "map_of es k = Some x"
      with ret have "returns app user k x f" by simp
      then show "?ev k x = Inr (left_holds app user k x g)"
        using index_keys_returns [of ixs f "fst ` set es" _ ks app user k x] ap holds_evaluate [of app user k x]
        by (cases g) simp_all
    qed (use arr sub dom in auto)
    moreover have "distinct (map fst ?res)" using arr(1) by (intro distinct_map_filter) (simp add: o_def)
    moreover have "(k, x) \<in> set ?res \<longleftrightarrow> (k, x) \<in> set es \<and> ?p k x" for k x
    proof -
      have "(k, x) \<in> set ?res \<longleftrightarrow> map_of es k = Some x \<and> k \<in> ks \<and> left_holds app user k x g"
        using arr(2) sub dom by (force simp: subset_iff)
      also have "\<dots> \<longleftrightarrow> map_of es k = Some x \<and> ?p k x"
        using decidesD(2) [OF dec, of k x] ret [of k x] imageI [OF map_of_SomeD [of es k x], of fst]
        by (auto simp: holds_def)
      finally show ?thesis using assms(1) by simp
    qed
    ultimately show ?thesis by (intro exI [of _ ?res]) auto
  qed
  with plain show ?thesis by simp
qed

theorem query_with_indexes_witness:
  "query people (\<lambda>_ _ _. Inr False) sorted_list_of_set crowd None (Some some_people) =
     Inr (filter (\<lambda>(k, x). evaluate_entry people (\<lambda>_ _ _. Inr False) k x some_people = Inr True) crowd) \<and>
   (\<exists>res. query people (\<lambda>_ _ _. Inr False) sorted_list_of_set crowd (Some by_age) (Some some_people) = Inr res \<and>
     distinct (map fst res) \<and>
     set res = {(k, x) \<in> set crowd. evaluate_entry people (\<lambda>_ _ _. Inr False) k x some_people = Inr True})"
  by (rule query_with_indexes [OF _ by_age_ok some_people_safe])
    (auto intro: some_people_return, simp add: crowd_def)

end
