(* ===== verification/Safe_Hash_Map.thy ===== *)
theory Safe_Hash_Map
  imports Coh_Prelude
begin

text \<open>
  \<^verbatim>\<open>SafeHashMap\<close> of \<^verbatim>\<open>coherence/util\<close>, the hash map of the caches: an array of buckets,
  each the chain of its entries, which grows to a prime number of buckets.  One thread at a
  time: what the map does while another thread resizes it is waiting.
\<close>

section \<open>The map\<close>

record ('k, 'e) hash_entry =
  he_key :: 'k
  he_hash :: nat
  he_value :: 'e

type_synonym ('k, 'e) chain = "('k, 'e) hash_entry list"

record ('k, 'e) hash_map =
  hm_buckets :: "('k, 'e) chain list"
  hm_entries :: nat
  hm_capacity :: nat

text \<open>
  The hash code of the keys, and the two floating-point products: the number of entries that
  so many buckets are good for, and the number of buckets that so many buckets grow to.
\<close>

record 'k hm_env =
  hm_hash :: "'k \<Rightarrow> nat"
  hm_load :: "nat \<Rightarrow> nat"
  hm_growth :: "nat \<Rightarrow> nat"

definition default_initialsize :: nat where
  "default_initialsize = 17"

definition biggest_modulo :: nat where
  "biggest_modulo = 2147483647"

definition modulos :: "nat list" where
  "modulos =
     [17, 31, 47, 61, 79, 103, 127, 149, 173, 197, 229, 277, 347, 397, 457, 509, 587, 641,
      701, 761, 827, 883, 953, 1019, 1129, 1279, 1427, 1543, 1733, 1951, 2143, 2371,
      2671, 2927, 3253, 3539, 3907, 4211, 4591, 4973, 5393, 5743, 6143, 6619, 6997,
      7529, 8009, 8423, 8819, 9311, 9929, 10069, 11087, 12203, 13003, 14051, 15017,
      16007, 17027, 18061, 19013, 20063, 23011, 27011, 30011, 35023, 40009, 45007,
      50021, 60013, 70001, 80021, 90001, 100003, 120011, 140009, 160001, 180001,
      200003, 233021, 266003, 300007, 350003, 400009, 450001, 500009, 550007,
      600011, 650011, 700001, 800011, 850009, 900001, 950009, 1000003, 1100009,
      1200007, 1300021, 1400017, 1500007, 1600033, 1700021, 1800017, 1900009,
      2000003, 2500009, 3000017, 3500017, 4000037, 4500007, 5000011, 6000011,
      7000003, 8000009, 9000011, 10000019, 12000017, 14000029, 16000057,
      18000041, 20000003, 25000009, 30000001, 35000011, 40000003, 45000017,
      50000017, 60000011, 70000027, 80000023, 90000049, 100000007, 150000001,
      200000033, 300000007, 400000009, 500000003, 600000001, 700000001,
      800000011, 900000011, 1000000007, 1100000009, 1200000041, 1300000003,
      1400000023, 1500000001, 1600000009, 1700000009, 1800000011, 1900000043]"

text \<open>The next of these primes, or 0 when there is none.\<close>

definition get_next_prime :: "nat \<Rightarrow> nat" where
  "get_next_prime nMin = (case find (\<lambda>n. nMin \<le> n) modulos of Some n \<Rightarrow> n | None \<Rightarrow> 0)"

lemma get_next_prime_none: "get_next_prime nMin = 0 \<longleftrightarrow> 1900000043 < nMin"
proof -
  have "list_all (\<lambda>n. 0 < n \<and> n \<le> 1900000043) modulos" and "1900000043 \<in> set modulos" by (simp_all add: modulos_def)
  then show ?thesis
    by (auto simp: get_next_prime_def find_None_iff find_Some_iff list_all_iff split: option.split dest!: nth_mem)
qed

definition bucket_index :: "nat \<Rightarrow> nat \<Rightarrow> nat" where
  "bucket_index nHash cBuckets = nHash mod cBuckets"

definition hm_create :: "'k hm_env \<Rightarrow> nat \<Rightarrow> ('k, 'e) hash_map" where
  "hm_create env cInitialBuckets =
     (let n = (if cInitialBuckets = 0 then 1 else cInitialBuckets)
      in \<lparr>hm_buckets = replicate n [], hm_entries = 0, hm_capacity = hm_load env n\<rparr>)"

section \<open>Operations\<close>

fun chain_find :: "nat \<Rightarrow> 'k \<Rightarrow> ('k, 'e) chain \<Rightarrow> ('k, 'e) hash_entry option" where
  "chain_find nHash k [] = None"
| "chain_find nHash k (e # es) = (if nHash = he_hash e \<and> he_key e = k then Some e else chain_find nHash k es)"

definition hm_get_entry_internal :: "'k hm_env \<Rightarrow> 'k \<Rightarrow> ('k, 'e) hash_map \<Rightarrow> ('k, 'e) hash_entry option" where
  "hm_get_entry_internal env k m =
     (let nHash = hm_hash env k; bs = hm_buckets m
      in chain_find nHash k (bs ! bucket_index nHash (length bs)))"

definition hm_size :: "('k, 'e) hash_map \<Rightarrow> nat" where
  "hm_size m = hm_entries m"

definition hm_contains_key :: "'k hm_env \<Rightarrow> 'k \<Rightarrow> ('k, 'e) hash_map \<Rightarrow> bool" where
  "hm_contains_key env k m \<longleftrightarrow> hm_get_entry_internal env k m \<noteq> None"

definition hm_get :: "'k hm_env \<Rightarrow> 'k \<Rightarrow> ('k, 'e) hash_map \<Rightarrow> 'e option" where
  "hm_get env k m = map_option he_value (hm_get_entry_internal env k m)"

text \<open>Rehashing puts each entry of the old chains at the front of its new chain.\<close>

definition bucket_push :: "('k, 'e) hash_entry \<Rightarrow> ('k, 'e) chain list \<Rightarrow> ('k, 'e) chain list" where
  "bucket_push e bs = (let i = bucket_index (he_hash e) (length bs) in bs[i := e # bs ! i])"

definition rehash :: "nat \<Rightarrow> ('k, 'e) chain list \<Rightarrow> ('k, 'e) chain list" where
  "rehash cNew bs = fold (fold bucket_push) bs (replicate cNew [])"

text \<open>
  While the map grows its bucket array is the one without buckets.  Without a prime the new
  array has no bucket either, and the index of a bucket is divided by 0.
\<close>

definition hm_grow :: "'k hm_env \<Rightarrow> (('k, 'e) hash_map, unit) comp" where
  "hm_grow env m =
     (let cOld = length (hm_buckets m) in
      if biggest_modulo \<le> cOld then (Inr (), m)
      else
        let cNew = min (hm_growth env cOld) biggest_modulo;
            cNew = (if cNew \<le> cOld then cOld + 1 else cNew);
            cNew = get_next_prime cNew
        in if cNew = 0 then (Inl UndefinedBehaviour, m\<lparr>hm_buckets := []\<rparr>)
           else (Inr (), m\<lparr>hm_buckets := rehash cNew (hm_buckets m), hm_capacity := hm_load env cNew\<rparr>))"

definition hm_add_entry :: "'k hm_env \<Rightarrow> ('k, 'e) hash_entry \<Rightarrow> (('k, 'e) hash_map, unit) comp" where
  "hm_add_entry env e m =
     (let m = m\<lparr>hm_buckets := bucket_push e (hm_buckets m), hm_entries := Suc (hm_entries m)\<rparr>
      in if hm_capacity m < hm_entries m then hm_grow env m else (Inr (), m))"

text \<open>Changing the entry of a key where it is in its chain.\<close>

fun chain_update :: "nat \<Rightarrow> 'k \<Rightarrow> ('e \<Rightarrow> 'e) \<Rightarrow> ('k, 'e) chain \<Rightarrow> ('k, 'e) chain" where
  "chain_update nHash k f [] = []"
| "chain_update nHash k f (e # es) =
     (if nHash = he_hash e \<and> he_key e = k then e\<lparr>he_value := f (he_value e)\<rparr> # es else e # chain_update nHash k f es)"

definition hm_update :: "'k hm_env \<Rightarrow> 'k \<Rightarrow> ('e \<Rightarrow> 'e) \<Rightarrow> ('k, 'e) hash_map \<Rightarrow> ('k, 'e) hash_map" where
  "hm_update env k f m =
     (let nHash = hm_hash env k; bs = hm_buckets m; i = bucket_index nHash (length bs)
      in m\<lparr>hm_buckets := bs[i := chain_update nHash k f (bs ! i)]\<rparr>)"

definition hm_put :: "'k hm_env \<Rightarrow> 'k \<Rightarrow> 'e \<Rightarrow> (('k, 'e) hash_map, 'e option) comp" where
  "hm_put env k x m =
     (case hm_get_entry_internal env k m of
        None \<Rightarrow> mapc (\<lambda>_. None) (hm_add_entry env \<lparr>he_key = k, he_hash = hm_hash env k, he_value = x\<rparr>) m
      | Some e \<Rightarrow> (Inr (Some (he_value e)), hm_update env k (\<lambda>_. x) m))"

fun chain_remove :: "nat \<Rightarrow> 'k \<Rightarrow> ('k, 'e) chain \<Rightarrow> ('k, 'e) chain" where
  "chain_remove nHash k [] = []"
| "chain_remove nHash k (e # es) = (if nHash = he_hash e \<and> he_key e = k then es else e # chain_remove nHash k es)"

definition hm_remove :: "'k hm_env \<Rightarrow> 'k \<Rightarrow> ('k, 'e) hash_map \<Rightarrow> 'e option \<times> ('k, 'e) hash_map" where
  "hm_remove env k m =
     (let nHash = hm_hash env k; bs = hm_buckets m; i = bucket_index nHash (length bs)
      in case chain_find nHash k (bs ! i) of
           None \<Rightarrow> (None, m)
         | Some e \<Rightarrow>
             (Some (he_value e),
              m\<lparr>hm_buckets := bs[i := chain_remove nHash k (bs ! i)], hm_entries := hm_entries m - 1\<rparr>))"

text \<open>Removing an entry that is at hand; the entry of a key is the only one with that key.\<close>

definition hm_remove_entry_internal :: "('k, 'e) hash_entry \<Rightarrow> ('k, 'e) hash_map \<Rightarrow> ('k, 'e) hash_map" where
  "hm_remove_entry_internal e m =
     (let bs = hm_buckets m; i = bucket_index (he_hash e) (length bs)
      in if chain_find (he_hash e) (he_key e) (bs ! i) = None then m
         else m\<lparr>hm_buckets := bs[i := chain_remove (he_hash e) (he_key e) (bs ! i)], hm_entries := hm_entries m - 1\<rparr>)"

definition hm_clear :: "'k hm_env \<Rightarrow> ('k, 'e) hash_map \<Rightarrow> ('k, 'e) hash_map" where
  "hm_clear env m =
     m\<lparr>hm_buckets := replicate default_initialsize [], hm_entries := 0, hm_capacity := hm_load env default_initialsize\<rparr>"

text \<open>The entries in the order in which the buckets are walked.\<close>

definition hm_to_array :: "('k, 'e) hash_map \<Rightarrow> ('k, 'e) hash_entry list" where
  "hm_to_array m = concat (hm_buckets m)"

text \<open>The entries with the next entry of their chain.\<close>

fun walk_chain :: "('k, 'e) chain \<Rightarrow> (('k, 'e) hash_entry \<times> ('k, 'e) hash_entry option) list" where
  "walk_chain [] = []"
| "walk_chain [e] = [(e, None)]"
| "walk_chain (e # d # es) = (e, Some d) # walk_chain (d # es)"

definition hm_walk :: "('k, 'e) hash_map \<Rightarrow> (('k, 'e) hash_entry \<times> ('k, 'e) hash_entry option) list" where
  "hm_walk m = concat (map walk_chain (hm_buckets m))"

text \<open>A change of every entry, bucket by bucket.\<close>

definition hm_change_all :: "('e \<Rightarrow> 'e) \<Rightarrow> ('k, 'e) hash_map \<Rightarrow> ('k, 'e) hash_map" where
  "hm_change_all f m = m\<lparr>hm_buckets := map (map (\<lambda>e. e\<lparr>he_value := f (he_value e)\<rparr>)) (hm_buckets m)\<rparr>"

section \<open>The invariant\<close>

definition chain_ok :: "'k hm_env \<Rightarrow> nat \<Rightarrow> nat \<Rightarrow> ('k, 'e) chain \<Rightarrow> bool" where
  "chain_ok env n i es \<longleftrightarrow>
     distinct (map he_key es) \<and> (\<forall>e\<in>set es. he_hash e = hm_hash env (he_key e) \<and> bucket_index (he_hash e) n = i)"

definition buckets_ok :: "'k hm_env \<Rightarrow> ('k, 'e) chain list \<Rightarrow> bool" where
  "buckets_ok env bs \<longleftrightarrow> (\<forall>i<length bs. chain_ok env (length bs) i (bs ! i))"

definition hm_ok :: "'k hm_env \<Rightarrow> ('k, 'e) hash_map \<Rightarrow> bool" where
  "hm_ok env m \<longleftrightarrow>
     hm_buckets m \<noteq> [] \<and> buckets_ok env (hm_buckets m) \<and> hm_entries m = length (hm_to_array m)"

text \<open>The map that a chain and the buckets stand for.\<close>

definition chain_map :: "'k hm_env \<Rightarrow> ('k, 'e) chain \<Rightarrow> 'k \<Rightarrow> 'e option" where
  "chain_map env es k = map_option he_value (chain_find (hm_hash env k) k es)"

definition key_bucket :: "'k hm_env \<Rightarrow> 'k \<Rightarrow> ('k, 'e) chain list \<Rightarrow> nat" where
  "key_bucket env k bs = bucket_index (hm_hash env k) (length bs)"

definition buckets_map :: "'k hm_env \<Rightarrow> ('k, 'e) chain list \<Rightarrow> 'k \<Rightarrow> 'e option" where
  "buckets_map env bs k = chain_map env (bs ! key_bucket env k bs) k"

lemma hm_get_map: "hm_get env k m = buckets_map env (hm_buckets m) k"
  by (simp add: hm_get_def hm_get_entry_internal_def buckets_map_def chain_map_def key_bucket_def Let_def)

lemma key_bucket_less: "bs \<noteq> [] \<Longrightarrow> key_bucket env k bs < length bs"
  by (simp add: key_bucket_def bucket_index_def)

lemma key_bucket_update [simp]: "key_bucket env k (bs[i := c]) = key_bucket env k bs"
  by (simp add: key_bucket_def)

text \<open>A chain is an association list.\<close>

definition entry_pair :: "('k, 'e) hash_entry \<Rightarrow> 'k \<times> 'e" where
  "entry_pair e = (he_key e, he_value e)"

lemma fst_entry_pair [simp]: "fst \<circ> entry_pair = he_key" "fst (entry_pair e) = he_key e" "snd (entry_pair e) = he_value e"
  by (auto simp: entry_pair_def)

lemma map_of_entry_pair [simp]: "map_of (entry_pair e # xs) = (map_of xs)(he_key e \<mapsto> he_value e)"
  by (simp add: entry_pair_def)

lemma map_of_entries_None [simp]: "map_of (map entry_pair es) k = None \<longleftrightarrow> k \<notin> he_key ` set es"
  by (force simp: map_of_eq_None_iff)

lemma chain_okD:
  assumes "chain_ok env n i es"
  shows "distinct (map he_key es)" and "e \<in> set es \<Longrightarrow> he_hash e = hm_hash env (he_key e)"
    and "e \<in> set es \<Longrightarrow> bucket_index (hm_hash env (he_key e)) n = i"
  using assms by (auto simp: chain_ok_def)

lemma chain_find_hash: "chain_find h k es = Some e \<Longrightarrow> e \<in> set es \<and> he_key e = k \<and> he_hash e = h"
  by (induction es) (auto split: if_splits)

lemma chain_map_of: "(\<And>e. e \<in> set es \<Longrightarrow> he_hash e = hm_hash env (he_key e)) \<Longrightarrow>
    chain_map env es = map_of (map entry_pair es)"
proof (induction es)
  case (Cons e es)
  then have "chain_map env es = map_of (map entry_pair es)" "he_hash e = hm_hash env (he_key e)" by simp_all
  then show ?case by (auto simp: fun_eq_iff chain_map_def)
qed (simp add: fun_eq_iff chain_map_def)

lemma chain_ok_Nil [simp]: "chain_ok env n i []"
  by (simp add: chain_ok_def)

lemma chain_map_Nil [simp]: "chain_map env [] = Map.empty"
  by (simp add: chain_map_def fun_eq_iff)

lemma chain_push:
  assumes "chain_ok env n i es" and "he_hash e = hm_hash env (he_key e)" and "bucket_index (he_hash e) n = i"
    and "chain_map env es (he_key e) = None"
  shows "chain_ok env n i (e # es)" and "chain_map env (e # es) = (chain_map env es)(he_key e \<mapsto> he_value e)"
proof -
  have "he_key e \<notin> he_key ` set es"
    using assms(4) chain_okD(2) [OF assms(1)]
    by (subst (asm) chain_map_of) auto
  with assms show "chain_ok env n i (e # es)" by (auto simp: chain_ok_def)
  show "chain_map env (e # es) = (chain_map env es)(he_key e \<mapsto> he_value e)"
    using assms(2) by (auto simp: chain_map_def fun_eq_iff)
qed

lemma chain_update_keys [simp]: "map he_key (chain_update h k f es) = map he_key es"
  by (induction es) simp_all

lemma chain_update_hash: "e \<in> set (chain_update h k f es) \<Longrightarrow> \<exists>d\<in>set es. he_key d = he_key e \<and> he_hash d = he_hash e"
  by (induction es) (auto split: if_splits)

lemma chain_update_law:
  assumes "chain_ok env n i es"
  shows "chain_ok env n i (chain_update (hm_hash env k) k f es)"
    and "chain_map env (chain_update (hm_hash env k) k f es) = (chain_map env es)(k := map_option f (chain_map env es k))"
    and "length (chain_update (hm_hash env k) k f es) = length es"
proof -
  show "chain_ok env n i (chain_update (hm_hash env k) k f es)"
    using assms chain_update_hash [of _ "hm_hash env k" k f es] unfolding chain_ok_def chain_update_keys by metis
  have "chain_map env (chain_update (hm_hash env k) k f es) j = (if j = k then map_option f (chain_map env es k) else chain_map env es j)" for j
    by (induction es) (auto simp: chain_map_def)
  then show "chain_map env (chain_update (hm_hash env k) k f es) = (chain_map env es)(k := map_option f (chain_map env es k))"
    by (auto simp: fun_eq_iff)
  show "length (chain_update (hm_hash env k) k f es) = length es"
    by (rule map_eq_imp_length_eq [OF chain_update_keys])
qed

lemma chain_remove_set: "set (chain_remove h k es) \<subseteq> set es"
  by (induction es) auto

lemma chain_remove_distinct: "distinct (map he_key es) \<Longrightarrow> distinct (map he_key (chain_remove h k es))"
proof (induction es)
  case (Cons e es)
  then show ?case using chain_remove_set [of h k es] by auto
qed simp

lemma chain_remove_map: "distinct (map he_key es) \<Longrightarrow>
    chain_map env (chain_remove (hm_hash env k) k es) j = (if j = k then None else chain_map env es j)"
proof (induction es)
  case (Cons e es)
  have "chain_find (hm_hash env k) k es = None" if "he_key e = k"
  proof (rule ccontr)
    assume "chain_find (hm_hash env k) k es \<noteq> None"
    then obtain a where "a \<in> set es" "he_key a = k" by (auto dest: chain_find_hash)
    then have "k \<in> he_key ` set es" by blast
    then show False using Cons.prems that by simp
  qed
  with Cons show ?case by (auto simp: chain_map_def)
qed simp

lemma chain_remove_length: "chain_find h k es \<noteq> None \<Longrightarrow> Suc (length (chain_remove h k es)) = length es"
  by (induction es) (auto split: if_splits)

lemma chain_remove_ok: "chain_ok env n i es \<Longrightarrow> chain_ok env n i (chain_remove h k es)"
  unfolding chain_ok_def using chain_remove_set [of h k es] chain_remove_distinct [of es h k] by blast

section \<open>Buckets\<close>

lemma concat_list_update:
  "i < length bs \<Longrightarrow> concat (bs[i := c]) = concat (take i bs) @ c @ concat (drop (Suc i) bs)"
  by (simp add: upd_conv_take_nth_drop)

lemma concat_nth: "i < length bs \<Longrightarrow> concat bs = concat (take i bs) @ bs ! i @ concat (drop (Suc i) bs)"
  using concat_list_update [of i bs "bs ! i"] by simp

lemma length_concat_update:
  "i < length bs \<Longrightarrow> length (concat (bs[i := c])) + length (bs ! i) = length (concat bs) + length c"
  using concat_nth [of i bs] by (simp add: concat_list_update)

lemma buckets_update:
  assumes "buckets_ok env bs" and "chain_ok env (length bs) (key_bucket env k bs) c" and "bs \<noteq> []"
    and "chain_map env c = (chain_map env (bs ! key_bucket env k bs))(k := x)"
  shows "buckets_ok env (bs[key_bucket env k bs := c])"
    and "buckets_map env (bs[key_bucket env k bs := c]) = (buckets_map env bs)(k := x)"
proof -
  show "buckets_ok env (bs[key_bucket env k bs := c])"
    using assms(1,2) key_bucket_less [OF assms(3), of env k] by (auto simp: buckets_ok_def nth_list_update)
  show "buckets_map env (bs[key_bucket env k bs := c]) = (buckets_map env bs)(k := x)"
    using assms(4) key_bucket_less [OF assms(3), of env k]
    by (auto simp: buckets_map_def fun_eq_iff nth_list_update)
qed

lemma buckets_chain: "buckets_ok env bs \<Longrightarrow> bs \<noteq> [] \<Longrightarrow> chain_ok env (length bs) (key_bucket env k bs) (bs ! key_bucket env k bs)"
  using key_bucket_less [of bs env k] by (auto simp: buckets_ok_def)

text \<open>All the entries, with different keys because they are in different chains.\<close>

lemma chains_distinct:
  "(\<And>i. i < length bs \<Longrightarrow> chain_ok env n (off + i) (bs ! i)) \<Longrightarrow>
   distinct (map he_key (concat bs)) \<and> (\<forall>e\<in>set (concat bs). off \<le> bucket_index (hm_hash env (he_key e)) n)"
proof (induction bs arbitrary: off)
  case (Cons b bs)
  have b: "chain_ok env n off b" using Cons.prems [of 0] by simp
  have "chain_ok env n (Suc off + i) (bs ! i)" if "i < length bs" for i using Cons.prems [of "Suc i"] that by simp
  from Cons.IH [OF this] have rest: "distinct (map he_key (concat bs))"
    "\<And>e. e \<in> set (concat bs) \<Longrightarrow> Suc off \<le> bucket_index (hm_hash env (he_key e)) n" by auto
  have "he_key d \<noteq> he_key e" if "d \<in> set b" "e \<in> set (concat bs)" for d e
    using chain_okD(3) [OF b that(1)] rest(2) [OF that(2)] by auto
  then have "he_key ` set b \<inter> he_key ` set (concat bs) = {}" by auto
  moreover have "distinct (map he_key b)" using b by (rule chain_okD)
  moreover have "off \<le> bucket_index (hm_hash env (he_key e)) n" if "e \<in> set b \<union> set (concat bs)" for e
    using that chain_okD(3) [OF b, of e] rest(2) [of e] by (auto dest: Suc_leD)
  ultimately show ?case using rest(1) by auto
qed simp

lemma buckets_distinct: "buckets_ok env bs \<Longrightarrow> distinct (map he_key (concat bs))"
  using chains_distinct [of bs env "length bs" 0] by (simp add: buckets_ok_def)

lemma buckets_hash: "buckets_ok env bs \<Longrightarrow> e \<in> set (concat bs) \<Longrightarrow> he_hash e = hm_hash env (he_key e)"
  by (force simp: buckets_ok_def chain_ok_def in_set_conv_nth)

lemma buckets_entry:
  assumes "buckets_ok env bs" and "bs \<noteq> []"
  shows "buckets_map env bs = map_of (map entry_pair (concat bs))"
proof (rule ext)
  fix k
  let ?i = "key_bucket env k bs"
  have i: "?i < length bs" by (rule key_bucket_less [OF assms(2)])
  have "map_of (map entry_pair (concat bs)) k = map_of (map entry_pair (bs ! ?i)) k"
  proof -
    have "key_bucket env (he_key e) bs = j" if "j < length bs" "e \<in> set (bs ! j)" for j e
      using assms(1) that by (auto simp: buckets_ok_def key_bucket_def dest: chain_okD(3))
    then have "k \<notin> he_key ` set (bs ! j)" if "j < length bs" "j \<noteq> ?i" for j
      using that by blast
    note other = this
    have "k \<notin> he_key ` set b" if "b \<in> set (take ?i bs) \<union> set (drop (Suc ?i) bs)" for b
    proof -
      from that consider j where "j < ?i" "b = bs ! j" | j where "j < length bs - Suc ?i" "b = bs ! Suc (?i + j)"
        by (auto simp: in_set_conv_nth)
      then show ?thesis using other i by cases simp_all
    qed
    then have "k \<notin> he_key ` set (concat (take ?i bs))" "k \<notin> he_key ` set (concat (drop (Suc ?i) bs))" by auto
    then have none: "map_of (map entry_pair (concat (take ?i bs))) k = None" "map_of (map entry_pair (concat (drop (Suc ?i) bs))) k = None"
      by simp_all
    show ?thesis
      by (subst concat_nth [OF i]) (simp add: map_add_def none del: map_of_entries_None split: option.split)
  qed
  then show "buckets_map env bs k = map_of (map entry_pair (concat bs)) k"
    using chain_map_of [of "bs ! ?i" env] buckets_chain [OF assms, of k] by (simp add: buckets_map_def chain_ok_def)
qed

section \<open>The operations keep the invariant\<close>

lemma bucket_push_law:
  assumes ok: "buckets_ok env bs" "bs \<noteq> []" and e: "he_hash e = hm_hash env (he_key e)"
    and fresh: "buckets_map env bs (he_key e) = None"
  shows "buckets_ok env (bucket_push e bs)" and "bucket_push e bs \<noteq> []"
    and "length (bucket_push e bs) = length bs"
    and "buckets_map env (bucket_push e bs) = (buckets_map env bs)(he_key e \<mapsto> he_value e)"
    and "length (concat (bucket_push e bs)) = Suc (length (concat bs))"
proof -
  let ?i = "key_bucket env (he_key e) bs"
  have push: "bucket_push e bs = bs[?i := e # bs ! ?i]"
    by (simp add: bucket_push_def key_bucket_def e Let_def)
  have c: "chain_ok env (length bs) ?i (e # bs ! ?i)" "chain_map env (e # bs ! ?i) = (chain_map env (bs ! ?i))(he_key e \<mapsto> he_value e)"
    by (rule chain_push; use buckets_chain [OF ok, of "he_key e"] e fresh in \<open>simp add: key_bucket_def buckets_map_def\<close>)+
  show "buckets_ok env (bucket_push e bs)" "buckets_map env (bucket_push e bs) = (buckets_map env bs)(he_key e \<mapsto> he_value e)"
    unfolding push by (rule buckets_update [OF ok(1) c(1) ok(2) c(2)])+
  show "bucket_push e bs \<noteq> []" "length (bucket_push e bs) = length bs" using ok(2) by (simp_all add: push)
  show "length (concat (bucket_push e bs)) = Suc (length (concat bs))"
    unfolding push using length_concat_update [OF key_bucket_less [OF ok(2)], of env "he_key e" "e # bs ! ?i"] by simp
qed

lemma empty_buckets: "buckets_ok env (replicate n [])" "0 < n \<Longrightarrow> buckets_map env (replicate n []) = Map.empty"
  by (simp_all add: buckets_ok_def buckets_map_def key_bucket_def bucket_index_def fun_eq_iff)

lemma fold_fold_concat: "fold (fold f) xss s = fold f (concat xss) s"
  by (induction xss arbitrary: s) simp_all

lemma fold_push_law:
  assumes "buckets_ok env bs" "bs \<noteq> []" and "\<And>e. e \<in> set es \<Longrightarrow> he_hash e = hm_hash env (he_key e)"
    and "distinct (map he_key es)" and "\<And>e. e \<in> set es \<Longrightarrow> buckets_map env bs (he_key e) = None"
  shows "buckets_ok env (fold bucket_push es bs) \<and> length (fold bucket_push es bs) = length bs \<and>
    buckets_map env (fold bucket_push es bs) = buckets_map env bs ++ map_of (map entry_pair es) \<and>
    length (concat (fold bucket_push es bs)) = length (concat bs) + length es"
  using assms
proof (induction es arbitrary: bs)
  case (Cons e es)
  note push = bucket_push_law [OF Cons.prems(1,2), of e, OF Cons.prems(3) Cons.prems(5)]
  have fresh: "buckets_map env (bucket_push e bs) (he_key d) = None" if "d \<in> set es" for d
  proof -
    have "he_key d \<noteq> he_key e" using that Cons.prems(4) by (metis distinct.simps(2) image_eqI list.simps(9) set_map)
    then show ?thesis using push(4) Cons.prems(5) [of d] that by simp
  qed
  have IH: "buckets_ok env (fold bucket_push es (bucket_push e bs)) \<and>
      length (fold bucket_push es (bucket_push e bs)) = length (bucket_push e bs) \<and>
      buckets_map env (fold bucket_push es (bucket_push e bs)) = buckets_map env (bucket_push e bs) ++ map_of (map entry_pair es) \<and>
      length (concat (fold bucket_push es (bucket_push e bs))) = length (concat (bucket_push e bs)) + length es"
    by (rule Cons.IH) (use push fresh Cons.prems in auto)
  have "he_key e \<notin> dom (map_of (map entry_pair es))" using Cons.prems(4) by (simp add: domIff)
  then have "buckets_map env bs ++ map_of (map entry_pair (e # es)) =
      (buckets_map env bs)(he_key e \<mapsto> he_value e) ++ map_of (map entry_pair es)"
    using map_add_upd_left [of "he_key e" "map_of (map entry_pair es)" "buckets_map env bs" "he_value e"] by simp
  with IH push show ?case by (simp del: list.map)
qed simp

lemma rehash_law:
  assumes "buckets_ok env bs" "bs \<noteq> []" "0 < n"
  shows "buckets_ok env (rehash n bs) \<and> rehash n bs \<noteq> [] \<and> buckets_map env (rehash n bs) = buckets_map env bs \<and>
    length (concat (rehash n bs)) = length (concat bs)"
proof -
  have "replicate n [] \<noteq> []" using assms(3) by simp
  note fold_push_law [OF empty_buckets(1) this buckets_hash [OF assms(1)] buckets_distinct [OF assms(1)]]
  with assms show ?thesis
    by (auto simp: rehash_def fold_fold_concat empty_buckets(2) buckets_entry [symmetric])
qed

text \<open>
  What a client of the map relies on: the map that lookups see, and the list of all the
  entries, which has each key once.
\<close>

locale entry_table =
  fixes ok :: "'m \<Rightarrow> bool" and look :: "'k \<Rightarrow> 'm \<Rightarrow> 'e option" and all :: "'m \<Rightarrow> ('k \<times> 'e) list"
    and update :: "'k \<Rightarrow> ('e \<Rightarrow> 'e) \<Rightarrow> 'm \<Rightarrow> 'm" and delete :: "'k \<Rightarrow> 'm \<Rightarrow> 'm" and clear :: "'m \<Rightarrow> 'm"
  assumes all_map: "ok m \<Longrightarrow> map_of (all m) k = look k m"
    and all_distinct: "ok m \<Longrightarrow> distinct (map fst (all m))"
    and update_ok: "ok m \<Longrightarrow> ok (update k f m)"
    and update_look: "ok m \<Longrightarrow> look j (update k f m) = (if j = k then map_option f (look k m) else look j m)"
    and delete_ok: "ok m \<Longrightarrow> ok (delete k m)"
    and delete_look: "ok m \<Longrightarrow> look j (delete k m) = (if j = k then None else look j m)"
    and clear_ok: "ok m \<Longrightarrow> ok (clear m)"
    and clear_look: "ok m \<Longrightarrow> look j (clear m) = None"
begin

lemma all_entry: "ok m \<Longrightarrow> (k, e) \<in> set (all m) \<longleftrightarrow> look k m = Some e"
  using map_of_eq_Some_iff [OF all_distinct, of m k e] by (simp add: all_map)

lemma finite_keys: "ok m \<Longrightarrow> finite {k. look k m \<noteq> None}"
  by (rule finite_subset [of _ "fst ` set (all m)"]) (force simp: all_entry [symmetric])+

text \<open>The weight of the map: a sum over its entries.\<close>

definition weight :: "('e \<Rightarrow> 'w::comm_monoid_add) \<Rightarrow> 'm \<Rightarrow> 'w" where
  "weight f m = (\<Sum>(k, e)\<leftarrow>all m. f e)"

lemma weight_sum: "ok m \<Longrightarrow> weight f m = (\<Sum>k\<in>{k. look k m \<noteq> None}. f (the (look k m)))"
proof -
  assume ok: "ok m"
  have "{k. look k m \<noteq> None} = fst ` set (all m)" using all_entry [OF ok] by force
  moreover have "weight f m = (\<Sum>p\<in>set (all m). f (snd p))"
    using all_distinct [OF ok] by (simp add: weight_def case_prod_unfold sum_list_distinct_conv_sum_set distinct_map)
  moreover have "(\<Sum>k\<in>fst ` set (all m). f (the (look k m))) = (\<Sum>p\<in>set (all m). f (the (look (fst p) m)))"
    using all_distinct [OF ok] by (simp add: sum.reindex distinct_map)
  moreover have "(\<Sum>p\<in>set (all m). f (the (look (fst p) m))) = (\<Sum>p\<in>set (all m). f (snd p))"
    by (rule sum.cong) (use all_entry [OF ok] in force)+
  ultimately show ?thesis by simp
qed

lemma weight_look: "ok m \<Longrightarrow> look k m = Some e \<Longrightarrow>
    weight f m = f e + (\<Sum>j\<in>{j. look j m \<noteq> None} - {k}. f (the (look j m)))"
  using sum.remove [OF finite_keys, of m k "\<lambda>j. f (the (look j m))"] by (simp add: weight_sum)

lemma weight_empty: "ok m \<Longrightarrow> (\<And>k. look k m = None) \<Longrightarrow> weight f m = 0"
  by (simp add: weight_sum)

lemma weight_delete:
  assumes "ok m" and "look k m = Some e"
  shows "weight f m = f e + weight f (delete k m)"
proof -
  have "{j. look j (delete k m) \<noteq> None} = {j. look j m \<noteq> None} - {k}" using assms by (auto simp: delete_look)
  moreover have "(\<Sum>j\<in>{j. look j m \<noteq> None} - {k}. f (the (look j (delete k m)))) = (\<Sum>j\<in>{j. look j m \<noteq> None} - {k}. f (the (look j m)))"
    by (rule sum.cong) (use assms(1) in \<open>auto simp: delete_look\<close>)
  ultimately show ?thesis
    unfolding weight_look [OF assms] weight_sum [OF delete_ok [OF assms(1)]] by simp
qed

lemma weight_same:
  assumes "ok m" and "ok m'" and same: "\<And>j. map_option f (look j m') = map_option f (look j m)"
  shows "weight f m' = weight f m"
proof -
  have "{k. look k m' \<noteq> None} = {k. look k m \<noteq> None}" using same by (metis option.map_disc_iff)
  moreover have "f (the (look k m')) = f (the (look k m))" if "look k m \<noteq> None" for k
    using same [of k] that by (cases "look k m'") auto
  ultimately show ?thesis by (simp add: weight_sum assms(1,2))
qed

lemma weight_insert:
  assumes "ok m" and "ok m'" and new: "\<And>j. look j m' = (if j = k then Some e else look j m)" and "look k m = None"
  shows "weight f m' = f e + weight f m"
proof -
  have "weight f m' = f e + (\<Sum>j\<in>{j. look j m' \<noteq> None} - {k}. f (the (look j m')))"
    by (rule weight_look) (simp_all add: assms(2) new)
  moreover have "{j. look j m' \<noteq> None} - {k} = {j. look j m \<noteq> None}" using assms(4) by (auto simp: new)
  moreover have "(\<Sum>j\<in>{j. look j m \<noteq> None}. f (the (look j m'))) = (\<Sum>j\<in>{j. look j m \<noteq> None}. f (the (look j m)))"
    by (rule sum.cong) (use assms(4) in \<open>auto simp: new\<close>)
  ultimately show ?thesis by (simp add: weight_sum assms(1))
qed

end

definition hm_delete :: "'k hm_env \<Rightarrow> 'k \<Rightarrow> ('k, 'e) hash_map \<Rightarrow> ('k, 'e) hash_map" where
  "hm_delete env k m = snd (hm_remove env k m)"

lemma hm_ok_buckets: "hm_ok env m \<Longrightarrow> buckets_ok env (hm_buckets m) \<and> hm_buckets m \<noteq> []"
  by (simp add: hm_ok_def)

lemma hm_update_law:
  assumes ok: "hm_ok env m"
  shows "hm_ok env (hm_update env k f m)"
    and "hm_get env j (hm_update env k f m) = (if j = k then map_option f (hm_get env k m) else hm_get env j m)"
proof -
  let ?bs = "hm_buckets m" let ?i = "key_bucket env k ?bs"
  have b: "buckets_ok env ?bs" "?bs \<noteq> []" using ok by (simp_all add: hm_ok_def)
  have upd: "hm_update env k f m = m\<lparr>hm_buckets := ?bs[?i := chain_update (hm_hash env k) k f (?bs ! ?i)]\<rparr>"
    by (simp add: hm_update_def Let_def key_bucket_def)
  note c = chain_update_law [OF buckets_chain [OF b, of k], of k f]
  note u = buckets_update [OF b(1) c(1) b(2) c(2)]
  show "hm_ok env (hm_update env k f m)"
    using ok u(1) length_concat_update [OF key_bucket_less [OF b(2)], of env k "chain_update (hm_hash env k) k f (?bs ! ?i)"] c(3)
    by (simp add: upd hm_ok_def hm_to_array_def)
  show "hm_get env j (hm_update env k f m) = (if j = k then map_option f (hm_get env k m) else hm_get env j m)"
    using u(2) by (simp add: upd hm_get_map buckets_map_def)
qed

lemma hm_remove_law:
  assumes ok: "hm_ok env m"
  shows "fst (hm_remove env k m) = hm_get env k m" and "hm_ok env (hm_delete env k m)"
    and "hm_get env j (hm_delete env k m) = (if j = k then None else hm_get env j m)"
proof -
  let ?bs = "hm_buckets m" let ?i = "key_bucket env k ?bs" let ?h = "hm_hash env k"
  have b: "buckets_ok env ?bs" "?bs \<noteq> []" using ok by (simp_all add: hm_ok_def)
  note chain = buckets_chain [OF b, of k]
  show "fst (hm_remove env k m) = hm_get env k m"
    by (auto simp: hm_remove_def hm_get_def hm_get_entry_internal_def Let_def split: option.split)
  have "hm_ok env (hm_delete env k m) \<and> hm_get env j (hm_delete env k m) = (if j = k then None else hm_get env j m)"
  proof (cases "chain_find ?h k (?bs ! ?i)")
    case None
    then have "hm_delete env k m = m" "hm_get env k m = None"
      by (simp_all add: hm_delete_def hm_remove_def hm_get_def hm_get_entry_internal_def key_bucket_def Let_def)
    then show ?thesis using ok by auto
  next
    case (Some e)
    then have del: "hm_delete env k m = m\<lparr>hm_buckets := ?bs[?i := chain_remove ?h k (?bs ! ?i)], hm_entries := hm_entries m - 1\<rparr>"
      by (simp add: hm_delete_def hm_remove_def key_bucket_def Let_def)
    have c: "chain_map env (chain_remove ?h k (?bs ! ?i)) = (chain_map env (?bs ! ?i))(k := None)"
      using chain_remove_map [OF chain_okD(1) [OF chain], of env k] by (auto simp: fun_eq_iff)
    note u = buckets_update [OF b(1) chain_remove_ok [OF chain] b(2) c]
    have len: "Suc (length (chain_remove ?h k (?bs ! ?i))) = length (?bs ! ?i)"
      using Some by (simp add: chain_remove_length)
    have "hm_ok env (hm_delete env k m)"
      using ok u(1) len length_concat_update [OF key_bucket_less [OF b(2)], of env k "chain_remove ?h k (?bs ! ?i)"]
      by (simp add: del hm_ok_def hm_to_array_def)
    then show ?thesis using u(2) by (simp add: del hm_get_map)
  qed
  then show "hm_ok env (hm_delete env k m)" "hm_get env j (hm_delete env k m) = (if j = k then None else hm_get env j m)" by simp_all
qed

lemma hm_clear_law: "hm_ok env (hm_clear env m)" "hm_get env k (hm_clear env m) = None"
  by (simp_all add: hm_ok_def hm_clear_def hm_to_array_def hm_get_map default_initialsize_def empty_buckets)

lemma hm_create_max: "hm_create env n = \<lparr>hm_buckets = replicate (max 1 n) [], hm_entries = 0, hm_capacity = hm_load env (max 1 n)\<rparr>"
  by (auto simp: hm_create_def Let_def max_def)

lemma hm_create_law: "hm_ok env (hm_create env n)" "hm_get env k (hm_create env n) = None"
  by (simp_all only: hm_create_max hm_ok_def hm_to_array_def hm_get_map hash_map.simps empty_buckets) simp_all

text \<open>Removing an entry that is at hand removes its key.\<close>

lemma hm_remove_entry_law:
  "he_hash e = hm_hash env (he_key e) \<Longrightarrow> hm_remove_entry_internal e m = hm_delete env (he_key e) m"
  by (simp add: hm_remove_entry_internal_def hm_delete_def hm_remove_def Let_def split: option.split)

lemma walk_chain_entries: "map fst (walk_chain es) = es"
  by (induction es rule: walk_chain.induct) simp_all

lemma hm_walk_entries: "map fst (hm_walk m) = hm_to_array m"
  by (simp add: hm_walk_def hm_to_array_def map_concat o_def walk_chain_entries)

lemma chain_find_change: "chain_find h k (map (\<lambda>e. e\<lparr>he_value := f (he_value e)\<rparr>) es) =
    map_option (\<lambda>e. e\<lparr>he_value := f (he_value e)\<rparr>) (chain_find h k es)"
  by (induction es) auto

lemma chain_ok_change: "chain_ok env n i es \<Longrightarrow> chain_ok env n i (map (\<lambda>e. e\<lparr>he_value := f (he_value e)\<rparr>) es)"
  unfolding chain_ok_def by (simp add: o_def) metis

lemma hm_change_all_law:
  assumes "hm_ok env m"
  shows "hm_ok env (hm_change_all f m)" and "hm_get env k (hm_change_all f m) = map_option f (hm_get env k m)"
proof -
  have len: "length (concat (map (map g) bs)) = length (concat bs)" for g :: "('a, 'b) hash_entry \<Rightarrow> ('a, 'b) hash_entry" and bs
    by (induction bs) simp_all
  show "hm_ok env (hm_change_all f m)"
    using assms by (auto simp: hm_ok_def hm_change_all_def hm_to_array_def len buckets_ok_def chain_ok_change)
  have "key_bucket env k (hm_buckets m) < length (hm_buckets m)"
    using assms by (simp add: hm_ok_def key_bucket_less)
  then show "hm_get env k (hm_change_all f m) = map_option f (hm_get env k m)"
    by (simp add: hm_get_map hm_change_all_def buckets_map_def chain_map_def chain_find_change key_bucket_def
        option.map_comp o_def)
qed

text \<open>
  Growing changes the buckets and not the map, unless there is no prime left: then there are no
  buckets left either.
\<close>

lemma hm_grow_law:
  assumes "hm_ok env m" and "fst (hm_grow env m) = Inr ()"
  shows "hm_ok env (snd (hm_grow env m))" and "hm_get env k (snd (hm_grow env m)) = hm_get env k m"
    and "hm_entries (snd (hm_grow env m)) = hm_entries m"
  using assms rehash_law [of env "hm_buckets m"]
  by (auto simp: hm_grow_def Let_def hm_ok_def hm_get_map hm_to_array_def split: if_splits)

lemma hm_grow_fails: "fst (hm_grow env m) = Inl err \<Longrightarrow> err = UndefinedBehaviour \<and> hm_buckets (snd (hm_grow env m)) = []"
  by (auto simp: hm_grow_def Let_def split: if_splits)

lemma hm_add_fails:
  "fst (hm_add_entry env e m) = Inl err \<Longrightarrow> err = UndefinedBehaviour \<and> hm_buckets (snd (hm_add_entry env e m)) = []"
  by (auto simp: hm_add_entry_def Let_def hm_grow_fails split: if_splits)

lemma hm_put_fails:
  "fst (hm_put env k x m) = Inl err \<Longrightarrow> err = UndefinedBehaviour \<and> hm_buckets (snd (hm_put env k x m)) = []"
  using hm_add_fails [of env "\<lparr>he_key = k, he_hash = hm_hash env k, he_value = x\<rparr>" m err]
  by (auto simp: hm_put_def mapc_def bindc_def ret_def split: option.splits prod.splits sum.splits)

lemma hm_add_law:
  assumes ok: "hm_ok env m" and e: "he_hash e = hm_hash env (he_key e)" and fresh: "hm_get env (he_key e) m = None"
    and grown: "fst (hm_add_entry env e m) = Inr ()"
  shows "hm_ok env (snd (hm_add_entry env e m))"
    and "hm_get env k (snd (hm_add_entry env e m)) = (if k = he_key e then Some (he_value e) else hm_get env k m)"
    and "hm_entries (snd (hm_add_entry env e m)) = Suc (hm_entries m)"
proof -
  let ?m = "m\<lparr>hm_buckets := bucket_push e (hm_buckets m), hm_entries := Suc (hm_entries m)\<rparr>"
  note push = bucket_push_law [OF conjunct1 [OF hm_ok_buckets [OF ok]] conjunct2 [OF hm_ok_buckets [OF ok]] e
      fresh [unfolded hm_get_map]]
  have m: "hm_ok env ?m" using push ok by (simp add: hm_ok_def hm_to_array_def)
  have get: "hm_get env k ?m = (if k = he_key e then Some (he_value e) else hm_get env k m)" for k
    using push(4) by (simp add: hm_get_map)
  show "hm_ok env (snd (hm_add_entry env e m))"
    "hm_get env k (snd (hm_add_entry env e m)) = (if k = he_key e then Some (he_value e) else hm_get env k m)"
    "hm_entries (snd (hm_add_entry env e m)) = Suc (hm_entries m)"
    using m hm_grow_law [OF m] grown by (simp_all add: hm_add_entry_def Let_def get split: if_splits)
qed

lemma hm_put_law:
  assumes "hm_ok env m" and "fst (hm_put env k x m) = Inr r"
  shows "hm_ok env (snd (hm_put env k x m))"
    and "hm_get env j (snd (hm_put env k x m)) = (if j = k then Some x else hm_get env j m)"
    and "r = hm_get env k m"
proof -
  let ?e = "\<lparr>he_key = k, he_hash = hm_hash env k, he_value = x\<rparr>"
  have split: "snd (hm_put env k x m) =
      (if hm_get env k m = None then snd (hm_add_entry env ?e m) else hm_update env k (\<lambda>_. x) m)"
    by (auto simp: hm_put_def hm_get_def mapc_def bindc_def ret_def split: option.split prod.split sum.split)
  have grown: "hm_get env k m = None \<Longrightarrow> fst (hm_add_entry env ?e m) = Inr ()"
    using assms(2) by (auto simp: hm_put_def hm_get_def mapc_def bindc_def ret_def split: option.splits prod.splits sum.splits)
  show "hm_ok env (snd (hm_put env k x m))"
    "hm_get env j (snd (hm_put env k x m)) = (if j = k then Some x else hm_get env j m)"
    using hm_add_law [OF assms(1), of ?e] hm_update_law [OF assms(1)] grown unfolding split by auto
  show "r = hm_get env k m"
    using assms(2) by (auto simp: hm_put_def hm_get_def mapc_def bindc_def ret_def split: option.splits prod.splits sum.splits)
qed

definition hm_all :: "('k, 'e) hash_map \<Rightarrow> ('k \<times> 'e) list" where
  "hm_all m = map entry_pair (hm_to_array m)"

lemma hm_all_law:
  assumes "hm_ok env m"
  shows "map_of (hm_all m) k = hm_get env k m" and "distinct (map fst (hm_all m))"
  using buckets_entry [of env "hm_buckets m"] buckets_distinct [of env "hm_buckets m"] assms
  by (simp_all add: hm_all_def hm_to_array_def hm_get_map hm_ok_def)

interpretation table: entry_table "hm_ok env" "hm_get env" hm_all "hm_update env" "hm_delete env" "hm_clear env" for env
  by unfold_locales (simp_all add: hm_all_law hm_update_law hm_remove_law hm_clear_law)

end
