(* ===== verification/Msb_Index.thy ===== *)
theory Msb_Index
  imports Coh_Prelude "HOL-Library.Log_Nat"
begin

text \<open>
  The position of the most significant bit, by the magic of shifts and masks with which the
  priorities of \<^verbatim>\<open>OldCache\<close> are calculated, and why it is the logarithm.
\<close>

text \<open>All the bits below the highest are set; then the bits are counted.\<close>

definition msb_fill :: "32 word \<Rightarrow> 32 word" where
  "msb_fill n =
     (let n = or n (drop_bit 1 n); n = or n (drop_bit 2 n); n = or n (drop_bit 4 n); n = or n (drop_bit 8 n)
      in or n (drop_bit 16 n))"

definition msb_count :: "32 word \<Rightarrow> 32 word" where
  "msb_count n =
     (let n = n - and (drop_bit 1 n) 0x55555555;
          n = and (drop_bit 2 n) 0x33333333 + and n 0x33333333;
          n = and (drop_bit 4 n + n) 0x0f0f0f0f;
          n = n + drop_bit 8 n;
          n = n + drop_bit 16 n
      in and n 0x0000003f)"

definition index_of_msb :: "32 word \<Rightarrow> int" where
  "index_of_msb n = sint (msb_count (msb_fill n) - 1)"

lemma fill_step:
  assumes "\<And>i. bit x i \<longleftrightarrow> (\<exists>j<k. bit (n :: 32 word) (i + j))"
  shows "bit (or x (drop_bit k x)) i \<longleftrightarrow> (\<exists>j<2 * k. bit n (i + j))"
proof -
  have "(\<exists>j<k. bit n (k + i + j)) \<longleftrightarrow> (\<exists>j<2 * k. k \<le> j \<and> bit n (i + j))"
  proof
    assume "\<exists>j<k. bit n (k + i + j)"
    then obtain j where "j < k" "bit n (k + i + j)" by blast
    then show "\<exists>j<2 * k. k \<le> j \<and> bit n (i + j)" by (intro exI [of _ "k + j"]) (simp add: ac_simps)
  next
    assume "\<exists>j<2 * k. k \<le> j \<and> bit n (i + j)"
    then obtain j where "j < 2 * k" "k \<le> j" "bit n (i + j)" by blast
    then show "\<exists>j<k. bit n (k + i + j)" by (intro exI [of _ "j - k"]) auto
  qed
  then show ?thesis by (auto simp: bit_or_iff bit_drop_bit_eq assms) (metis not_le)
qed

lemma msb_fill_bit: "bit (msb_fill n) i \<longleftrightarrow> (\<exists>j<32. bit n (i + j))"
proof -
  note step = fill_step [where n = n]
  have 0: "bit n i \<longleftrightarrow> (\<exists>j<1. bit n (i + j))" for i by simp
  show ?thesis
    unfolding msb_fill_def Let_def
    using step [OF step [OF step [OF step [OF step [OF 0, simplified], simplified], simplified], simplified]]
    by simp
qed

lemma msb_fill_mask: "msb_fill n = mask (floorlog 2 (unat n))"
proof (cases "n = 0")
  case True
  then show ?thesis by (simp add: msb_fill_def Let_def floorlog_def)
next
  case False
  then have "0 < unat n" by (simp add: unat_gt_0)
  then obtain k where k: "floorlog 2 (unat n) = Suc k" "2 ^ k \<le> unat n" "unat n < 2 ^ Suc k"
    using floorlog_bounds [of "unat n" 2] by (cases "floorlog 2 (unat n)") (auto simp: floorlog_eq_zero_iff)
  have top: "bit n k"
  proof -
    have "unat n div 2 ^ k = 1" using k(2,3) by (simp add: div_nat_eqI)
    then have "bit (unat n) k" by (simp add: bit_iff_odd)
    then show ?thesis by (simp add: bit_unsigned_iff)
  qed
  have above: "\<not> bit n j" if "Suc k \<le> j" for j
  proof -
    have "unat n < 2 ^ j" using k(3) power_increasing [OF that, of "2::nat"] by simp
    then have "\<not> bit (unat n) j" by (simp add: bit_iff_odd)
    then show ?thesis by (simp add: bit_unsigned_iff)
  qed
  have "k < 32" using bit_imp_le_length [OF top] by simp
  show ?thesis
  proof (rule bit_word_eqI)
    fix i assume "i < LENGTH(32)"
    have "(\<exists>j<32. bit n (i + j)) \<longleftrightarrow> i < Suc k"
    proof
      assume "\<exists>j<32. bit n (i + j)"
      then show "i < Suc k" using above by (meson leI le_add1 le_trans)
    next
      assume "i < Suc k"
      then show "\<exists>j<32. bit n (i + j)" using top \<open>k < 32\<close> by (intro exI [of _ "k - i"]) simp
    qed
    with \<open>k < 32\<close> show "bit (msb_fill n) i \<longleftrightarrow> bit (mask (floorlog 2 (unat n)) :: 32 word) i"
      by (auto simp: msb_fill_bit k(1) bit_mask_iff)
  qed
qed

lemma msb_counts: "list_all (\<lambda>k. sint (msb_count (mask k) - 1) = int k - 1) [0..<33]"
  by code_simp

lemma msb_log: "index_of_msb n = int (floorlog 2 (unat n)) - 1"
proof -
  have "unat n < 2 ^ 32" using unsigned_less [of n] by simp
  then have "floorlog 2 (unat n) \<le> 32" by (simp add: floorlog_leI)
  then show ?thesis using msb_counts by (simp add: index_of_msb_def msb_fill_mask list_all_iff del: upt_rec_numeral)
qed
lemma index_of_msb_bound: "- 1 \<le> index_of_msb n"
  by (simp add: msb_log)

end
