(* ===== verification/Old_Cache.thy ===== *)
theory Old_Cache
  imports Safe_Hash_Map Sparse_Array Msb_Index
begin

text \<open>
  \<^verbatim>\<open>OldCache\<close> of \<^verbatim>\<open>coherence/net/cache\<close>, the local cache: a \<^verbatim>\<open>SafeHashMap\<close> whose
  entries expire, which counts units, evicts entries when it has too many of them, and tells
  its listeners of every change.
\<close>

section \<open>The cache\<close>

record 'v cache_entry =
  ce_value :: 'v
  ce_created :: int
  ce_last_use :: int
  ce_expiry :: int
  ce_uses :: int
  ce_units :: "32 word"

datatype eviction_type = HybridPolicy | LruPolicy | LfuPolicy | ExternalPolicy

datatype ('k, 'v) map_event = EntryInserted 'k 'v | EntryUpdated 'k 'v 'v | EntryDeleted 'k 'v

text \<open>
  The events that have been dispatched to the listeners are kept in the order in which they
  were, for as long as there are listeners.  The calculators of the application are numbered;
  without one the units are fixed.
\<close>

record ('k, 'v) old_cache =
  oc_map :: "('k, 'v cache_entry) hash_map"
  oc_cur_units :: "32 word"
  oc_max_units :: "32 word"
  oc_prune_units :: "32 word"
  oc_expiry_delay :: int
  oc_flush_delay :: int
  oc_next_flush :: int
  oc_eviction :: eviction_type
  oc_calculator :: "nat option"
  oc_last_prune :: int
  oc_avg_touch :: int
  oc_hits :: int
  oc_misses :: int
  oc_puts :: int
  oc_prunes :: int
  oc_listening :: bool
  oc_events :: "('k, 'v) map_event list"

text \<open>
  What the application and the floating-point arithmetic contribute: the unit calculators, the
  keys that an external eviction policy evicts when it is asked to, the part of the units
  that is the low mark, and the two ratios of the priority as they are before their most
  significant bit is taken.
\<close>

record ('k, 'v) oc_env =
  oc_table :: "'k hm_env"
  oc_calculate :: "nat \<Rightarrow> 'k \<Rightarrow> 'v \<Rightarrow> 32 word"
  oc_request_eviction :: "32 word \<Rightarrow> ('k, 'v) old_cache \<Rightarrow> 'k list"
  oc_prune_part :: "32 word \<Rightarrow> 32 word"
  oc_recentness :: "int \<Rightarrow> int \<Rightarrow> 32 word"
  oc_frequency :: "int \<Rightarrow> int \<Rightarrow> 32 word"

definition units_npos :: "32 word" where
  "units_npos = - 1"

definition max_time :: int where
  "max_time = 2 ^ 63 - 1"

definition default_flush :: int where
  "default_flush = 60000"

definition old_cache_create :: "('k, 'v) oc_env \<Rightarrow> 32 word \<Rightarrow> int \<Rightarrow> nat \<Rightarrow> int \<Rightarrow> ('k, 'v) old_cache" where
  "old_cache_create env cUnits cExpiryMillis cInitialBuckets now =
     \<lparr>oc_map = hm_create (oc_table env) cInitialBuckets, oc_cur_units = 0, oc_max_units = cUnits,
      oc_prune_units = oc_prune_part env cUnits, oc_expiry_delay = cExpiryMillis, oc_flush_delay = 0,
      oc_next_flush = max_time, oc_eviction = HybridPolicy, oc_calculator = None, oc_last_prune = now,
      oc_avg_touch = 0, oc_hits = 0, oc_misses = 0, oc_puts = 0, oc_prunes = 0, oc_listening = False, oc_events = []\<rparr>"

section \<open>Entries\<close>

definition is_expired :: "int \<Rightarrow> 'v cache_entry \<Rightarrow> bool" where
  "is_expired now e \<longleftrightarrow> ce_expiry e \<noteq> 0 \<and> ce_expiry e < now"

definition entry_create :: "int \<Rightarrow> 'v \<Rightarrow> 'v cache_entry" where
  "entry_create now v =
     \<lparr>ce_value = v, ce_created = now, ce_last_use = now, ce_expiry = 0, ce_uses = 0, ce_units = 0\<rparr>"

definition schedule_expiry :: "int \<Rightarrow> ('k, 'v) old_cache \<Rightarrow> 'v cache_entry \<Rightarrow> 'v cache_entry" where
  "schedule_expiry now c e =
     e\<lparr>ce_expiry := (if 0 < oc_expiry_delay c then now + oc_expiry_delay c else 0)\<rparr>"

definition entry_touch :: "int \<Rightarrow> 'v cache_entry \<Rightarrow> 'v cache_entry" where
  "entry_touch now e = e\<lparr>ce_uses := ce_uses e + 1, ce_last_use := now\<rparr>"

definition reset_touch_count :: "'v cache_entry \<Rightarrow> 'v cache_entry" where
  "reset_touch_count e = (if 0 < ce_uses e then e\<lparr>ce_uses := max 1 (ce_uses e div 16)\<rparr> else e)"

definition calculate_units :: "('k, 'v) oc_env \<Rightarrow> ('k, 'v) old_cache \<Rightarrow> 'k \<Rightarrow> 'v \<Rightarrow> 32 word" where
  "calculate_units env c k v = (case oc_calculator c of None \<Rightarrow> 1 | Some u \<Rightarrow> oc_calculate env u k v)"

definition dispatch_event :: "('k, 'v) map_event \<Rightarrow> ('k, 'v) old_cache \<Rightarrow> ('k, 'v) old_cache" where
  "dispatch_event evt c = (if oc_listening c then c\<lparr>oc_events := oc_events c @ [evt]\<rparr> else c)"

definition change_entry ::
  "('k, 'v) oc_env \<Rightarrow> 'k \<Rightarrow> ('v cache_entry \<Rightarrow> 'v cache_entry) \<Rightarrow> ('k, 'v) old_cache \<Rightarrow> ('k, 'v) old_cache" where
  "change_entry env k f c = c\<lparr>oc_map := hm_update (oc_table env) k f (oc_map c)\<rparr>"

text \<open>
  The units are set first; an entry whose units are \<^verbatim>\<open>npos\<close> has been discarded before.
\<close>

definition entry_discard ::
  "('k, 'v) oc_env \<Rightarrow> ('k, 'v cache_entry) hash_entry \<Rightarrow> ('k, 'v) old_cache \<Rightarrow> ('k, 'v) old_cache" where
  "entry_discard env he c =
     (let cUnits = ce_units (he_value he) in
      if cUnits = units_npos then c
      else
        let c = (if 0 < cUnits then c\<lparr>oc_cur_units := oc_cur_units c - cUnits\<rparr> else c);
            c = change_entry env (he_key he) (\<lambda>e. e\<lparr>ce_units := units_npos\<rparr>) c
        in dispatch_event (EntryDeleted (he_key he) (ce_value (he_value he))) c)"

definition oc_on_add ::
  "('k, 'v) oc_env \<Rightarrow> int \<Rightarrow> ('k, 'v cache_entry) hash_entry \<Rightarrow> ('k, 'v) old_cache \<Rightarrow> ('k, 'v) old_cache" where
  "oc_on_add env now he c =
     (let k = he_key he; v = ce_value (he_value he);
          c = change_entry env k (schedule_expiry now c) c;
          cNew = calculate_units env c k v;
          cOld = ce_units (he_value he)
      in if cOld = units_npos then c
         else
           let c = (if cOld < cNew
                    then change_entry env k (\<lambda>e. e\<lparr>ce_units := cNew\<rparr>) (c\<lparr>oc_cur_units := oc_cur_units c + (cNew - cOld)\<rparr>)
                    else if cNew < cOld
                    then change_entry env k (\<lambda>e. e\<lparr>ce_units := cNew\<rparr>) (c\<lparr>oc_cur_units := oc_cur_units c - (cOld - cNew)\<rparr>)
                    else c)
           in dispatch_event (EntryInserted k v) c)"

text \<open>
  The differences are taken the wrong way round here: the units that an update adds are
  subtracted from the total, and the units it saves are added to it.
\<close>

definition entry_set_value ::
  "('k, 'v) oc_env \<Rightarrow> int \<Rightarrow> ('k, 'v cache_entry) hash_entry \<Rightarrow> 'v \<Rightarrow> ('k, 'v) old_cache \<Rightarrow> 'v option \<times> ('k, 'v) old_cache" where
  "entry_set_value env now he v c =
     (let k = he_key he; cOld = ce_units (he_value he) in
      if cOld = units_npos then (None, change_entry env k (\<lambda>e. e\<lparr>ce_value := v\<rparr>) c)
      else
        let cNew = calculate_units env c k v;
            prev = ce_value (he_value he);
            c = (if cOld < cNew
                 then change_entry env k (\<lambda>e. e\<lparr>ce_units := cNew\<rparr>) (c\<lparr>oc_cur_units := oc_cur_units c + (cOld - cNew)\<rparr>)
                 else if cNew < cOld
                 then change_entry env k (\<lambda>e. e\<lparr>ce_units := cNew\<rparr>) (c\<lparr>oc_cur_units := oc_cur_units c - (cNew - cOld)\<rparr>)
                 else c);
            c = change_entry env k (\<lambda>e. e\<lparr>ce_value := v\<rparr>) c;
            c = change_entry env k (schedule_expiry now c) c
        in (Some prev, dispatch_event (EntryUpdated k prev v) c))"

section \<open>Expiry\<close>

definition remove_expired ::
  "('k, 'v) oc_env \<Rightarrow> ('k, 'v cache_entry) hash_entry \<Rightarrow> bool \<Rightarrow> ('k, 'v) old_cache \<Rightarrow> ('k, 'v) old_cache" where
  "remove_expired env he fRemoveInternal c =
     (let c = entry_discard env he c
      in if fRemoveInternal then c\<lparr>oc_map := hm_remove_entry_internal he (oc_map c)\<rparr> else c)"

definition defer_flush :: "('k, 'v) old_cache \<Rightarrow> ('k, 'v) old_cache" where
  "defer_flush c = c\<lparr>oc_next_flush := max_time\<rparr>"

definition schedule_flush :: "int \<Rightarrow> ('k, 'v) old_cache \<Rightarrow> ('k, 'v) old_cache" where
  "schedule_flush now c =
     c\<lparr>oc_next_flush := (if oc_flush_delay c = 0 then max_time else now + oc_flush_delay c)\<rparr>"

definition oc_evict_expired :: "('k, 'v) oc_env \<Rightarrow> int \<Rightarrow> ('k, 'v) old_cache \<Rightarrow> ('k, 'v) old_cache" where
  "oc_evict_expired env now c =
     (let c = defer_flush c
      in schedule_flush now
           (fold (\<lambda>he c. if is_expired now (he_value he) then remove_expired env he True c else c)
              (hm_to_array (oc_map c)) c))"

definition check_flush :: "('k, 'v) oc_env \<Rightarrow> int \<Rightarrow> ('k, 'v) old_cache \<Rightarrow> ('k, 'v) old_cache" where
  "check_flush env now c = (if oc_next_flush c < now then oc_evict_expired env now c else c)"

definition oc_get_entry_internal ::
  "('k, 'v) oc_env \<Rightarrow> int \<Rightarrow> 'k \<Rightarrow> ('k, 'v) old_cache \<Rightarrow> ('k, 'v cache_entry) hash_entry option \<times> ('k, 'v) old_cache" where
  "oc_get_entry_internal env now k c =
     (case hm_get_entry_internal (oc_table env) k (oc_map c) of
        None \<Rightarrow> (None, c)
      | Some he \<Rightarrow> if is_expired now (he_value he) then (None, remove_expired env he True c) else (Some he, c))"

text \<open>Eviction on demand, of one key and of several.\<close>

definition oc_evict :: "('k, 'v) oc_env \<Rightarrow> int \<Rightarrow> 'k \<Rightarrow> ('k, 'v) old_cache \<Rightarrow> ('k, 'v) old_cache" where
  "oc_evict env now k c =
     (case oc_get_entry_internal env now k c of
        (None, c) \<Rightarrow> c
      | (Some he, c) \<Rightarrow> remove_expired env he True c)"

definition oc_evict_all :: "('k, 'v) oc_env \<Rightarrow> int \<Rightarrow> 'k list \<Rightarrow> ('k, 'v) old_cache \<Rightarrow> ('k, 'v) old_cache" where
  "oc_evict_all env now ks c = fold (oc_evict env now) ks c"

section \<open>Priorities\<close>

definition get_priority ::
  "('k, 'v) oc_env \<Rightarrow> int \<Rightarrow> ('k, 'v) old_cache \<Rightarrow> 'v cache_entry \<Rightarrow> 'v cache_entry option \<Rightarrow> int" where
  "get_priority env now c e nxt =
     (let dtTouch = ce_last_use e; cUses = ce_uses e; cAvg = oc_avg_touch c; cAdj = 2 * cUses - cAvg;
          lru = (if oc_last_prune c < dtTouch
                 then 1 + index_of_msb (oc_recentness env (now - dtTouch) (now - oc_last_prune c)) else 0);
          lfu = (if 0 < cUses
                 then 1 + (if cAvg < cUses then 1 else 0)
                   + (if 0 < cAdj then 1 + min 4 (index_of_msb (oc_frequency env cAdj cAvg)) else 0)
                 else 0);
          lru = (case nxt of None \<Rightarrow> lru | Some d \<Rightarrow> if ce_last_use d < dtTouch then lru + 1 else lru);
          lfu = (case nxt of None \<Rightarrow> lfu | Some d \<Rightarrow> if ce_uses d < cUses then lfu + 1 else lfu)
      in max 0 (10 - lru - lfu))"

section \<open>Pruning\<close>

text \<open>
  The entries with the next one of their chain, as an iteration finds them that removes no
  entry it has not come to.  Expired entries are passed over; a prune has evicted them just
  before.
\<close>

definition live_walk ::
  "int \<Rightarrow> ('k, 'v) old_cache \<Rightarrow> (('k, 'v cache_entry) hash_entry \<times> 'v cache_entry option) list" where
  "live_walk now c =
     map (\<lambda>(he, nxt). (he, map_option he_value nxt)) (filter (\<lambda>(he, _). \<not> is_expired now (he_value he)) (hm_walk (oc_map c)))"

text \<open>The units of the entries of each priority, and the priority at which they exceed the low mark.\<close>

definition priority_units ::
  "(('k, 'v cache_entry) hash_entry \<times> 'v cache_entry option \<Rightarrow> int) \<Rightarrow>
    (('k, 'v cache_entry) hash_entry \<times> 'v cache_entry option) list \<Rightarrow> 32 word list" where
  "priority_units prio ws =
     fold (\<lambda>w us. let p = nat (max 0 (min (prio w) 10)) in us[p := us ! p + ce_units (he_value (fst w))]) ws (replicate 11 0)"

fun cut_off :: "32 word \<Rightarrow> 32 word list \<Rightarrow> int \<Rightarrow> 32 word \<Rightarrow> int \<times> 32 word" where
  "cut_off cMin [] p cTotal = (p, cTotal)"
| "cut_off cMin (u # us) p cTotal =
     (let cTotal = cTotal + u in if cMin < cTotal then (p, cTotal) else cut_off cMin us (p + 1) cTotal)"

text \<open>
  The entries to discard: those of a higher number than the cut-off, and of the entries at the
  cut-off as many as it takes.
\<close>

fun hybrid_discards ::
  "(('k, 'v cache_entry) hash_entry \<times> 'v cache_entry option \<Rightarrow> int) \<Rightarrow> 32 word \<Rightarrow> int \<Rightarrow>
    (('k, 'v cache_entry) hash_entry \<times> 'v cache_entry option) list \<Rightarrow> 32 word \<Rightarrow> 32 word \<Rightarrow>
    ('k, 'v cache_entry) hash_entry list" where
  "hybrid_discards prio cMin nPrune [] cAdditional cCur = []"
| "hybrid_discards prio cMin nPrune (w # ws) cAdditional cCur =
     (if \<not> cMin < cCur then []
      else
        let p = prio w; cUnits = ce_units (he_value (fst w)) in
        if nPrune \<le> p then
          if p = nPrune \<and> cAdditional = 0 then hybrid_discards prio cMin nPrune ws cAdditional cCur
          else fst w # hybrid_discards prio cMin nPrune ws (if p = nPrune then cAdditional - cUnits else cAdditional) (cCur - cUnits)
        else hybrid_discards prio cMin nPrune ws cAdditional cCur)"

definition prune_hybrid :: "('k, 'v) oc_env \<Rightarrow> int \<Rightarrow> ('k, 'v) old_cache \<Rightarrow> ('k, 'v) old_cache" where
  "prune_hybrid env now c =
     (let cMin = oc_prune_units c;
          c = c\<lparr>oc_avg_touch := (oc_puts c + (oc_hits c + oc_misses c)) div ((int (hm_size (oc_map c)) + 1) * (oc_prunes c + 1))\<rparr>;
          ws = live_walk now c;
          prio = (\<lambda>(he, nxt). get_priority env now c (he_value he) nxt);
          (nPrune, cTotal) = cut_off cMin (priority_units prio ws) 0 0;
          ds = hybrid_discards prio cMin nPrune ws (cTotal - cMin) (oc_cur_units c);
          c = c\<lparr>oc_map := fold hm_remove_entry_internal ds (oc_map c)\<rparr>
      in fold (\<lambda>he. remove_expired env he False) ds c)"

text \<open>
  The least recently or the least frequently used entries: a sparse array of the entries by
  their time or their count, with a list where several have the same one.
\<close>

datatype ('k, 'v) slot =
    OneEntry "('k, 'v cache_entry) hash_entry"
  | EntryList "('k, 'v cache_entry) hash_entry list"

definition array_entry ::
  "int \<Rightarrow> ('k, 'v cache_entry) hash_entry \<Rightarrow> (('k, 'v) slot sparse_array, unit) comp" where
  "array_entry lOrder he =
     bindc (sa_set lOrder (Some (OneEntry he))) (\<lambda>ohPrev.
       case ohPrev of
         None \<Rightarrow> ret ()
       | Some (OneEntry d) \<Rightarrow> mapc (\<lambda>_. ()) (sa_set lOrder (Some (EntryList [d, he])))
       | Some (EntryList ds) \<Rightarrow> mapc (\<lambda>_. ()) (sa_set lOrder (Some (EntryList (ds @ [he])))))"

definition entry_order :: "bool \<Rightarrow> ('k, 'v cache_entry) hash_entry \<Rightarrow> int" where
  "entry_order fLRU he = (if fLRU then ce_last_use (he_value he) else ce_uses (he_value he))"

definition order_array ::
  "bool \<Rightarrow> ('k, 'v cache_entry) hash_entry list \<Rightarrow> ('k, 'v) slot sparse_array" where
  "order_array fLRU hes = snd (for_each (\<lambda>he. array_entry (entry_order fLRU he) he) hes sa_empty)"

fun prune_list ::
  "('k, 'v) oc_env \<Rightarrow> 32 word \<Rightarrow> ('k, 'v cache_entry) hash_entry list \<Rightarrow> ('k, 'v) old_cache \<Rightarrow> ('k, 'v) old_cache" where
  "prune_list env cMin [] c = c"
| "prune_list env cMin (he # hes) c =
     (if cMin < oc_cur_units c then prune_list env cMin hes (remove_expired env he True c) else c)"

text \<open>The values of the array in the order of its iterator, which is that of the indexes.\<close>

fun prune_slots ::
  "('k, 'v) oc_env \<Rightarrow> 32 word \<Rightarrow> ('k, 'v) slot holder list \<Rightarrow> ('k, 'v) old_cache \<Rightarrow> ('k, 'v) old_cache" where
  "prune_slots env cMin [] c = c"
| "prune_slots env cMin (s # ss) c =
     (if cMin < oc_cur_units c
      then prune_slots env cMin ss
             (case s of
                None \<Rightarrow> c
              | Some (OneEntry he) \<Rightarrow> remove_expired env he True c
              | Some (EntryList hes) \<Rightarrow> prune_list env cMin hes c)
      else c)"

definition prune_ordered :: "('k, 'v) oc_env \<Rightarrow> int \<Rightarrow> bool \<Rightarrow> ('k, 'v) old_cache \<Rightarrow> ('k, 'v) old_cache" where
  "prune_ordered env now fLRU c =
     prune_slots env (oc_prune_units c)
       (map snd (sa_abs (order_array fLRU (filter (\<lambda>he. \<not> is_expired now (he_value he)) (hm_to_array (oc_map c)))))) c"

definition oc_prune :: "('k, 'v) oc_env \<Rightarrow> int \<Rightarrow> ('k, 'v) old_cache \<Rightarrow> ('k, 'v) old_cache" where
  "oc_prune env now c =
     (if oc_cur_units c < oc_max_units c then c
      else
        let c = oc_evict_expired env now c in
        if oc_cur_units c < oc_max_units c then c
        else
          let d = (case oc_eviction c of
                     HybridPolicy \<Rightarrow> prune_hybrid env now c
                   | LruPolicy \<Rightarrow> prune_ordered env now True c
                   | LfuPolicy \<Rightarrow> prune_ordered env now False c
                   | ExternalPolicy \<Rightarrow> oc_evict_all env now (oc_request_eviction env (oc_prune_units c) c) c);
              d = (if oc_eviction c = HybridPolicy \<or> oc_eviction c = LfuPolicy
                   then d\<lparr>oc_map := hm_change_all reset_touch_count (oc_map d)\<rparr> else d)
          in d\<lparr>oc_prunes := oc_prunes d + 1, oc_last_prune := now\<rparr>)"

definition check_size :: "('k, 'v) oc_env \<Rightarrow> int \<Rightarrow> ('k, 'v) old_cache \<Rightarrow> ('k, 'v) old_cache" where
  "check_size env now c = (if oc_max_units c < oc_cur_units c then oc_prune env now c else c)"

section \<open>The operations of the map\<close>

definition oc_size :: "('k, 'v) oc_env \<Rightarrow> int \<Rightarrow> ('k, 'v) old_cache \<Rightarrow> nat \<times> ('k, 'v) old_cache" where
  "oc_size env now c = (let c = check_flush env now c in (hm_size (oc_map c), c))"

definition oc_contains_key :: "('k, 'v) oc_env \<Rightarrow> int \<Rightarrow> 'k \<Rightarrow> ('k, 'v) old_cache \<Rightarrow> bool \<times> ('k, 'v) old_cache" where
  "oc_contains_key env now k c =
     (case oc_get_entry_internal env now k (check_flush env now c) of (found, c) \<Rightarrow> (found \<noteq> None, c))"

definition oc_get_entry ::
  "('k, 'v) oc_env \<Rightarrow> int \<Rightarrow> 'k \<Rightarrow> ('k, 'v) old_cache \<Rightarrow> ('k, 'v cache_entry) hash_entry option \<times> ('k, 'v) old_cache" where
  "oc_get_entry env now k c =
     (case oc_get_entry_internal env now k (check_flush env now c) of
        (None, c) \<Rightarrow> (None, c\<lparr>oc_misses := oc_misses c + 1\<rparr>)
      | (Some he, c) \<Rightarrow> (Some he, change_entry env k (entry_touch now) (c\<lparr>oc_hits := oc_hits c + 1\<rparr>)))"

definition oc_get :: "('k, 'v) oc_env \<Rightarrow> int \<Rightarrow> 'k \<Rightarrow> ('k, 'v) old_cache \<Rightarrow> 'v option \<times> ('k, 'v) old_cache" where
  "oc_get env now k c =
     (case oc_get_entry env now k c of (found, c) \<Rightarrow> (map_option (\<lambda>he. ce_value (he_value he)) found, c))"

text \<open>
  The end of \<^verbatim>\<open>put\<close>: the expiry of the call, the size, the statistics.  An entry that is
  new or updated has not expired.
\<close>

definition oc_put_expiry ::
  "('k, 'v) oc_env \<Rightarrow> int \<Rightarrow> 'k \<Rightarrow> int \<Rightarrow> ('k, 'v) old_cache \<Rightarrow> ('k, 'v) old_cache" where
  "oc_put_expiry env now k cMillis c =
     (if cMillis = 0 then c
      else
        case hm_get_entry_internal (oc_table env) k (oc_map c) of
          None \<Rightarrow> c
        | Some he \<Rightarrow>
            let c = change_entry env k (\<lambda>e. e\<lparr>ce_expiry := (if 0 < cMillis then now + cMillis else 0)\<rparr>) c
            in if 0 < cMillis \<and> oc_flush_delay c = 0
               then schedule_flush now (c\<lparr>oc_flush_delay := default_flush\<rparr>) else c)"

definition oc_put_size ::
  "('k, 'v) oc_env \<Rightarrow> int \<Rightarrow> 'k \<Rightarrow> 'v option \<Rightarrow> ('k, 'v) old_cache \<Rightarrow> 'v option \<times> ('k, 'v) old_cache" where
  "oc_put_size env now k ohOrig c =
     (if oc_max_units c < oc_cur_units c then
        case oc_get_entry_internal env now k (oc_prune env now c) of
          (None, c) \<Rightarrow> (None, c)
        | (Some _, c) \<Rightarrow> (ohOrig, c)
      else (ohOrig, c))"

definition oc_put_finish ::
  "('k, 'v) oc_env \<Rightarrow> int \<Rightarrow> 'k \<Rightarrow> int \<Rightarrow> 'v option \<Rightarrow> ('k, 'v) old_cache \<Rightarrow> 'v option \<times> ('k, 'v) old_cache" where
  "oc_put_finish env now k cMillis ohOrig c =
     (case oc_put_size env now k ohOrig (oc_put_expiry env now k cMillis c) of
        (ohOrig, c) \<Rightarrow> (ohOrig, c\<lparr>oc_puts := oc_puts c + 1\<rparr>))"

definition oc_put ::
  "('k, 'v) oc_env \<Rightarrow> int \<Rightarrow> 'k \<Rightarrow> 'v \<Rightarrow> int \<Rightarrow> (('k, 'v) old_cache, 'v option) comp" where
  "oc_put env now k v cMillis c =
     (case oc_get_entry_internal env now k (check_flush env now c) of
        (None, c) \<Rightarrow>
          let he = \<lparr>he_key = k, he_hash = hm_hash (oc_table env) k, he_value = entry_create now v\<rparr> in
          (case hm_add_entry (oc_table env) he (oc_map c) of
             (Inl e, m) \<Rightarrow> (Inl e, c\<lparr>oc_map := m\<rparr>)
           | (Inr _, m) \<Rightarrow> map_prod Inr id (oc_put_finish env now k cMillis None (oc_on_add env now he (c\<lparr>oc_map := m\<rparr>))))
      | (Some he, c) \<Rightarrow>
          (case entry_set_value env now he v (change_entry env k (entry_touch now) c) of
             (ohOrig, c) \<Rightarrow> map_prod Inr id (oc_put_finish env now k cMillis ohOrig c)))"

definition oc_remove :: "('k, 'v) oc_env \<Rightarrow> int \<Rightarrow> 'k \<Rightarrow> ('k, 'v) old_cache \<Rightarrow> 'v option \<times> ('k, 'v) old_cache" where
  "oc_remove env now k c =
     (case oc_get_entry_internal env now k (check_flush env now c) of
        (None, c) \<Rightarrow> (None, c)
      | (Some he, c) \<Rightarrow>
          let c = entry_discard env he c
          in (Some (ce_value (he_value he)), c\<lparr>oc_map := hm_remove_entry_internal he (oc_map c)\<rparr>))"

definition oc_reset_hit_statistics :: "('k, 'v) old_cache \<Rightarrow> ('k, 'v) old_cache" where
  "oc_reset_hit_statistics c = c\<lparr>oc_hits := 0, oc_misses := 0, oc_puts := 0, oc_prunes := 0\<rparr>"

definition oc_clear :: "('k, 'v) oc_env \<Rightarrow> int \<Rightarrow> ('k, 'v) old_cache \<Rightarrow> ('k, 'v) old_cache" where
  "oc_clear env now c =
     (let c = defer_flush c;
          c = fold (\<lambda>he c. if is_expired now (he_value he) then remove_expired env he True c else entry_discard env he c)
                (hm_to_array (oc_map c)) c;
          c = c\<lparr>oc_cur_units := 0\<rparr>;
          c = c\<lparr>oc_map := hm_clear (oc_table env) (oc_map c)\<rparr>
      in schedule_flush now (oc_reset_hit_statistics c))"

text \<open>Releasing the cache clears the map only.\<close>

definition oc_release :: "('k, 'v) oc_env \<Rightarrow> ('k, 'v) old_cache \<Rightarrow> ('k, 'v) old_cache" where
  "oc_release env c = c\<lparr>oc_map := hm_clear (oc_table env) (oc_map c)\<rparr>"

section \<open>Configuration\<close>

definition oc_set_low_units :: "('k, 'v) oc_env \<Rightarrow> 32 word \<Rightarrow> (('k, 'v) old_cache, unit) comp" where
  "oc_set_low_units env cUnits c =
     (if cUnits = units_npos then (Inl IllegalArgumentException, c)
      else (Inr (), c\<lparr>oc_prune_units := (if oc_max_units c \<le> cUnits then oc_prune_part env (oc_max_units c) else cUnits)\<rparr>))"

definition oc_set_high_units :: "('k, 'v) oc_env \<Rightarrow> int \<Rightarrow> 32 word \<Rightarrow> (('k, 'v) old_cache, unit) comp" where
  "oc_set_high_units env now cMax c =
     (let fShrink = cMax < oc_max_units c in
      case oc_set_low_units env (oc_prune_part env cMax) (c\<lparr>oc_max_units := cMax\<rparr>) of
        (Inl e, c) \<Rightarrow> (Inl e, c)
      | (Inr _, c) \<Rightarrow> (Inr (), if fShrink then check_size env now c else c))"

definition oc_set_flush_delay :: "int \<Rightarrow> int \<Rightarrow> ('k, 'v) old_cache \<Rightarrow> ('k, 'v) old_cache" where
  "oc_set_flush_delay now cMillis c = schedule_flush now (c\<lparr>oc_flush_delay := max cMillis 0\<rparr>)"

definition oc_set_flush_time :: "('k, 'v) oc_env \<Rightarrow> int \<Rightarrow> int \<Rightarrow> ('k, 'v) old_cache \<Rightarrow> ('k, 'v) old_cache" where
  "oc_set_flush_time env now lMillis c = check_flush env now (c\<lparr>oc_next_flush := lMillis\<rparr>)"

text \<open>Without a policy at hand, the external type is refused.\<close>

definition oc_set_eviction_type :: "eviction_type \<Rightarrow> (('k, 'v) old_cache, unit) comp" where
  "oc_set_eviction_type nType c =
     (if nType = ExternalPolicy then (Inl IllegalStateException, c) else (Inr (), c\<lparr>oc_eviction := nType\<rparr>))"

definition oc_set_expiry_delay :: "int \<Rightarrow> ('k, 'v) old_cache \<Rightarrow> ('k, 'v) old_cache" where
  "oc_set_expiry_delay cMillis c = c\<lparr>oc_expiry_delay := max cMillis 0\<rparr>"

text \<open>
  A change of the calculator, which is external or fixed: the iterator removes the entries that
  have expired, and setting the units of an entry leaves the total as it is.
\<close>

definition recalculate_units :: "('k, 'v) oc_env \<Rightarrow> int \<Rightarrow> ('k, 'v) old_cache \<Rightarrow> ('k, 'v) old_cache" where
  "recalculate_units env now c =
     fold (\<lambda>he c. if is_expired now (he_value he) then remove_expired env he True c
                   else change_entry env (he_key he)
                          (\<lambda>e. e\<lparr>ce_units := calculate_units env c (he_key he) (ce_value (he_value he))\<rparr>) c)
       (hm_to_array (oc_map c)) c"

definition oc_configure_unit_calculator ::
  "('k, 'v) oc_env \<Rightarrow> int \<Rightarrow> bool \<Rightarrow> nat option \<Rightarrow> (('k, 'v) old_cache, unit) comp" where
  "oc_configure_unit_calculator env now fExternal hCalculator c =
     (if fExternal then
        (case hCalculator of
           None \<Rightarrow> (Inl IllegalStateException, c)
         | Some u \<Rightarrow>
             if oc_calculator c = Some u then (Inr (), c)
             else (Inr (), recalculate_units env now (c\<lparr>oc_calculator := Some u\<rparr>)))
      else if oc_calculator c = None then (Inr (), c)
      else (Inr (), recalculate_units env now (c\<lparr>oc_calculator := None\<rparr>)))"

definition oc_set_unit_calculator_type :: "('k, 'v) oc_env \<Rightarrow> int \<Rightarrow> bool \<Rightarrow> (('k, 'v) old_cache, unit) comp" where
  "oc_set_unit_calculator_type env now fExternal = oc_configure_unit_calculator env now fExternal None"

definition oc_set_unit_calculator :: "('k, 'v) oc_env \<Rightarrow> int \<Rightarrow> nat option \<Rightarrow> (('k, 'v) old_cache, unit) comp" where
  "oc_set_unit_calculator env now hCalculator =
     oc_configure_unit_calculator env now (hCalculator \<noteq> None) hCalculator"

section \<open>The arrays of the sets\<close>

text \<open>
  \<^verbatim>\<open>toArray\<close> of the key set without an array to fill: expired entries are removed on the
  way, and the places they would have taken stay \<^verbatim>\<open>NULL\<close>.  That of the values does the same,
  with the keys.
\<close>

datatype ('k, 'v) map_object = KeyObject 'k | ValueObject 'v

definition oc_sweep ::
  "('k, 'v) oc_env \<Rightarrow> int \<Rightarrow> ('k, 'v) old_cache \<Rightarrow> ('k, 'v cache_entry) hash_entry list \<times> ('k, 'v) old_cache" where
  "oc_sweep env now c =
     (let hes = hm_to_array (oc_map c)
      in (filter (\<lambda>he. \<not> is_expired now (he_value he)) hes,
          fold (\<lambda>he c. if is_expired now (he_value he) then remove_expired env he True c else c) hes c))"

definition oc_key_array ::
  "('k, 'v) oc_env \<Rightarrow> int \<Rightarrow> ('k, 'v) old_cache \<Rightarrow> ('k, 'v) map_object option list \<times> ('k, 'v) old_cache" where
  "oc_key_array env now c =
     (case oc_size env now c of
        (n, c) \<Rightarrow>
          (case oc_sweep env now c of
             (hes, c) \<Rightarrow> (map (\<lambda>he. Some (KeyObject (he_key he))) hes @ replicate (n - length hes) None, c)))"

definition oc_values_array ::
  "('k, 'v) oc_env \<Rightarrow> int \<Rightarrow> ('k, 'v) old_cache \<Rightarrow> ('k, 'v) map_object option list \<times> ('k, 'v) old_cache" where
  "oc_values_array env now c =
     (case oc_size env now c of
        (n, c) \<Rightarrow>
          (case oc_sweep env now c of
             (hes, c) \<Rightarrow> (map (\<lambda>he. Some (KeyObject (he_key he))) hes @ replicate (n - length hes) None, c)))"

definition oc_entry_array ::
  "('k, 'v) oc_env \<Rightarrow> int \<Rightarrow> ('k, 'v) old_cache \<Rightarrow> ('k, 'v cache_entry) hash_entry list \<times> ('k, 'v) old_cache" where
  "oc_entry_array env now c = oc_sweep env now (snd (oc_size env now c))"

end
