(* ===== verification/Cache_Effects.thy ===== *)
theory Cache_Effects
  imports Old_Cache
begin

text \<open>
  Every operation of the cache is a sequence of a few effects, each of which keeps what the
  cache promises: its events tell its contents, and its units are those of its entries.
\<close>

section \<open>What the cache promises\<close>

abbreviation oc_look :: "('k, 'v) oc_env \<Rightarrow> 'k \<Rightarrow> ('k, 'v) old_cache \<Rightarrow> 'v cache_entry option" where
  "oc_look env k c \<equiv> hm_get (oc_table env) k (oc_map c)"

definition oc_contents :: "('k, 'v) oc_env \<Rightarrow> ('k, 'v) old_cache \<Rightarrow> 'k \<Rightarrow> 'v option" where
  "oc_contents env c k = map_option ce_value (oc_look env k c)"

text \<open>A replica that a listener keeps: an event that does not fit its contents is an error.\<close>

fun replay_event :: "('k, 'v) map_event \<Rightarrow> ('k \<Rightarrow> 'v option) \<Rightarrow> ('k \<Rightarrow> 'v option) option" where
  "replay_event (EntryInserted k v) m = (if m k = None then Some (m(k \<mapsto> v)) else None)"
| "replay_event (EntryUpdated k old v) m = (if m k = Some old then Some (m(k \<mapsto> v)) else None)"
| "replay_event (EntryDeleted k old) m = (if m k = Some old then Some (m(k := None)) else None)"

fun replay :: "('k, 'v) map_event list \<Rightarrow> ('k \<Rightarrow> 'v option) \<Rightarrow> ('k \<Rightarrow> 'v option) option" where
  "replay [] m = Some m"
| "replay (evt # evts) m = (case replay_event evt m of None \<Rightarrow> None | Some m \<Rightarrow> replay evts m)"

lemma replay_append: "replay (evts @ evts') m = (case replay evts m of None \<Rightarrow> None | Some m \<Rightarrow> replay evts' m)"
  by (induction evts arbitrary: m) (auto split: option.split)

definition cache_ok :: "('k, 'v) oc_env \<Rightarrow> ('k, 'v) old_cache \<Rightarrow> bool" where
  "cache_ok env c \<longleftrightarrow>
     hm_ok (oc_table env) (oc_map c) \<and>
     (\<forall>k e. oc_look env k c = Some e \<longrightarrow> ce_units e \<noteq> units_npos) \<and>
     (oc_listening c \<longrightarrow> replay (oc_events c) Map.empty = Some (oc_contents env c))"

text \<open>
  A calculator is steady when it looks at the key only; the fixed one is.  Then the total is
  the sum of the units of the entries.
\<close>

definition steady :: "('k, 'v) oc_env \<Rightarrow> ('k, 'v) old_cache \<Rightarrow> bool" where
  "steady env c \<longleftrightarrow> (\<forall>k v w. calculate_units env c k v = calculate_units env c k w)"

definition total_units :: "('k, 'v) oc_env \<Rightarrow> ('k, 'v) old_cache \<Rightarrow> nat" where
  "total_units env c = table.weight (\<lambda>e. unat (ce_units e)) (oc_map c)"

definition units_ok :: "('k, 'v) oc_env \<Rightarrow> ('k, 'v) old_cache \<Rightarrow> bool" where
  "units_ok env c \<longleftrightarrow>
     hm_ok (oc_table env) (oc_map c) \<and>
     (\<forall>k e. oc_look env k c = Some e \<longrightarrow> ce_units e = calculate_units env c k (ce_value e)) \<and>
     unat (oc_cur_units c) = total_units env c"

section \<open>Effects\<close>

definition log_event :: "('k, 'v) map_event \<Rightarrow> ('k, 'v) old_cache \<Rightarrow> ('k, 'v) map_event list" where
  "log_event evt c = (if oc_listening c then oc_events c @ [evt] else oc_events c)"

text \<open>The parts that matter, with the rest as it may be.\<close>

definition same_core :: "('k, 'v) old_cache \<Rightarrow> ('k, 'v) old_cache \<Rightarrow> bool" where
  "same_core c d \<longleftrightarrow>
     oc_map d = oc_map c \<and> oc_cur_units d = oc_cur_units c \<and> oc_calculator d = oc_calculator c \<and>
     oc_listening d = oc_listening c \<and> oc_events d = oc_events c"

text \<open>
  The predicate says what may be added: anything, what the total has room for, or nothing.
\<close>

definition units_room :: "('k, 'v) oc_env \<Rightarrow> 'k \<Rightarrow> 'v \<Rightarrow> ('k, 'v) old_cache \<Rightarrow> bool" where
  "units_room env k v c \<longleftrightarrow> unat (oc_cur_units c) + unat (calculate_units env c k v) < 2 ^ 32"

type_synonym ('k, 'v) room = "'k \<Rightarrow> 'v \<Rightarrow> ('k, 'v) old_cache \<Rightarrow> bool"

definition no_room :: "('k, 'v) room" where
  "no_room k v c \<longleftrightarrow> False"

inductive effect :: "('k, 'v) oc_env \<Rightarrow> ('k, 'v) room \<Rightarrow> ('k, 'v) old_cache \<Rightarrow> ('k, 'v) old_cache \<Rightarrow> bool" for env room where
  core: "same_core c d \<Longrightarrow> effect env room c d"
| drop: "oc_look env k c = Some e \<Longrightarrow>
    effect env room c (c\<lparr>oc_map := hm_delete (oc_table env) k (oc_map c), oc_cur_units := oc_cur_units c - ce_units e,
      oc_events := log_event (EntryDeleted k (ce_value e)) c\<rparr>)"
| change: "(\<And>e. ce_value (f e) = ce_value e \<and> ce_units (f e) = ce_units e) \<Longrightarrow> effect env room c (change_entry env k f c)"
| change_all: "(\<And>e. ce_value (f e) = ce_value e \<and> ce_units (f e) = ce_units e) \<Longrightarrow>
    effect env room c (c\<lparr>oc_map := hm_change_all f (oc_map c)\<rparr>)"
| rebuild: "hm_ok (oc_table env) m \<Longrightarrow> (\<And>k. hm_get (oc_table env) k m = oc_look env k c) \<Longrightarrow>
    effect env room c (c\<lparr>oc_map := m\<rparr>)"
| empty: "(\<And>k. oc_look env k c = None) \<Longrightarrow> effect env room c (c\<lparr>oc_cur_units := 0\<rparr>)"
| add: "oc_look env k c = None \<Longrightarrow> he_key he = k \<Longrightarrow> he_hash he = hm_hash (oc_table env) k \<Longrightarrow>
    he_value he = entry_create now v \<Longrightarrow>
    fst (hm_add_entry (oc_table env) he (oc_map c)) = Inr () \<Longrightarrow> room k v c \<Longrightarrow>
    effect env room c (oc_on_add env now he (c\<lparr>oc_map := snd (hm_add_entry (oc_table env) he (oc_map c))\<rparr>))"
| set: "oc_look env k c = Some e \<Longrightarrow> he_key he = k \<Longrightarrow> ce_value (he_value he) = ce_value e \<Longrightarrow>
    ce_units (he_value he) = ce_units e \<Longrightarrow> effect env room c (snd (entry_set_value env now he v c))"

abbreviation effects :: "('k, 'v) oc_env \<Rightarrow> ('k, 'v) room \<Rightarrow> ('k, 'v) old_cache \<Rightarrow> ('k, 'v) old_cache \<Rightarrow> bool" where
  "effects env room \<equiv> (effect env room)\<^sup>*\<^sup>*"

text \<open>What adding and updating an entry come to.\<close>

lemma change_entry_fields [simp]:
  "oc_cur_units (change_entry env k f c) = oc_cur_units c" "oc_events (change_entry env k f c) = oc_events c"
  "oc_listening (change_entry env k f c) = oc_listening c" "oc_calculator (change_entry env k f c) = oc_calculator c"
  "oc_map (change_entry env k f c) = hm_update (oc_table env) k f (oc_map c)"
  "oc_max_units (change_entry env k f c) = oc_max_units c" "oc_prune_units (change_entry env k f c) = oc_prune_units c"
  "oc_eviction (change_entry env k f c) = oc_eviction c" "oc_expiry_delay (change_entry env k f c) = oc_expiry_delay c"
  "oc_flush_delay (change_entry env k f c) = oc_flush_delay c" "oc_next_flush (change_entry env k f c) = oc_next_flush c"
  by (simp_all add: change_entry_def)

lemma dispatch_event_fields [simp]:
  "oc_cur_units (dispatch_event evt c) = oc_cur_units c" "oc_map (dispatch_event evt c) = oc_map c"
  "oc_listening (dispatch_event evt c) = oc_listening c" "oc_calculator (dispatch_event evt c) = oc_calculator c"
  "oc_events (dispatch_event evt c) = log_event evt c"
  "oc_max_units (dispatch_event evt c) = oc_max_units c" "oc_prune_units (dispatch_event evt c) = oc_prune_units c"
  "oc_eviction (dispatch_event evt c) = oc_eviction c" "oc_expiry_delay (dispatch_event evt c) = oc_expiry_delay c"
  "oc_flush_delay (dispatch_event evt c) = oc_flush_delay c" "oc_next_flush (dispatch_event evt c) = oc_next_flush c"
  by (simp_all add: dispatch_event_def log_event_def)

lemma calculate_units_cong: "oc_calculator d = oc_calculator c \<Longrightarrow> calculate_units env d = calculate_units env c"
  by (simp add: fun_eq_iff calculate_units_def)

lemma log_event_cong: "oc_listening d = oc_listening c \<Longrightarrow> oc_events d = oc_events c \<Longrightarrow> log_event evt d = log_event evt c"
  by (simp add: log_event_def)

lemma schedule_expiry_keeps [simp]:
  "ce_value (schedule_expiry now c e) = ce_value e" "ce_units (schedule_expiry now c e) = ce_units e"
  by (simp_all add: schedule_expiry_def)

lemma entry_touch_keeps [simp]: "ce_value (entry_touch now e) = ce_value e" "ce_units (entry_touch now e) = ce_units e"
  "ce_expiry (entry_touch now e) = ce_expiry e"
  by (simp_all add: entry_touch_def)

lemma reset_touch_count_keeps [simp]:
  "ce_value (reset_touch_count e) = ce_value e" "ce_units (reset_touch_count e) = ce_units e"
  "ce_expiry (reset_touch_count e) = ce_expiry e" "ce_last_use (reset_touch_count e) = ce_last_use e"
  by (simp_all add: reset_touch_count_def)

text \<open>The new entry has its units, its value and its expiry.\<close>

definition added_entry :: "('k, 'v) oc_env \<Rightarrow> int \<Rightarrow> ('k, 'v) old_cache \<Rightarrow> 'k \<Rightarrow> 'v \<Rightarrow> 'v cache_entry" where
  "added_entry env now c k v = (schedule_expiry now c (entry_create now v))\<lparr>ce_units := calculate_units env c k v\<rparr>"

lemma on_add_law:
  assumes m: "hm_ok (oc_table env) m" and k: "hm_get (oc_table env) k m = Some (entry_create now v)"
    and he: "he_key he = k" "he_value he = entry_create now v"
  shows "oc_look env j (oc_on_add env now he (c\<lparr>oc_map := m\<rparr>)) =
      (if j = k then Some (added_entry env now c k v) else hm_get (oc_table env) j m)"
    and "hm_ok (oc_table env) (oc_map (oc_on_add env now he (c\<lparr>oc_map := m\<rparr>)))"
    and "oc_cur_units (oc_on_add env now he (c\<lparr>oc_map := m\<rparr>)) = oc_cur_units c + calculate_units env c k v"
    and "oc_events (oc_on_add env now he (c\<lparr>oc_map := m\<rparr>)) = log_event (EntryInserted k v) c"
proof -
  have u: "calculate_units env (change_entry env k f (c\<lparr>oc_map := m\<rparr>)) = calculate_units env c" for f
    by (rule calculate_units_cong) simp
  have s: "schedule_expiry now (c\<lparr>oc_map := m\<rparr>) = schedule_expiry now c"
    by (simp add: fun_eq_iff schedule_expiry_def)
  have n: "(0 :: 32 word) \<noteq> units_npos" by (simp add: units_npos_def)
  have z: "\<not> 0 < calculate_units env c k v \<Longrightarrow> calculate_units env c k v = 0" by (simp add: word_gt_0)
  note law = hm_update_law [OF m] hm_update_law [OF hm_update_law(1) [OF m]]
  show "oc_look env j (oc_on_add env now he (c\<lparr>oc_map := m\<rparr>)) =
      (if j = k then Some (added_entry env now c k v) else hm_get (oc_table env) j m)"
    using k z by (simp add: oc_on_add_def Let_def he u s entry_create_def n law added_entry_def schedule_expiry_def)
  show "hm_ok (oc_table env) (oc_map (oc_on_add env now he (c\<lparr>oc_map := m\<rparr>)))"
    by (simp add: oc_on_add_def Let_def he u s entry_create_def n law m)
  show "oc_cur_units (oc_on_add env now he (c\<lparr>oc_map := m\<rparr>)) = oc_cur_units c + calculate_units env c k v"
    using z by (simp add: oc_on_add_def Let_def he u s entry_create_def n)
  show "oc_events (oc_on_add env now he (c\<lparr>oc_map := m\<rparr>)) = log_event (EntryInserted k v) c"
    by (simp add: oc_on_add_def Let_def he u s entry_create_def n log_event_def)
qed

definition updated_entry :: "('k, 'v) oc_env \<Rightarrow> int \<Rightarrow> ('k, 'v) old_cache \<Rightarrow> 'k \<Rightarrow> 'v \<Rightarrow> 'v cache_entry \<Rightarrow> 'v cache_entry" where
  "updated_entry env now c k v e = schedule_expiry now c (e\<lparr>ce_units := calculate_units env c k v, ce_value := v\<rparr>)"

lemma set_value_law:
  assumes m: "hm_ok (oc_table env) (oc_map c)" and k: "oc_look env k c = Some e"
    and he: "he_key he = k" "ce_value (he_value he) = ce_value e" "ce_units (he_value he) = ce_units e"
    and npos: "ce_units e \<noteq> units_npos"
  shows "oc_look env j (snd (entry_set_value env now he v c)) =
      (if j = k then Some (updated_entry env now c k v e) else oc_look env j c)"
    and "hm_ok (oc_table env) (oc_map (snd (entry_set_value env now he v c)))"
    and "oc_cur_units (snd (entry_set_value env now he v c)) = oc_cur_units c + ce_units e - calculate_units env c k v"
    and "oc_events (snd (entry_set_value env now he v c)) = log_event (EntryUpdated k (ce_value e) v) c"
    and "fst (entry_set_value env now he v c) = Some (ce_value e)"
proof -
  have u: "calculate_units env (change_entry env k f d) = calculate_units env d" for f d
    by (rule calculate_units_cong) simp
  have s: "schedule_expiry now (change_entry env k f d) = schedule_expiry now d"
    "schedule_expiry now (d\<lparr>oc_cur_units := n\<rparr>) = schedule_expiry now d" for f d n
    by (simp_all add: fun_eq_iff schedule_expiry_def)
  note law = hm_update_law [OF m] hm_update_law [OF hm_update_law(1) [OF m]]
    hm_update_law [OF hm_update_law(1) [OF hm_update_law(1) [OF m]]]
  have eq: "\<not> ce_units e < calculate_units env c k v \<Longrightarrow> \<not> calculate_units env c k v < ce_units e \<Longrightarrow>
      calculate_units env c k v = ce_units e" by simp
  show "oc_look env j (snd (entry_set_value env now he v c)) =
      (if j = k then Some (updated_entry env now c k v e) else oc_look env j c)"
    using k npos eq by (simp add: entry_set_value_def Let_def he u s law updated_entry_def schedule_expiry_def)
  show "hm_ok (oc_table env) (oc_map (snd (entry_set_value env now he v c)))"
    using npos by (simp add: entry_set_value_def Let_def he u s law m)
  show "oc_cur_units (snd (entry_set_value env now he v c)) = oc_cur_units c + ce_units e - calculate_units env c k v"
    using npos eq by (simp add: entry_set_value_def Let_def he u s)
  show "oc_events (snd (entry_set_value env now he v c)) = log_event (EntryUpdated k (ce_value e) v) c"
    using npos by (simp add: entry_set_value_def Let_def he u s log_event_def)
  show "fst (entry_set_value env now he v c) = Some (ce_value e)"
    using npos by (simp add: entry_set_value_def Let_def he)
qed

section \<open>Effects keep the promises\<close>

definition env_ok :: "('k, 'v) oc_env \<Rightarrow> bool" where
  "env_ok env \<longleftrightarrow> (\<forall>u k v. oc_calculate env u k v \<noteq> units_npos)"

lemma calculate_units_npos: "env_ok env \<Longrightarrow> calculate_units env c k v \<noteq> units_npos"
  by (simp add: env_ok_def calculate_units_def units_npos_def split: option.split)

lemma replay_log:
  assumes "cache_ok env c" and "replay_event evt (oc_contents env c) = Some m"
  shows "oc_listening c \<longrightarrow> replay (log_event evt c) Map.empty = Some m"
  using assms by (simp add: cache_ok_def log_event_def replay_append)

lemma cache_okI:
  assumes "hm_ok (oc_table env) (oc_map d)" and "\<And>k e. oc_look env k d = Some e \<Longrightarrow> ce_units e \<noteq> units_npos"
    and "oc_listening d = oc_listening c" and "oc_events d = log_event evt c" and "cache_ok env c"
    and "replay_event evt (oc_contents env c) = Some (oc_contents env d)"
  shows "cache_ok env d"
  using assms(1-4) replay_log [OF assms(5,6)] by (simp add: cache_ok_def)

lemma same_contents: "(\<And>k. oc_look env k d = map_option (g k) (oc_look env k c)) \<Longrightarrow>
    (\<And>k e. ce_value (g k e) = ce_value e) \<Longrightarrow> oc_contents env d = oc_contents env c"
  by (auto simp: fun_eq_iff oc_contents_def option.map_comp o_def)

lemma effect_listening: "effect env room c d \<Longrightarrow> oc_listening d = oc_listening c \<and> oc_calculator d = oc_calculator c"
  by (induction rule: effect.induct)
    (simp_all add: same_core_def oc_on_add_def entry_set_value_def Let_def)

lemma added_look:
  assumes "hm_ok (oc_table env) (oc_map c)" and "oc_look env k c = None" and "he_key he = k"
    and "he_hash he = hm_hash (oc_table env) k" and "he_value he = entry_create now v"
    and "fst (hm_add_entry (oc_table env) he (oc_map c)) = Inr ()"
  shows "hm_ok (oc_table env) (snd (hm_add_entry (oc_table env) he (oc_map c)))"
    and "hm_get (oc_table env) j (snd (hm_add_entry (oc_table env) he (oc_map c))) =
      (if j = k then Some (entry_create now v) else oc_look env j c)"
  using hm_add_law [OF assms(1), of he] assms by auto

lemma effect_cache_ok:
  assumes "effect env room c d" and "cache_ok env c" and env: "env_ok env"
  shows "cache_ok env d"
  using assms(1,2)
proof (induction rule: effect.induct)
  case (core c d)
  then show ?case by (simp add: cache_ok_def same_core_def oc_contents_def fun_eq_iff)
next
  case (drop k c e)
  then have ok: "hm_ok (oc_table env) (oc_map c)" by (simp add: cache_ok_def)
  note law = hm_remove_law(2,3) [OF ok]
  show ?case
    by (rule cache_okI [OF _ _ _ _ drop.prems, of _ "EntryDeleted k (ce_value e)"])
      (use drop law in \<open>auto simp: cache_ok_def oc_contents_def fun_eq_iff split: if_splits\<close>)
next
  case (change f c k)
  then have ok: "hm_ok (oc_table env) (oc_map c)" by (simp add: cache_ok_def)
  have look: "oc_look env j (change_entry env k f c) = map_option (if j = k then f else id) (oc_look env j c)" for j
    using hm_update_law(2) [OF ok, where f = f] by (simp add: option.map_id)
  have "oc_contents env (change_entry env k f c) = oc_contents env c"
    by (rule same_contents [where g = "\<lambda>j. if j = k then f else id"]) (use look change(1) in auto)
  then show ?case using change hm_update_law(1) [OF ok, where f = f] look by (auto simp: cache_ok_def split: if_splits)
next
  case (change_all f c)
  then have ok: "hm_ok (oc_table env) (oc_map c)" by (simp add: cache_ok_def)
  note law = hm_change_all_law [OF ok, where f = f]
  have "oc_contents env (c\<lparr>oc_map := hm_change_all f (oc_map c)\<rparr>) = oc_contents env c"
    by (rule same_contents [where g = "\<lambda>_. f"]) (use law(2) change_all(1) in auto)
  then show ?case using change_all law by (auto simp: cache_ok_def)
next
  case (rebuild m c)
  then show ?case by (simp add: cache_ok_def oc_contents_def [abs_def])
next
  case (empty c)
  then show ?case by (simp add: cache_ok_def oc_contents_def [abs_def])
next
  case (add k c he now v)
  then have ok: "hm_ok (oc_table env) (oc_map c)" by (simp add: cache_ok_def)
  note new = added_look [OF ok add(1,2,3,4,5)]
  have get: "hm_get (oc_table env) k (snd (hm_add_entry (oc_table env) he (oc_map c))) = Some (entry_create now v)"
    using new(2) by simp
  note law = on_add_law [OF new(1) get add(2,4), where c = c]
  let ?d = "oc_on_add env now he (c\<lparr>oc_map := snd (hm_add_entry (oc_table env) he (oc_map c))\<rparr>)"
  have look: "oc_look env j ?d = (if j = k then Some (added_entry env now c k v) else oc_look env j c)" for j
    using law(1) new(2) by simp
  have val: "ce_value (added_entry env now c k v) = v" "ce_units (added_entry env now c k v) = calculate_units env c k v"
    by (simp_all add: added_entry_def schedule_expiry_def entry_create_def)
  have "oc_contents env ?d = (oc_contents env c)(k \<mapsto> v)"
    using look val by (simp add: fun_eq_iff oc_contents_def)
  moreover have "oc_contents env c k = None" using add(1) by (simp add: oc_contents_def)
  ultimately have replay: "replay_event (EntryInserted k v) (oc_contents env c) = Some (oc_contents env ?d)" by simp
  have listen: "oc_listening ?d = oc_listening c" using effect_listening [OF effect.add [where room = "\<lambda>_ _ _. True", OF add(1,2,3,4,5) TrueI]] by simp
  show ?case
    by (rule cache_okI [OF law(2) _ listen law(4) add.prems replay])
      (use look val calculate_units_npos [OF env] add.prems in \<open>auto simp: cache_ok_def split: if_splits\<close>)
next
  case (set k c e he now v)
  then have ok: "hm_ok (oc_table env) (oc_map c)" and npos: "ce_units e \<noteq> units_npos" by (auto simp: cache_ok_def)
  note law = set_value_law [OF ok set(1,2,3,4) npos, where now = now and v = v]
  let ?d = "snd (entry_set_value env now he v c)"
  have val: "ce_value (updated_entry env now c k v e) = v" "ce_units (updated_entry env now c k v e) = calculate_units env c k v"
    by (simp_all add: updated_entry_def schedule_expiry_def)
  have "oc_contents env ?d = (oc_contents env c)(k \<mapsto> v)"
    using law(1) val by (simp add: fun_eq_iff oc_contents_def)
  moreover have "oc_contents env c k = Some (ce_value e)" using set(1) by (simp add: oc_contents_def)
  ultimately have replay: "replay_event (EntryUpdated k (ce_value e) v) (oc_contents env c) = Some (oc_contents env ?d)" by simp
  have listen: "oc_listening ?d = oc_listening c" using effect_listening [OF effect.set [OF set(1,2,3,4)]] by simp
  show ?case
    by (rule cache_okI [OF law(2) _ listen law(4) set.prems replay])
      (use law(1) val calculate_units_npos [OF env] set.prems in \<open>auto simp: cache_ok_def split: if_splits\<close>)
qed

lemma units_okI:
  assumes "units_ok env c" and "steady env c" and "hm_ok (oc_table env) (oc_map d)" and "oc_calculator d = oc_calculator c"
    and "\<And>j. map_option (\<lambda>e. (ce_units e, calculate_units env c j (ce_value e))) (oc_look env j d) =
      map_option (\<lambda>e. (ce_units e, calculate_units env c j (ce_value e))) (oc_look env j c)"
    and "oc_cur_units d = oc_cur_units c"
  shows "units_ok env d"
proof -
  have ok: "hm_ok (oc_table env) (oc_map c)" using assms(1) by (simp add: units_ok_def)
  have "map_option (\<lambda>e. unat (ce_units e)) (oc_look env j d) = map_option (\<lambda>e. unat (ce_units e)) (oc_look env j c)" for j
    using arg_cong [OF assms(5) [of j], of "map_option (\<lambda>(u, _). unat u)"] by (simp add: option.map_comp o_def)
  from table.weight_same [OF ok assms(3) this] have total: "total_units env d = total_units env c" by (simp add: total_units_def)
  have "ce_units e = calculate_units env d k (ce_value e)" if "oc_look env k d = Some e" for k e
  proof -
    from assms(5) [of k] that obtain e' where "oc_look env k c = Some e'" "ce_units e' = ce_units e"
      "calculate_units env c k (ce_value e') = calculate_units env c k (ce_value e)"
      by (cases "oc_look env k c") auto
    then show ?thesis using assms(1) calculate_units_cong [OF assms(4), of env] by (simp add: units_ok_def)
  qed
  then show ?thesis using assms(1,3,6) total by (simp add: units_ok_def)
qed

lemma steady_cong: "oc_calculator d = oc_calculator c \<Longrightarrow> steady env d = steady env c"
  using calculate_units_cong [of d c env] by (simp add: steady_def)

lemma effect_units_ok:
  assumes eff: "effect env (units_room env) c d" and "units_ok env c" and "steady env c" and env: "env_ok env"
  shows "units_ok env d \<and> steady env d"
proof -
  have "units_ok env d" using assms(1-3)
  proof (induction rule: effect.induct)
    case (core c d)
    show ?case by (rule units_okI [OF core(2,3)]) (use core in \<open>auto simp: same_core_def units_ok_def\<close>)
  next
    case (drop k c e)
    then have ok: "hm_ok (oc_table env) (oc_map c)" by (simp add: units_ok_def)
    note law = hm_remove_law(2,3) [OF ok]
    let ?d = "c\<lparr>oc_map := hm_delete (oc_table env) k (oc_map c), oc_cur_units := oc_cur_units c - ce_units e,
      oc_events := log_event (EntryDeleted k (ce_value e)) c\<rparr>"
    have w: "total_units env c = unat (ce_units e) + total_units env ?d"
      using table.weight_delete [OF ok drop(1)] by (simp add: total_units_def)
    have u: "unat (oc_cur_units c) = total_units env c" using drop(2) by (simp add: units_ok_def)
    have "ce_units e \<le> oc_cur_units c" using w u by (simp add: word_le_nat_alt)
    then have "unat (oc_cur_units ?d) = total_units env ?d" using w u by (simp add: unat_sub)
    moreover have "ce_units e' = calculate_units env ?d j (ce_value e')" if "oc_look env j ?d = Some e'" for j e'
      using that law(2) drop(2) calculate_units_cong [of ?d c env] by (auto simp: units_ok_def split: if_splits)
    ultimately show ?case using law(1) by (simp add: units_ok_def)
  next
    case (change f c k)
    then have ok: "hm_ok (oc_table env) (oc_map c)" by (simp add: units_ok_def)
    note law = hm_update_law [OF ok, where f = f]
    show ?case
      by (rule units_okI [OF change(2,3)]) (use law change(1) in \<open>auto simp: option.map_comp o_def\<close>)
  next
    case (change_all f c)
    then have ok: "hm_ok (oc_table env) (oc_map c)" by (simp add: units_ok_def)
    note law = hm_change_all_law [OF ok, where f = f]
    show ?case
      by (rule units_okI [OF change_all(2,3)]) (use law change_all(1) in \<open>auto simp: option.map_comp o_def\<close>)
  next
    case (rebuild m c)
    show ?case by (rule units_okI [OF rebuild(3,4)]) (use rebuild(1,2) in simp_all)
  next
    case (empty c)
    have ok: "hm_ok (oc_table env) (oc_map c)" using empty(2) by (simp add: units_ok_def)
    have "total_units env c = 0" using table.weight_empty [OF ok empty(1)] by (simp add: total_units_def)
    then show ?case using empty(1) ok by (simp add: units_ok_def total_units_def)
  next
    case (add k c he now v)
    then have ok: "hm_ok (oc_table env) (oc_map c)" by (simp add: units_ok_def)
    note new = added_look [OF ok add(1,2,3,4,5)]
    have get: "hm_get (oc_table env) k (snd (hm_add_entry (oc_table env) he (oc_map c))) = Some (entry_create now v)"
      using new(2) by simp
    note law = on_add_law [OF new(1) get add(2,4), where c = c]
    let ?d = "oc_on_add env now he (c\<lparr>oc_map := snd (hm_add_entry (oc_table env) he (oc_map c))\<rparr>)"
    have look: "oc_look env j ?d = (if j = k then Some (added_entry env now c k v) else oc_look env j c)" for j
      using law(1) new(2) by simp
    have val: "ce_value (added_entry env now c k v) = v" "ce_units (added_entry env now c k v) = calculate_units env c k v"
      by (simp_all add: added_entry_def schedule_expiry_def entry_create_def)
    have w: "total_units env ?d = unat (calculate_units env c k v) + total_units env c"
      using table.weight_insert [OF ok law(2) look add(1), where f = "\<lambda>e. unat (ce_units e)"] val by (simp add: total_units_def)
    have room: "unat (oc_cur_units c) + unat (calculate_units env c k v) < 2 ^ 32"
      using add(6) by (simp add: units_room_def)
    then have "unat (oc_cur_units ?d) = unat (oc_cur_units c) + unat (calculate_units env c k v)"
      using law(3) by (simp add: unat_add_lem [THEN iffD1])
    moreover have "oc_calculator ?d = oc_calculator c" using effect_listening [OF effect.add [where room = "\<lambda>_ _ _. True", OF add(1,2,3,4,5) TrueI]] by simp
    note calculate_units_cong [OF this, of env]
    ultimately show ?case using law(2) look val w add(7) by (auto simp: units_ok_def split: if_splits)
  next
    case (set k c e he now v)
    then have ok: "hm_ok (oc_table env) (oc_map c)" and u: "ce_units e = calculate_units env c k (ce_value e)"
      by (auto simp: units_ok_def)
    have npos: "ce_units e \<noteq> units_npos" using u calculate_units_npos [OF env] by simp
    have same: "calculate_units env c k v = ce_units e" using u set(6) unfolding steady_def by metis
    note law = set_value_law [OF ok set(1,2,3,4) npos, where now = now and v = v]
    let ?d = "snd (entry_set_value env now he v c)"
    have ext: "oc_calculator ?d = oc_calculator c" using effect_listening [OF effect.set [OF set(1,2,3,4)]] by simp
    have val: "ce_value (updated_entry env now c k v e) = v" "ce_units (updated_entry env now c k v e) = calculate_units env c k v"
      by (simp_all add: updated_entry_def schedule_expiry_def)
    show ?case
      by (rule units_okI [OF set(5,6) law(2) ext]) (use law(1,3) val same u set(1) in auto)
  qed
  then show ?thesis using steady_cong [of d c env] effect_listening [OF eff] assms(3) by simp
qed

lemma effects_cache_ok: "effects env room c d \<Longrightarrow> cache_ok env c \<Longrightarrow> env_ok env \<Longrightarrow> cache_ok env d"
  by (induction rule: rtranclp_induct) (auto intro: effect_cache_ok)

lemma effects_units_ok:
  "effects env (units_room env) c d \<Longrightarrow> units_ok env c \<Longrightarrow> steady env c \<Longrightarrow> env_ok env \<Longrightarrow> units_ok env d \<and> steady env d"
  by (induction rule: rtranclp_induct) (auto dest: effect_units_ok)

text \<open>Where nothing is added, the total does not grow.\<close>

lemma effect_mono: "effect env room c d \<Longrightarrow> (\<And>k v c. room k v c \<Longrightarrow> room' k v c) \<Longrightarrow> effect env room' c d"
  by (induction rule: effect.induct) (auto intro: effect.intros)

lemma effects_mono: "effects env room c d \<Longrightarrow> (\<And>k v c. room k v c \<Longrightarrow> room' k v c) \<Longrightarrow> effects env room' c d"
proof (induction rule: rtranclp_induct)
  case (step d e)
  have "effect env room' d e" by (rule effect_mono [OF step.hyps(2)]) (rule step.prems)
  with step.IH [OF step.prems] show ?case by (rule rtranclp.rtrancl_into_rtrancl)
qed simp

lemma effect_drains:
  assumes "effect env no_room c d" and "units_ok env c" and "steady env c" and env: "env_ok env"
  shows "oc_cur_units d \<le> oc_cur_units c"
  using assms(1-3)
proof (induction rule: effect.induct)
  case (drop k c e)
  then have ok: "hm_ok (oc_table env) (oc_map c)" and cur: "unat (oc_cur_units c) = total_units env c" by (simp_all add: units_ok_def)
  have "unat (ce_units e) \<le> unat (oc_cur_units c)"
    using table.weight_delete [OF ok drop(1), of "\<lambda>e. unat (ce_units e)"] cur by (simp add: total_units_def)
  then show ?case by (simp add: word_le_nat_alt unat_sub)
next
  case (set k c e he now v)
  then have ok: "hm_ok (oc_table env) (oc_map c)" and u: "ce_units e = calculate_units env c k (ce_value e)"
    by (auto simp: units_ok_def)
  have npos: "ce_units e \<noteq> units_npos" using u calculate_units_npos [OF env] by simp
  have "calculate_units env c k v = ce_units e" using u set(6) unfolding steady_def by metis
  then show ?case using set_value_law(3) [OF ok set(1,2,3,4) npos] by simp
qed (simp_all add: same_core_def no_room_def)

lemma effects_drain:
  "effects env no_room c d \<Longrightarrow> units_ok env c \<Longrightarrow> steady env c \<Longrightarrow> env_ok env \<Longrightarrow> oc_cur_units d \<le> oc_cur_units c"
proof (induction rule: rtranclp_induct)
  case (step d e)
  have "effects env (units_room env) c d" by (rule effects_mono [OF step.hyps(1)]) (simp add: no_room_def)
  then have "units_ok env d" "steady env d" using effects_units_ok step.prems by blast+
  from effect_drains [OF step.hyps(2) this step.prems(3)] show ?case using step by simp
qed simp

end
