(* ===== verification/Cache_Pruning.thy ===== *)
theory Cache_Pruning
  imports Cache_Effects
begin

text \<open>
  Removing entries, one after the other or deferred, and pruning: which entries go, and that
  the units come down to the low mark.
\<close>

section \<open>Dropping entries\<close>

definition drop_one :: "('k, 'v) oc_env \<Rightarrow> ('k, 'v cache_entry) hash_entry \<Rightarrow> ('k, 'v) old_cache \<Rightarrow> ('k, 'v) old_cache" where
  "drop_one env he c =
     c\<lparr>oc_map := hm_delete (oc_table env) (he_key he) (oc_map c), oc_cur_units := oc_cur_units c - ce_units (he_value he),
       oc_events := log_event (EntryDeleted (he_key he) (ce_value (he_value he))) c\<rparr>"

definition drops :: "('k, 'v) oc_env \<Rightarrow> ('k, 'v cache_entry) hash_entry list \<Rightarrow> ('k, 'v) old_cache \<Rightarrow> ('k, 'v) old_cache" where
  "drops env hes c = fold (drop_one env) hes c"

lemma drops_simps [simp]: "drops env [] c = c" "drops env (he # hes) c = drops env hes (drop_one env he c)"
  "drops env (hes @ hes') c = drops env hes' (drops env hes c)"
  by (simp_all add: drops_def)

text \<open>An entry at hand is in order when its hash and its units are.\<close>

definition entry_fit :: "('k, 'v) oc_env \<Rightarrow> ('k, 'v cache_entry) hash_entry \<Rightarrow> bool" where
  "entry_fit env he \<longleftrightarrow> he_hash he = hm_hash (oc_table env) (he_key he) \<and> ce_units (he_value he) \<noteq> units_npos"

lemma chain_remove_update: "chain_remove h k (chain_update h k f es) = chain_remove h k es"
  by (induction es) auto

lemma chain_find_update: "chain_find h k (chain_update h k f es) = None \<longleftrightarrow> chain_find h k es = None"
  by (induction es) auto

lemma chain_update_id: "chain_find h k es = None \<Longrightarrow> chain_update h k f es = es"
  by (induction es) (auto split: if_splits)

lemma hm_update_absent: "hm_get env k m = None \<Longrightarrow> hm_update env k f m = m"
  by (simp add: hm_get_def hm_get_entry_internal_def hm_update_def Let_def chain_update_id)

lemma hm_delete_update: "hm_delete env k (hm_update env k f m) = hm_delete env k m"
proof (cases "chain_find (hm_hash env k) k (hm_buckets m ! bucket_index (hm_hash env k) (length (hm_buckets m)))")
  case None
  then have "hm_update env k f m = m" by (simp add: hm_update_def Let_def chain_update_id)
  then show ?thesis by simp
next
  case (Some e)
  let ?bs = "hm_buckets m" let ?i = "bucket_index (hm_hash env k) (length ?bs)"
  have found: "chain_find (hm_hash env k) k (chain_update (hm_hash env k) k f (?bs ! ?i)) \<noteq> None"
    using Some by (simp add: chain_find_update)
  show ?thesis
  proof (cases "?i < length ?bs")
    case True
    then show ?thesis
      using found Some by (auto simp: hm_delete_def hm_remove_def hm_update_def Let_def chain_remove_update)
  next
    case False
    then have "?bs[?i := es] = ?bs" for es by (simp add: list_update_beyond)
    then have "hm_update env k f m = m" by (simp only: hm_update_def Let_def) simp
    then show ?thesis by simp
  qed
qed

lemma entry_discard_eq:
  assumes "entry_fit env he"
  shows "entry_discard env he c =
    c\<lparr>oc_map := hm_update (oc_table env) (he_key he) (\<lambda>e. e\<lparr>ce_units := units_npos\<rparr>) (oc_map c),
      oc_cur_units := oc_cur_units c - ce_units (he_value he),
      oc_events := log_event (EntryDeleted (he_key he) (ce_value (he_value he))) c\<rparr>"
proof -
  have "ce_units (he_value he) = 0" if "\<not> 0 < ce_units (he_value he)" using that by (simp add: word_gt_0)
  then show ?thesis using assms
    by (cases "0 < ce_units (he_value he)")
      (simp_all add: entry_discard_def Let_def entry_fit_def change_entry_def dispatch_event_def log_event_def)
qed

lemma remove_expired_drop: "entry_fit env he \<Longrightarrow> remove_expired env he True c = drop_one env he c"
  using hm_remove_entry_law [of he "oc_table env"]
  by (simp add: remove_expired_def Let_def entry_discard_eq drop_one_def entry_fit_def hm_delete_update)

lemma discard_remove_drop: "entry_fit env he \<Longrightarrow>
    (entry_discard env he c)\<lparr>oc_map := hm_remove_entry_internal he (oc_map (entry_discard env he c))\<rparr> = drop_one env he c"
  using remove_expired_drop [of env he c] by (simp add: remove_expired_def Let_def)

lemma remove_where_drops:
  "(\<And>he. he \<in> set hes \<Longrightarrow> entry_fit env he) \<Longrightarrow>
   fold (\<lambda>he c. if P he then remove_expired env he True c else c) hes c = drops env (filter P hes) c"
  by (induction hes arbitrary: c) (simp_all add: remove_expired_drop)

lemma drops_eq:
  "drops env hes c =
     c\<lparr>oc_map := fold (\<lambda>he. hm_delete (oc_table env) (he_key he)) hes (oc_map c),
       oc_cur_units := oc_cur_units c - sum_list (map (ce_units \<circ> he_value) hes),
       oc_events := (if oc_listening c then oc_events c @ map (\<lambda>he. EntryDeleted (he_key he) (ce_value (he_value he))) hes
                     else oc_events c)\<rparr>"
  by (induction hes arbitrary: c) (simp_all add: drop_one_def log_event_def diff_diff_eq)

lemma drops_fields [simp]:
  "oc_max_units (drops env hes c) = oc_max_units c" "oc_prune_units (drops env hes c) = oc_prune_units c"
  "oc_eviction (drops env hes c) = oc_eviction c" "oc_calculator (drops env hes c) = oc_calculator c"
  "oc_listening (drops env hes c) = oc_listening c" "oc_expiry_delay (drops env hes c) = oc_expiry_delay c"
  "oc_flush_delay (drops env hes c) = oc_flush_delay c" "oc_next_flush (drops env hes c) = oc_next_flush c"
  by (simp_all add: drops_eq)

lemma fold_delete_law:
  fixes m :: "('k, 'e) hash_map" and hes :: "('k, 'e) hash_entry list"
  shows
  "hm_ok env m \<Longrightarrow> hm_ok env (fold (\<lambda>he. hm_delete env (he_key he)) hes m) \<and>
    hm_get env j (fold (\<lambda>he. hm_delete env (he_key he)) hes m) = (if j \<in> he_key ` set hes then None else hm_get env j m)"
  by (induction hes arbitrary: m) (auto simp: hm_remove_law)

lemma drops_look:
  fixes c :: "('k, 'v) old_cache" and hes :: "('k, 'v cache_entry) hash_entry list"
  assumes "hm_ok (oc_table env) (oc_map c)"
  shows "hm_ok (oc_table env) (oc_map (drops env hes c))"
    and "oc_look env j (drops env hes c) = (if j \<in> he_key ` set hes then None else oc_look env j c)"
  using conjunct1 [OF fold_delete_law [OF assms]] conjunct2 [OF fold_delete_law [OF assms, where j = j]]
  by (simp_all add: drops_eq)

text \<open>Dropping entries that the cache has is an effect.\<close>

lemma drop_one_effect:
  "oc_look env (he_key he) c = Some (he_value he) \<Longrightarrow> effect env room c (drop_one env he c)"
  unfolding drop_one_def by (rule effect.drop)

lemma drops_effects:
  assumes "hm_ok (oc_table env) (oc_map c)" and "distinct (map he_key hes)"
    and "\<And>he. he \<in> set hes \<Longrightarrow> oc_look env (he_key he) c = Some (he_value he)"
  shows "effects env room c (drops env hes c)"
  using assms
proof (induction hes arbitrary: c)
  case (Cons he hes)
  have "effect env room c (drop_one env he c)" using Cons.prems(3) [of he] by (intro drop_one_effect) simp
  moreover have "effects env room (drop_one env he c) (drops env hes (drop_one env he c))"
  proof (rule Cons.IH)
    note law = drops_look [OF Cons.prems(1), where hes = "[he]"]
    show "hm_ok (oc_table env) (oc_map (drop_one env he c))" using law(1) by simp
    show "distinct (map he_key hes)" using Cons.prems(2) by simp
    fix h assume h: "h \<in> set hes"
    then have "he_key h \<noteq> he_key he" using Cons.prems(2) by (metis distinct.simps(2) image_eqI list.simps(9) set_map)
    then show "oc_look env (he_key h) (drop_one env he c) = Some (he_value h)"
      using law(2) [of "he_key h"] Cons.prems(3) [of h] h by simp
  qed
  ultimately show ?case by simp
qed simp

text \<open>The entries of the table are in order.\<close>

lemma table_entries:
  assumes "hm_ok env m"
  shows "distinct (map he_key (hm_to_array m))"
    and "he \<in> set (hm_to_array m) \<Longrightarrow> hm_get env (he_key he) m = Some (he_value he)"
    and "he \<in> set (hm_to_array m) \<Longrightarrow> he_hash he = hm_hash env (he_key he)"
    and "hm_get env k m = Some e \<Longrightarrow> \<exists>he\<in>set (hm_to_array m). he_key he = k \<and> he_value he = e"
proof -
  have b: "buckets_ok env (hm_buckets m)" using assms by (simp add: hm_ok_def)
  show "distinct (map he_key (hm_to_array m))" using buckets_distinct [OF b] by (simp add: hm_to_array_def)
  have member: "(j, x) \<in> set (hm_all m) \<longleftrightarrow> hm_get env j m = Some x" for j x by (rule table.all_entry [OF assms])
  show "he \<in> set (hm_to_array m) \<Longrightarrow> hm_get env (he_key he) m = Some (he_value he)"
    using member [of "he_key he" "he_value he"] by (force simp: hm_all_def entry_pair_def)
  show "he \<in> set (hm_to_array m) \<Longrightarrow> he_hash he = hm_hash env (he_key he)"
    using buckets_hash [OF b] by (simp add: hm_to_array_def)
  show "hm_get env k m = Some e \<Longrightarrow> \<exists>he\<in>set (hm_to_array m). he_key he = k \<and> he_value he = e"
    using member [of k e] by (force simp: hm_all_def entry_pair_def)
qed

lemma cache_entries:
  assumes "cache_ok env c" and "he \<in> set (hm_to_array (oc_map c))"
  shows "entry_fit env he" and "oc_look env (he_key he) c = Some (he_value he)"
proof -
  have ok: "hm_ok (oc_table env) (oc_map c)" using assms(1) by (simp add: cache_ok_def)
  note entry = table_entries [OF ok]
  show look: "oc_look env (he_key he) c = Some (he_value he)" by (rule entry(2) [OF assms(2)])
  show "entry_fit env he" using entry(3) [OF assms(2)] look assms(1) by (auto simp: entry_fit_def cache_ok_def)
qed

lemma find_entry:
  assumes "hm_get_entry_internal env k m = Some he"
  shows "he_key he = k" and "he_hash he = hm_hash env k" and "hm_get env k m = Some (he_value he)"
  using assms chain_find_hash by (force simp: hm_get_entry_internal_def hm_get_def Let_def)+

lemma find_fit:
  assumes "cache_ok env c" and "hm_get_entry_internal (oc_table env) k (oc_map c) = Some he"
  shows "entry_fit env he"
  using find_entry [OF assms(2)] assms(1) by (auto simp: entry_fit_def cache_ok_def)

section \<open>Evicting what has expired\<close>

definition expired_entries :: "int \<Rightarrow> ('k, 'v) old_cache \<Rightarrow> ('k, 'v cache_entry) hash_entry list" where
  "expired_entries now c = filter (\<lambda>he. is_expired now (he_value he)) (hm_to_array (oc_map c))"

lemma evict_expired_eq:
  assumes "cache_ok env c"
  shows "oc_evict_expired env now c = schedule_flush now (drops env (expired_entries now c) (defer_flush c))"
  using remove_where_drops [of "hm_to_array (oc_map c)" env "\<lambda>he. is_expired now (he_value he)" "defer_flush c"]
    cache_entries(1) [OF assms]
  by (simp add: oc_evict_expired_def Let_def defer_flush_def expired_entries_def)

lemma drop_entries_effects:
  assumes "cache_ok env c" and "set hes \<subseteq> set (hm_to_array (oc_map c))" and "distinct (map he_key hes)"
  shows "effects env room c (drops env hes c)"
  by (rule drops_effects) (use assms cache_entries(2) [OF assms(1)] in \<open>auto simp: cache_ok_def\<close>)

lemma core_effect: "same_core c d \<Longrightarrow> effects env room c d"
  by (rule r_into_rtranclp) (rule effect.core)

lemma flush_core [simp]: "same_core c (schedule_flush now c)" "same_core c (defer_flush c)"
  by (simp_all add: same_core_def schedule_flush_def defer_flush_def)

lemma effects_core: "effects env room c d \<Longrightarrow> same_core d d' \<Longrightarrow> effects env room c d'"
  by (meson core_effect rtranclp_trans)

lemma same_core_ok: "same_core c d \<Longrightarrow> cache_ok env c \<Longrightarrow> cache_ok env d"
  by (simp add: cache_ok_def same_core_def oc_contents_def fun_eq_iff)

lemma evict_expired_effects:
  assumes "cache_ok env c"
  shows "effects env room c (oc_evict_expired env now c)"
proof -
  have ok: "cache_ok env (defer_flush c)" by (rule same_core_ok [OF flush_core(2) assms])
  have map: "oc_map (defer_flush c) = oc_map c" by (simp add: defer_flush_def)
  have "distinct (map he_key (hm_to_array (oc_map c)))" using table_entries(1) assms by (auto simp: cache_ok_def)
  then have "effects env room (defer_flush c) (drops env (expired_entries now c) (defer_flush c))"
    by (intro drop_entries_effects [OF ok]) (auto simp: map expired_entries_def distinct_map_filter)
  from rtranclp_trans [OF core_effect [OF flush_core(2)] this]
  show ?thesis unfolding evict_expired_eq [OF assms] by (rule effects_core) simp
qed

lemma evict_expired_look:
  assumes "cache_ok env c"
  shows "oc_look env k (oc_evict_expired env now c) =
    (case oc_look env k c of None \<Rightarrow> None | Some e \<Rightarrow> if is_expired now e then None else Some e)"
proof -
  have ok: "hm_ok (oc_table env) (oc_map c)" using assms by (simp add: cache_ok_def)
  have m: "oc_map (defer_flush c) = oc_map c" "oc_map (schedule_flush now d) = oc_map d" for d
    by (simp_all add: defer_flush_def schedule_flush_def)
  have "k \<in> he_key ` set (expired_entries now c) \<longleftrightarrow> (\<exists>e. oc_look env k c = Some e \<and> is_expired now e)"
    using table_entries(2,4) [OF ok] by (force simp: expired_entries_def)
  then show ?thesis
    using drops_look(2) [of env "defer_flush c" k "expired_entries now c"] ok
    by (auto simp: evict_expired_eq [OF assms] m split: option.splits)
qed

lemma evict_expired_fields [simp]:
  assumes "cache_ok env c"
  shows "oc_max_units (oc_evict_expired env now c) = oc_max_units c"
    and "oc_prune_units (oc_evict_expired env now c) = oc_prune_units c"
    and "oc_eviction (oc_evict_expired env now c) = oc_eviction c"
    and "oc_expiry_delay (oc_evict_expired env now c) = oc_expiry_delay c"
    and "oc_calculator (oc_evict_expired env now c) = oc_calculator c"
  by (simp_all add: evict_expired_eq [OF assms] schedule_flush_def defer_flush_def)

end
