(* ===== verification/Cache_Ordered.thy ===== *)
theory Cache_Ordered
  imports Cache_Pruning "HOL-Library.Multiset"
begin

text \<open>
  Pruning the least recently or least frequently used entries: the sparse array gives them in
  the order of their times or counts, and as many of them go as it takes.
\<close>

section \<open>The array of the entries by their order\<close>

fun slot_entries :: "('k, 'v) slot holder \<Rightarrow> ('k, 'v cache_entry) hash_entry list" where
  "slot_entries None = []"
| "slot_entries (Some (OneEntry he)) = [he]"
| "slot_entries (Some (EntryList hes)) = hes"

definition slots_entries :: "(int \<times> ('k, 'v) slot holder) list \<Rightarrow> ('k, 'v cache_entry) hash_entry list" where
  "slots_entries la = concat (map (slot_entries \<circ> snd) la)"

definition slots_ordered :: "bool \<Rightarrow> (int \<times> ('k, 'v) slot holder) list \<Rightarrow> bool" where
  "slots_ordered fLRU la \<longleftrightarrow> (\<forall>(i, s)\<in>set la. \<forall>he\<in>set (slot_entries s). entry_order fLRU he = i)"

lemma la_set_twice: "la_set i y (la_set i x la) = la_set i y la"
  by (induction i x la rule: la_set.induct) auto

lemma la_set_slots:
  assumes "la_ok la" and "slot_entries s = slot_entries (held (la_get i la)) @ [he]"
  shows "mset (slots_entries (la_set i s la)) = add_mset he (mset (slots_entries la))"
  using assms
proof (induction i s la rule: la_set.induct)
  case (2 i x j y la)
  have "la_get i la = None" if "i < j" using 2(2) that by (auto simp: la_ok_Cons la_get_None)
  then show ?case using 2
    by (cases "i < j") (auto simp: slots_entries_def la_ok_Cons held_def split: option.splits)
qed (simp add: slots_entries_def held_def)

lemma la_set_ordered:
  assumes "slots_ordered fLRU la" and "slot_entries s = slot_entries (held (la_get i la)) @ [he]" and "entry_order fLRU he = i"
  shows "slots_ordered fLRU (la_set i s la)"
  using assms
proof (induction i s la rule: la_set.induct)
  case (2 i x j y la)
  have old: "\<forall>h\<in>set (slot_entries (held (la_get i la))). entry_order fLRU h = i"
    if "slots_ordered fLRU la" for la :: "(int \<times> ('a, 'b) slot holder) list"
    using that by (induction i la rule: la_get.induct) (auto simp: slots_ordered_def held_def)
  show ?case
    using 2 old [OF 2(2)] by (auto simp: slots_ordered_def split: if_splits)
qed (simp add: slots_ordered_def held_def)

lemma array_entry_law:
  assumes "sa_ok a"
  shows "\<exists>b s. array_entry i he a = (Inr (), b) \<and> sa_ok b \<and> sa_abs b = la_set i s (sa_abs a) \<and>
    slot_entries s = slot_entries (held (la_get i (sa_abs a))) @ [he]"
proof -
  obtain b where b: "sa_set i (Some (OneEntry he)) a = (Inr (held (la_get i (sa_abs a))), b)" "sa_ok b"
    "sa_abs b = la_set i (Some (OneEntry he)) (sa_abs a)"
    using sa_set_spec [OF assms] by blast
  have again: "\<exists>d r. sa_set i s b = (Inr r, d) \<and> sa_ok d \<and> sa_abs d = la_set i s (sa_abs a)" for s
    using sa_set_spec [OF b(2), of i s] b(3) by (auto simp: la_set_twice)
  show ?thesis
  proof (cases "held (la_get i (sa_abs a))")
    case None
    then show ?thesis using b by (intro exI [of _ b] exI [of _ "Some (OneEntry he)"]) (simp add: array_entry_def bindc_def)
  next
    case (Some prev)
    show ?thesis
    proof (cases prev)
      case (OneEntry d)
      then show ?thesis using b(1) Some again [of "Some (EntryList [d, he])"]
        by (fastforce simp: array_entry_def bindc_def mapc_def intro: exI [of _ "Some (EntryList [d, he])"])
    next
      case (EntryList ds)
      then show ?thesis using b(1) Some again [of "Some (EntryList (ds @ [he]))"]
        by (fastforce simp: array_entry_def bindc_def mapc_def intro: exI [of _ "Some (EntryList (ds @ [he]))"])
    qed
  qed
qed

lemma for_each_array:
  assumes "sa_ok a" and "slots_ordered fLRU (sa_abs a)"
  shows "\<exists>b. for_each (\<lambda>he. array_entry (entry_order fLRU he) he) hes a = (Inr (), b) \<and> sa_ok b \<and>
    slots_ordered fLRU (sa_abs b) \<and> mset (slots_entries (sa_abs b)) = mset hes + mset (slots_entries (sa_abs a))"
  using assms
proof (induction hes arbitrary: a)
  case (Cons he hes)
  obtain b s where b: "array_entry (entry_order fLRU he) he a = (Inr (), b)" "sa_ok b"
    "sa_abs b = la_set (entry_order fLRU he) s (sa_abs a)"
    "slot_entries s = slot_entries (held (la_get (entry_order fLRU he) (sa_abs a))) @ [he]"
    using array_entry_law [OF Cons.prems(1)] by blast
  have la: "la_ok (sa_abs a)" using Cons.prems(1) by (simp add: sa_ok_def)
  have ordered: "slots_ordered fLRU (sa_abs b)" unfolding b(3) by (rule la_set_ordered [OF Cons.prems(2) b(4)]) simp
  show ?case
    using Cons.IH [OF b(2) ordered] la_set_slots [OF la b(4)] b(1,3) by (auto simp: seqc_def bindc_def)
qed simp

lemma slots_sorted:
  assumes "la_ok la" and "slots_ordered fLRU la"
  shows "sorted (map (entry_order fLRU) (slots_entries la))"
  using assms
proof (induction la)
  case (Cons p la)
  obtain i s where p: "p = (i, s)" by (cases p)
  have flat: "slots_entries (p # la) = slot_entries s @ slots_entries la" by (simp add: slots_entries_def p)
  have here: "entry_order fLRU h = i" if "h \<in> set (slot_entries s)" for h
    using that Cons.prems(2) by (auto simp: slots_ordered_def p)
  have there: "i < entry_order fLRU h" if "h \<in> set (slots_entries la)" for h
    using that Cons.prems by (force simp: slots_ordered_def p slots_entries_def la_ok_Cons)
  have "sorted (map (entry_order fLRU) (slot_entries s))"
    using here by (auto simp: sorted_iff_nth_mono)
  moreover have "sorted (map (entry_order fLRU) (slots_entries la))"
    using Cons by (simp add: p la_ok_Cons slots_ordered_def)
  ultimately show ?case
    using here there unfolding flat by (auto simp: sorted_append less_imp_le)
qed (simp add: slots_entries_def)

text \<open>The entries in the order of the array: a permutation of them, in ascending order.\<close>

definition in_order :: "bool \<Rightarrow> ('k, 'v cache_entry) hash_entry list \<Rightarrow> ('k, 'v cache_entry) hash_entry list" where
  "in_order fLRU hes = slots_entries (sa_abs (order_array fLRU hes))"

lemma in_order_law: "mset (in_order fLRU hes) = mset hes" "sorted (map (entry_order fLRU) (in_order fLRU hes))"
proof -
  have start: "slots_ordered fLRU (sa_abs sa_empty)" by (simp add: sa_empty_ok slots_ordered_def)
  obtain b where b: "for_each (\<lambda>he. array_entry (entry_order fLRU he) he) hes sa_empty = (Inr (), b)" "sa_ok b"
    "slots_ordered fLRU (sa_abs b)" "mset (slots_entries (sa_abs b)) = mset hes"
    using for_each_array [OF sa_empty_ok(1) start, of hes] by (auto simp: sa_empty_ok slots_entries_def)
  then have eq: "in_order fLRU hes = slots_entries (sa_abs b)" by (simp add: in_order_def order_array_def)
  show "mset (in_order fLRU hes) = mset hes" using b(4) by (simp add: eq)
  show "sorted (map (entry_order fLRU) (in_order fLRU hes))"
    unfolding eq by (rule slots_sorted) (use b(2,3) in \<open>simp_all add: sa_ok_def\<close>)
qed

section \<open>As many entries as it takes\<close>

lemma prune_list_low: "\<not> cMin < oc_cur_units c \<Longrightarrow> prune_list env cMin hes c = c"
  by (cases hes) simp_all

lemma prune_list_append: "prune_list env cMin (xs @ ys) c = prune_list env cMin ys (prune_list env cMin xs c)"
  by (induction xs arbitrary: c) (simp_all add: prune_list_low)

lemma prune_slots_list: "prune_slots env cMin (map snd la) c = prune_list env cMin (slots_entries la) c"
proof (induction la arbitrary: c)
  case (Cons p la)
  obtain i s where p: "p = (i, s)" by (cases p)
  have "prune_list env cMin (slot_entries s) c = (case s of None \<Rightarrow> c | Some (OneEntry he) \<Rightarrow> remove_expired env he True c
      | Some (EntryList hes) \<Rightarrow> prune_list env cMin hes c)" if "cMin < oc_cur_units c"
    using that by (cases s rule: slot_entries.cases) simp_all
  moreover have "slots_entries (p # la) = slot_entries s @ slots_entries la" by (simp add: slots_entries_def p)
  ultimately show ?case using Cons.IH by (simp add: p prune_list_append prune_list_low)
qed (simp add: slots_entries_def)

lemma prune_list_drops:
  assumes "\<And>he. he \<in> set hes \<Longrightarrow> entry_fit env he"
  shows "\<exists>n \<le> length hes. prune_list env cMin hes c = drops env (take n hes) c \<and>
    (cMin < oc_cur_units (drops env (take n hes) c) \<longrightarrow> n = length hes) \<and>
    (\<forall>m<n. cMin < oc_cur_units (drops env (take m hes) c))"
  using assms
proof (induction hes arbitrary: c)
  case (Cons he hes)
  have drop: "remove_expired env he True c = drop_one env he c" by (rule remove_expired_drop) (simp add: Cons.prems)
  show ?case
  proof (cases "cMin < oc_cur_units c")
    case True
    have "\<exists>n \<le> length hes. prune_list env cMin hes (drop_one env he c) = drops env (take n hes) (drop_one env he c) \<and>
      (cMin < oc_cur_units (drops env (take n hes) (drop_one env he c)) \<longrightarrow> n = length hes) \<and>
      (\<forall>m<n. cMin < oc_cur_units (drops env (take m hes) (drop_one env he c)))"
      by (rule Cons.IH) (simp add: Cons.prems)
    then obtain n where n: "n \<le> length hes" "prune_list env cMin hes (drop_one env he c) = drops env (take n hes) (drop_one env he c)"
      "cMin < oc_cur_units (drops env (take n hes) (drop_one env he c)) \<longrightarrow> n = length hes"
      "\<forall>m<n. cMin < oc_cur_units (drops env (take m hes) (drop_one env he c))" by blast
    have "cMin < oc_cur_units (drops env (take m (he # hes)) c)" if "m < Suc n" for m
      using that n(4) True by (cases m) auto
    moreover have "Suc n \<le> length (he # hes)" using n(1) by simp
    moreover have "prune_list env cMin (he # hes) c = drops env (take (Suc n) (he # hes)) c" using n(2) True drop by simp
    moreover have "cMin < oc_cur_units (drops env (take (Suc n) (he # hes)) c) \<longrightarrow> Suc n = length (he # hes)" using n(3) by simp
    ultimately show ?thesis by blast
  next
    case False
    then show ?thesis by (intro exI [of _ 0]) simp
  qed
qed simp

definition live_entries :: "int \<Rightarrow> ('k, 'v) old_cache \<Rightarrow> ('k, 'v cache_entry) hash_entry list" where
  "live_entries now c = filter (\<lambda>he. \<not> is_expired now (he_value he)) (hm_to_array (oc_map c))"

lemma prune_ordered_list:
  "prune_ordered env now fLRU c = prune_list env (oc_prune_units c) (in_order fLRU (live_entries now c)) c"
  by (simp add: prune_ordered_def prune_slots_list in_order_def live_entries_def)

text \<open>The entries that a prune drops come before those that it keeps.\<close>

lemma prune_ordered_drops:
  assumes "cache_ok env c"
  obtains ds rs where "prune_ordered env now fLRU c = drops env ds c"
    and "mset (ds @ rs) = mset (live_entries now c)"
    and "sorted (map (entry_order fLRU) (ds @ rs))"
    and "oc_prune_units c < oc_cur_units (drops env ds c) \<Longrightarrow> rs = []"
    and "\<And>m. m < length ds \<Longrightarrow> oc_prune_units c < oc_cur_units (drops env (take m ds) c)"
proof -
  let ?hes = "in_order fLRU (live_entries now c)"
  have "set ?hes = set (live_entries now c)" using mset_eq_setD [OF in_order_law(1)] by blast
  then have "\<And>he. he \<in> set ?hes \<Longrightarrow> entry_fit env he"
    using cache_entries(1) [OF assms] by (auto simp: live_entries_def)
  from prune_list_drops [of ?hes env "oc_prune_units c" c, OF this]
  obtain n where n: "n \<le> length ?hes" "prune_ordered env now fLRU c = drops env (take n ?hes) c"
    "oc_prune_units c < oc_cur_units (drops env (take n ?hes) c) \<longrightarrow> n = length ?hes"
    "\<forall>m<n. oc_prune_units c < oc_cur_units (drops env (take m ?hes) c)"
    unfolding prune_ordered_list by blast
  show thesis
  proof (rule that)
    show "prune_ordered env now fLRU c = drops env (take n ?hes) c" by (rule n(2))
    show "mset (take n ?hes @ drop n ?hes) = mset (live_entries now c)" by (simp only: append_take_drop_id in_order_law(1))
    show "sorted (map (entry_order fLRU) (take n ?hes @ drop n ?hes))" by (simp only: append_take_drop_id in_order_law(2))
    show "drop n ?hes = []" if "oc_prune_units c < oc_cur_units (drops env (take n ?hes) c)" using n(3) that by simp
    show "oc_prune_units c < oc_cur_units (drops env (take m (take n ?hes)) c)" if "m < length (take n ?hes)" for m
    proof -
      have "m < n" "take m (take n ?hes) = take m ?hes" using that by simp_all
      then show ?thesis using n(4) by metis
    qed
  qed
qed

lemma live_entries_law:
  assumes "cache_ok env c"
  shows "set (live_entries now c) \<subseteq> set (hm_to_array (oc_map c))" and "distinct (map he_key (live_entries now c))"
  using table_entries(1) [of "oc_table env" "oc_map c"] assms by (auto simp: live_entries_def cache_ok_def intro: distinct_map_filter)

lemma perm_part:
  assumes "mset (ds @ rs) = mset xs"
  shows "set ds \<subseteq> set xs" and "set xs = set ds \<union> set rs" and "distinct (map f xs) \<Longrightarrow> distinct (map f (ds @ rs))"
    and "distinct (map f xs) \<Longrightarrow> distinct (map f ds)"
proof -
  show "set ds \<subseteq> set xs" "set xs = set ds \<union> set rs" using mset_eq_setD [OF assms] by auto
  have "mset (map f (ds @ rs)) = mset (map f xs)" using assms by (metis mset_map)
  then show "distinct (map f xs) \<Longrightarrow> distinct (map f (ds @ rs))" "distinct (map f xs) \<Longrightarrow> distinct (map f ds)"
    using mset_eq_imp_distinct_iff [of "map f (ds @ rs)" "map f xs"] by simp_all
qed

lemma prune_ordered_effects:
  assumes "cache_ok env c"
  shows "effects env room c (prune_ordered env now fLRU c)"
proof -
  obtain ds rs where d: "prune_ordered env now fLRU c = drops env ds c" "mset (ds @ rs) = mset (live_entries now c)"
    by (rule prune_ordered_drops [OF assms])
  note perm = perm_part [OF d(2)]
  have "set ds \<subseteq> set (hm_to_array (oc_map c))" "distinct (map he_key ds)"
    using perm live_entries_law [OF assms, of now] by (blast, metis)
  then show ?thesis unfolding d(1) by (rule drop_entries_effects [OF assms])
qed

end
