(* ===== verification/Cache_Hybrid.thy ===== *)
theory Cache_Hybrid
  imports Cache_Ordered
begin

text \<open>
  Pruning by priority: the deferred removal of the entries, the histogram of their units by
  priority, and why what is left is within the low mark.
\<close>

section \<open>Removing entries before discarding them\<close>

lemma remove_entries_delete:
  "(\<And>he. he \<in> set ds \<Longrightarrow> entry_fit env he) \<Longrightarrow>
   fold hm_remove_entry_internal ds m = fold (\<lambda>he. hm_delete (oc_table env) (he_key he)) ds m"
  by (induction ds arbitrary: m) (simp_all add: hm_remove_entry_law entry_fit_def)

lemma discard_absent:
  assumes "\<And>he. he \<in> set ds \<Longrightarrow> entry_fit env he \<and> oc_look env (he_key he) c = None"
  shows "fold (\<lambda>he. remove_expired env he False) ds c =
    c\<lparr>oc_cur_units := oc_cur_units c - sum_list (map (ce_units \<circ> he_value) ds),
      oc_events := (if oc_listening c then oc_events c @ map (\<lambda>he. EntryDeleted (he_key he) (ce_value (he_value he))) ds
                    else oc_events c)\<rparr>"
  using assms
proof (induction ds arbitrary: c)
  case (Cons he ds)
  have fit: "entry_fit env he" "oc_look env (he_key he) c = None" using Cons.prems [of he] by simp_all
  let ?d = "c\<lparr>oc_cur_units := oc_cur_units c - ce_units (he_value he),
      oc_events := log_event (EntryDeleted (he_key he) (ce_value (he_value he))) c\<rparr>"
  have one: "remove_expired env he False c = ?d"
    by (simp add: remove_expired_def Let_def entry_discard_eq [OF fit(1)] hm_update_absent [OF fit(2)])
  have rest: "fold (\<lambda>he. remove_expired env he False) ds ?d =
    ?d\<lparr>oc_cur_units := oc_cur_units ?d - sum_list (map (ce_units \<circ> he_value) ds),
      oc_events := (if oc_listening ?d then oc_events ?d @ map (\<lambda>he. EntryDeleted (he_key he) (ce_value (he_value he))) ds
                    else oc_events ?d)\<rparr>"
    by (rule Cons.IH) (use Cons.prems in simp)
  show ?case unfolding fold_simps o_apply one rest by (simp add: log_event_def diff_diff_eq)
qed simp

lemma deferred_drops:
  assumes "hm_ok (oc_table env) (oc_map c)" and fit: "\<And>he. he \<in> set ds \<Longrightarrow> entry_fit env he"
  shows "fold (\<lambda>he. remove_expired env he False) ds (c\<lparr>oc_map := fold hm_remove_entry_internal ds (oc_map c)\<rparr>) = drops env ds c"
proof -
  have "oc_look env (he_key he) (c\<lparr>oc_map := fold hm_remove_entry_internal ds (oc_map c)\<rparr>) = None" if "he \<in> set ds" for he
    using conjunct2 [OF fold_delete_law [OF assms(1), where j = "he_key he" and hes = ds]] that
    by (simp add: remove_entries_delete [OF fit])
  then have "fold (\<lambda>he. remove_expired env he False) ds (c\<lparr>oc_map := fold hm_remove_entry_internal ds (oc_map c)\<rparr>) =
    (c\<lparr>oc_map := fold hm_remove_entry_internal ds (oc_map c)\<rparr>)\<lparr>oc_cur_units := oc_cur_units c - sum_list (map (ce_units \<circ> he_value) ds),
      oc_events := (if oc_listening c then oc_events c @ map (\<lambda>he. EntryDeleted (he_key he) (ce_value (he_value he))) ds
                    else oc_events c)\<rparr>"
    using fit by (subst discard_absent) simp_all
  then show ?thesis by (simp add: drops_eq remove_entries_delete [OF fit])
qed

section \<open>What is discarded\<close>

lemma discards_part: "set (hybrid_discards prio cMin q ws a cCur) \<subseteq> {fst w | w. w \<in> set ws \<and> q \<le> prio w}"
proof (induction ws arbitrary: a cCur)
  case (Cons w ws)
  have "set (hybrid_discards prio cMin q ws a' cCur') \<subseteq> {fst v | v. v \<in> set (w # ws) \<and> q \<le> prio v}" for a' cCur'
    using Cons [of a' cCur'] by auto
  moreover have "q \<le> prio w \<Longrightarrow> fst w \<in> {fst v | v. v \<in> set (w # ws) \<and> q \<le> prio v}" by (simp only: mem_Collect_eq) (metis list.set_intros(1))
  ultimately show ?case by (simp add: Let_def)
qed simp

lemma discards_distinct:
  "distinct (map he_key (map fst ws)) \<Longrightarrow> distinct (map he_key (hybrid_discards prio cMin q ws a cCur))"
proof (induction ws arbitrary: a cCur)
  case (Cons w ws)
  have "he_key (fst w) \<notin> he_key ` set (hybrid_discards prio cMin q ws a' cCur')" for a' cCur'
    using Cons.prems discards_part [of prio cMin q ws a' cCur'] by force
  with Cons show ?case by (simp add: Let_def)
qed simp

text \<open>Sums of units, as numbers and as words.\<close>

abbreviation walk_units :: "('k, 'v cache_entry) hash_entry \<times> 'x \<Rightarrow> 32 word" where
  "walk_units w \<equiv> ce_units (he_value (fst w))"

definition units_of :: "(('k, 'v cache_entry) hash_entry \<times> 'x) list \<Rightarrow> nat" where
  "units_of ws = sum_list (map (\<lambda>w. unat (walk_units w)) ws)"

lemma units_of_simps [simp]: "units_of [] = 0" "units_of (w # ws) = unat (walk_units w) + units_of ws"
  by (simp_all add: units_of_def)

lemma units_of_word: "word_of_nat (units_of ws) = sum_list (map walk_units ws)"
  by (induction ws) simp_all

lemma hybrid_low:
  assumes "unat cCur = nLow + units_of (filter (\<lambda>w. q < prio w) ws) + units_of (filter (\<lambda>w. prio w = q) ws) + nKept"
    and "a = word_of_nat (nLow + nKept + units_of (filter (\<lambda>w. prio w = q) ws)) - cMin"
    and "nKept = 0 \<or> a = 0" and "nLow \<le> unat cMin"
  shows "cCur - sum_list (map (ce_units \<circ> he_value) (hybrid_discards prio cMin q ws a cCur)) \<le> cMin"
  using assms
proof (induction ws arbitrary: a cCur nKept)
  case Nil
  show ?case
  proof (cases "nKept = 0")
    case True
    then show ?thesis using Nil by (simp add: word_le_nat_alt)
  next
    case False
    have "word_of_nat (unat cCur) = cMin" using Nil False by simp
    then show ?thesis by simp
  qed
next
  case (Cons w ws)
  let ?u = "walk_units w"
  show ?case
  proof (cases "cMin < cCur")
    case high: True
    consider (above) "q < prio w" | (kept) "prio w = q" "a = 0" | (at) "prio w = q" "a \<noteq> 0" | (below) "prio w < q" by linarith
    then show ?thesis
    proof cases
      case above
      have sub: "unat (cCur - ?u) = unat cCur - unat ?u" using Cons.prems(1) above by (simp add: unat_sub word_le_nat_alt)
      have "cCur - ?u - sum_list (map (ce_units \<circ> he_value) (hybrid_discards prio cMin q ws a (cCur - ?u))) \<le> cMin"
        by (rule Cons.IH [where nKept = nKept]) (use Cons.prems high above sub in simp_all)
      then show ?thesis using high above by (simp add: Let_def diff_diff_eq o_def)
    next
      case kept
      have "cCur - sum_list (map (ce_units \<circ> he_value) (hybrid_discards prio cMin q ws a cCur)) \<le> cMin"
        by (rule Cons.IH [where nKept = "nKept + unat ?u"]) (use Cons.prems high kept in \<open>simp_all add: add.assoc add.left_commute\<close>)
      then show ?thesis using high kept by (simp add: Let_def o_def)
    next
      case at
      have sub: "unat (cCur - ?u) = unat cCur - unat ?u" using Cons.prems(1) at by (simp add: unat_sub word_le_nat_alt)
      have "cCur - ?u - sum_list (map (ce_units \<circ> he_value) (hybrid_discards prio cMin q ws (a - ?u) (cCur - ?u))) \<le> cMin"
        by (rule Cons.IH [where nKept = nKept]) (use Cons.prems high at sub in \<open>simp_all add: algebra_simps\<close>)
      then show ?thesis using high at by (simp add: Let_def diff_diff_eq o_def)
    next
      case below
      have "cCur - sum_list (map (ce_units \<circ> he_value) (hybrid_discards prio cMin q ws a cCur)) \<le> cMin"
        by (rule Cons.IH [where nKept = nKept]) (use Cons.prems high below in simp_all)
      then show ?thesis using high below by (simp add: Let_def o_def)
    qed
  qed simp
qed

section \<open>The histogram and the cut-off\<close>

lemma take_add: "p < length us \<Longrightarrow> sum_list (take n (us[p := us ! p + u])) = sum_list (take n us) + (if p < n then u else 0)"
  for u :: "32 word"
proof (induction us arbitrary: n p)
  case (Cons x us)
  then show ?case by (cases n; cases p) (auto simp: add.assoc add.left_commute)
qed simp

lemma fold_units:
  fixes prio :: "('k, 'v cache_entry) hash_entry \<times> 'v cache_entry option \<Rightarrow> int"
  assumes "length us = 11"
  shows "length (fold (\<lambda>w us. let p = nat (max 0 (min (prio w) 10)) in us[p := us ! p + walk_units w]) ws us) = 11 \<and>
    sum_list (take n (fold (\<lambda>w us. let p = nat (max 0 (min (prio w) 10)) in us[p := us ! p + walk_units w]) ws us)) =
      sum_list (take n us) + sum_list (map walk_units (filter (\<lambda>w. nat (max 0 (min (prio w) 10)) < n) ws))"
  using assms
proof (induction ws arbitrary: us)
  case (Cons w ws)
  let ?p = "nat (max 0 (min (prio w) 10))"
  have len: "length (us[?p := us ! ?p + walk_units w]) = 11" using Cons.prems by simp
  show ?case using Cons.IH [OF len] take_add [of ?p us n "walk_units w"] Cons.prems
    by (auto simp: Let_def add.assoc)
qed simp

lemma priority_units_law:
  "length (priority_units prio ws) = 11"
  "sum_list (take n (priority_units prio ws)) = sum_list (map walk_units (filter (\<lambda>w. nat (max 0 (min (prio w) 10)) < n) ws))"
  using fold_units [of "replicate 11 0" prio ws n]
  by (simp_all add: priority_units_def sum_list_replicate take_replicate)

lemma cut_off_law:
  assumes "cut_off cMin us p cTotal = (q, cEnd)" and "cTotal \<le> cMin"
  shows "\<exists>n \<le> length us. q = p + int n \<and> cEnd = cTotal + sum_list (take (Suc n) us) \<and> cTotal + sum_list (take n us) \<le> cMin"
  using assms
proof (induction cMin us p cTotal rule: cut_off.induct)
  case (2 cMin u us p cTotal)
  show ?case
  proof (cases "cMin < cTotal + u")
    case True
    then show ?thesis using 2(2,3) by (intro exI [of _ 0]) (simp add: Let_def)
  next
    case False
    have "\<exists>n \<le> length us. q = p + 1 + int n \<and> cEnd = cTotal + u + sum_list (take (Suc n) us) \<and>
        cTotal + u + sum_list (take n us) \<le> cMin"
      by (rule "2.IH" [OF refl False]) (use 2(2) False in \<open>simp_all add: Let_def\<close>)
    then obtain n where "n \<le> length us" "q = p + 1 + int n" "cEnd = cTotal + u + sum_list (take (Suc n) us)"
      "cTotal + u + sum_list (take n us) \<le> cMin" by blast
    then show ?thesis by (intro exI [of _ "Suc n"]) (simp add: add.assoc)
  qed
qed simp

text \<open>The sum of a part of the entries, as a number.\<close>

lemma units_of_filter: "units_of ws < 2 ^ 32 \<Longrightarrow> unat (sum_list (map walk_units (filter P ws))) = units_of (filter P ws)"
proof -
  assume "units_of ws < 2 ^ 32"
  moreover have "units_of (filter P ws) \<le> units_of ws" by (induction ws) simp_all
  ultimately show ?thesis unfolding units_of_word [symmetric] by (simp add: unat_of_nat)
qed

lemma units_of_split: "units_of (filter (\<lambda>w. q < prio w) ws) + units_of (filter (\<lambda>w. prio w = q) ws) +
    units_of (filter (\<lambda>w. prio w < q) ws) = units_of ws" for q :: int
  by (induction ws) (auto simp: not_less)

lemma units_of_le: "units_of (filter (\<lambda>w. prio w \<le> q) ws) =
    units_of (filter (\<lambda>w. prio w < q) ws) + units_of (filter (\<lambda>w. prio w = q) ws)" for q :: int
  by (induction ws) auto

lemma hybrid_bound:
  assumes cut: "cut_off cMin (priority_units prio ws) 0 0 = (q, cEnd)" and cur: "unat cCur = units_of ws"
    and prio: "\<And>w. 0 \<le> prio w \<and> prio w \<le> 10"
  shows "cCur - sum_list (map (ce_units \<circ> he_value) (hybrid_discards prio cMin q ws (cEnd - cMin) cCur)) \<le> cMin"
proof -
  have "unat cCur < 2 ^ 32" using unsigned_less [of cCur] by simp
  then have small: "units_of ws < 2 ^ 32" using cur by simp
  obtain n where n: "q = int n" "cEnd = sum_list (take (Suc n) (priority_units prio ws))"
    "sum_list (take n (priority_units prio ws)) \<le> cMin"
    using cut_off_law [OF cut] by auto
  have "nat (max 0 (min (prio w) 10)) < m \<longleftrightarrow> prio w < int m" for w m using prio [of w] by auto
  then have take: "sum_list (take m (priority_units prio ws)) = sum_list (map walk_units (filter (\<lambda>w. prio w < int m) ws))" for m
    by (simp add: priority_units_law(2))
  have low: "units_of (filter (\<lambda>w. prio w < q) ws) \<le> unat cMin"
    using n(1,3) by (simp add: take word_le_nat_alt units_of_filter [OF small])
  have "cEnd = word_of_nat (units_of (filter (\<lambda>w. prio w \<le> q) ws))"
    using n(1,2) zle_add1_eq_le [of _ q] by (simp add: take units_of_word add.commute)
  then have "cEnd - cMin = word_of_nat (units_of (filter (\<lambda>w. prio w < q) ws) + 0 + units_of (filter (\<lambda>w. prio w = q) ws)) - cMin"
    by (simp add: units_of_le)
  from hybrid_low [OF _ this _ low, of cCur] show ?thesis using cur units_of_split [of q prio ws] by simp
qed

section \<open>The prune\<close>

definition touched :: "('k, 'v) old_cache \<Rightarrow> ('k, 'v) old_cache" where
  "touched c = c\<lparr>oc_avg_touch := (oc_puts c + (oc_hits c + oc_misses c)) div ((int (hm_size (oc_map c)) + 1) * (oc_prunes c + 1))\<rparr>"

lemma touched_core: "same_core c (touched c)"
  by (simp add: touched_def same_core_def)

lemma touched_fields [simp]: "oc_prune_units (touched c) = oc_prune_units c" "oc_map (touched c) = oc_map c"
  "oc_cur_units (touched c) = oc_cur_units c" "oc_max_units (touched c) = oc_max_units c"
  "oc_eviction (touched c) = oc_eviction c" "oc_calculator (touched c) = oc_calculator c"
  "oc_expiry_delay (touched c) = oc_expiry_delay c"
  by (simp_all add: touched_def)

lemma priority_range: "0 \<le> get_priority env now c e nxt" "get_priority env now c e nxt \<le> 10"
proof -
  show "0 \<le> get_priority env now c e nxt" by (simp add: get_priority_def Let_def)
  note bound = index_of_msb_bound [of "oc_recentness env (now - ce_last_use e) (now - oc_last_prune c)"]
    index_of_msb_bound [of "oc_frequency env (2 * ce_uses e - oc_avg_touch c) (oc_avg_touch c)"]
  show "get_priority env now c e nxt \<le> 10"
    using bound by (cases nxt) (simp_all add: get_priority_def Let_def min_def)
qed

lemma live_walk_entries: "map fst (live_walk now c) = live_entries now c"
proof -
  have "map fst (live_walk now c) = map fst (filter (\<lambda>p. \<not> is_expired now (he_value (fst p))) (hm_walk (oc_map c)))"
    by (simp add: live_walk_def case_prod_unfold o_def)
  then show ?thesis by (simp add: live_entries_def hm_walk_entries [symmetric] filter_map o_def)
qed

text \<open>The drops of a prune by priority: those at the cut-off and above.\<close>

lemma prune_hybrid_drops:
  assumes "cache_ok env c"
  obtains ds where "prune_hybrid env now c = drops env ds (touched c)"
    and "set ds \<subseteq> set (live_entries now c)" and "distinct (map he_key ds)"
    and "unat (oc_cur_units c) = units_of (live_walk now c) \<Longrightarrow>
      oc_cur_units c - sum_list (map (ce_units \<circ> he_value) ds) \<le> oc_prune_units c"
proof -
  let ?ws = "live_walk now c" let ?prio = "\<lambda>(he, nxt). get_priority env now (touched c) (he_value he) nxt"
  let ?cMin = "oc_prune_units c"
  obtain q cEnd where cut: "cut_off ?cMin (priority_units ?prio ?ws) 0 0 = (q, cEnd)" by force
  let ?ds = "hybrid_discards ?prio ?cMin q ?ws (cEnd - ?cMin) (oc_cur_units c)"
  have walk: "live_walk now (touched c) = live_walk now c" by (simp add: live_walk_def)
  have ds: "set ?ds \<subseteq> set (live_entries now c)"
    using discards_part [of ?prio ?cMin q ?ws "cEnd - ?cMin" "oc_cur_units c"]
    unfolding live_walk_entries [symmetric, of now c] by force
  then have fit: "entry_fit env he" if "he \<in> set ?ds" for he
    using that live_entries_law(1) [OF assms, of now] cache_entries(1) [OF assms] by blast
  have ok: "hm_ok (oc_table env) (oc_map (touched c))" using assms by (simp add: cache_ok_def)
  have "prune_hybrid env now c =
      fold (\<lambda>he. remove_expired env he False) ?ds ((touched c)\<lparr>oc_map := fold hm_remove_entry_internal ?ds (oc_map (touched c))\<rparr>)"
    using cut walk by (simp add: prune_hybrid_def Let_def touched_def [symmetric])
  then have eq: "prune_hybrid env now c = drops env ?ds (touched c)" by (simp only: deferred_drops [OF ok fit])
  have distinct: "distinct (map he_key ?ds)"
    by (rule discards_distinct) (use live_entries_law(2) [OF assms, of now] live_walk_entries [of now c] in simp)
  show thesis
  proof (rule that [OF eq ds distinct])
    assume cur: "unat (oc_cur_units c) = units_of ?ws"
    show "oc_cur_units c - sum_list (map (ce_units \<circ> he_value) ?ds) \<le> ?cMin"
      by (rule hybrid_bound [OF cut cur]) (use priority_range in auto)
  qed
qed

end
