(* ===== verification/Cache_Steps.thy ===== *)
theory Cache_Steps
  imports Cache_Hybrid
begin

text \<open>
  Every operation of the cache is a sequence of effects, and what each of them does to the
  entry of a key.
\<close>

section \<open>Sequences of effects\<close>

definition leads :: "('k, 'v) oc_env \<Rightarrow> ('k, 'v) room \<Rightarrow> ('k, 'v) old_cache \<Rightarrow> ('k, 'v) old_cache \<Rightarrow> bool" where
  "leads env room c d \<longleftrightarrow> (env_ok env \<longrightarrow> cache_ok env c \<longrightarrow> effects env room c d)"

lemma leads_refl [intro, simp]: "leads env room c c"
  by (simp add: leads_def)

lemma leads_trans [trans]: "leads env room c d \<Longrightarrow> leads env room d e \<Longrightarrow> leads env room c e"
  unfolding leads_def by (meson effects_cache_ok rtranclp_trans)

lemma leadsI: "(cache_ok env c \<Longrightarrow> effects env room c d) \<Longrightarrow> leads env room c d"
  by (simp add: leads_def)

lemma leads_core: "same_core c d \<Longrightarrow> leads env room c d"
  by (intro leadsI core_effect)

lemma leads_effect: "(cache_ok env c \<Longrightarrow> effect env room c d) \<Longrightarrow> leads env room c d"
  by (blast intro: leadsI)

lemma leads_before: "same_core c d \<Longrightarrow> leads env room d e \<Longrightarrow> leads env room c e"
  by (rule leads_trans [OF leads_core])

lemma leads_after: "leads env room c d \<Longrightarrow> same_core d e \<Longrightarrow> leads env room c e"
  by (rule leads_trans [OF _ leads_core])

lemma leads_cache_ok: "leads env room c d \<Longrightarrow> env_ok env \<Longrightarrow> cache_ok env c \<Longrightarrow> cache_ok env d"
  unfolding leads_def by (blast intro: effects_cache_ok)

lemma leads_units_ok:
  "leads env (units_room env) c d \<Longrightarrow> env_ok env \<Longrightarrow> cache_ok env c \<Longrightarrow> units_ok env c \<Longrightarrow> steady env c \<Longrightarrow> units_ok env d \<and> steady env d"
  unfolding leads_def by (blast dest: effects_units_ok)

lemma leads_drain:
  "leads env no_room c d \<Longrightarrow> env_ok env \<Longrightarrow> cache_ok env c \<Longrightarrow> units_ok env c \<Longrightarrow> steady env c \<Longrightarrow> oc_cur_units d \<le> oc_cur_units c"
  unfolding leads_def by (blast dest: effects_drain)

lemma leads_fold: "(\<And>x c. leads env room c (f x c)) \<Longrightarrow> leads env room c (fold f xs c)"
  by (induction xs arbitrary: c) (auto intro: leads_trans)

lemma leads_listening:
  assumes "leads env room c d" and "env_ok env" and "cache_ok env c"
  shows "oc_listening d = oc_listening c \<and> oc_calculator d = oc_calculator c"
proof -
  have "effects env room c d" using assms by (simp add: leads_def)
  then show ?thesis by (induction rule: rtranclp_induct) (auto dest: effect_listening)
qed

section \<open>Looking up, expiring and evicting\<close>

lemma get_internal_law:
  assumes "cache_ok env c"
  shows "oc_get_entry_internal env now k c =
    (case hm_get_entry_internal (oc_table env) k (oc_map c) of
       None \<Rightarrow> (None, c) | Some he \<Rightarrow> if is_expired now (he_value he) then (None, drop_one env he c) else (Some he, c))"
  using find_fit [OF assms] by (auto simp: oc_get_entry_internal_def remove_expired_drop split: option.split)

lemma found_entry:
  assumes "oc_get_entry_internal env now k c = (Some he, d)"
  shows "d = c" and "he_key he = k" and "he_hash he = hm_hash (oc_table env) k"
    and "oc_look env k c = Some (he_value he)" and "\<not> is_expired now (he_value he)"
    and "cache_ok env c \<Longrightarrow> entry_fit env he"
proof -
  have f: "hm_get_entry_internal (oc_table env) k (oc_map c) = Some he" "d = c" "\<not> is_expired now (he_value he)"
    using assms by (auto simp: oc_get_entry_internal_def split: option.splits if_splits)
  then show "d = c" "he_key he = k" "he_hash he = hm_hash (oc_table env) k"
    "oc_look env k c = Some (he_value he)" "\<not> is_expired now (he_value he)"
    using find_entry [OF f(1)] by simp_all
  show "cache_ok env c \<Longrightarrow> entry_fit env he" by (rule find_fit [OF _ f(1)])
qed

lemma drop_found: "hm_get_entry_internal (oc_table env) k (oc_map c) = Some he \<Longrightarrow> effect env room c (drop_one env he c)"
  by (rule drop_one_effect) (use find_entry in metis)

lemma get_internal_leads: "leads env room c (snd (oc_get_entry_internal env now k c))"
  by (rule leadsI) (auto simp: get_internal_law split: option.split intro: drop_found)

lemma get_internal_look:
  assumes "cache_ok env c" and "oc_get_entry_internal env now k c = (found, d)"
  shows "oc_look env j d = (if j = k \<and> found = None then None else oc_look env j c)"
    and "map_option he_value found = (case oc_look env k c of None \<Rightarrow> None | Some e \<Rightarrow> if is_expired now e then None else Some e)"
proof -
  have ok: "hm_ok (oc_table env) (oc_map c)" using assms(1) by (simp add: cache_ok_def)
  have one: "oc_look env j (drop_one env he c) = (if j = he_key he then None else oc_look env j c)" for he
    using drops_look(2) [OF ok, where hes = "[he]"] by simp
  show "oc_look env j d = (if j = k \<and> found = None then None else oc_look env j c)"
  proof (cases "hm_get_entry_internal (oc_table env) k (oc_map c)")
    case None
    then have "oc_look env k c = None" by (simp add: hm_get_def)
    then show ?thesis using assms(2) None by (auto simp: get_internal_law [OF assms(1)])
  next
    case (Some he)
    have "he_key he = k" by (rule find_entry(1) [OF Some])
    then show ?thesis using assms(2) Some one [of he] by (auto simp: get_internal_law [OF assms(1)] split: if_splits)
  qed
  show "map_option he_value found = (case oc_look env k c of None \<Rightarrow> None | Some e \<Rightarrow> if is_expired now e then None else Some e)"
  proof (cases "hm_get_entry_internal (oc_table env) k (oc_map c)")
    case None
    then show ?thesis using assms(2) by (auto simp: get_internal_law [OF assms(1)] hm_get_def)
  next
    case (Some he)
    then have look: "oc_look env k c = Some (he_value he)" by (simp add: hm_get_def)
    have "found = (if is_expired now (he_value he) then None else Some he)"
      using assms(2) unfolding get_internal_law [OF assms(1)] Some by (simp split: if_splits)
    then show ?thesis by (simp add: look)
  qed
qed

lemma evict_expired_leads: "leads env room c (oc_evict_expired env now c)"
  by (intro leadsI evict_expired_effects)

lemma check_flush_leads: "leads env room c (check_flush env now c)"
  by (simp add: check_flush_def evict_expired_leads)

lemma remove_found:
  assumes "oc_get_entry_internal env now k c = (Some he, d)"
  shows "leads env room d (remove_expired env he True d)"
proof (rule leadsI)
  note f = found_entry [OF assms]
  assume "cache_ok env d"
  then have fit: "entry_fit env he" and look: "oc_look env (he_key he) d = Some (he_value he)" using f by simp_all
  show "effects env room d (remove_expired env he True d)"
    unfolding remove_expired_drop [OF fit] by (rule r_into_rtranclp) (rule drop_one_effect [OF look])
qed

lemma evict_leads: "leads env room c (oc_evict env now k c)"
proof -
  obtain found d where g: "oc_get_entry_internal env now k c = (found, d)" by force
  have "leads env room c d" using get_internal_leads [of env room c now k] by (simp add: g)
  moreover have "found = Some he \<Longrightarrow> leads env room d (remove_expired env he True d)" for he
    using remove_found [of env now k c he d room] by (simp add: g)
  ultimately show ?thesis by (cases found) (auto simp: oc_evict_def g intro: leads_trans)
qed

lemma evict_all_leads: "leads env room c (oc_evict_all env now ks c)"
  unfolding oc_evict_all_def by (rule leads_fold) (rule evict_leads)

section \<open>Pruning\<close>

lemma prune_hybrid_leads: "leads env room c (prune_hybrid env now c)"
proof (rule leadsI)
  assume ok: "cache_ok env c"
  obtain ds where ds: "prune_hybrid env now c = drops env ds (touched c)" "set ds \<subseteq> set (live_entries now c)"
    "distinct (map he_key ds)"
    by (rule prune_hybrid_drops [OF ok])
  have "cache_ok env (touched c)" by (rule same_core_ok [OF touched_core ok])
  then have "effects env room (touched c) (drops env ds (touched c))"
    by (rule drop_entries_effects) (use ds(2,3) live_entries_law(1) [OF ok, of now] in auto)
  with core_effect [OF touched_core] show "effects env room c (prune_hybrid env now c)"
    unfolding ds(1) by (rule rtranclp_trans)
qed

lemma reset_leads: "leads env room c (c\<lparr>oc_map := hm_change_all reset_touch_count (oc_map c)\<rparr>)"
  by (rule leads_effect) (rule effect.change_all, simp)

lemma end_core [simp]: "same_core c (c\<lparr>oc_prunes := n, oc_last_prune := t\<rparr>)"
  by (simp add: same_core_def)

lemma prune_leads: "leads env room c (oc_prune env now c)"
proof -
  define c1 where "c1 = oc_evict_expired env now c"
  define d where "d = (case oc_eviction c1 of
      HybridPolicy \<Rightarrow> prune_hybrid env now c1 | LruPolicy \<Rightarrow> prune_ordered env now True c1
    | LfuPolicy \<Rightarrow> prune_ordered env now False c1
    | ExternalPolicy \<Rightarrow> oc_evict_all env now (oc_request_eviction env (oc_prune_units c1) c1) c1)"
  define r where "r = (if oc_eviction c1 = HybridPolicy \<or> oc_eviction c1 = LfuPolicy
    then d\<lparr>oc_map := hm_change_all reset_touch_count (oc_map d)\<rparr> else d)"
  have "leads env room c c1" unfolding c1_def by (rule evict_expired_leads)
  also have "leads env room c1 d"
    unfolding d_def
    by (cases "oc_eviction c1") (simp_all add: prune_hybrid_leads evict_all_leads leadsI prune_ordered_effects)
  also have "leads env room d r" unfolding r_def by (simp add: reset_leads)
  also have "leads env room r (r\<lparr>oc_prunes := oc_prunes r + 1, oc_last_prune := now\<rparr>)" by (rule leads_core) simp
  finally have "leads env room c (r\<lparr>oc_prunes := oc_prunes r + 1, oc_last_prune := now\<rparr>)" .
  then show ?thesis using \<open>leads env room c c1\<close>
    by (simp add: oc_prune_def Let_def c1_def [symmetric] d_def [symmetric] r_def [symmetric])
qed

lemma check_size_leads: "leads env room c (check_size env now c)"
  by (simp add: check_size_def prune_leads)

section \<open>The operations of the map\<close>

lemma size_leads: "leads env room c (snd (oc_size env now c))"
  by (simp add: oc_size_def Let_def check_flush_leads)

lemma flushed_get_leads: "leads env room c (snd (oc_get_entry_internal env now k (check_flush env now c)))"
  by (rule leads_trans [OF check_flush_leads get_internal_leads])

lemma contains_key_leads: "leads env room c (snd (oc_contains_key env now k c))"
  using flushed_get_leads [of env room c now k] by (simp add: oc_contains_key_def case_prod_unfold)

lemma change_leads: "(\<And>e. ce_value (f e) = ce_value e \<and> ce_units (f e) = ce_units e) \<Longrightarrow> leads env room c (change_entry env k f c)"
  by (rule leads_effect) (rule effect.change)

lemma stat_core [simp]: "same_core c (c\<lparr>oc_hits := h\<rparr>)" "same_core c (c\<lparr>oc_misses := h\<rparr>)" "same_core c (c\<lparr>oc_puts := h\<rparr>)"
  "same_core c (c\<lparr>oc_flush_delay := t\<rparr>)" "same_core c (oc_reset_hit_statistics c)"
  "same_core c (c\<lparr>oc_max_units := u\<rparr>)" "same_core c (c\<lparr>oc_prune_units := u\<rparr>)" "same_core c (oc_set_expiry_delay t c)"
  by (simp_all add: same_core_def oc_reset_hit_statistics_def oc_set_expiry_delay_def)

lemma get_entry_leads: "leads env room c (snd (oc_get_entry env now k c))"
proof -
  obtain found d where g: "oc_get_entry_internal env now k (check_flush env now c) = (found, d)" by force
  have d: "leads env room c d" using flushed_get_leads [of env room c now k] by (simp add: g)
  show ?thesis
  proof (cases found)
    case None
    then show ?thesis using leads_after [OF d] by (simp add: oc_get_entry_def g)
  next
    case (Some he)
    have "leads env room (d\<lparr>oc_hits := n\<rparr>) (change_entry env k (entry_touch now) (d\<lparr>oc_hits := n\<rparr>))" for n
      by (rule change_leads) simp
    then show ?thesis using Some leads_trans [OF leads_after [OF d stat_core(1)], of "oc_hits d + 1"] by (simp add: oc_get_entry_def g)
  qed
qed

lemma get_leads: "leads env room c (snd (oc_get env now k c))"
  using get_entry_leads [of env room c now k] by (simp add: oc_get_def case_prod_unfold)

lemma put_expiry_leads: "leads env room c (oc_put_expiry env now k cMillis c)"
proof -
  let ?d = "change_entry env k (\<lambda>e. e\<lparr>ce_expiry := (if 0 < cMillis then now + cMillis else 0)\<rparr>) c"
  have d: "leads env room c ?d" by (rule change_leads) simp
  have "leads env room c (schedule_flush now (?d\<lparr>oc_flush_delay := default_flush\<rparr>))"
    by (rule leads_after [OF leads_after [OF d stat_core(4)] flush_core(1)])
  then show ?thesis using d by (auto simp: oc_put_expiry_def Let_def split: option.split)
qed

lemma put_size_leads: "leads env room c (snd (oc_put_size env now k ohOrig c))"
proof -
  obtain found d where g: "oc_get_entry_internal env now k (oc_prune env now c) = (found, d)" by force
  have "leads env room c (snd (oc_get_entry_internal env now k (oc_prune env now c)))"
    by (rule leads_trans [OF prune_leads get_internal_leads])
  then have "leads env room c d" by (simp add: g)
  then show ?thesis by (cases found) (simp_all add: oc_put_size_def g)
qed

lemma put_finish_leads: "leads env room c (snd (oc_put_finish env now k cMillis ohOrig c))"
proof -
  obtain r d where g: "oc_put_size env now k ohOrig (oc_put_expiry env now k cMillis c) = (r, d)" by force
  have "leads env room c (snd (oc_put_size env now k ohOrig (oc_put_expiry env now k cMillis c)))"
    by (rule leads_trans [OF put_expiry_leads put_size_leads])
  then have "leads env room c d" by (simp add: g)
  then show ?thesis using leads_after [OF _ stat_core(3)] by (simp add: oc_put_finish_def g)
qed

text \<open>What a flush and a lookup leave is a part of what was there.\<close>

lemma check_flush_look:
  assumes "cache_ok env c"
  shows "oc_look env k (check_flush env now c) =
    (if oc_next_flush c < now then (case oc_look env k c of None \<Rightarrow> None | Some e \<Rightarrow> if is_expired now e then None else Some e)
     else oc_look env k c)"
  by (simp add: check_flush_def evict_expired_look [OF assms])

lemma flushed_get:
  assumes "env_ok env" and "cache_ok env c" and "oc_get_entry_internal env now k (check_flush env now c) = (found, d)"
  shows "cache_ok env d" and "oc_look env j d = Some e \<Longrightarrow> oc_look env j c = Some e"
    and "found = None \<Longrightarrow> oc_look env k d = None"
    and "map_option he_value found = (case oc_look env k c of None \<Rightarrow> None | Some e \<Rightarrow> if is_expired now e then None else Some e)"
proof -
  have ok: "cache_ok env (check_flush env now c)" by (rule leads_cache_ok [OF check_flush_leads assms(1,2)])
  show "cache_ok env d" using leads_cache_ok [OF get_internal_leads assms(1) ok] assms(3) by (metis snd_conv)
  note look = get_internal_look [OF ok assms(3)] check_flush_look [OF assms(2)]
  show "oc_look env j d = Some e \<Longrightarrow> oc_look env j c = Some e"
    using look(1) [of j] look(3) [of j now] by (auto split: if_splits option.splits)
  show "found = None \<Longrightarrow> oc_look env k d = None" using look(1) by simp
  show "map_option he_value found = (case oc_look env k c of None \<Rightarrow> None | Some e \<Rightarrow> if is_expired now e then None else Some e)"
    using look(2,3) by (auto split: option.splits if_splits)
qed

text \<open>What may be put, where a put comes to add it.\<close>

definition put_room :: "('k, 'v) oc_env \<Rightarrow> ('k, 'v) room \<Rightarrow> int \<Rightarrow> ('k, 'v) room" where
  "put_room env room now k v c \<longleftrightarrow> room k v (snd (oc_get_entry_internal env now k (check_flush env now c)))"

lemma put_units_room:
  assumes "env_ok env" and "cache_ok env c" and "units_ok env c" and "steady env c" and "units_room env k v c"
  shows "put_room env (units_room env) now k v c"
proof -
  let ?d = "snd (oc_get_entry_internal env now k (check_flush env now c))"
  have leads: "leads env no_room c ?d" by (rule flushed_get_leads)
  then have "oc_cur_units ?d \<le> oc_cur_units c" by (rule leads_drain [OF _ assms(1-4)])
  moreover have "oc_calculator ?d = oc_calculator c" using leads_listening [OF leads assms(1,2)] by simp
  ultimately show ?thesis using assms(5) calculate_units_cong [of ?d c env]
    by (simp add: put_room_def units_room_def word_le_nat_alt)
qed

section \<open>Removing and clearing\<close>

lemma remove_leads: "leads env room c (snd (oc_remove env now k c))"
proof -
  obtain found d where g: "oc_get_entry_internal env now k (check_flush env now c) = (found, d)" by force
  have d: "leads env room c d" using flushed_get_leads [of env room c now k] by (simp add: g)
  show ?thesis
  proof (cases found)
    case None
    then show ?thesis using d by (simp add: oc_remove_def g)
  next
    case (Some he)
    have "remove_expired env he True d = snd (oc_remove env now k c)"
      by (simp add: oc_remove_def g Some remove_expired_def Let_def)
    then show ?thesis using leads_trans [OF d remove_found [OF g [unfolded Some], of room]] found_entry(1) [OF g [unfolded Some]] by simp
  qed
qed

lemma drops_any_map: "(drops env hes (c\<lparr>oc_map := m'\<rparr>))\<lparr>oc_map := m\<rparr> = (drops env hes c)\<lparr>oc_map := m\<rparr>"
  by (simp add: drops_eq)

lemma clear_fold:
  assumes "\<And>he. he \<in> set hes \<Longrightarrow> entry_fit env he"
  shows "\<exists>m. fold (\<lambda>he c. if is_expired now (he_value he) then remove_expired env he True c else entry_discard env he c) hes c =
    (drops env hes c)\<lparr>oc_map := m\<rparr>"
  using assms
proof (induction hes arbitrary: c)
  case Nil
  show ?case by (intro exI [of _ "oc_map c"]) simp
next
  case (Cons he hes)
  let ?s = "if is_expired now (he_value he) then remove_expired env he True c else entry_discard env he c"
  have fit: "entry_fit env he" using Cons.prems by simp
  have "?s = (drop_one env he c)\<lparr>oc_map := oc_map ?s\<rparr>"
    by (simp add: remove_expired_drop [OF fit] entry_discard_eq [OF fit] drop_one_def)
  then obtain m where m: "?s = (drop_one env he c)\<lparr>oc_map := m\<rparr>" ..
  show ?case using Cons.IH [of ?s] Cons.prems by (auto simp: m drops_any_map)
qed

lemma clear_eq:
  assumes "cache_ok env c"
  shows "oc_clear env now c = schedule_flush now (oc_reset_hit_statistics
    ((drops env (hm_to_array (oc_map c)) (defer_flush c))\<lparr>oc_cur_units := 0, oc_map := hm_clear (oc_table env) (oc_map c)\<rparr>))"
proof -
  have m: "oc_map (defer_flush c) = oc_map c" by (simp add: defer_flush_def)
  have clear: "hm_clear e m' = hm_clear e m''" for e :: "'a hm_env" and m' m'' :: "('a, 'b cache_entry) hash_map"
    by (simp add: hm_clear_def)
  show ?thesis
    using clear_fold [of "hm_to_array (oc_map c)" env now "defer_flush c"] cache_entries(1) [OF assms]
    by (auto simp: oc_clear_def Let_def m intro!: arg_cong [where f = "schedule_flush now"] arg_cong [where f = oc_reset_hit_statistics])
      (simp add: hm_clear_def)
qed

lemma clear_leads: "leads env room c (oc_clear env now c)"
proof (rule leadsI)
  assume ok: "cache_ok env c"
  let ?hes = "hm_to_array (oc_map c)" let ?f = "defer_flush c"
  have table: "hm_ok (oc_table env) (oc_map c)" using ok by (simp add: cache_ok_def)
  have m: "oc_map ?f = oc_map c" by (simp add: defer_flush_def)
  have okf: "cache_ok env ?f" by (rule same_core_ok [OF flush_core(2) ok])
  let ?d = "drops env ?hes ?f"
  have "effects env room ?f ?d"
    by (rule drop_entries_effects [OF okf]) (use table_entries(1) [OF table] in \<open>simp_all add: m\<close>)
  with core_effect [OF flush_core(2)] have d: "effects env room c ?d" by (rule rtranclp_trans)
  have none: "oc_look env k ?d = None" for k
    using drops_look(2) [of env ?f k ?hes] table_entries(4) [OF table, of k] table m
    by (cases "oc_look env k c") auto
  have "effect env room ?d (?d\<lparr>oc_cur_units := 0\<rparr>)" by (rule effect.empty) (rule none)
  moreover have "effect env room (?d\<lparr>oc_cur_units := 0\<rparr>) (?d\<lparr>oc_cur_units := 0\<rparr>\<lparr>oc_map := hm_clear (oc_table env) (oc_map c)\<rparr>)"
    by (rule effect.rebuild) (simp_all add: hm_clear_law none)
  ultimately have "effects env room c (?d\<lparr>oc_cur_units := 0\<rparr>\<lparr>oc_map := hm_clear (oc_table env) (oc_map c)\<rparr>)"
    using d by (meson rtranclp.rtrancl_into_rtrancl)
  from effects_core [OF effects_core [OF this stat_core(5)] flush_core(1)]
  show "effects env room c (oc_clear env now c)" unfolding clear_eq [OF ok] .
qed

section \<open>Configuration and the arrays\<close>

lemma set_low_units_leads: "leads env room c (snd (oc_set_low_units env cUnits c))"
  by (simp add: oc_set_low_units_def leads_core)

lemma set_high_units_leads: "leads env room c (snd (oc_set_high_units env now cMax c))"
proof -
  let ?b = "c\<lparr>oc_max_units := cMax\<rparr>"
  obtain r d where d: "oc_set_low_units env (oc_prune_part env cMax) ?b = (r, d)" by force
  have "leads env room c ?b" by (rule leads_core) simp
  then have "leads env room c d"
    using leads_trans set_low_units_leads [of env room ?b "oc_prune_part env cMax"] by (metis d snd_conv)
  then show ?thesis
    using leads_trans [OF _ check_size_leads] by (cases r) (auto simp: oc_set_high_units_def Let_def d)
qed

lemma set_delays_leads: "leads env room c (oc_set_flush_delay now cMillis c)" "leads env room c (oc_set_expiry_delay cMillis c)"
  using leads_after [OF leads_core [OF stat_core(4)] flush_core(1)]
  by (simp_all add: oc_set_flush_delay_def leads_core)

lemma set_flush_time_leads: "leads env room c (oc_set_flush_time env now t c)"
  unfolding oc_set_flush_time_def by (rule leads_before [OF _ check_flush_leads]) (simp add: same_core_def)

lemma set_eviction_type_leads: "leads env room c (snd (oc_set_eviction_type nType c))"
  by (simp add: oc_set_eviction_type_def leads_core same_core_def)

lemma sweep_leads: "leads env room c (snd (oc_sweep env now c))"
proof (rule leadsI)
  assume ok: "cache_ok env c"
  have "snd (oc_sweep env now c) = drops env (expired_entries now c) c"
    using remove_where_drops [of "hm_to_array (oc_map c)" env "\<lambda>he. is_expired now (he_value he)" c] cache_entries(1) [OF ok]
    by (simp add: oc_sweep_def Let_def expired_entries_def)
  moreover have "distinct (map he_key (expired_entries now c))"
    using table_entries(1) ok by (auto simp: expired_entries_def cache_ok_def intro: distinct_map_filter)
  ultimately show "effects env room c (snd (oc_sweep env now c))"
    by (simp add: drop_entries_effects [OF ok] expired_entries_def)
qed

lemma arrays_leads: "leads env room c (snd (oc_key_array env now c))" "leads env room c (snd (oc_values_array env now c))"
  "leads env room c (snd (oc_entry_array env now c))"
  using leads_trans [OF size_leads sweep_leads]
  by (simp_all add: oc_key_array_def oc_values_array_def oc_entry_array_def case_prod_unfold)

end
