(* ===== verification/Cache_Bounds.thy ===== *)
theory Cache_Bounds
  imports Cache_Steps
begin

text \<open>
  The limits of the cache: what leaves them alone, how far a prune brings the units down, and
  what a put leaves.
\<close>

section \<open>Operations that leave the limits alone\<close>

definition same_limits :: "('k, 'v) old_cache \<Rightarrow> ('k, 'v) old_cache \<Rightarrow> bool" where
  "same_limits c d \<longleftrightarrow> oc_max_units d = oc_max_units c \<and> oc_prune_units d = oc_prune_units c \<and>
     oc_eviction d = oc_eviction c \<and> oc_expiry_delay d = oc_expiry_delay c"

lemma same_limits_refl [simp]: "same_limits c c"
  by (simp add: same_limits_def)

lemma same_limits_trans: "same_limits c d \<Longrightarrow> same_limits d e \<Longrightarrow> same_limits c e"
  by (simp add: same_limits_def)

lemma same_limits_fold: "(\<And>x c. same_limits c (f x c)) \<Longrightarrow> same_limits c (fold f xs c)"
  by (induction xs arbitrary: c) (auto intro: same_limits_trans)

lemma limits_parts [simp]:
  "same_limits c (change_entry env k f c)" "same_limits c (schedule_flush now c)" "same_limits c (defer_flush c)"
  "same_limits c (oc_reset_hit_statistics c)" "same_limits c (touched c)" "same_limits c (drops env hes c)"
  "same_limits c (c\<lparr>oc_hits := h\<rparr>)" "same_limits c (c\<lparr>oc_misses := h\<rparr>)" "same_limits c (c\<lparr>oc_puts := h\<rparr>)"
  "same_limits c (c\<lparr>oc_flush_delay := t\<rparr>)" "same_limits c (c\<lparr>oc_map := m\<rparr>)" "same_limits c (c\<lparr>oc_cur_units := u\<rparr>)"
  "same_limits c (c\<lparr>oc_prunes := n, oc_last_prune := t\<rparr>)"
  by (simp_all add: same_limits_def schedule_flush_def defer_flush_def oc_reset_hit_statistics_def)

lemma limits_entries [simp]:
  "same_limits c (entry_discard env he c)" "same_limits c (remove_expired env he f c)"
  "same_limits c (oc_on_add env now he c)" "same_limits c (snd (entry_set_value env now he v c))"
  by (simp_all add: same_limits_def entry_discard_def remove_expired_def oc_on_add_def entry_set_value_def Let_def)

lemma evict_expired_limits [simp]: "same_limits c (oc_evict_expired env now c)"
proof -
  have "same_limits (defer_flush c)
      (fold (\<lambda>he c. if is_expired now (he_value he) then remove_expired env he True c else c) (hm_to_array (oc_map (defer_flush c))) (defer_flush c))"
    by (rule same_limits_fold) simp
  from same_limits_trans [OF same_limits_trans [OF limits_parts(3) this] limits_parts(2)]
  show ?thesis by (simp add: oc_evict_expired_def Let_def)
qed

lemma check_flush_limits [simp]: "same_limits c (check_flush env now c)"
  by (simp add: check_flush_def)

lemma get_internal_limits: "same_limits c (snd (oc_get_entry_internal env now k c))"
  by (simp add: oc_get_entry_internal_def split: option.split)

lemma flushed_get_limits: "same_limits c (snd (oc_get_entry_internal env now k (check_flush env now c)))"
  by (rule same_limits_trans [OF check_flush_limits get_internal_limits])

lemma evict_limits [simp]: "same_limits c (oc_evict env now k c)"
proof -
  obtain found d where g: "oc_get_entry_internal env now k c = (found, d)" by force
  have "same_limits c d" using get_internal_limits [of c env now k] by (simp add: g)
  then show ?thesis by (auto simp: oc_evict_def g intro: same_limits_trans split: option.split)
qed

lemma evict_all_limits [simp]: "same_limits c (oc_evict_all env now ks c)"
  unfolding oc_evict_all_def by (rule same_limits_fold) simp

lemma prune_list_limits: "same_limits c (prune_list env cMin hes c)"
  by (induction hes arbitrary: c) (auto intro: same_limits_trans [OF limits_entries(2)])

lemma prune_hybrid_limits: "same_limits c (prune_hybrid env now c)"
proof -
  have f: "same_limits d (fold (\<lambda>he. remove_expired env he False) ds (d\<lparr>oc_map := m\<rparr>))" for d ds m
    by (rule same_limits_trans [OF limits_parts(11) same_limits_fold]) simp
  show ?thesis
    unfolding prune_hybrid_def Let_def touched_def [symmetric]
    by (simp split: prod.split) (intro allI impI same_limits_trans [OF limits_parts(5) f])
qed

lemma prune_limits: "same_limits c (oc_prune env now c)"
proof -
  define c1 where "c1 = oc_evict_expired env now c"
  define d where "d = (case oc_eviction c1 of
      HybridPolicy \<Rightarrow> prune_hybrid env now c1 | LruPolicy \<Rightarrow> prune_ordered env now True c1
    | LfuPolicy \<Rightarrow> prune_ordered env now False c1
    | ExternalPolicy \<Rightarrow> oc_evict_all env now (oc_request_eviction env (oc_prune_units c1) c1) c1)"
  define r where "r = (if oc_eviction c1 = HybridPolicy \<or> oc_eviction c1 = LfuPolicy
    then d\<lparr>oc_map := hm_change_all reset_touch_count (oc_map d)\<rparr> else d)"
  have 1: "same_limits c c1" by (simp add: c1_def)
  have "same_limits c1 d"
    by (cases "oc_eviction c1") (simp_all add: d_def prune_hybrid_limits prune_ordered_list prune_list_limits)
  moreover have "same_limits d r" by (simp add: r_def)
  ultimately have "same_limits c (r\<lparr>oc_prunes := oc_prunes r + 1, oc_last_prune := now\<rparr>)"
    using same_limits_trans [OF same_limits_trans [OF same_limits_trans [OF 1]] limits_parts(13)] by blast
  then show ?thesis using 1
    by (simp add: oc_prune_def Let_def c1_def [symmetric] d_def [symmetric] r_def [symmetric])
qed

declare prune_hybrid_limits [simp] prune_limits [simp]

lemma put_expiry_limits: "same_limits c (oc_put_expiry env now k cMillis c)"
  by (auto simp: oc_put_expiry_def Let_def same_limits_def schedule_flush_def split: option.split)

lemma put_size_limits: "same_limits c (snd (oc_put_size env now k r c))"
proof -
  obtain found d where g: "oc_get_entry_internal env now k (oc_prune env now c) = (found, d)" by force
  have "same_limits c d"
    using same_limits_trans [OF prune_limits get_internal_limits [of "oc_prune env now c" env now k]] by (simp add: g)
  then show ?thesis by (cases found) (simp_all add: oc_put_size_def g)
qed

lemma put_finish_limits: "same_limits c (snd (oc_put_finish env now k cMillis r c))"
proof -
  obtain r' d where g: "oc_put_size env now k r (oc_put_expiry env now k cMillis c) = (r', d)" by force
  have "same_limits c d"
    using same_limits_trans [OF put_expiry_limits put_size_limits [of "oc_put_expiry env now k cMillis c" env now k r]] by (simp add: g)
  from same_limits_trans [OF this limits_parts(9)] show ?thesis by (simp add: oc_put_finish_def g)
qed

section \<open>Pruning to the low mark\<close>

definition internal_policy :: "('k, 'v) old_cache \<Rightarrow> bool" where
  "internal_policy c \<longleftrightarrow> oc_eviction c \<noteq> ExternalPolicy"

lemma total_entries: "total_units env c = sum_list (map (\<lambda>he. unat (ce_units (he_value he))) (hm_to_array (oc_map c)))"
  by (simp add: total_units_def table.weight_def hm_all_def entry_pair_def o_def)

lemma no_expired_walk:
  assumes "\<And>he. he \<in> set (hm_to_array (oc_map c)) \<Longrightarrow> \<not> is_expired now (he_value he)"
  shows "live_entries now c = hm_to_array (oc_map c)" and "units_of (live_walk now c) = total_units env c"
proof -
  show live: "live_entries now c = hm_to_array (oc_map c)" using assms by (simp add: live_entries_def filter_id_conv)
  have "units_of (live_walk now c) = sum_list (map (\<lambda>he. unat (ce_units (he_value he))) (map fst (live_walk now c)))"
    by (simp add: units_of_def o_def)
  then show "units_of (live_walk now c) = total_units env c" by (simp only: live_walk_entries live total_entries)
qed

lemma evict_expired_none:
  assumes "cache_ok env c" and "env_ok env" and "he \<in> set (hm_to_array (oc_map (oc_evict_expired env now c)))"
  shows "\<not> is_expired now (he_value he)"
proof -
  have "cache_ok env (oc_evict_expired env now c)" by (rule leads_cache_ok [OF evict_expired_leads assms(2,1)])
  from cache_entries(2) [OF this assms(3)] show ?thesis
    by (auto simp: evict_expired_look [OF assms(1)] split: option.splits if_splits)
qed

lemma prune_hybrid_low:
  assumes "cache_ok env c" and "units_ok env c" and "\<And>he. he \<in> set (hm_to_array (oc_map c)) \<Longrightarrow> \<not> is_expired now (he_value he)"
  shows "oc_cur_units (prune_hybrid env now c) \<le> oc_prune_units c"
proof -
  obtain ds where "prune_hybrid env now c = drops env ds (touched c)"
    and "unat (oc_cur_units c) = units_of (live_walk now c) \<Longrightarrow>
      oc_cur_units c - sum_list (map (ce_units \<circ> he_value) ds) \<le> oc_prune_units c"
    by (rule prune_hybrid_drops [OF assms(1), where now = now]) (rule that)
  moreover have "units_of (live_walk now c) = total_units env c" by (rule no_expired_walk(2)) (rule assms(3))
  then have "unat (oc_cur_units c) = units_of (live_walk now c)" using assms(2) by (simp add: units_ok_def)
  ultimately show ?thesis by (simp add: drops_eq)
qed

lemma prune_ordered_low:
  assumes "cache_ok env c" and "units_ok env c" and "steady env c" and "env_ok env"
    and "\<And>he. he \<in> set (hm_to_array (oc_map c)) \<Longrightarrow> \<not> is_expired now (he_value he)"
  shows "oc_cur_units (prune_ordered env now fLRU c) \<le> oc_prune_units c"
proof (rule ccontr)
  assume high: "\<not> ?thesis"
  obtain ds rs where d: "prune_ordered env now fLRU c = drops env ds c" "mset (ds @ rs) = mset (live_entries now c)"
    "oc_prune_units c < oc_cur_units (drops env ds c) \<Longrightarrow> rs = []"
    by (rule prune_ordered_drops [OF assms(1)]) (blast intro: that)
  have "rs = []" using d(1,3) high by simp
  then have all: "set ds = set (hm_to_array (oc_map c))"
    using perm_part(2) [OF d(2)] no_expired_walk(1) [OF assms(5)] by simp
  have table: "hm_ok (oc_table env) (oc_map c)" using assms(1) by (simp add: cache_ok_def)
  have none: "oc_look env k (drops env ds c) = None" for k
    using drops_look(2) [OF table, of k ds] table_entries(4) [OF table, of k] all by (cases "oc_look env k c") auto
  have "units_ok env (drops env ds c)"
    using effects_units_ok [OF prune_ordered_effects [OF assms(1)] assms(2,3,4), of now fLRU] d(1) by simp
  moreover have "total_units env (drops env ds c) = 0"
    using table.weight_empty [OF drops_look(1) [OF table] none] by (simp add: total_units_def)
  ultimately have "oc_cur_units (drops env ds c) = 0" by (simp add: units_ok_def unat_eq_zero)
  then show False using high d(1) by simp
qed

lemma prune_low:
  assumes ok: "cache_ok env c" and units: "units_ok env c" and steady: "steady env c" and env: "env_ok env"
    and policy: "internal_policy c" and marks: "oc_prune_units c \<le> oc_max_units c"
  shows "oc_cur_units (oc_prune env now c) \<le> oc_max_units c"
proof -
  define c1 where "c1 = oc_evict_expired env now c"
  have leads: "leads env (units_room env) c c1" by (simp add: c1_def evict_expired_leads)
  have ok1: "cache_ok env c1" by (rule leads_cache_ok [OF leads env ok])
  have units1: "units_ok env c1" "steady env c1" using leads_units_ok [OF leads env ok units steady] by simp_all
  have limits: "same_limits c c1" by (simp add: c1_def)
  have live: "\<not> is_expired now (he_value he)" if "he \<in> set (hm_to_array (oc_map c1))" for he
    using evict_expired_none [OF ok env, of he now] that by (simp add: c1_def)
  note low = prune_hybrid_low [OF ok1 units1(1) live] prune_ordered_low [OF ok1 units1 env live]
  have "oc_prune_units c1 \<le> oc_max_units c" using limits marks by (simp add: same_limits_def)
  then show ?thesis
    using low limits policy
    by (cases "oc_eviction c1")
      (auto simp: oc_prune_def Let_def c1_def [symmetric] same_limits_def internal_policy_def intro: order_trans)
qed

section \<open>Putting\<close>

text \<open>A put that returns has put the entry, and then sees to the size.\<close>

lemma put_start:
  assumes put: "oc_put env now k v cMillis c = (Inr r, d)" and env: "env_ok env" and ok: "cache_ok env c"
    and room: "put_room env room now k v c"
  obtains a r' b where "leads env room c a" and "oc_put_finish env now k cMillis r' a = (r, d)" and "same_limits c a"
    and "\<exists>e. oc_look env k a = Some e \<and> ce_value e = v \<and>
      ce_expiry e = (if 0 < oc_expiry_delay c then now + oc_expiry_delay c else 0)"
    and "r' = (case oc_look env k c of None \<Rightarrow> None | Some e \<Rightarrow> if is_expired now e then None else Some (ce_value e))"
    and "leads env no_room c b" and "oc_cur_units a = oc_cur_units b + calculate_units env b k v \<or> leads env no_room c a"
proof -
  obtain found b where g: "oc_get_entry_internal env now k (check_flush env now c) = (found, b)" by force
  have b: "leads env room c b" for room using flushed_get_leads [of env room c now k] by (simp add: g)
  have lim: "same_limits c b" using flushed_get_limits [of c env now k] by (simp add: g)
  note law = flushed_get [OF env ok g]
  have table: "hm_ok (oc_table env) (oc_map b)" using law(1) by (simp add: cache_ok_def)
  show thesis
  proof (cases found)
    case None
    let ?he = "\<lparr>he_key = k, he_hash = hm_hash (oc_table env) k, he_value = entry_create now v\<rparr>"
    let ?m = "snd (hm_add_entry (oc_table env) ?he (oc_map b))"
    let ?a = "oc_on_add env now ?he (b\<lparr>oc_map := ?m\<rparr>)"
    obtain u m where add: "hm_add_entry (oc_table env) ?he (oc_map b) = (u, m)" by force
    have "oc_put env now k v cMillis c =
        (case u of Inl e \<Rightarrow> (Inl e, b\<lparr>oc_map := m\<rparr>) | Inr _ \<Rightarrow> map_prod Inr id (oc_put_finish env now k cMillis None ?a))"
      unfolding oc_put_def g None by (simp add: add split: sum.split)
    then have d: "oc_put_finish env now k cMillis None ?a = (r, d)"
      unfolding put by (cases u) (simp_all add: prod_eq_iff)
    have "isl u = False" using put unfolding oc_put_def g None by (cases u) (simp_all add: add)
    then have grown: "fst (hm_add_entry (oc_table env) ?he (oc_map b)) = Inr ()" by (cases u) (simp_all add: add)
    have "room k v b" using room by (simp add: put_room_def g)
    then have "effect env room b ?a"
      by (intro effect.add [OF law(3) [OF None] _ _ _ grown]) simp_all
    then have a: "leads env room b ?a" by (rule leads_effect)
    have new: "hm_ok (oc_table env) ?m" "hm_get (oc_table env) k ?m = Some (entry_create now v)"
      using added_look [OF table law(3) [OF None] _ _ _ grown, of now v] by simp_all
    have look: "oc_look env k ?a = Some (added_entry env now b k v)"
      using on_add_law(1) [OF new, of ?he k] by simp
    have res: "None = (case oc_look env k c of None \<Rightarrow> None | Some e \<Rightarrow> if is_expired now e then None else Some (ce_value e))"
      using law(4) by (cases "oc_look env k c") (auto simp: None split: if_splits)
    have lima: "same_limits c ?a" by (rule same_limits_trans [OF same_limits_trans [OF lim limits_parts(11)] limits_entries(3)])
    have cur: "oc_cur_units ?a = oc_cur_units b + calculate_units env b k v" using on_add_law(3) [OF new, of ?he] by simp
    show thesis
      by (rule that [OF leads_trans [OF b a] d lima _ res b disjI1 [OF cur]])
        (use lim in \<open>simp add: look\<close>, simp add: added_entry_def schedule_expiry_def entry_create_def same_limits_def)
  next
    case (Some he)
    note f = found_entry [OF g [unfolded Some]]
    let ?t = "change_entry env k (entry_touch now) b"
    have t: "leads env room b ?t" for room by (rule change_leads) simp
    obtain r' a where a: "entry_set_value env now he v ?t = (r', a)" by force
    have "oc_put env now k v cMillis c = map_prod Inr id (oc_put_finish env now k cMillis r' a)"
      unfolding oc_put_def g Some by (simp add: a)
    then have d: "oc_put_finish env now k cMillis r' a = (r, d)"
      unfolding put by (simp add: prod_eq_iff)
    have look: "oc_look env k ?t = Some (entry_touch now (he_value he))"
      using f(1,4) hm_update_law(2) [OF table, of k k "entry_touch now"] by simp
    have tok: "hm_ok (oc_table env) (oc_map ?t)" using hm_update_law(1) [OF table] by simp
    have npos: "ce_units (entry_touch now (he_value he)) \<noteq> units_npos" using f(6) law(1) f(1) by (simp add: entry_fit_def)
    have eff: "effect env room ?t (snd (entry_set_value env now he v ?t))" for room
      by (rule effect.set [OF look]) (simp_all add: f)
    have "leads env room ?t a" for room by (rule leads_effect) (use eff [of room] in \<open>simp add: a\<close>)
    then have l: "leads env room c a" for room by (rule leads_trans [OF leads_trans [OF b t]])
    note set = set_value_law [OF tok look f(2) _ _ npos, where now = now and v = v, simplified a, simplified]
    have res: "r' = (case oc_look env k c of None \<Rightarrow> None | Some e \<Rightarrow> if is_expired now e then None else Some (ce_value e))"
      using law(4) set(5) by (cases "oc_look env k c") (auto simp: Some split: if_splits)
    have "same_limits ?t a" using limits_entries(4) [of ?t env now he v] by (simp add: a)
    from same_limits_trans [OF same_limits_trans [OF lim limits_parts(1)] this] have lima: "same_limits c a" .
    show thesis
    proof (rule that [OF l d lima _ res b disjI2 [OF l]])
      have "oc_look env k a = Some (updated_entry env now ?t k v (entry_touch now (he_value he)))" using set(1) [of k] by simp
      moreover have "oc_expiry_delay ?t = oc_expiry_delay c" using lim by (simp add: same_limits_def)
      ultimately show "\<exists>e. oc_look env k a = Some e \<and> ce_value e = v \<and>
          ce_expiry e = (if 0 < oc_expiry_delay c then now + oc_expiry_delay c else 0)"
        by (simp add: updated_entry_def schedule_expiry_def)
    qed
  qed
qed

lemma put_leads:
  assumes "oc_put env now k v cMillis c = (Inr r, d)" and "env_ok env" and "cache_ok env c" and "put_room env room now k v c"
  shows "leads env room c d" and "same_limits c d"
proof -
  obtain a r' where a: "leads env room c a" "oc_put_finish env now k cMillis r' a = (r, d)" "same_limits c a"
    by (rule put_start [OF assms])
  show "leads env room c d" using leads_trans [OF a(1) put_finish_leads [of env room a now k cMillis r']] by (simp add: a(2))
  show "same_limits c d" using same_limits_trans [OF a(3) put_finish_limits [of a env now k cMillis r']] by (simp add: a(2))
qed

text \<open>A put leaves no more than the high units, whatever it found.\<close>

lemma put_size_bound:
  assumes ok: "cache_ok env c" and units: "units_ok env c" and steady: "steady env c" and env: "env_ok env"
    and policy: "internal_policy c" and marks: "oc_prune_units c \<le> oc_max_units c"
  shows "oc_cur_units (snd (oc_put_size env now k r c)) \<le> oc_max_units c"
proof (cases "oc_max_units c < oc_cur_units c")
  case True
  let ?p = "oc_prune env now c"
  obtain found d where g: "oc_get_entry_internal env now k ?p = (found, d)" by force
  have leads: "leads env (units_room env) c ?p" by (rule prune_leads)
  have p: "cache_ok env ?p" "units_ok env ?p" "steady env ?p"
    using leads_cache_ok [OF leads env ok] leads_units_ok [OF leads env ok units steady] by simp_all
  have "leads env no_room ?p d" using get_internal_leads [of env no_room ?p now k] by (simp add: g)
  then have "oc_cur_units d \<le> oc_cur_units ?p" by (rule leads_drain [OF _ env p])
  also have "\<dots> \<le> oc_max_units c" by (rule prune_low [OF assms])
  finally show ?thesis using True by (cases found) (simp_all add: oc_put_size_def g)
next
  case False
  then show ?thesis by (simp add: oc_put_size_def)
qed

lemma put_bound:
  assumes put: "oc_put env now k v cMillis c = (Inr r, d)" and env: "env_ok env" and ok: "cache_ok env c"
    and units: "units_ok env c" and steady: "steady env c" and room: "units_room env k v c"
    and policy: "internal_policy c" and marks: "oc_prune_units c \<le> oc_max_units c"
  shows "oc_cur_units d \<le> oc_max_units c"
proof -
  obtain a r' where a: "leads env (units_room env) c a" "oc_put_finish env now k cMillis r' a = (r, d)" "same_limits c a"
    by (rule put_start [OF put env ok put_units_room [OF env ok units steady room]])
  let ?b = "oc_put_expiry env now k cMillis a"
  have b: "leads env (units_room env) c ?b" by (rule leads_trans [OF a(1) put_expiry_leads])
  have limits: "same_limits c ?b" by (rule same_limits_trans [OF a(3) put_expiry_limits])
  have "oc_cur_units (snd (oc_put_size env now k r' ?b)) \<le> oc_max_units ?b"
    using leads_cache_ok [OF b env ok] leads_units_ok [OF b env ok units steady] policy marks limits
    by (intro put_size_bound [OF _ _ _ env]) (simp_all add: same_limits_def internal_policy_def)
  moreover have "oc_cur_units d = oc_cur_units (snd (oc_put_size env now k r' ?b))"
    using a(2) by (auto simp: oc_put_finish_def split: prod.splits)
  ultimately show ?thesis using limits by (simp add: same_limits_def)
qed

text \<open>A put that fits does not prune, and the entry is there until it expires.\<close>

definition put_expires :: "int \<Rightarrow> int \<Rightarrow> ('k, 'v) old_cache \<Rightarrow> int" where
  "put_expires now cMillis c =
     (if cMillis = 0 then if 0 < oc_expiry_delay c then now + oc_expiry_delay c else 0
      else if 0 < cMillis then now + cMillis else 0)"

lemma put_expiry_law:
  assumes "hm_ok (oc_table env) (oc_map c)" and "oc_look env k c = Some e"
  shows "oc_look env k (oc_put_expiry env now k cMillis c) =
      Some (if cMillis = 0 then e else e\<lparr>ce_expiry := (if 0 < cMillis then now + cMillis else 0)\<rparr>)"
    and "oc_cur_units (oc_put_expiry env now k cMillis c) = oc_cur_units c"
proof -
  obtain he where he: "hm_get_entry_internal (oc_table env) k (oc_map c) = Some he"
    using assms(2) by (auto simp: hm_get_def)
  show "oc_look env k (oc_put_expiry env now k cMillis c) =
      Some (if cMillis = 0 then e else e\<lparr>ce_expiry := (if 0 < cMillis then now + cMillis else 0)\<rparr>)"
    using hm_update_law(2) [OF assms(1)] assms(2) by (simp add: oc_put_expiry_def Let_def he schedule_flush_def)
  show "oc_cur_units (oc_put_expiry env now k cMillis c) = oc_cur_units c"
    by (simp add: oc_put_expiry_def Let_def he schedule_flush_def)
qed

lemma put_fits:
  assumes put: "oc_put env now k v cMillis c = (Inr r, d)" and env: "env_ok env" and ok: "cache_ok env c"
    and units: "units_ok env c" and steady: "steady env c"
    and fits: "unat (oc_cur_units c) + unat (calculate_units env c k v) \<le> unat (oc_max_units c)"
  shows "r = (case oc_look env k c of None \<Rightarrow> None | Some e \<Rightarrow> if is_expired now e then None else Some (ce_value e))"
    and "\<exists>e. oc_look env k d = Some e \<and> ce_value e = v \<and> ce_expiry e = put_expires now cMillis c"
    and "leads env (\<lambda>_ _ _. True) c d"
proof -
  have "put_room env (\<lambda>_ _ _. True) now k v c" by (simp add: put_room_def)
  from put_start [OF put env ok this] obtain a r' b where a: "leads env (\<lambda>_ _ _. True) c a" "oc_put_finish env now k cMillis r' a = (r, d)"
    "same_limits c a" "\<exists>e. oc_look env k a = Some e \<and> ce_value e = v \<and>
      ce_expiry e = (if 0 < oc_expiry_delay c then now + oc_expiry_delay c else 0)"
    "r' = (case oc_look env k c of None \<Rightarrow> None | Some e \<Rightarrow> if is_expired now e then None else Some (ce_value e))"
    "leads env no_room c b" "oc_cur_units a = oc_cur_units b + calculate_units env b k v \<or> leads env no_room c a" .
  from a(4) obtain e where e: "oc_look env k a = Some e" "ce_value e = v"
    "ce_expiry e = (if 0 < oc_expiry_delay c then now + oc_expiry_delay c else 0)" by blast
  have aok: "hm_ok (oc_table env) (oc_map a)" using leads_cache_ok [OF a(1) env ok] by (simp add: cache_ok_def)
  note exp = put_expiry_law [OF aok e(1), of now cMillis]
  have drain: "oc_cur_units x \<le> oc_cur_units c" if "leads env no_room c x" for x
    by (rule leads_drain [OF that env ok units steady])
  have calc: "calculate_units env b = calculate_units env c"
    using leads_listening [OF a(6) env ok] by (intro calculate_units_cong) simp
  have "unat (oc_cur_units a) \<le> unat (oc_max_units c)"
    using a(7)
  proof
    assume "oc_cur_units a = oc_cur_units b + calculate_units env b k v"
    moreover have "unat (x + y) \<le> unat x + unat y" for x y :: "32 word" by (simp add: unat_word_ariths)
    ultimately have "unat (oc_cur_units a) \<le> unat (oc_cur_units b) + unat (calculate_units env c k v)" by (simp add: calc)
    then show ?thesis using drain [OF a(6)] fits by (simp add: word_le_nat_alt)
  next
    assume "leads env no_room c a"
    then show ?thesis using drain fits by (fastforce simp: word_le_nat_alt)
  qed
  then have low: "\<not> oc_max_units (oc_put_expiry env now k cMillis a) < oc_cur_units (oc_put_expiry env now k cMillis a)"
    using a(3) exp(2) put_expiry_limits [of a env now k cMillis] by (simp add: same_limits_def word_less_nat_alt)
  then have d: "r = r'" "d = (oc_put_expiry env now k cMillis a)\<lparr>oc_puts := oc_puts (oc_put_expiry env now k cMillis a) + 1\<rparr>"
    using a(2) by (auto simp: oc_put_finish_def oc_put_size_def)
  show "r = (case oc_look env k c of None \<Rightarrow> None | Some e \<Rightarrow> if is_expired now e then None else Some (ce_value e))"
    using d(1) a(5) by simp
  show "\<exists>e. oc_look env k d = Some e \<and> ce_value e = v \<and> ce_expiry e = put_expires now cMillis c"
    using exp(1) e(2,3) by (simp add: d(2) put_expires_def)
  show "leads env (\<lambda>_ _ _. True) c d" unfolding d(2)
    by (rule leads_after [OF leads_trans [OF a(1) put_expiry_leads] stat_core(3)])
qed

end
