(* ===== verification/Cache_Runs.thy ===== *)
theory Cache_Runs
  imports Cache_Bounds
begin

text \<open>
  Sequences of operations on a cache, and what holds after every one of them.
\<close>

section \<open>Operations\<close>

datatype ('k, 'v) cache_op =
    OpGet 'k | OpContainsKey 'k | OpPut 'k 'v int | OpRemove 'k | OpClear | OpSize
  | OpEvict 'k | OpEvictAll "'k list" | OpEvictExpired | OpKeyArray | OpValuesArray | OpEntryArray
  | OpSetHighUnits "32 word" | OpSetLowUnits "32 word" | OpSetExpiryDelay int | OpSetFlushDelay int
  | OpSetFlushTime int | OpSetEvictionType eviction_type
  | OpSetUnitCalculatorType bool | OpSetUnitCalculator "nat option" | OpRelease

definition returns :: "('k, 'v) old_cache \<Rightarrow> (exn + unit) \<times> ('k, 'v) old_cache" where
  "returns d = (Inr (), d)"

text \<open>An operation at a time of the clock, with its result left out.\<close>

fun oc_step :: "('k, 'v) oc_env \<Rightarrow> int \<times> ('k, 'v) cache_op \<Rightarrow> (('k, 'v) old_cache, unit) comp" where
  "oc_step env (now, OpGet k) c = returns (snd (oc_get env now k c))"
| "oc_step env (now, OpContainsKey k) c = returns (snd (oc_contains_key env now k c))"
| "oc_step env (now, OpPut k v cMillis) c = mapc (\<lambda>_. ()) (oc_put env now k v cMillis) c"
| "oc_step env (now, OpRemove k) c = returns (snd (oc_remove env now k c))"
| "oc_step env (now, OpClear) c = returns (oc_clear env now c)"
| "oc_step env (now, OpSize) c = returns (snd (oc_size env now c))"
| "oc_step env (now, OpEvict k) c = returns (oc_evict env now k c)"
| "oc_step env (now, OpEvictAll ks) c = returns (oc_evict_all env now ks c)"
| "oc_step env (now, OpEvictExpired) c = returns (oc_evict_expired env now c)"
| "oc_step env (now, OpKeyArray) c = returns (snd (oc_key_array env now c))"
| "oc_step env (now, OpValuesArray) c = returns (snd (oc_values_array env now c))"
| "oc_step env (now, OpEntryArray) c = returns (snd (oc_entry_array env now c))"
| "oc_step env (now, OpSetHighUnits n) c = oc_set_high_units env now n c"
| "oc_step env (now, OpSetLowUnits n) c = oc_set_low_units env n c"
| "oc_step env (now, OpSetExpiryDelay t) c = returns (oc_set_expiry_delay t c)"
| "oc_step env (now, OpSetFlushDelay t) c = returns (oc_set_flush_delay now t c)"
| "oc_step env (now, OpSetFlushTime t) c = returns (oc_set_flush_time env now t c)"
| "oc_step env (now, OpSetEvictionType nType) c = oc_set_eviction_type nType c"
| "oc_step env (now, OpSetUnitCalculatorType fExternal) c = oc_set_unit_calculator_type env now fExternal c"
| "oc_step env (now, OpSetUnitCalculator hCalculator) c = oc_set_unit_calculator env now hCalculator c"
| "oc_step env (now, OpRelease) c = returns (oc_release env c)"

definition oc_run :: "('k, 'v) oc_env \<Rightarrow> (int \<times> ('k, 'v) cache_op) list \<Rightarrow> (('k, 'v) old_cache, unit) comp" where
  "oc_run env ops = for_each (oc_step env) ops"

lemma oc_run_simps [simp]: "oc_run env [] c = (Inr (), c)"
  "oc_run env (opn # ops) c = (case oc_step env opn c of (Inl e, d) \<Rightarrow> (Inl e, d) | (Inr _, d) \<Rightarrow> oc_run env ops d)"
  by (simp_all add: oc_run_def seqc_def bindc_def split: prod.split sum.split)

lemma oc_run_Cons: "oc_run env (opn # ops) c = (Inr (), d) \<longleftrightarrow> (\<exists>b. oc_step env opn c = (Inr (), b) \<and> oc_run env ops b = (Inr (), d))"
  by (auto split: prod.splits sum.splits)

text \<open>What an operation may add.\<close>

fun op_room :: "('k, 'v) oc_env \<Rightarrow> ('k, 'v) room \<Rightarrow> int \<times> ('k, 'v) cache_op \<Rightarrow> ('k, 'v) old_cache \<Rightarrow> bool" where
  "op_room env room (now, OpPut k v cMillis) c \<longleftrightarrow> put_room env room now k v c"
| "op_room env room _ c \<longleftrightarrow> True"

lemma op_room_any: "op_room env (\<lambda>_ _ _. True) opn c"
  by (cases opn; cases "snd opn") (auto simp: put_room_def)

lemma mapc_done: "mapc (\<lambda>_. ()) m c = (Inr (), d) \<Longrightarrow> \<exists>r. m c = (Inr r, d)"
  by (auto simp: mapc_def bindc_def split: prod.splits sum.splits)

text \<open>Operations that do more than entry by entry.\<close>

fun op_by_entry :: "int \<times> ('k, 'v) cache_op \<Rightarrow> bool" where
  "op_by_entry (now, OpSetUnitCalculatorType fExternal) \<longleftrightarrow> False"
| "op_by_entry (now, OpSetUnitCalculator hCalculator) \<longleftrightarrow> False"
| "op_by_entry (now, OpRelease) \<longleftrightarrow> False"
| "op_by_entry _ \<longleftrightarrow> True"

lemma step_leads:
  assumes "oc_step env opn c = (Inr (), d)" and "env_ok env" and "cache_ok env c" and "op_room env room opn c"
    and "op_by_entry opn"
  shows "leads env room c d"
  using assms
proof (induction env opn c rule: oc_step.induct)
  case (3 env now k v cMillis c)
  then obtain r where "oc_put env now k v cMillis c = (Inr r, d)" using mapc_done by fastforce
  from put_leads(1) [OF this 3(2,3)] 3(4) show ?case by simp
next
  case (13 env now n c)
  then show ?case using set_high_units_leads [of env room c now n] by simp
next
  case (14 env now n c)
  then show ?case using set_low_units_leads [of env room c n] by simp
next
  case (18 env now nType c)
  then show ?case using set_eviction_type_leads [of env room c nType] by simp
qed (auto simp: returns_def get_leads contains_key_leads remove_leads clear_leads size_leads evict_leads evict_all_leads
    evict_expired_leads arrays_leads set_delays_leads set_flush_time_leads)

section \<open>Changing the calculator\<close>

lemma recalculate_one:
  assumes ok: "cache_ok env c" and env: "env_ok env"
    and he: "entry_fit env he" "oc_look env (he_key he) c = Some (he_value he)"
    and d: "d = (if is_expired now (he_value he) then remove_expired env he True c
      else change_entry env (he_key he)
        (\<lambda>e. e\<lparr>ce_units := calculate_units env c (he_key he) (ce_value (he_value he))\<rparr>) c)"
  shows "cache_ok env d" and "oc_listening d = oc_listening c" and "oc_calculator d = oc_calculator c"
    and "oc_look env j d = (if j = he_key he then
        if is_expired now (he_value he) then None
        else Some ((he_value he)\<lparr>ce_units := calculate_units env c j (ce_value (he_value he))\<rparr>)
      else oc_look env j c)"
    and "oc_cur_units d = oc_cur_units c - (if is_expired now (he_value he) then ce_units (he_value he) else 0)"
proof -
  let ?k = "he_key he" and ?f = "\<lambda>e. e\<lparr>ce_units := calculate_units env c (he_key he) (ce_value (he_value he))\<rparr>"
  have table: "hm_ok (oc_table env) (oc_map c)" using ok by (simp add: cache_ok_def)
  note upd = hm_update_law [OF table, where f = ?f] and del = hm_remove_law(2,3) [OF table]
  show look: "oc_look env j d = (if j = ?k then
        if is_expired now (he_value he) then None
        else Some ((he_value he)\<lparr>ce_units := calculate_units env c j (ce_value (he_value he))\<rparr>)
      else oc_look env j c)" for j
    unfolding d using he del upd by (simp add: remove_expired_drop drop_one_def)
  show "oc_listening d = oc_listening c" "oc_calculator d = oc_calculator c"
    "oc_cur_units d = oc_cur_units c - (if is_expired now (he_value he) then ce_units (he_value he) else 0)"
    unfolding d using he(1) by (simp_all add: remove_expired_drop drop_one_def)
  show "cache_ok env d"
  proof (cases "is_expired now (he_value he)")
    case True
    have "effect env (\<lambda>_ _ _. True) c (drop_one env he c)" by (rule drop_one_effect [OF he(2)])
    then show ?thesis using effect_cache_ok [OF _ ok env] d True he(1) by (simp add: remove_expired_drop)
  next
    case False
    have "oc_contents env d = oc_contents env c"
      using look he(2) False by (simp add: oc_contents_def fun_eq_iff)
    then show ?thesis
      using ok look False upd(1) he(2) calculate_units_npos [OF env] unfolding d by (auto simp: cache_ok_def split: if_splits)
  qed
qed

lemma recalculate_fold:
  assumes "cache_ok env c" and "env_ok env" and "distinct (map he_key hes)"
    and "\<And>he. he \<in> set hes \<Longrightarrow> entry_fit env he \<and> oc_look env (he_key he) c = Some (he_value he)"
    and "d = fold (\<lambda>he c. if is_expired now (he_value he) then remove_expired env he True c
        else change_entry env (he_key he)
          (\<lambda>e. e\<lparr>ce_units := calculate_units env c (he_key he) (ce_value (he_value he))\<rparr>) c) hes c"
  shows "cache_ok env d \<and> oc_listening d = oc_listening c \<and> oc_calculator d = oc_calculator c \<and>
    oc_cur_units d = oc_cur_units c -
      sum_list (map (ce_units \<circ> he_value) (filter (\<lambda>he. is_expired now (he_value he)) hes)) \<and>
    (\<forall>j. oc_look env j d = (case oc_look env j c of
        None \<Rightarrow> None
      | Some e \<Rightarrow>
          if j \<notin> he_key ` set hes then Some e
          else if is_expired now e then None
          else Some (e\<lparr>ce_units := calculate_units env c j (ce_value e)\<rparr>)))"
  using assms
proof (induction hes arbitrary: c)
  case (Cons he hes)
  define b where "b = (if is_expired now (he_value he) then remove_expired env he True c
      else change_entry env (he_key he)
        (\<lambda>e. e\<lparr>ce_units := calculate_units env c (he_key he) (ce_value (he_value he))\<rparr>) c)"
  have he: "entry_fit env he" "oc_look env (he_key he) c = Some (he_value he)" using Cons.prems(4) by simp_all
  note one = recalculate_one [OF Cons.prems(1,2) he b_def]
  have calc: "calculate_units env b = calculate_units env c" by (rule calculate_units_cong [OF one(3)])
  have later: "entry_fit env he' \<and> oc_look env (he_key he') b = Some (he_value he')" if "he' \<in> set hes" for he'
  proof -
    have "he_key he' \<noteq> he_key he" using Cons.prems(3) imageI [OF that, of he_key] by auto
    then show ?thesis using Cons.prems(4) [of he'] that one(4) by simp
  qed
  have fold: "d = fold (\<lambda>he c. if is_expired now (he_value he) then remove_expired env he True c
        else change_entry env (he_key he)
          (\<lambda>e. e\<lparr>ce_units := calculate_units env c (he_key he) (ce_value (he_value he))\<rparr>) c) hes b"
    unfolding b_def using Cons.prems(5) by simp
  have "distinct (map he_key hes)" using Cons.prems(3) by simp
  note IH = Cons.IH [OF one(1) Cons.prems(2) this later fold]
  have "he_key he \<notin> he_key ` set hes" using Cons.prems(3) by simp
  with IH he(2) one(2-5) calc show ?case by (auto simp: diff_diff_eq split: option.split)
qed (auto split: option.split)

text \<open>
  What a change of the calculator comes to: the entries that have expired go, the others have
  the units of the new calculator, and the total loses the units of the former only.
\<close>

lemma recalculate_law:
  assumes "cache_ok env c" and "env_ok env" and "d = recalculate_units env now c"
  shows "cache_ok env d" and "oc_listening d = oc_listening c" and "oc_calculator d = oc_calculator c"
    and "oc_cur_units d = oc_cur_units c - sum_list (map (ce_units \<circ> he_value) (expired_entries now c))"
    and "oc_look env j d = (case oc_look env j c of
        None \<Rightarrow> None
      | Some e \<Rightarrow> if is_expired now e then None else Some (e\<lparr>ce_units := calculate_units env c j (ce_value e)\<rparr>))"
proof -
  have table: "hm_ok (oc_table env) (oc_map c)" using assms(1) by (simp add: cache_ok_def)
  note entries = table_entries [OF table]
  have fit: "entry_fit env he \<and> oc_look env (he_key he) c = Some (he_value he)" if "he \<in> set (hm_to_array (oc_map c))" for he
    using entries(2,3) [OF that] assms(1) by (auto simp: entry_fit_def cache_ok_def)
  note law = recalculate_fold [OF assms(1,2) entries(1) fit assms(3) [unfolded recalculate_units_def]]
  then show "cache_ok env d" "oc_listening d = oc_listening c" "oc_calculator d = oc_calculator c"
    "oc_cur_units d = oc_cur_units c - sum_list (map (ce_units \<circ> he_value) (expired_entries now c))"
    by (simp_all add: expired_entries_def)
  have "oc_look env j c = Some e \<Longrightarrow> j \<in> he_key ` set (hm_to_array (oc_map c))" for e
    using entries(4) [of j e] by auto
  with law show "oc_look env j d = (case oc_look env j c of
        None \<Rightarrow> None
      | Some e \<Rightarrow> if is_expired now e then None else Some (e\<lparr>ce_units := calculate_units env c j (ce_value e)\<rparr>))"
    by (auto split: option.split)
qed

lemma calculator_core: "cache_ok env c \<Longrightarrow> cache_ok env (c\<lparr>oc_calculator := u\<rparr>)"
  by (simp add: cache_ok_def oc_contents_def [abs_def])

lemma configure_ok:
  assumes "oc_configure_unit_calculator env now fExternal h c = (r, d)" and "cache_ok env c" and "env_ok env"
  shows "cache_ok env d \<and> oc_listening d = oc_listening c"
proof -
  have "cache_ok env (recalculate_units env now (c\<lparr>oc_calculator := u\<rparr>)) \<and>
      oc_listening (recalculate_units env now (c\<lparr>oc_calculator := u\<rparr>)) = oc_listening c" for u
    using recalculate_law(1,2) [OF calculator_core [OF assms(2), of u] assms(3) refl] by simp
  then show ?thesis
    using assms(1,2) by (auto simp: oc_configure_unit_calculator_def split: if_splits option.splits)
qed

section \<open>Events\<close>

lemma step_cache_ok:
  assumes "oc_step env opn c = (Inr (), d)" and "env_ok env" and "cache_ok env c" and "snd opn \<noteq> OpRelease"
  shows "cache_ok env d \<and> oc_listening d = oc_listening c"
proof (cases "op_by_entry opn")
  case True
  have "leads env (\<lambda>_ _ _. True) c d" by (rule step_leads [OF assms(1-3) op_room_any True])
  then show ?thesis using leads_cache_ok leads_listening assms(2,3) by blast
next
  case False
  then obtain now fExternal h where "oc_configure_unit_calculator env now fExternal h c = (Inr (), d)"
    using assms(1,4)
    by (cases opn; cases "snd opn") (auto simp: oc_set_unit_calculator_type_def oc_set_unit_calculator_def)
  from configure_ok [OF this assms(3,2)] show ?thesis .
qed

lemma run_cache_ok:
  assumes "oc_run env ops c = (Inr (), d)" and "env_ok env" and "cache_ok env c"
    and "\<And>opn. opn \<in> set ops \<Longrightarrow> snd opn \<noteq> OpRelease"
  shows "cache_ok env d \<and> oc_listening d = oc_listening c"
  using assms
proof (induction ops arbitrary: c)
  case (Cons opn ops)
  obtain b where b: "oc_step env opn c = (Inr (), b)" "oc_run env ops b = (Inr (), d)"
    using Cons.prems(1) by (auto simp only: oc_run_Cons)
  have "cache_ok env b" "oc_listening b = oc_listening c"
    using step_cache_ok [OF b(1) Cons.prems(2,3)] Cons.prems(4) by simp_all
  with Cons.IH [OF b(2) Cons.prems(2)] Cons.prems(4) show ?case by simp
qed simp

lemma create_ok:
  "cache_ok env ((old_cache_create env n t b now)\<lparr>oc_listening := True\<rparr>)"
  "cache_ok env (old_cache_create env n t b now)"
  "units_ok env (old_cache_create env n t b now)"
proof -
  show "cache_ok env ((old_cache_create env n t b now)\<lparr>oc_listening := True\<rparr>)"
    "cache_ok env (old_cache_create env n t b now)"
    by (simp_all add: cache_ok_def old_cache_create_def hm_create_law oc_contents_def fun_eq_iff)
  show "units_ok env (old_cache_create env n t b now)"
    using table.weight_empty [OF hm_create_law(1) hm_create_law(2)]
    by (simp add: units_ok_def old_cache_create_def hm_create_law total_units_def)
qed

section \<open>Units\<close>

text \<open>
  The state of a cache that keeps to its high units: the entry that a put adds, of at most
  \<open>nUnit\<close> units, does not make the total overflow before the prune.
\<close>

definition within_units :: "('k, 'v) oc_env \<Rightarrow> nat \<Rightarrow> ('k, 'v) old_cache \<Rightarrow> bool" where
  "within_units env nUnit c \<longleftrightarrow>
     cache_ok env c \<and> units_ok env c \<and> steady env c \<and> internal_policy c \<and>
     oc_cur_units c \<le> oc_max_units c \<and> oc_prune_units c \<le> oc_max_units c \<and> unat (oc_max_units c) + nUnit < 2 ^ 32"

text \<open>Calculators of at most so many units per entry, and a low mark that is below the high one.\<close>

definition units_env :: "('k, 'v) oc_env \<Rightarrow> nat \<Rightarrow> bool" where
  "units_env env nUnit \<longleftrightarrow>
     env_ok env \<and> 1 \<le> nUnit \<and> (\<forall>u k v. unat (oc_calculate env u k v) \<le> nUnit) \<and> (\<forall>n. oc_prune_part env n \<le> n)"

text \<open>
  A release and a change of the calculator do not keep the total; a limit has to leave room
  for one more entry.
\<close>

fun op_units :: "nat \<Rightarrow> int \<times> ('k, 'v) cache_op \<Rightarrow> bool" where
  "op_units nUnit (now, OpSetHighUnits n) \<longleftrightarrow> unat n + nUnit < 2 ^ 32"
| "op_units nUnit (now, OpSetUnitCalculatorType fExternal) \<longleftrightarrow> False"
| "op_units nUnit (now, OpSetUnitCalculator hCalculator) \<longleftrightarrow> False"
| "op_units nUnit (now, OpRelease) \<longleftrightarrow> False"
| "op_units nUnit _ \<longleftrightarrow> True"

lemma calculate_bound: "units_env env nUnit \<Longrightarrow> unat (calculate_units env c k v) \<le> nUnit"
  by (simp add: units_env_def calculate_units_def split: option.split)

lemma within_drain:
  assumes "leads env no_room c d" and "same_limits c d" and "env_ok env" and "within_units env nUnit c"
  shows "within_units env nUnit d"
proof -
  have units: "leads env (units_room env) c d"
    using assms(1) effects_mono [of env no_room c d "units_room env"] by (auto simp: leads_def no_room_def)
  have ok: "cache_ok env c" "units_ok env c" "steady env c" using assms(4) by (simp_all add: within_units_def)
  have "oc_cur_units d \<le> oc_cur_units c" by (rule leads_drain [OF assms(1,3) ok])
  then show ?thesis
    using leads_cache_ok [OF assms(1,3) ok(1)] leads_units_ok [OF units assms(3) ok] assms(2,4)
    by (simp add: within_units_def same_limits_def internal_policy_def) (meson order_trans)
qed

lemma within_put:
  assumes put: "oc_put env now k v cMillis c = (Inr r, d)" and env: "units_env env nUnit" and c: "within_units env nUnit c"
  shows "within_units env nUnit d"
proof -
  have e: "env_ok env" using env by (simp add: units_env_def)
  have ok: "cache_ok env c" "units_ok env c" "steady env c" "internal_policy c" "oc_cur_units c \<le> oc_max_units c"
    "oc_prune_units c \<le> oc_max_units c" "unat (oc_max_units c) + nUnit < 2 ^ 32" using c by (simp_all add: within_units_def)
  have room: "units_room env k v c"
    using ok(5,7) calculate_bound [OF env, of c k v] by (simp add: units_room_def word_le_nat_alt)
  note leads = put_leads [OF put e ok(1) put_units_room [OF e ok(1-3) room]]
  have "oc_cur_units d \<le> oc_max_units c" by (rule put_bound [OF put e ok(1-3) room ok(4,6)])
  then show ?thesis
    using leads_cache_ok [OF leads(1) e ok(1)] leads_units_ok [OF leads(1) e ok(1-3)] leads(2) ok
    by (simp add: within_units_def same_limits_def internal_policy_def)
qed

lemma within_set_low:
  assumes "oc_set_low_units env n c = (Inr (), d)" and "units_env env nUnit" and "within_units env nUnit c"
  shows "within_units env nUnit d"
proof -
  have d: "d = c\<lparr>oc_prune_units := (if oc_max_units c \<le> n then oc_prune_part env (oc_max_units c) else n)\<rparr>"
    using assms(1) by (auto simp: oc_set_low_units_def split: if_splits)
  have core: "same_core c d" by (simp add: d)
  have "leads env no_room c d" by (rule leads_core [OF core])
  moreover have "leads env (units_room env) c d" by (rule leads_core [OF core])
  ultimately show ?thesis
    using assms(2,3) leads_cache_ok [of env no_room c d] leads_units_ok [of env c d]
    by (auto simp: within_units_def units_env_def d internal_policy_def)
qed

lemma within_set_high:
  assumes set: "oc_set_high_units env now n c = (Inr (), d)" and env: "units_env env nUnit"
    and c: "within_units env nUnit c" and n: "unat n + nUnit < 2 ^ 32"
  shows "within_units env nUnit d"
proof -
  let ?b = "c\<lparr>oc_max_units := n\<rparr>" let ?fShrink = "n < oc_max_units c"
  have e: "env_ok env" using env by (simp add: units_env_def)
  obtain b where b: "oc_set_low_units env (oc_prune_part env n) ?b = (Inr (), b)"
    "d = (if ?fShrink then check_size env now b else b)"
    using set by (auto simp: oc_set_high_units_def Let_def split: prod.splits sum.splits)
  have low: "b = ?b\<lparr>oc_prune_units := (if n \<le> oc_prune_part env n then oc_prune_part env n else oc_prune_part env n)\<rparr>"
    using b(1) by (auto simp: oc_set_low_units_def split: if_splits)
  have core: "same_core c b" by (simp add: low same_core_def)
  have leads: "leads env room c b" for room by (rule leads_core [OF core])
  have ok: "cache_ok env c" "units_ok env c" "steady env c" "internal_policy c" "oc_cur_units c \<le> oc_max_units c"
    using c by (simp_all add: within_units_def)
  have bok: "cache_ok env b" "units_ok env b" "steady env b"
    using leads_cache_ok [OF leads e ok(1)] leads_units_ok [OF leads e ok(1-3)] by simp_all
  have marks: "oc_max_units b = n" "oc_prune_units b \<le> n" "internal_policy b" "oc_cur_units b = oc_cur_units c"
    using env ok(4) by (simp_all add: low units_env_def internal_policy_def)
  show ?thesis
  proof (cases "?fShrink \<and> n < oc_cur_units b")
    case True
    then have d: "d = oc_prune env now b" using b(2) marks(1) by (simp add: check_size_def)
    have p: "leads env room b d" for room unfolding d by (rule prune_leads)
    have "oc_cur_units d \<le> n" using prune_low [OF bok e marks(3), of now] marks(1,2) d by simp
    moreover have "same_limits b d" unfolding d by (rule prune_limits)
    ultimately show ?thesis
      using leads_cache_ok [OF p e bok(1)] leads_units_ok [OF p e bok] marks n
      by (simp add: within_units_def same_limits_def internal_policy_def)
  next
    case False
    then have "d = b" using b(2) marks(1) by (auto simp: check_size_def)
    moreover have "oc_cur_units b \<le> n" using False marks(4) ok(5) by (auto simp: not_less)
    ultimately show ?thesis using bok marks n by (simp add: within_units_def)
  qed
qed

lemma within_core:
  assumes "same_core c d" and "oc_max_units d = oc_max_units c" and "oc_prune_units d = oc_prune_units c"
    and "internal_policy c \<Longrightarrow> internal_policy d" and "env_ok env" and "within_units env nUnit c"
  shows "within_units env nUnit d"
proof -
  have leads: "leads env room c d" for room by (rule leads_core [OF assms(1)])
  have ok: "cache_ok env c" "units_ok env c" "steady env c" using assms(6) by (simp_all add: within_units_def)
  show ?thesis
    using leads_cache_ok [OF leads assms(5) ok(1)] leads_units_ok [OF leads assms(5) ok] assms
    by (simp add: within_units_def same_core_def)
qed

section \<open>The operations leave the limits alone\<close>

lemma get_entry_limits [simp]: "same_limits c (snd (oc_get_entry env now k c))"
proof -
  obtain found d where g: "oc_get_entry_internal env now k (check_flush env now c) = (found, d)" by force
  have d: "same_limits c d" using flushed_get_limits [of c env now k] by (simp add: g)
  have "same_limits d (change_entry env k (entry_touch now) (d\<lparr>oc_hits := n\<rparr>))" for n
    by (simp add: same_limits_def)
  then show ?thesis using d same_limits_trans [OF d]
    by (cases found) (auto simp: oc_get_entry_def g)
qed

lemma get_limits [simp]: "same_limits c (snd (oc_get env now k c))"
  using get_entry_limits [of c env now k] by (simp add: oc_get_def case_prod_unfold del: get_entry_limits)

lemma contains_limits [simp]: "same_limits c (snd (oc_contains_key env now k c))"
  using flushed_get_limits [of c env now k] by (simp add: oc_contains_key_def case_prod_unfold)

lemma size_limits [simp]: "same_limits c (snd (oc_size env now c))"
  by (simp add: oc_size_def Let_def)

lemma remove_limits [simp]: "same_limits c (snd (oc_remove env now k c))"
proof -
  obtain found d where g: "oc_get_entry_internal env now k (check_flush env now c) = (found, d)" by force
  have d: "same_limits c d" using flushed_get_limits [of c env now k] by (simp add: g)
  have "same_limits d ((entry_discard env he d)\<lparr>oc_map := m\<rparr>)" for he m
    by (rule same_limits_trans [OF limits_entries(1) limits_parts(11)])
  then show ?thesis using d same_limits_trans [OF d] by (cases found) (auto simp: oc_remove_def g Let_def)
qed

lemma clear_limits [simp]: "same_limits c (oc_clear env now c)"
proof -
  let ?f = "\<lambda>he c. if is_expired now (he_value he) then remove_expired env he True c else entry_discard env he c"
  have "same_limits c (fold ?f (hm_to_array (oc_map (defer_flush c))) (defer_flush c))"
    by (rule same_limits_trans [OF limits_parts(3) same_limits_fold]) simp
  then show ?thesis
    by (simp add: oc_clear_def Let_def same_limits_def schedule_flush_def oc_reset_hit_statistics_def)
qed

lemma sweep_limits [simp]: "same_limits c (snd (oc_sweep env now c))"
  by (simp add: oc_sweep_def Let_def same_limits_fold)

lemma arrays_limits [simp]: "same_limits c (snd (oc_key_array env now c))" "same_limits c (snd (oc_values_array env now c))"
  "same_limits c (snd (oc_entry_array env now c))"
  using same_limits_trans [OF size_limits sweep_limits]
  by (simp_all add: oc_key_array_def oc_values_array_def oc_entry_array_def case_prod_unfold)

lemma set_flush_time_limits [simp]: "same_limits c (oc_set_flush_time env now t c)"
  unfolding oc_set_flush_time_def by (rule same_limits_trans [OF _ check_flush_limits]) (simp add: same_limits_def)

text \<open>Every operation keeps a cache within its units.\<close>

lemma step_within:
  assumes "oc_step env opn c = (Inr (), d)" and "units_env env nUnit" and "within_units env nUnit c" and "op_units nUnit opn"
  shows "within_units env nUnit d"
proof -
  have e: "env_ok env" using assms(2) by (simp add: units_env_def)
  obtain now r where opn: "opn = (now, r)" by (cases opn)
  note drain = within_drain [OF _ _ e assms(3)]
  show ?thesis
  proof (cases r)
    case (OpPut k v cMillis)
    then obtain x where "oc_put env now k v cMillis c = (Inr x, d)" using assms(1) mapc_done by (fastforce simp: opn)
    then show ?thesis by (rule within_put [OF _ assms(2,3)])
  next
    case (OpSetHighUnits n)
    then show ?thesis using within_set_high [OF _ assms(2,3)] assms(1,4) by (simp add: opn)
  next
    case (OpSetLowUnits n)
    then show ?thesis using within_set_low [OF _ assms(2,3)] assms(1) by (simp add: opn)
  next
    case (OpSetExpiryDelay t)
    then have "d = oc_set_expiry_delay t c" using assms(1) by (simp add: opn returns_def)
    then show ?thesis by (intro within_core [OF _ _ _ _ e assms(3)]) (simp_all add: oc_set_expiry_delay_def same_core_def internal_policy_def)
  next
    case (OpSetFlushDelay t)
    then have "d = oc_set_flush_delay now t c" using assms(1) by (simp add: opn returns_def)
    then show ?thesis
      by (intro within_core [OF _ _ _ _ e assms(3)]) (simp_all add: oc_set_flush_delay_def schedule_flush_def same_core_def internal_policy_def)
  next
    case (OpSetEvictionType nType)
    then have "d = c\<lparr>oc_eviction := nType\<rparr>" "nType \<noteq> ExternalPolicy"
      using assms(1) by (auto simp: opn oc_set_eviction_type_def split: if_splits)
    then show ?thesis by (intro within_core [OF _ _ _ _ e assms(3)]) (simp_all add: same_core_def internal_policy_def)
  qed (use assms(1,4) drain in \<open>auto simp: opn returns_def get_leads contains_key_leads remove_leads clear_leads size_leads
      evict_leads evict_all_leads evict_expired_leads arrays_leads set_flush_time_leads\<close>)
qed

lemma run_within:
  assumes "oc_run env ops c = (Inr (), d)" and "units_env env nUnit" and "within_units env nUnit c"
    and "\<forall>opn\<in>set ops. op_units nUnit opn"
  shows "within_units env nUnit d"
  using assms
proof (induction ops arbitrary: c)
  case (Cons opn ops)
  obtain b where b: "oc_step env opn c = (Inr (), b)" "oc_run env ops b = (Inr (), d)"
    using Cons.prems(1) by (auto simp only: oc_run_Cons)
  have "within_units env nUnit b" by (rule step_within [OF b(1) Cons.prems(2,3)]) (use Cons.prems(4) in simp)
  with Cons.IH [OF b(2) Cons.prems(2)] Cons.prems(4) show ?case by simp
qed simp

end
