(* ===== verification/Cache_Properties.thy ===== *)
theory Cache_Properties
  imports Cache_Runs "HOL-Library.Code_Target_Nat"
begin

text \<open>
  What the hash map and the local cache guarantee.  The witnesses run a small cache whose keys
  are their own hash codes.
\<close>

section \<open>Runs of the hash map\<close>

datatype ('k, 'e) hm_op = HmPut 'k 'e | HmRemove 'k | HmClear

fun hm_step :: "'k hm_env \<Rightarrow> ('k, 'e) hm_op \<Rightarrow> (('k, 'e) hash_map, 'e option) comp" where
  "hm_step env (HmPut k x) m = hm_put env k x m"
| "hm_step env (HmRemove k) m = (case hm_remove env k m of (r, m) \<Rightarrow> (Inr r, m))"
| "hm_step env HmClear m = (Inr None, hm_clear env m)"

fun hm_run :: "'k hm_env \<Rightarrow> ('k, 'e) hm_op list \<Rightarrow> (('k, 'e) hash_map, 'e option list) comp" where
  "hm_run env [] = ret []"
| "hm_run env (opn # ops) = bindc (hm_step env opn) (\<lambda>r. bindc (hm_run env ops) (\<lambda>rs. ret (r # rs)))"

text \<open>The same operations on a map.\<close>

fun map_step :: "('k, 'e) hm_op \<Rightarrow> ('k \<Rightarrow> 'e option) \<Rightarrow> 'e option \<times> ('k \<Rightarrow> 'e option)" where
  "map_step (HmPut k x) m = (m k, m(k \<mapsto> x))"
| "map_step (HmRemove k) m = (m k, m(k := None))"
| "map_step HmClear m = (None, Map.empty)"

fun map_run :: "('k, 'e) hm_op list \<Rightarrow> ('k \<Rightarrow> 'e option) \<Rightarrow> 'e option list \<times> ('k \<Rightarrow> 'e option)" where
  "map_run [] m = ([], m)"
| "map_run (opn # ops) m = (case map_step opn m of (r, m) \<Rightarrow> case map_run ops m of (rs, m) \<Rightarrow> (r # rs, m))"

definition hm_map :: "'k hm_env \<Rightarrow> ('k, 'e) hash_map \<Rightarrow> 'k \<Rightarrow> 'e option" where
  "hm_map env m k = hm_get env k m"

lemma hm_step_ok:
  assumes "hm_ok env m" and "hm_step env opn m = (Inr r, m')"
  shows "hm_ok env m'"
proof (cases opn)
  case (HmPut k x)
  then have "m' = snd (hm_put env k x m)" "fst (hm_put env k x m) = Inr r" using assms(2) by simp_all
  then show ?thesis using hm_put_law(1) [OF assms(1)] by simp
next
  case (HmRemove k)
  then have "m' = hm_delete env k m" using assms(2) by (auto simp: hm_delete_def split: prod.splits)
  then show ?thesis using hm_remove_law(2) [OF assms(1)] by simp
next
  case HmClear
  then show ?thesis using assms(2) hm_clear_law(1) [of env m] by simp
qed

lemma hm_step_fails: "hm_step env opn m = (Inl err, m') \<Longrightarrow> err = UndefinedBehaviour \<and> hm_buckets m' = []"
  using hm_put_fails [of env _ _ m err] by (cases opn) (auto split: prod.splits simp: prod_eq_iff)

lemma hm_step_map:
  assumes "hm_ok env m" and "hm_step env opn m = (Inr r, m')"
  shows "map_step opn (hm_map env m) = (r, hm_map env m')"
proof (cases opn)
  case (HmPut k x)
  then have m': "m' = snd (hm_put env k x m)" "fst (hm_put env k x m) = Inr r" using assms(2) by simp_all
  then show ?thesis using hm_put_law(2,3) [OF assms(1) m'(2)]
    by (simp add: HmPut hm_map_def fun_eq_iff)
next
  case (HmRemove k)
  then have m': "m' = hm_delete env k m" "r = fst (hm_remove env k m)"
    using assms(2) by (auto simp: hm_delete_def split: prod.splits)
  then show ?thesis using hm_remove_law(1,3) [OF assms(1)] by (simp add: HmRemove hm_map_def fun_eq_iff)
next
  case HmClear
  then show ?thesis using assms(2) hm_clear_law(2) [of env _ m] by (simp add: hm_map_def fun_eq_iff)
qed

lemma hm_run_ok: "hm_ok env m \<Longrightarrow> hm_run env ops m = (Inr rs, m') \<Longrightarrow> hm_ok env m'"
proof (induction ops arbitrary: m rs)
  case (Cons opn ops)
  then obtain r b qs where "hm_step env opn m = (Inr r, b)" "hm_run env ops b = (Inr qs, m')"
    by (auto simp: bindc_def split: prod.splits sum.splits)
  then show ?case using Cons.IH hm_step_ok [OF Cons.prems(1)] by blast
qed simp

lemma hm_run_fails: "hm_run env ops m = (Inl err, m') \<Longrightarrow> err = UndefinedBehaviour \<and> hm_buckets m' = []"
proof (induction ops arbitrary: m)
  case (Cons opn ops)
  then show ?case using hm_step_fails [of env opn m err m']
    by (auto simp: bindc_def ret_def split: prod.splits sum.splits)
qed simp

lemma hm_run_map:
  "hm_ok env m \<Longrightarrow> hm_run env ops m = (Inr rs, m') \<Longrightarrow> map_run ops (hm_map env m) = (rs, hm_map env m')"
proof (induction ops arbitrary: m rs)
  case (Cons opn ops)
  obtain r b qs where b: "hm_step env opn m = (Inr r, b)" "hm_run env ops b = (Inr qs, m')" "rs = r # qs"
    using Cons.prems(2) by (auto simp: bindc_def split: prod.splits sum.splits)
  have "hm_ok env b" by (rule hm_step_ok [OF Cons.prems(1) b(1)])
  from Cons.IH [OF this b(2)] hm_step_map [OF Cons.prems(1) b(1)] show ?case by (simp add: b(3))
qed simp

lemma hm_size_card: "hm_ok env m \<Longrightarrow> hm_size m = card (dom (hm_map env m))"
proof -
  assume ok: "hm_ok env m"
  have "dom (hm_map env m) = fst ` set (hm_all m)" using table.all_entry [OF ok] by (force simp: hm_map_def)
  also have "card \<dots> = length (hm_all m)" using hm_all_law(2) [OF ok] by (metis card_set distinct_card length_map set_map)
  finally show ?thesis using ok by (simp add: hm_size_def hm_ok_def hm_all_def)
qed

text \<open>
  C18: SafeHashMap is a map.  Whatever is put, removed and cleared, starting from a new map of
  any number of buckets and through the growth of its bucket array, the operations return what
  they return on a map, the lookups see that map, and the size is the number of its keys.
\<close>

theorem hash_map_refines:
  assumes "hm_run env ops (hm_create env cInitialBuckets) = (Inr rs, m)"
  shows "map_run ops Map.empty = (rs, \<lambda>k. hm_get env k m) \<and> hm_size m = card (dom (\<lambda>k. hm_get env k m))"
proof -
  have start: "hm_map env (hm_create env cInitialBuckets) = Map.empty" by (simp add: hm_map_def fun_eq_iff hm_create_law)
  have ok: "hm_ok env m" by (rule hm_run_ok [OF hm_create_law(1) assms])
  show ?thesis using hm_run_map [OF hm_create_law(1) assms] hm_size_card [OF ok] unfolding start by (simp add: hm_map_def [abs_def])
qed

definition tiny_table :: "nat hm_env" where
  "tiny_table = \<lparr>hm_hash = id, hm_load = id, hm_growth = (\<lambda>n. 4 * n)\<rparr>"

definition tiny_hash_ops :: "(nat, nat) hm_op list" where
  "tiny_hash_ops = [HmPut 1 10, HmPut 18 20, HmPut 35 30, HmRemove 18, HmPut 1 11]"

lemma hash_map_refines_witness:
  "\<exists>m. hm_run tiny_table tiny_hash_ops (hm_create tiny_table 1) = (Inr [None, None, None, Some 20, Some 10], m) \<and>
    map_run tiny_hash_ops Map.empty = ([None, None, None, Some 20, Some 10], \<lambda>k. hm_get tiny_table k m) \<and> length (hm_buckets m) = 17"
proof -
  let ?r = "hm_run tiny_table tiny_hash_ops (hm_create tiny_table 1)"
  have run: "fst ?r = Inr [None, None, None, Some 20, Some 10] \<and> length (hm_buckets (snd ?r)) = 17" by code_simp
  then have "?r = (Inr [None, None, None, Some 20, Some 10], snd ?r)" by (simp add: prod_eq_iff)
  with hash_map_refines [OF this] run show ?thesis by blast
qed

text \<open>
  C19: The hash map stays well formed while its operations return: whatever is put, removed and
  cleared, the bucket array is not empty, every entry carries the hash code of its key and is
  in the bucket of that code, no key is in a bucket twice, and the counter counts the entries.
  The one failure is a growth for which there is no prime in the table: it divides by 0 when the
  map has given up its buckets, so that all the entries are lost.
\<close>

theorem hash_map_well_formed:
  "case hm_run env ops (hm_create env cInitialBuckets) of
     (Inl err, m) \<Rightarrow> err = UndefinedBehaviour \<and> hm_buckets m = []
   | (Inr _, m) \<Rightarrow>
       let bs = hm_buckets m in
       bs \<noteq> [] \<and> hm_entries m = length (concat bs) \<and>
       list_all (\<lambda>(i, es). distinct (map he_key es) \<and>
         list_all (\<lambda>e. he_hash e = hm_hash env (he_key e) \<and> bucket_index (he_hash e) (length bs) = i) es) (enumerate 0 bs)"
proof (cases "hm_run env ops (hm_create env cInitialBuckets)")
  case (Pair r m)
  show ?thesis
  proof (cases r)
    case (Inl err)
    then show ?thesis using hm_run_fails Pair by fastforce
  next
    case (Inr rs)
    have "hm_ok env m" by (rule hm_run_ok [OF hm_create_law(1) Pair [unfolded Inr]])
    then show ?thesis unfolding Pair Inr
      by (auto simp: Let_def hm_ok_def hm_to_array_def buckets_ok_def chain_ok_def list_all_iff in_set_enumerate_eq)
  qed
qed

section \<open>Events\<close>

text \<open>
  C4: The events tell the contents.  Take a run of operations (lookups, sizes, puts, removals,
  clear, evictions, the arrays, changes of the limits, delays, policy and unit calculator, but no
  release)
  that throws nothing, on a new cache that has listeners, with calculators that never answer
  with the number of units that marks a discarded entry.  A replica that a listener keeps by the
  events it is sent never meets an event that does not fit it (an insertion of a key it has, an
  update or a deletion with another old value), and it ends up as the contents of the cache,
  expired and evicted entries included.
\<close>

theorem cache_events_replay:
  assumes "oc_run env ops ((old_cache_create env cUnits cExpiryMillis cInitialBuckets now)\<lparr>oc_listening := True\<rparr>) = (Inr (), c)"
    and "env_ok env" and "\<forall>opn\<in>set ops. snd opn \<noteq> OpRelease"
  shows "replay (oc_events c) Map.empty = Some (oc_contents env c)"
  using run_cache_ok [OF assms(1,2) create_ok(1)] assms(3) by (simp add: cache_ok_def old_cache_create_def)

definition tiny_cache_env :: "(nat, nat) oc_env" where
  "tiny_cache_env = \<lparr>oc_table = tiny_table, oc_calculate = (\<lambda>_ k _. if k = 2 then 2 else 1), oc_request_eviction = (\<lambda>_ _. []),
     oc_prune_part = (\<lambda>n. drop_bit 1 n), oc_recentness = (\<lambda>_ _. 1), oc_frequency = (\<lambda>_ _. 1)\<rparr>"

definition tiny_ops :: "(int \<times> (nat, nat) cache_op) list" where
  "tiny_ops = [(1, OpPut 1 10 0), (3, OpPut 1 11 0), (4, OpRemove 1)]"

definition tiny_cache :: "(nat, nat) old_cache" where
  "tiny_cache = old_cache_create tiny_cache_env 4 0 2 0"

lemma tiny_env_ok: "env_ok tiny_cache_env" "units_env tiny_cache_env 2"
proof -
  show "env_ok tiny_cache_env" by (simp add: env_ok_def tiny_cache_env_def units_npos_def)
  moreover have "drop_bit 1 n \<le> n" for n :: "32 word" by (simp add: word_le_nat_alt drop_bit_eq_div unat_div)
  ultimately show "units_env tiny_cache_env 2" by (simp add: units_env_def tiny_cache_env_def)
qed

lemma cache_events_replay_witness:
  "\<exists>c. oc_run tiny_cache_env tiny_ops (tiny_cache\<lparr>oc_listening := True\<rparr>) = (Inr (), c) \<and>
    replay (oc_events c) Map.empty = Some (oc_contents tiny_cache_env c) \<and> length (oc_events c) = 3"
proof -
  let ?r = "oc_run tiny_cache_env tiny_ops (tiny_cache\<lparr>oc_listening := True\<rparr>)"
  have run: "fst ?r = Inr ()" "length (oc_events (snd ?r)) = 3" by code_simp+
  then have "?r = (Inr (), snd ?r)" by (simp add: prod_eq_iff)
  with cache_events_replay [OF this [unfolded tiny_cache_def] tiny_env_ok(1)] run show ?thesis
    unfolding tiny_cache_def by (auto simp: tiny_ops_def)
qed

section \<open>Units\<close>

lemma new_within:
  assumes "policy \<noteq> ExternalPolicy" and "\<And>u k v w. calculator = Some u \<Longrightarrow> oc_calculate env u k v = oc_calculate env u k w"
    and "units_env env nUnit" and "unat cUnits + nUnit < 2 ^ 32"
  shows "within_units env nUnit ((old_cache_create env cUnits cExpiryMillis cInitialBuckets now)
      \<lparr>oc_eviction := policy, oc_calculator := calculator\<rparr>)" (is "within_units env nUnit ?c")
proof -
  have look: "oc_look env k ?c = None" for k by (simp add: old_cache_create_def hm_create_law)
  have "cache_ok env ?c" using look by (simp add: cache_ok_def old_cache_create_def hm_create_law(1))
  moreover have "units_ok env ?c"
    using look table.weight_empty [OF hm_create_law(1) hm_create_law(2)]
    by (simp add: units_ok_def total_units_def old_cache_create_def hm_create_law(1))
  moreover have "steady env ?c"
  proof (cases calculator)
    case (Some u)
    then show ?thesis using assms(2) [OF Some] unfolding steady_def calculate_units_def by simp
  qed (simp add: steady_def calculate_units_def)
  ultimately show ?thesis
    using assms(1,3,4) by (simp add: within_units_def internal_policy_def old_cache_create_def units_env_def)
qed

text \<open>
  C5: The cache keeps to its high units.  Take a run of operations (lookups, sizes, puts,
  removals, clear, evictions, the arrays, changes of the limits, delays and policy, but neither a release nor a
  change of the unit calculator, which do not keep the total) that throws nothing, on a new cache
  with one of its own eviction policies, with calculators of a bounded number of units, of which
  the one in use goes by the key (the fixed one does).  Then the total is the sum of the units of the entries and is at most the high units, as
  long as the high units of every time and the units of one more entry do not overflow, and the
  low mark is computed to be at most the high units.
\<close>

theorem cache_within_units:
  assumes "oc_run env ops ((old_cache_create env cUnits cExpiryMillis cInitialBuckets now)
      \<lparr>oc_eviction := policy, oc_calculator := calculator\<rparr>) = (Inr (), c)"
    and "policy \<noteq> ExternalPolicy" and "\<And>u k v w. calculator = Some u \<Longrightarrow> oc_calculate env u k v = oc_calculate env u k w"
    and "units_env env nUnit" and "unat cUnits + nUnit < 2 ^ 32" and "list_all (op_units nUnit) ops"
  shows "oc_cur_units c \<le> oc_max_units c \<and>
    unat (oc_cur_units c) = (\<Sum>he\<leftarrow>hm_to_array (oc_map c). unat (ce_units (he_value he)))"
  using run_within [OF assms(1,4) new_within [OF assms(2-5)]] assms(6)
  by (simp add: within_units_def units_ok_def total_entries list_all_iff)

lemma cache_within_units_witness:
  "\<exists>c. oc_run tiny_cache_env tiny_ops (tiny_cache\<lparr>oc_eviction := LruPolicy, oc_calculator := Some 0\<rparr>) = (Inr (), c) \<and>
    oc_cur_units c \<le> oc_max_units c"
proof -
  let ?r = "oc_run tiny_cache_env tiny_ops (tiny_cache\<lparr>oc_eviction := LruPolicy, oc_calculator := Some 0\<rparr>)"
  have "fst ?r = Inr ()" by code_simp
  then have run: "?r = (Inr (), snd ?r)" by (simp add: prod_eq_iff)
  have "list_all (op_units 2) tiny_ops" "\<forall>u k v w. oc_calculate tiny_cache_env u k v = oc_calculate tiny_cache_env u k w"
    by (simp_all add: tiny_ops_def tiny_cache_env_def)
  with cache_within_units [OF run [unfolded tiny_cache_def] _ _ tiny_env_ok(2)] run show ?thesis
    unfolding tiny_cache_def by auto
qed

section \<open>Eviction\<close>

text \<open>
  C16: A prune under the LRU or the LFU policy evicts the entries that were used least recently
  or least often: an entry that it evicts, and that has not expired, was not used later, or not
  more often, than an entry that it leaves.
\<close>

theorem cache_prune_oldest:
  assumes ok: "cache_ok env c" and "env_ok env" and policy: "oc_eviction c = (if fLRU then LruPolicy else LfuPolicy)"
    and k: "oc_look env k c = Some e" "\<not> is_expired now e" "oc_look env k (oc_prune env now c) = None"
    and j: "oc_look env j c = Some e'" "oc_look env j (oc_prune env now c) \<noteq> None"
  shows "(if fLRU then ce_last_use e \<le> ce_last_use e' else ce_uses e \<le> ce_uses e')"
proof -
  define c1 where "c1 = oc_evict_expired env now c"
  define d where "d = prune_ordered env now fLRU c1"
  have ok1: "cache_ok env c1" unfolding c1_def by (rule leads_cache_ok [OF evict_expired_leads assms(2) ok])
  have table: "hm_ok (oc_table env) (oc_map c1)" using ok1 by (simp add: cache_ok_def)
  have look1: "oc_look env k c1 = Some e" using k(1,2) by (simp add: c1_def evict_expired_look [OF ok])
  have "oc_eviction c1 = oc_eviction c" using evict_expired_limits [of c env now] by (simp add: c1_def same_limits_def)
  then have prune: "oc_prune env now c =
      (if oc_cur_units c < oc_max_units c then c else if oc_cur_units c1 < oc_max_units c1 then c1
       else (if fLRU then d else d\<lparr>oc_map := hm_change_all reset_touch_count (oc_map d)\<rparr>)
         \<lparr>oc_prunes := oc_prunes d + 1, oc_last_prune := now\<rparr>)"
    using policy by (simp add: oc_prune_def Let_def c1_def [symmetric] d_def)
  have dok: "hm_ok (oc_table env) (oc_map d)"
    using effects_cache_ok [OF prune_ordered_effects [OF ok1] ok1 assms(2)] by (simp add: d_def cache_ok_def)
  have pruned: "\<not> oc_cur_units c < oc_max_units c" "\<not> oc_cur_units c1 < oc_max_units c1"
    using k(1,3) look1 unfolding prune by (auto split: if_splits)
  have look: "oc_look env i (oc_prune env now c) = None \<longleftrightarrow> oc_look env i d = None" for i
    unfolding prune using pruned hm_change_all_law(2) [OF dok] by simp
  obtain ds rs where prune1: "prune_ordered env now fLRU c1 = drops env ds c1" and ds: "mset (ds @ rs) = mset (live_entries now c1)"
    "sorted (map (entry_order fLRU) (ds @ rs))"
    by (rule prune_ordered_drops [OF ok1, of now fLRU]) (rule that)
  note part = perm_part [OF ds(1)]
  have dlook: "oc_look env i d = (if i \<in> he_key ` set ds then None else oc_look env i c1)" for i
    unfolding d_def prune1 by (rule drops_look(2) [OF table])
  obtain he where he: "he \<in> set ds" "he_key he = k" using k(3) look look1 dlook [of k] by (auto split: if_splits)
  then have "oc_look env k c1 = Some (he_value he)"
    using cache_entries(2) [OF ok1, of he] part(1) live_entries_law(1) [OF ok1, of now] by blast
  then have e: "he_value he = e" using look1 by simp
  have look2: "oc_look env j c1 \<noteq> None" "j \<notin> he_key ` set ds" using j(2) look dlook [of j] by (auto split: if_splits)
  then have "oc_look env j c1 = Some e'" "\<not> is_expired now e'"
    using j(1) by (auto simp: c1_def evict_expired_look [OF ok] split: if_splits)
  then obtain he' where he': "he' \<in> set (live_entries now c1)" "he_key he' = j" "he_value he' = e'"
    using table_entries(4) [OF table] by (fastforce simp: live_entries_def)
  then have "he' \<in> set rs" using part(2) look2(2) by blast
  then have "entry_order fLRU he \<le> entry_order fLRU he'" using ds(2) he(1) by (auto simp: sorted_append)
  then show ?thesis using e he'(3) by (simp add: entry_order_def split: if_splits)
qed

lemma tiny_within:
  assumes "policy \<noteq> ExternalPolicy" and "unat n + 2 < 2 ^ 32"
  shows "within_units tiny_cache_env 2 ((old_cache_create tiny_cache_env n 0 2 0)\<lparr>oc_eviction := policy\<rparr>)"
  using new_within [OF assms(1) _ tiny_env_ok(2) assms(2), where calculator = None and cExpiryMillis = 0 and cInitialBuckets = 2 and now = 0]
  by (simp add: old_cache_create_def)

definition tiny_full :: "(nat, nat) old_cache" where
  "tiny_full = snd (oc_run tiny_cache_env [(1, OpPut 1 10 0), (2, OpPut 2 20 0)]
     ((old_cache_create tiny_cache_env 2 0 2 0)\<lparr>oc_eviction := LruPolicy\<rparr>))"

lemma tiny_full_ok: "within_units tiny_cache_env 2 tiny_full"
proof -
  let ?c = "(old_cache_create tiny_cache_env 2 0 2 0)\<lparr>oc_eviction := LruPolicy\<rparr>"
  let ?r = "oc_run tiny_cache_env [(1, OpPut 1 10 0), (2, OpPut 2 20 0)] ?c"
  have "fst ?r = Inr ()" by code_simp
  then have run: "?r = (Inr (), tiny_full)" by (simp add: prod_eq_iff tiny_full_def)
  have "within_units tiny_cache_env 2 ?c" by (rule tiny_within) simp_all
  from run_within [OF run tiny_env_ok(2) this] show ?thesis by simp
qed

lemma cache_prune_oldest_witness:
  "\<exists>e e'. oc_look tiny_cache_env 1 tiny_full = Some e \<and> oc_look tiny_cache_env 1 (oc_prune tiny_cache_env 9 tiny_full) = None \<and>
    oc_look tiny_cache_env 2 tiny_full = Some e' \<and> ce_last_use e \<le> ce_last_use e'"
proof -
  have 1: "oc_look tiny_cache_env 1 tiny_full = Some \<lparr>ce_value = 10, ce_created = 1, ce_last_use = 1, ce_expiry = 0, ce_uses = 0, ce_units = 1\<rparr>"
    (is "_ = Some ?e") by code_simp
  have 2: "oc_look tiny_cache_env 2 tiny_full = Some \<lparr>ce_value = 20, ce_created = 2, ce_last_use = 2, ce_expiry = 0, ce_uses = 0, ce_units = 1\<rparr>"
    (is "_ = Some ?e'") by code_simp
  have gone: "oc_look tiny_cache_env 1 (oc_prune tiny_cache_env 9 tiny_full) = None" by code_simp
  have left: "oc_look tiny_cache_env 2 (oc_prune tiny_cache_env 9 tiny_full) \<noteq> None" by code_simp
  have policy: "oc_eviction tiny_full = LruPolicy" by code_simp
  have "cache_ok tiny_cache_env tiny_full" using tiny_full_ok by (simp add: within_units_def)
  from cache_prune_oldest [OF this tiny_env_ok(1), of True 1 ?e 9 2 ?e'] 1 2 gone left policy
  show ?thesis by (simp add: is_expired_def)
qed

text \<open>
  C30: The shifts and masks of indexOfMSB compute the position of the most significant bit: the
  logarithm rounded down, and -1 for 0.
\<close>

theorem index_of_msb_log: "index_of_msb n = int (floorlog 2 (unat n)) - 1"
  by (rule msb_log)

section \<open>Putting and getting\<close>

text \<open>
  C17: What is put is what get returns: on a cache whose total is the sum of the units of its
  entries, with a calculator that goes by the key, and after a put that has room below the high
  units, for a key that the cache has or has not, put has returned the value that a get would
  have returned before, and a get returns the new value at any time up to the expiry of the
  entry.  The cache is well formed, and the calculator never answers with the number of units that
  marks a discarded entry.  (With a calculator that goes by the value an update moves the total the
  wrong way, see \<open>cache_update_units\<close>.)
\<close>

theorem cache_put_get:
  assumes put: "oc_put env now k v cMillis c = (Inr r, d)" and env: "env_ok env" and ok: "cache_ok env c"
    and units: "units_ok env c" "steady env c"
    and fits: "unat (oc_cur_units c) + unat (calculate_units env c k v) \<le> unat (oc_max_units c)"
    and later: "put_expires now cMillis c = 0 \<or> now' \<le> put_expires now cMillis c"
  shows "r = fst (oc_get env now k c) \<and> fst (oc_get env now' k d) = Some v"
proof -
  note law = put_fits [OF put env ok units fits]
  have get: "fst (oc_get env t k b) = (case oc_look env k b of None \<Rightarrow> None | Some e \<Rightarrow> if is_expired t e then None else Some (ce_value e))"
    if "cache_ok env b" for t b
  proof -
    obtain found b' where g: "oc_get_entry_internal env t k (check_flush env t b) = (found, b')" by force
    show ?thesis using flushed_get(4) [OF env that g]
      by (cases found; cases "oc_look env k b") (auto simp: oc_get_def oc_get_entry_def g split: if_splits)
  qed
  have "cache_ok env d" by (rule leads_cache_ok [OF law(3) env ok])
  moreover obtain e where "oc_look env k d = Some e" "ce_value e = v" "ce_expiry e = put_expires now cMillis c"
    using law(2) by blast
  ultimately show ?thesis using law(1) later by (auto simp: get [OF ok] get is_expired_def)
qed

lemma cache_put_get_witness:
  "\<exists>d. oc_put tiny_cache_env 1 2 20 5 tiny_cache = (Inr None, d) \<and> fst (oc_get tiny_cache_env 6 2 d) = Some 20"
proof -
  let ?r = "oc_put tiny_cache_env 1 2 20 5 tiny_cache"
  have "fst ?r = Inr None" by code_simp
  then have put: "?r = (Inr None, snd ?r)" by (simp add: prod_eq_iff)
  have "within_units tiny_cache_env 2 tiny_cache" using tiny_within [of HybridPolicy 4]
    by (simp add: tiny_cache_def old_cache_create_def)
  then have ok: "cache_ok tiny_cache_env tiny_cache" "units_ok tiny_cache_env tiny_cache" "steady tiny_cache_env tiny_cache"
    by (simp_all add: within_units_def)
  have "unat (oc_cur_units tiny_cache) + unat (calculate_units tiny_cache_env tiny_cache 2 20) \<le> unat (oc_max_units tiny_cache)"
    by (simp add: tiny_cache_def old_cache_create_def calculate_units_def)
  from cache_put_get [OF put tiny_env_ok(1) ok this, of 6] put show ?thesis by (auto simp: put_expires_def)
qed

text \<open>
  C20: A lookup returns the value of an entry that has not expired and nothing else, loses no
  entry that has not expired and changes no value.
\<close>

theorem cache_get_value:
  assumes "env_ok env" and "cache_ok env c"
  shows "fst (oc_get env now k c) = (case oc_look env k c of None \<Rightarrow> None | Some e \<Rightarrow> if is_expired now e then None else Some (ce_value e)) \<and>
    (case oc_look env j c of
       None \<Rightarrow> oc_look env j (snd (oc_get env now k c)) = None
     | Some e \<Rightarrow> (case oc_look env j (snd (oc_get env now k c)) of None \<Rightarrow> is_expired now e | Some e' \<Rightarrow> ce_value e' = ce_value e))"
proof -
  obtain found b where g: "oc_get_entry_internal env now k (check_flush env now c) = (found, b)" by force
  note law = flushed_get [OF assms g]
  have ok: "cache_ok env (check_flush env now c)" by (rule leads_cache_ok [OF check_flush_leads assms])
  have table: "hm_ok (oc_table env) (oc_map b)" using law(1) by (simp add: cache_ok_def)
  have look: "oc_look env j (snd (oc_get env now k c)) =
      (if j = k \<and> found \<noteq> None then map_option (entry_touch now) (oc_look env j b) else oc_look env j b)"
    using hm_update_law(2) [OF table, of j k "entry_touch now"]
    by (cases found) (auto simp: oc_get_def oc_get_entry_def g)
  have part: "oc_look env j b = (if j = k \<and> found = None then None else oc_look env j (check_flush env now c))"
    by (rule get_internal_look(1) [OF ok g])
  have val: "map_option he_value found = (case oc_look env k c of None \<Rightarrow> None | Some e \<Rightarrow> if is_expired now e then None else Some e)"
    by (rule law(4))
  have "fst (oc_get env now k c) = map_option ce_value (map_option he_value found)"
    by (cases found) (simp_all add: oc_get_def oc_get_entry_def g)
  then have 1: "fst (oc_get env now k c) = (case oc_look env k c of None \<Rightarrow> None | Some e \<Rightarrow> if is_expired now e then None else Some (ce_value e))"
    unfolding val by (simp split: option.split)
  have 2: "j = k \<and> found = None \<Longrightarrow> oc_look env j c = Some e \<Longrightarrow> is_expired now e" for e
    using val by (auto split: if_splits)
  show ?thesis
    using 1 2 unfolding look part check_flush_look [OF assms(2)] by (auto split: option.split if_split)
qed

lemma cache_get_value_witness:
  "fst (oc_get tiny_cache_env 3 1 tiny_full) = Some 10"
proof -
  have 1: "oc_look tiny_cache_env 1 tiny_full = Some \<lparr>ce_value = 10, ce_created = 1, ce_last_use = 1, ce_expiry = 0, ce_uses = 0, ce_units = 1\<rparr>"
    by code_simp
  have "cache_ok tiny_cache_env tiny_full" using tiny_full_ok by (simp add: within_units_def)
  from cache_get_value [OF tiny_env_ok(1) this, of 3 1 1] 1 show ?thesis by (simp add: is_expired_def)
qed

section \<open>Flushing\<close>

lemma check_flush_due:
  assumes "cache_ok env c" and "oc_next_flush c < now"
  shows "oc_next_flush (check_flush env now c) = (if oc_flush_delay c = 0 then max_time else now + oc_flush_delay c)"
  using assms by (simp add: check_flush_def evict_expired_eq schedule_flush_def defer_flush_def)

text \<open>
  C21: Entries that have expired go in the end: once the flush is due, asking for the size evicts
  every expired entry and no other, the size is the number of the entries that have not
  expired, and the next flush is scheduled.
\<close>

theorem cache_flush_due:
  assumes "env_ok env" and ok: "cache_ok env c" and due: "oc_next_flush c < now" and "oc_size env now c = (n, d)"
  shows "{k. oc_look env k d \<noteq> None} = {k. \<exists>e. oc_look env k c = Some e \<and> \<not> is_expired now e} \<and>
    n = card {k. \<exists>e. oc_look env k c = Some e \<and> \<not> is_expired now e} \<and>
    oc_next_flush d = (if oc_flush_delay c = 0 then max_time else now + oc_flush_delay c)"
proof -
  have d: "d = check_flush env now c" "n = hm_size (oc_map d)" using assms(4) by (auto simp: oc_size_def Let_def)
  have keys: "{k. oc_look env k d \<noteq> None} = {k. \<exists>e. oc_look env k c = Some e \<and> \<not> is_expired now e}"
    using due by (auto simp: d(1) check_flush_look [OF ok] split: option.splits if_splits)
  have "cache_ok env d" unfolding d(1) by (rule leads_cache_ok [OF check_flush_leads assms(1) ok])
  then have "hm_ok (oc_table env) (oc_map d)" by (simp add: cache_ok_def)
  then have "n = card {k. oc_look env k d \<noteq> None}" using hm_size_card d(2) by (simp add: hm_map_def dom_def)
  then show ?thesis using keys check_flush_due [OF ok due] d(1) by simp
qed

definition tiny_expiring :: "(nat, nat) old_cache" where
  "tiny_expiring = snd (oc_run tiny_cache_env [(1, OpPut 1 10 5)] tiny_cache)"

lemma cache_flush_due_witness:
  "oc_look tiny_cache_env 1 tiny_expiring \<noteq> None \<and> (\<exists>n d. oc_size tiny_cache_env 70000 tiny_expiring = (n, d) \<and>
    n = card {k. \<exists>e. oc_look tiny_cache_env k tiny_expiring = Some e \<and> \<not> is_expired 70000 e} \<and> oc_next_flush d = 130000)"
proof -
  let ?r = "oc_run tiny_cache_env [(1, OpPut 1 10 5)] tiny_cache"
  have "fst ?r = Inr ()" by code_simp
  then have run: "?r = (Inr (), tiny_expiring)" by (simp add: prod_eq_iff tiny_expiring_def)
  have "cache_ok tiny_cache_env tiny_cache" by (simp add: tiny_cache_def create_ok(2))
  then have ok: "cache_ok tiny_cache_env tiny_expiring" using run_cache_ok [OF run tiny_env_ok(1)] by simp
  have due: "oc_next_flush tiny_expiring < 70000" and delay: "oc_flush_delay tiny_expiring = 60000"
    and there: "oc_look tiny_cache_env 1 tiny_expiring \<noteq> None" by code_simp+
  obtain n d where size: "oc_size tiny_cache_env 70000 tiny_expiring = (n, d)" by force
  from cache_flush_due [OF tiny_env_ok(1) ok due size] delay there size show ?thesis by simp
qed

section \<open>Updating the units\<close>

text \<open>
  C29: An update of an entry to a value of other units moves the total the wrong way: the units
  of the entries change by the new units less the old, the total by the old less the new.
\<close>

theorem cache_update_units:
  assumes ok: "cache_ok env c" and get: "oc_get_entry_internal env now k c = (Some he, c)"
    and upd: "entry_set_value env now he v c = (r, d)"
  shows "total_units env d + unat (ce_units (he_value he)) = total_units env c + unat (calculate_units env c k v) \<and>
    oc_cur_units d = oc_cur_units c + ce_units (he_value he) - calculate_units env c k v"
proof -
  note f = found_entry [OF get]
  have table: "hm_ok (oc_table env) (oc_map c)" and npos: "ce_units (he_value he) \<noteq> units_npos"
    using ok f(6) by (auto simp: cache_ok_def entry_fit_def)
  note law = set_value_law [OF table f(4,2) refl refl npos, where now = now and v = v, unfolded upd, simplified]
  let ?w = "\<lambda>e. unat (ce_units e)"
  have new: "oc_look env k d = Some (updated_entry env now c k v (he_value he))" using law(1) [of k] by simp
  have "{j. oc_look env j d \<noteq> None} = {j. oc_look env j c \<noteq> None}" using law(1) f(4) by auto
  moreover have "(\<Sum>j\<in>{j. oc_look env j c \<noteq> None} - {k}. ?w (the (oc_look env j d))) =
      (\<Sum>j\<in>{j. oc_look env j c \<noteq> None} - {k}. ?w (the (oc_look env j c)))"
    by (rule sum.cong) (simp_all add: law(1))
  ultimately have "total_units env d = unat (calculate_units env c k v) + (total_units env c - ?w (he_value he))"
    using table.weight_look [OF law(2) new, of ?w] table.weight_look [OF table f(4), of ?w]
    by (simp add: total_units_def updated_entry_def schedule_expiry_def)
  then show ?thesis
    using table.weight_look [OF table f(4), of ?w] law(3) by (simp add: total_units_def)
qed

definition value_env :: "(nat, nat) oc_env" where
  "value_env = tiny_cache_env\<lparr>oc_calculate := (\<lambda>_ _ v. if v = 10 then 1 else 5)\<rparr>"

definition value_cache :: "(nat, nat) old_cache" where
  "value_cache = snd (oc_run value_env [(1, OpPut 1 10 0)] ((old_cache_create value_env 9 0 2 0)\<lparr>oc_calculator := Some 0\<rparr>))"

lemma cache_update_units_witness:
  "\<exists>he r d. oc_get_entry_internal value_env 2 1 value_cache = (Some he, value_cache) \<and>
    entry_set_value value_env 2 he 20 value_cache = (r, d) \<and>
    total_units value_env d = total_units value_env value_cache + 4 \<and> oc_cur_units d = oc_cur_units value_cache - 4"
proof -
  let ?c = "(old_cache_create value_env 9 0 2 0)\<lparr>oc_calculator := Some 0\<rparr>"
  let ?r = "oc_run value_env [(1, OpPut 1 10 0)] ?c"
  let ?he = "\<lparr>he_key = 1, he_hash = 1, he_value = \<lparr>ce_value = 10, ce_created = 1, ce_last_use = 1, ce_expiry = 0, ce_uses = 0, ce_units = 1\<rparr>\<rparr>"
  have env: "env_ok value_env" by (simp add: env_ok_def value_env_def units_npos_def)
  have "fst ?r = Inr ()" by code_simp
  then have run: "?r = (Inr (), value_cache)" by (simp add: prod_eq_iff value_cache_def)
  have "cache_ok value_env ?c" by (simp add: cache_ok_def old_cache_create_def hm_create_law)
  then have ok: "cache_ok value_env value_cache" using run_cache_ok [OF run env] by simp
  have found: "fst (oc_get_entry_internal value_env 2 1 value_cache) = Some ?he" by code_simp
  have ext: "oc_calculator value_cache = Some 0" by code_simp
  have "oc_get_entry_internal value_env 2 1 value_cache = (Some ?he, snd (oc_get_entry_internal value_env 2 1 value_cache))"
    using found by (simp add: prod_eq_iff)
  then have get: "oc_get_entry_internal value_env 2 1 value_cache = (Some ?he, value_cache)" using found_entry(1) by metis
  obtain r d where upd: "entry_set_value value_env 2 ?he 20 value_cache = (r, d)" by force
  from cache_update_units [OF ok get upd] get upd ext show ?thesis
    by (auto simp: calculate_units_def value_env_def)
qed

text \<open>
  A change of the unit calculator loses the total: the entries that have expired are gone, the
  others have the units that the new calculator answers for them, but the total is the old one
  less the units of the entries that are gone, whatever the others weigh now.
\<close>

theorem cache_calculator_change:
  assumes "env_ok env" and "cache_ok env c" and "oc_set_unit_calculator env now (Some u) c = (Inr (), d)"
    and "oc_calculator c \<noteq> Some u"
  shows "oc_look env k d = (case oc_look env k c of
        None \<Rightarrow> None
      | Some e \<Rightarrow> if is_expired now e then None else Some (e\<lparr>ce_units := oc_calculate env u k (ce_value e)\<rparr>)) \<and>
    oc_cur_units d = oc_cur_units c -
      (\<Sum>he\<leftarrow>filter (\<lambda>he. is_expired now (he_value he)) (hm_to_array (oc_map c)). ce_units (he_value he))"
proof -
  have "d = recalculate_units env now (c\<lparr>oc_calculator := Some u\<rparr>)"
    using assms(3,4) by (simp add: oc_set_unit_calculator_def oc_configure_unit_calculator_def)
  note law = recalculate_law(4,5) [OF calculator_core [OF assms(2)] assms(1) this]
  have calc: "calculate_units env (c\<lparr>oc_calculator := Some u\<rparr>) = oc_calculate env u"
    by (simp add: calculate_units_def fun_eq_iff)
  show ?thesis using law(1) law(2) [of k] unfolding calc by (simp add: expired_entries_def o_def)
qed

lemma cache_calculator_change_witness:
  "\<exists>d. oc_set_unit_calculator value_env 2 (Some 0) tiny_full = (Inr (), d) \<and>
    map_option ce_units (oc_look value_env 2 d) = Some 5 \<and> oc_cur_units d = oc_cur_units tiny_full"
proof -
  let ?r = "oc_set_unit_calculator value_env 2 (Some 0) tiny_full"
  have env: "env_ok value_env" by (simp add: env_ok_def value_env_def units_npos_def)
  have table: "oc_table value_env = oc_table tiny_cache_env" by (simp add: value_env_def)
  have "cache_ok tiny_cache_env tiny_full" using tiny_full_ok by (simp add: within_units_def)
  then have ok: "cache_ok value_env tiny_full" by (simp add: cache_ok_def table oc_contents_def [abs_def])
  have "fst ?r = Inr ()" by code_simp
  then have run: "?r = (Inr (), snd ?r)" by (simp add: prod_eq_iff)
  have there: "oc_look value_env 2 tiny_full =
      Some \<lparr>ce_value = 20, ce_created = 2, ce_last_use = 2, ce_expiry = 0, ce_uses = 0, ce_units = 1\<rparr>" by code_simp
  have none: "filter (\<lambda>he. is_expired 2 (he_value he)) (hm_to_array (oc_map tiny_full)) = []" by code_simp
  have "oc_calculator tiny_full \<noteq> Some 0" by code_simp
  from cache_calculator_change [OF env ok run this, of 2] there none run show ?thesis
    by (intro exI [of _ "snd ?r"]) (simp add: is_expired_def value_env_def)
qed

text \<open>A release forgets the entries and keeps their units.\<close>

lemma cache_release: "oc_look env k (oc_release env c) = None" "oc_cur_units (oc_release env c) = oc_cur_units c"
  "oc_events (oc_release env c) = oc_events c"
  by (simp_all add: oc_release_def hm_clear_law)

text \<open>The array of the keys, and that of the values, which is the same.\<close>

lemma cache_key_array:
  assumes "cache_ok env c" and "\<not> oc_next_flush c < now"
  shows "fst (oc_key_array env now c) =
      map (\<lambda>he. Some (KeyObject (he_key he))) (live_entries now c) @ replicate (length (expired_entries now c)) None"
    and "oc_values_array env now c = oc_key_array env now c"
proof -
  have "hm_entries (oc_map c) = length (hm_to_array (oc_map c))" using assms(1) by (simp add: cache_ok_def hm_ok_def)
  moreover have "length (expired_entries now c) + length (live_entries now c) = length (hm_to_array (oc_map c))"
    by (simp add: expired_entries_def live_entries_def sum_length_filter_compl)
  ultimately have "hm_size (oc_map c) - length (live_entries now c) = length (expired_entries now c)"
    by (simp add: hm_size_def)
  then show "fst (oc_key_array env now c) =
      map (\<lambda>he. Some (KeyObject (he_key he))) (live_entries now c) @ replicate (length (expired_entries now c)) None"
    using assms(2) by (simp add: oc_key_array_def oc_size_def Let_def check_flush_def oc_sweep_def live_entries_def)
  show "oc_values_array env now c = oc_key_array env now c" by (simp add: oc_values_array_def oc_key_array_def)
qed

end
