(* ===== verification/Spec2Isabelle.thy ===== *)
theory Spec2Isabelle
  imports Pof_Properties Array_Properties Like_Properties Filter_Properties Cache_Properties
begin

text \<open>
  Verification of the core of the Coherence C++ Extend client.

  \<^bold>\<open>The program.\<close>  The client keeps cached entries as octets in the Portable Object Format
  (POF).  At the bottom are the octet buffers of \<^verbatim>\<open>src/coherence/io\<close>
  (\<^verbatim>\<open>AbstractReadBuffer\<close>, \<^verbatim>\<open>AbstractOctetArrayReadBuffer\<close>, \<^verbatim>\<open>OctetArrayReadBuffer\<close>,
  \<^verbatim>\<open>AbstractWriteBuffer\<close>, \<^verbatim>\<open>OctetArrayWriteBuffer\<close>) with their streams, which come in a
  generic and in an optimised form.  On them rest the conversions and the skipping of
  \<^verbatim>\<open>pof/PofHelper.cpp\<close>, the event handler \<^verbatim>\<open>pof/WritingPofHandler.cpp\<close> that turns POF
  events into octets, \<^verbatim>\<open>pof/PofBufferWriter.cpp\<close> that turns objects into events, and
  \<^verbatim>\<open>pof/PofBufferReader.cpp\<close> that turns octets into objects, with the identity registry
  and \<^verbatim>\<open>pof/IdentityHolder.cpp\<close>.  Strings are modified UTF-8
  (\<^verbatim>\<open>src/coherence/lang/String.cpp\<close>).  Beside the format stand the data structures of
  \<^verbatim>\<open>src/coherence/util\<close>: sparse arrays, the hash map of the caches, and the filters with the
  indexes that queries use.  \<^verbatim>\<open>net/cache/OldCache.cpp\<close>, the local cache, is a hash map whose
  entries expire and are evicted; it orders them in a sparse array when it prunes.

  \<^bold>\<open>Theories and code.\<close>
  \<^item> \<^verbatim>\<open>Coh_Prelude\<close>: machine integers, exceptions (\<open>exn\<close>), computations that pass a state
    and return an exception or a value (\<open>comp\<close>, \<open>bindc\<close>, \<open>seqc\<close>), \<^verbatim>\<open>size32_t\<close> arithmetic that
    wraps (\<open>size_add\<close>, \<open>size_sub\<close>), C division.
  \<^item> \<^verbatim>\<open>Read_Buffer\<close>: the copies of \<^verbatim>\<open>lang/Array.cpp\<close>, between two arrays (\<open>array_copy\<close>) and
    within one, in the direction of its loops (\<open>array_copy_within\<close>); \<open>read_buffer\<close> and \<open>buffer_input\<close>, the generic (\<open>abi_\<dots>\<close>) and the
    optimised (\<open>obi_\<dots>\<close>) input.  The locale \<open>octet_source\<close> of \<^verbatim>\<open>Packed_Int\<close> is what the
    decoders rely on; both inputs interpret it.
  \<^item> \<^verbatim>\<open>Packed_Int\<close>: the variable-length encoding of integers; \<^verbatim>\<open>Utf8\<close> and \<^verbatim>\<open>Coh_String\<close>:
    characters and strings; \<^verbatim>\<open>Float_Bits\<close>: IEEE 754 conversions on bits.
  \<^item> \<^verbatim>\<open>Write_Buffer\<close>: \<open>write_buffer\<close> (the array, the length, the maximum capacity) and
    \<open>buffer_output\<close>, generic (\<open>abo_\<dots>\<close>) and optimised (\<open>obo_\<dots>\<close>) output; \<^verbatim>\<open>Buffer_Roundtrip\<close>
    and \<^verbatim>\<open>Buffer_Properties\<close>: what is written is read back.
  \<^item> \<^verbatim>\<open>Pof_Helper\<close>: \<^verbatim>\<open>PofHelper\<close> and the tiny values of \<^verbatim>\<open>PofConstants.hpp\<close>; \<^verbatim>\<open>Pof_Handler\<close>:
    \<^verbatim>\<open>WritingPofHandler\<close> with its stack of \<^verbatim>\<open>Complex\<close> records; \<^verbatim>\<open>Pof_Encoding\<close>: the octets
    each kind of value has; \<^verbatim>\<open>Pof_Writer\<close> and \<^verbatim>\<open>Pof_Reader\<close>: the writer and the reader;
    \<^verbatim>\<open>Long_Array\<close>: the interface of sparse arrays.
  \<^item> \<^verbatim>\<open>Pof_Roundtrip\<close>, \<^verbatim>\<open>Pof_Skip\<close>, \<^verbatim>\<open>Pof_Property_Roundtrip\<close>: the lemmas that the reader
    (\<open>reads\<close>, \<open>preads\<close>) undoes the writer (\<open>emits\<close>, \<open>hands\<close>), for every kind of value;
    \<^verbatim>\<open>Pof_Properties\<close>: the properties of the format.

  \<^item> \<^verbatim>\<open>Sparse_Array\<close>: \<^verbatim>\<open>util/AbstractSparseArray.cpp\<close>, a tree of \<open>sa_node\<close>s
    balanced as in AVL trees.  The parent pointers are the way back up of the recursion, and a key
    identifies its node.  The invariant \<open>sa_ok\<close> (order, balance, size) is kept by every
    operation, and the tree interprets the locale \<open>long_array\<close>.  \<^verbatim>\<open>Array_Crawler\<close>: the
    iterators, removal through them, and the methods \<^verbatim>\<open>AbstractLongArray.cpp\<close> builds on
    iterators; the loops run for at most \<open>ala_rounds\<close> rounds, one more than the entries.
    \<^verbatim>\<open>Array_Properties\<close>: the properties of both.
  \<^item> \<^verbatim>\<open>String_Ops\<close>: search and comparison of strings (\<^verbatim>\<open>lang/String.cpp\<close>,
    \<^verbatim>\<open>util/StringHelper.cpp\<close>).  \<^verbatim>\<open>Like_Filter\<close>: \<^verbatim>\<open>util/filter/LikeFilter.cpp\<close>, the
    match steps, the parser of the pattern (\<open>like_steps\<close>), the choice of the plan
    (\<open>build_plan\<close>) and its evaluation (\<open>is_match\<close>).  \<^verbatim>\<open>Like_Match\<close>: the reference
    semantics \<open>like\<close> of tokens; \<^verbatim>\<open>Like_Scan\<close>: the searches of the steps find the least place,
    and taking the least place of each middle step loses no match; \<^verbatim>\<open>Like_Parse\<close>: the steps mean
    what the tokens of the pattern mean, and every plan decides it; \<^verbatim>\<open>Like_Properties\<close>: the
    properties.
  \<^item> \<^verbatim>\<open>Map_Index\<close>: \<^verbatim>\<open>util/SimpleMapIndex.cpp\<close> and the events that
    \<^verbatim>\<open>util/InvocableMapHelper.cpp\<close> hands to it; \<open>ix_ok\<close> says that an index describes its
    map, and the locale \<open>inverse_contents\<close> is what the index relies on in the hash map or the
    tree map of its inverse index.  \<^verbatim>\<open>Filters\<close>: the filters of \<^verbatim>\<open>util/filter\<close> as a
    datatype, their evaluation (\<open>evaluate_entry\<close>), their expected cost (\<open>effectiveness\<close>),
    applying indexes to them (\<open>apply_index\<close>) and \<^verbatim>\<open>InvocableMapHelper::query\<close>.
    \<^verbatim>\<open>Filter_Index\<close>: a key is in the sets of the inverse index that its value says, and what
    applying an index comes to where no lookup throws (\<open>index_keys\<close>, for the proofs only);
    \<^verbatim>\<open>Filter_Apply\<close>: the filters that are \<open>index_safe\<close> throw in no lookup, and what is left of
    such a filter, on the keys that are left, decides what the filter decides (\<open>decides\<close>);
    \<^verbatim>\<open>Filter_Properties\<close>: the properties.

  \<^item> \<^verbatim>\<open>Safe_Hash_Map\<close>: \<^verbatim>\<open>util/SafeHashMap.cpp\<close>, an array of chains (\<open>hash_map\<close>), with
    the primes of \<^verbatim>\<open>AssociativeArray.hpp\<close>.  \<open>hm_ok\<close> is its invariant; the locale
    \<open>entry_table\<close> is what the cache relies on in it, with the sums of the weights of its entries.
    \<^verbatim>\<open>Msb_Index\<close>: the bit trick of the priorities.
  \<^item> \<^verbatim>\<open>Old_Cache\<close>: \<^verbatim>\<open>net/cache/OldCache.cpp\<close>.  The record \<open>old_cache\<close> has the map of
    \<open>cache_entry\<close>s, the units, the marks, the delays, the statistics, and the events that were
    dispatched.  \<^verbatim>\<open>Cache_Effects\<close>: the few effects (\<open>effect\<close>) that every operation is a
    sequence of, and the promises each of them keeps (\<open>cache_ok\<close>: the events replay to the
    contents; \<open>units_ok\<close>: the total is that of the entries).  A predicate on what may be added
    makes the same lemmas serve for runs that add anything, that add what the total has room for,
    and that add nothing, whose total does not grow.  \<^verbatim>\<open>Cache_Pruning\<close>: dropping entries, and
    expiry; \<^verbatim>\<open>Cache_Ordered\<close>: the sparse array gives the entries in their order, and as many
    go as it takes; \<^verbatim>\<open>Cache_Hybrid\<close>: the histogram of the priorities and its cut-off bring the
    units down to the low mark; \<^verbatim>\<open>Cache_Steps\<close>: every operation is a sequence of effects
    (\<open>leads\<close>); \<^verbatim>\<open>Cache_Bounds\<close>: what a prune and a put leave; \<^verbatim>\<open>Cache_Runs\<close>: what a change of
    the unit calculator does, and sequences of operations (\<open>oc_run\<close>); \<^verbatim>\<open>Cache_Properties\<close>: the properties of the map and the cache.

  \<^bold>\<open>What the lemmas show.\<close>  \<open>emits w bs\<close>: on an output whose buffer may still
  grow by the length of \<open>bs\<close> and nine octets more (the most that a value reserves beyond what
  it writes), \<open>w\<close> returns and appends exactly \<open>bs\<close>; what a write without room does is shown
  for blocks (\<open>write_buffer_write\<close>); \<open>hands\<close> is the same for the handler with its stack of complex
  values; \<open>reads r bs x\<close>: on a well-formed input that starts with \<open>bs\<close>, \<open>r\<close> returns \<open>x\<close> and
  consumes exactly \<open>bs\<close>; \<open>preads\<close> is the same for the reader, whose registry it keeps.
  The round trips compose these by sequencing lemmas.

  \<^bold>\<open>Bounds and fuel.\<close>  Sizes are natural numbers below \<open>npos\<close> = $2^{32}-1$, with the
  32-bit arithmetic written out where the code adds them.  A write buffer may have any maximum
  capacity, the default $2^{32}-1$ included; the round trips hold up to \<open>wb_limit\<close>, which is the
  maximum capacity, but leaves the last 1025 sizes of 32 bits to the rounding of the growth.
  \<open>hm_grow\<close> has no prime above 1900000043, and then divides by 0.  The recursion of \<open>skip_value\<close> and
  of the reader is bounded by fuel, the model of the stack: one more than the number of
  unread octets, because each level consumes at least one octet
  (\<open>skip_value_terminates\<close>).

  \<^bold>\<open>Modelling decisions.\<close>  An object taken out of another (the date of a date and time)
  counts as a new identity; a container of the caller that is filled before an exception is
  thrown is not part of the result; the order of a hash map is the order of insertion;
  \<^verbatim>\<open>ha[i] = read()\<close> evaluates as in C++17.  Serializers of the application
  (\<^verbatim>\<open>PofContext\<close>, user types) are parameters (\<open>writeUserType\<close>, \<open>pof_env\<close>).
  The extractors of an application are parameters too (\<open>app\<close>); what they extract is one object
  of a \<^verbatim>\<open>Comparable\<close> class, \<^verbatim>\<open>NULL\<close>, or a collection of such objects.  The maps of an
  index are the lists of their entries in the order of iteration; an array filter computes its
  order each time, where the code keeps it.  The order of the keys that are left after an index
  has been applied is that of a hash set, a parameter of \<open>query\<close>.  A lookup of a collection in an
  ordered index throws, as does the lookup of \<^verbatim>\<open>no_value\<close> (\<open>get_no_value_throws\<close>).  A query
  sees one state of the map, so that it never meets a \<^verbatim>\<open>ConcurrentModificationException\<close>.

  The hash map and the cache are those of one thread.  An operation of the cache reads the clock
  once, and an operation is given the time of its reading; times are integers, without the
  overflow of 64 bits, as are the counts of uses, without that of 32 bits; units are 32-bit words.  The products and quotients in floating point
  are parameters (\<open>hm_env\<close>: how many entries so many buckets hold and how many buckets they
  grow to; \<open>oc_env\<close>: the low mark of a high mark and the two ratios of the priority), as are
  the hash codes, the unit calculators, which are numbered, and the keys that an external policy evicts.  A listener
  does not call the cache back.  An iteration of a prune passes the entries that have not
  expired, each with the next of its chain, in the order of the buckets.  What the theorems on
  units ask of the application, that its calculator goes by the key, is needed:
  \<open>cache_update_units\<close> shows what an update does otherwise, \<open>cache_calculator_change\<close> what a change
  of the calculator does to the total, and \<open>cache_release\<close> what a release does.

  \<^bold>\<open>Not modelled.\<close>  The network layer (\<^verbatim>\<open>Peer\<close>, \<^verbatim>\<open>PofChannel\<close>, \<^verbatim>\<open>PofConnection\<close>,
  \<^verbatim>\<open>TcpInitiator\<close>, the \<^verbatim>\<open>Remote\<dots>\<close> services), which is sockets, threads and requests to a
  server; the caches over remote caches (\<^verbatim>\<open>NearCache\<close>, \<^verbatim>\<open>CachingMap\<close>,
  \<^verbatim>\<open>ContinuousQueryCache\<close>), whose logic is the interleaving of server events with the calls of
  several threads; loaders, stores and bundling; threads and memory management
  (\<^verbatim>\<open>src/coherence/native\<close>, the reference counting of \<^verbatim>\<open>lang\<close>); XML configuration;
  entry processors and aggregators, which run on the server; the other collections.  Of the local
  cache, the subscription of listeners and an external policy that listens are left out; of the
  hash map, copying it and the recovery of an iterator from a resize by another thread; of the
  queries, \<^verbatim>\<open>LimitFilter\<close> and the sorting of results.
\<close>

end
